(* ===== verification/FT_Prelude.thy ===== *)
theory FT_Prelude
  imports Complex_Main "HOL-Library.Word" "HOL-Library.Sublist"
begin

text \<open>
  Shared vocabulary of the development: bytes and Python slices, forward scans over a
  buffer, decimal numbers as ASCII bytes, sequencing of fallible operations, and the
  collections of lemmas that the component theories extend.
\<close>

named_theorems ft_inv \<open>preservation of component invariants by single operations\<close>
named_theorems ft_frame \<open>fields that an operation leaves alone\<close>

section \<open>Bytes and slices\<close>

type_synonym byte = "8 word"

text \<open>
  Python's \<open>xs[i:j]\<close>: never raises; a negative bound counts from the end, and both
  bounds are clipped to the sequence.
\<close>

definition clip_index :: "nat \<Rightarrow> int \<Rightarrow> nat" where
  "clip_index n k = nat (if k < 0 then max 0 (k + int n) else min k (int n))"

definition pyslice :: "'a list \<Rightarrow> int \<Rightarrow> int \<Rightarrow> 'a list" where
  "pyslice xs i j =
     (let a = clip_index (length xs) i; b = clip_index (length xs) j
      in take (b - a) (drop a xs))"

lemma clip_index_int [simp]: "clip_index n (int k) = min k n"
  by (simp add: clip_index_def min_def)

lemma pyslice_nat: "pyslice xs (int i) (int j) = take (j - i) (drop i xs)"
proof (cases "i \<le> length xs")
  case True
  then have "take (min j (length xs) - i) (drop i xs) = take (j - i) (drop i xs)"
    by (cases "j \<le> length xs") auto
  with True show ?thesis
    by (simp add: pyslice_def Let_def min_absorb1)
next
  case False
  then show ?thesis by (simp add: pyslice_def Let_def)
qed

lemma pyslice_numeral:
  "pyslice xs 0 (int j) = take j xs"
  "pyslice xs (int i) (int i + 1) = take 1 (drop i xs)"
  "pyslice xs (int i) (int i + numeral k) = take (numeral k) (drop i xs)"
proof -
  show "pyslice xs 0 (int j) = take j xs"
    using pyslice_nat [of xs 0 j] by simp
  show "pyslice xs (int i) (int i + 1) = take 1 (drop i xs)"
    using pyslice_nat [of xs i "i + 1"] by (simp add: add.commute)
  show "pyslice xs (int i) (int i + numeral k) = take (numeral k) (drop i xs)"
    using pyslice_nat [of xs i "i + numeral k"] by simp
qed

lemma pyslice_at:
  assumes "drop i xs = ys @ zs"
  shows "pyslice xs (int i) (int i + int (length ys)) = ys"
  using assms pyslice_nat [of xs i "i + length ys"] by simp

section \<open>Scanning forward through a buffer\<close>

text \<open>
  The loop \<open>while pos < end and p(buf[pos:pos+1]): pos += 1\<close>, which the parsers use for
  white space, comments and digits.
\<close>

function scan :: "(byte list \<Rightarrow> bool) \<Rightarrow> byte list \<Rightarrow> int \<Rightarrow> int \<Rightarrow> int" where
  "scan p buf pos e =
     (if pos < e \<and> p (pyslice buf pos (pos + 1)) then scan p buf (pos + 1) e else pos)"
  by pat_completeness auto
termination
  by (relation "measure (\<lambda>(p, buf, pos, e). nat (e - pos))") auto

declare scan.simps [simp del]

lemma scan_ge: "pos \<le> scan p buf pos e"
proof (induction p buf pos e rule: scan.induct)
  case (1 p buf pos e)
  show ?case
  proof (cases "pos < e \<and> p (pyslice buf pos (pos + 1))")
    case True
    with 1 have "pos + 1 \<le> scan p buf (pos + 1) e" by blast
    with True show ?thesis by (subst scan.simps) simp
  next
    case False
    then show ?thesis by (subst scan.simps) auto
  qed
qed

lemma scan_stop: "\<not> (pos < e \<and> p (pyslice buf pos (pos + 1))) \<Longrightarrow> scan p buf pos e = pos"
  by (subst scan.simps) auto

lemma scan_step:
  "pos < e \<Longrightarrow> p (pyslice buf pos (pos + 1)) \<Longrightarrow> scan p buf pos e = scan p buf (pos + 1) e"
  by (subst scan.simps) auto

lemma scan_gt:
  "pos < e \<Longrightarrow> p (pyslice buf pos (pos + 1)) \<Longrightarrow> pos < scan p buf pos e"
  using scan_ge [of "pos + 1" p buf e] by (simp add: scan_step)

text \<open>Over a stretch of accepted bytes the scan runs to its end.\<close>

lemma scan_run:
  assumes "drop pos buf = xs @ rest" and "pos + length xs \<le> e"
    and "\<forall>x \<in> set xs. p [x]"
    and "pos + length xs = e \<or> (\<exists>y ys. rest = y # ys \<and> \<not> p [y])"
  shows "scan p buf (int pos) (int e) = int pos + int (length xs)"
  using assms
proof (induction xs arbitrary: pos)
  case Nil
  then show ?case
    by (auto intro!: scan_stop simp: pyslice_numeral)
next
  case (Cons x xs)
  have one: "pyslice buf (int pos) (int pos + 1) = [x]"
    using Cons.prems(1) by (simp add: pyslice_numeral)
  have "drop (Suc pos) buf = xs @ rest"
    using Cons.prems(1) by (metis append_Cons drop_Suc list.sel(3) tl_drop)
  then have "scan p buf (int (Suc pos)) (int e) = int (Suc pos) + int (length xs)"
    using Cons.prems by (intro Cons.IH) auto
  then show ?case
    using Cons.prems one by (simp add: scan_step add.commute add.left_commute)
qed

lemma scan_run_until:
  assumes "drop pos buf = xs @ y # ys" and "pos + length xs \<le> e"
    and "\<forall>x \<in> set xs. p [x]" and "\<not> p [y]"
  shows "scan p buf (int pos) (int e) = int (pos + length xs)"
  using scan_run [OF assms(1-3)] assms(4) by simp

section \<open>Decimal numbers as bytes\<close>

text \<open>\<open>b"%d" % n\<close>, and \<open>int(b"...")\<close> on a run of digits with an optional sign.\<close>

fun digits10 :: "nat \<Rightarrow> byte list" where
  "digits10 n = (if n < 10 then [of_nat (48 + n)]
                 else digits10 (n div 10) @ [of_nat (48 + n mod 10)])"

declare digits10.simps [simp del]

definition dec_bytes :: "int \<Rightarrow> byte list" where
  "dec_bytes i = (if i < 0 then 45 # digits10 (nat (- i)) else digits10 (nat i))"

definition is_digit :: "byte list \<Rightarrow> bool" where
  "is_digit b \<longleftrightarrow> (case b of [c] \<Rightarrow> 48 \<le> c \<and> c \<le> 57 | _ \<Rightarrow> False)"

definition digits_val :: "byte list \<Rightarrow> nat" where
  "digits_val bs = foldl (\<lambda>acc b. 10 * acc + (unat b - 48)) 0 bs"

definition py_int_bytes :: "byte list \<Rightarrow> int" where
  "py_int_bytes bs =
     (case bs of
        [] \<Rightarrow> 0
      | b # ds \<Rightarrow> if b = 45 then - int (digits_val ds)
                  else if b = 43 then int (digits_val ds) else int (digits_val bs))"

lemma digits10_nonempty: "digits10 n \<noteq> []"
  by (subst digits10.simps) simp

lemma unat_digit: "n < 10 \<Longrightarrow> unat (of_nat (48 + n) :: byte) = 48 + n"
  by (simp add: unat_of_nat take_bit_eq_mod del: of_nat_add)

lemma is_digit_of_nat: "n < 10 \<Longrightarrow> is_digit [of_nat (48 + n) :: byte]"
proof -
  assume n: "n < 10"
  then have "unat (of_nat (48 + n) :: byte) = 48 + n"
    by (rule unat_digit)
  with n show ?thesis
    by (simp add: is_digit_def word_le_nat_alt)
qed

lemma digits10_digits: "\<forall>b \<in> set (digits10 n). is_digit [b]"
proof (induction n rule: digits10.induct)
  case (1 n)
  show ?case
  proof (cases "n < 10")
    case True
    then show ?thesis
      by (subst digits10.simps) (simp add: is_digit_of_nat del: of_nat_add)
  next
    case False
    have "is_digit [of_nat (48 + n mod 10) :: byte]"
      by (rule is_digit_of_nat) simp
    with False "1.IH" show ?thesis
      by (subst digits10.simps) (auto simp del: of_nat_add)
  qed
qed

lemma digits_val_digits10: "digits_val (digits10 n) = n"
proof (induction n rule: digits10.induct)
  case (1 n)
  show ?case
  proof (cases "n < 10")
    case True
    then show ?thesis
      by (subst digits10.simps) (simp add: digits_val_def unat_digit del: of_nat_add)
  next
    case False
    then have "digits_val (digits10 (n div 10)) = n div 10"
      using "1.IH" by simp
    with False show ?thesis
      by (subst digits10.simps) (simp add: digits_val_def unat_digit del: of_nat_add)
  qed
qed

lemma digit_not_sign: "is_digit [b] \<Longrightarrow> b \<noteq> 43 \<and> b \<noteq> 45"
  by (auto simp: is_digit_def word_le_nat_alt)

lemma py_int_digits:
  assumes "bs \<noteq> []" and "\<forall>b \<in> set bs. is_digit [b]"
  shows "py_int_bytes bs = int (digits_val bs)"
  using assms digit_not_sign by (cases bs) (auto simp: py_int_bytes_def)

lemma py_int_dec: "py_int_bytes (dec_bytes i) = i"
proof (cases "i < 0")
  case True
  then show ?thesis
    by (simp add: dec_bytes_def py_int_bytes_def digits_val_digits10)
next
  case False
  have "py_int_bytes (digits10 (nat i)) = int (digits_val (digits10 (nat i)))"
    by (rule py_int_digits) (auto simp: digits10_nonempty digits10_digits)
  with False show ?thesis
    by (simp add: dec_bytes_def digits_val_digits10)
qed

lemma dec_bytes_nonempty: "dec_bytes i \<noteq> []"
  by (simp add: dec_bytes_def digits10_nonempty)

section \<open>Sequencing fallible operations\<close>

text \<open>\<open>Inl\<close> is a raised exception: the rest of the block is skipped.\<close>

definition bindE :: "'e + 'a \<Rightarrow> ('a \<Rightarrow> 'e + 'b) \<Rightarrow> 'e + 'b" where
  "bindE r f = (case r of Inl e \<Rightarrow> Inl e | Inr x \<Rightarrow> f x)"

lemma bindE_simps [simp]: "bindE (Inl e) f = Inl e" "bindE (Inr x) f = f x"
  by (simp_all add: bindE_def)

lemma bindE_Inr: "bindE r f = Inr y \<longleftrightarrow> (\<exists>x. r = Inr x \<and> f x = Inr y)"
  by (cases r) auto

lemma bindE_E:
  assumes "bindE r f = Inr y"
  obtains x where "r = Inr x" and "f x = Inr y"
  using assms by (auto simp: bindE_Inr)

end
