(* ===== verification/FT_Client.thy ===== *)
theory FT_Client
  imports FT_Prelude "HOL-Library.Sublist"
begin

text \<open>
  The Python client, \<open>src/api/python/flaschen.py\<close>: the frame buffer behind the Netpbm
  header, \<open>set\<close>, the datagram sender with its retry and its unreachable/recovery state
  machine, and \<open>send_array\<close>, \<open>send_array_banded\<close>. The kernel's answers to
  \<open>socket.send\<close> are a parameter \<open>net\<close> (answer to the n-th call); what was handed over
  successfully is logged in \<open>c_wire\<close>, what went to standard error in \<open>c_stderr\<close>.
\<close>

section \<open>Errors, the header and the state\<close>

datatype errno =
    ENOBUFS | EAGAIN | EWOULDBLOCK
  | ECONNREFUSED | EHOSTUNREACH | ENETUNREACH | ENETDOWN
  | EOTHER int

datatype send_result = SendOk | SendErr errno

datatype client_error = OSErr errno | ValueErr | IndexErr | TypeErr

datatype notice = Unreachable errno | Reachable_again int

definition RETRY_ERRNOS :: "errno list" where
  "RETRY_ERRNOS = [ENOBUFS, EAGAIN, EWOULDBLOCK]"

definition UNREACHABLE_ERRNOS :: "errno list" where
  "UNREACHABLE_ERRNOS = [ECONNREFUSED, EHOSTUNREACH, ENETUNREACH, ENETDOWN]"

definition RECOVERY_STREAK :: int where
  "RECOVERY_STREAK = 30"

text \<open>\<open>P6\n%d %d\n#FT: %d %d %d\n255\n\<close>\<close>

definition header_P6_FT :: "int \<Rightarrow> int \<Rightarrow> int \<Rightarrow> int \<Rightarrow> int \<Rightarrow> byte list" where
  "header_P6_FT w h x y z =
     [80, 54, 10] @ dec_bytes w @ [32] @ dec_bytes h
       @ [10, 35, 70, 84, 58, 32] @ dec_bytes x @ [32] @ dec_bytes y @ [32] @ dec_bytes z
       @ [10, 50, 53, 53, 10]"

record client =
  c_width :: int
  c_height :: int
  c_layer :: int
  c_transparent :: bool
  c_dropped :: int
  c_unreachable :: bool
  c_ok_streak :: int
  c_dropped_at_notice :: int
  c_data :: "byte list"
  c_header_len :: nat
  c_calls :: nat
  c_wire :: "byte list list"
  c_stderr :: "notice list"

text \<open>
  \<open>bytearray(len(header) + width*height*3)\<close> raises \<open>ValueError\<close> for a negative size.
  Assigning the header over the first \<open>len(header)\<close> bytes of a shorter buffer would extend
  it, as slice assignment does.
\<close>

definition Flaschen :: "int \<Rightarrow> int \<Rightarrow> int \<Rightarrow> bool \<Rightarrow> client_error + client" where
  "Flaschen w h layer transparent =
     (let header = header_P6_FT w h 0 0 layer;
          size = int (length header) + w * h * 3
      in if size < 0 then Inl ValueErr
         else Inr \<lparr>c_width = w, c_height = h, c_layer = layer, c_transparent = transparent,
                   c_dropped = 0, c_unreachable = False, c_ok_streak = 0,
                   c_dropped_at_notice = 0,
                   c_data = header @ drop (length header) (replicate (nat size) 0),
                   c_header_len = length header, c_calls = 0, c_wire = [], c_stderr = []\<rparr>)"

section \<open>Drawing\<close>

fun put_bytes :: "byte list \<Rightarrow> nat \<Rightarrow> int list \<Rightarrow> client_error option \<times> byte list" where
  "put_bytes d off [] = (None, d)"
| "put_bytes d off (v # vs) =
     (if length d \<le> off then (Some IndexErr, d)
      else if v < 0 \<or> 255 < v then (Some ValueErr, d)
      else put_bytes (d[off := of_int v]) (Suc off) vs)"

definition pixel_offset :: "client \<Rightarrow> int \<Rightarrow> int \<Rightarrow> nat" where
  "pixel_offset c x y = nat ((x + y * c_width c) * 3 + int (c_header_len c))"

definition client_set ::
  "client \<Rightarrow> int \<Rightarrow> int \<Rightarrow> int \<times> int \<times> int \<Rightarrow> client_error option \<times> client" where
  "client_set c x y color =
     (if c_width c \<le> x \<or> c_height c \<le> y \<or> x < 0 \<or> y < 0 then (None, c)
      else
        let (r, g, b) = (if color = (0, 0, 0) \<and> \<not> c_transparent c then (1, 1, 1) else color);
            (err, d) = put_bytes (c_data c) (pixel_offset c x y) [r, g, b]
        in (err, c\<lparr>c_data := d\<rparr>))"

section \<open>Sending one datagram\<close>

definition sock_send ::
  "(nat \<Rightarrow> send_result) \<Rightarrow> client \<Rightarrow> byte list \<Rightarrow> send_result \<times> client" where
  "sock_send net c data =
     (let r = net (c_calls c)
      in (r, c\<lparr>c_calls := Suc (c_calls c),
               c_wire := (if r = SendOk then c_wire c @ [data] else c_wire c)\<rparr>))"

definition note_reachable :: "client \<Rightarrow> client" where
  "note_reachable c =
     (if \<not> c_unreachable c then c
      else
        let c1 = c\<lparr>c_ok_streak := c_ok_streak c + 1\<rparr>
        in if c_ok_streak c1 < RECOVERY_STREAK then c1
           else c1\<lparr>c_unreachable := False,
                   c_stderr := c_stderr c1 @
                     [Reachable_again (c_dropped c1 - c_dropped_at_notice c1)]\<rparr>)"

text \<open>
  The tail of the \<open>except\<close> block: propagate, or count the frame as dropped. \<open>e\<close> is the
  error last seen; the bare \<open>raise\<close> propagates the one the block was entered with.
\<close>

definition send_failed :: "client \<Rightarrow> errno \<Rightarrow> errno \<Rightarrow> client_error option \<times> client" where
  "send_failed c e entered =
     (if e \<notin> set UNREACHABLE_ERRNOS then (Some (OSErr entered), c)
      else
        let c1 = c\<lparr>c_dropped := c_dropped c + 1, c_ok_streak := 0\<rparr>
        in (None,
            if \<not> c_unreachable c1
            then c1\<lparr>c_unreachable := True, c_dropped_at_notice := c_dropped c1,
                    c_stderr := c_stderr c1 @ [Unreachable e]\<rparr>
            else c1))"

definition send_data ::
  "(nat \<Rightarrow> send_result) \<Rightarrow> client \<Rightarrow> byte list \<Rightarrow> client_error option \<times> client" where
  "send_data net c data =
     (case sock_send net c data of
        (SendOk, c1) \<Rightarrow> (None, note_reachable c1)
      | (SendErr e, c1) \<Rightarrow>
          if e \<in> set RETRY_ERRNOS then
            (case sock_send net c1 data of
               (SendOk, c2) \<Rightarrow> (None, note_reachable c2)
             | (SendErr e2, c2) \<Rightarrow> send_failed c2 e2 e)
          else send_failed c1 e e)"

definition client_send ::
  "(nat \<Rightarrow> send_result) \<Rightarrow> client \<Rightarrow> client_error option \<times> client" where
  "client_send net c = send_data net c (c_data c)"

section \<open>Sending arrays\<close>

text \<open>
  A \<open>uint8\<close> array: its shape and its bytes in C order. \<open>np.asarray\<close> has already been
  applied, so the bytes are as many as the shape says (\<open>wf_array\<close>).
\<close>

record ndarray =
  nd_shape :: "nat list"
  nd_bytes :: "byte list"

definition wf_array :: "ndarray \<Rightarrow> bool" where
  "wf_array a \<longleftrightarrow> length (nd_bytes a) = prod_list (nd_shape a)"

text \<open>\<open>array[(array == (0, 0, 0)).all(axis=-1)] = (1, 1, 1)\<close> on the bytes of an RGB array.\<close>

fun blacks_to_ones :: "byte list \<Rightarrow> byte list" where
  "blacks_to_ones (r # g # b # rest) =
     (if r = 0 \<and> g = 0 \<and> b = 0 then [1, 1, 1] else [r, g, b]) @ blacks_to_ones rest"
| "blacks_to_ones rest = rest"

definition send_array ::
  "(nat \<Rightarrow> send_result) \<Rightarrow> client \<Rightarrow> ndarray \<Rightarrow> int \<times> int \<times> int
     \<Rightarrow> client_error option \<times> client" where
  "send_array net c a offset =
     (if length (nd_shape a) \<noteq> 3 \<or> nd_shape a ! 2 \<noteq> 3 then (Some TypeErr, c)
      else
        let bytes = (if c_transparent c then nd_bytes a else blacks_to_ones (nd_bytes a));
            (x, y, z) = offset;
            header = header_P6_FT (int (nd_shape a ! 1)) (int (nd_shape a ! 0)) x y z
        in send_data net c (header @ bytes))"

text \<open>\<open>array[top:top + rows]\<close>: rows of the first axis, clipped.\<close>

definition row_slice :: "ndarray \<Rightarrow> nat \<Rightarrow> nat \<Rightarrow> ndarray" where
  "row_slice a lo rows =
     (let row = prod_list (tl (nd_shape a));
          n = min (lo + rows) (hd (nd_shape a)) - lo
      in \<lparr>nd_shape = n # tl (nd_shape a),
          nd_bytes = take (n * row) (drop (lo * row) (nd_bytes a))\<rparr>)"

fun send_bands ::
  "(nat \<Rightarrow> send_result) \<Rightarrow> client \<Rightarrow> ndarray \<Rightarrow> int \<times> int \<times> int \<Rightarrow> nat \<Rightarrow> nat list
     \<Rightarrow> client_error option \<times> client" where
  "send_bands net c a off rows [] = (None, c)"
| "send_bands net c a off rows (lo # los) =
     (let (x, y, z) = off in
      case send_array net c (row_slice a lo rows) (x, y + int lo, z) of
        (Some e, c1) \<Rightarrow> (Some e, c1)
      | (None, c1) \<Rightarrow> send_bands net c1 a off rows los)"

text \<open>\<open>range(0, n, rows)\<close> for a positive step.\<close>

function range_step :: "nat \<Rightarrow> nat \<Rightarrow> nat \<Rightarrow> nat list" where
  "range_step i n k = (if i < n \<and> 0 < k then i # range_step (i + k) n k else [])"
  by pat_completeness auto
termination
  by (relation "measure (\<lambda>(i, n, k). n - i)") auto

declare range_step.simps [simp del]

text \<open>
  \<open>len(array)\<close> raises on a 0-dimensional array; \<open>range\<close> raises on a zero step (an array
  with no rows and \<open>band_rows=0\<close>), and is empty for a negative one.
\<close>

definition send_array_banded ::
  "(nat \<Rightarrow> send_result) \<Rightarrow> client \<Rightarrow> ndarray \<Rightarrow> int \<times> int \<times> int \<Rightarrow> int
     \<Rightarrow> client_error option \<times> client" where
  "send_array_banded net c a off band_rows =
     (case nd_shape a of
        [] \<Rightarrow> (Some TypeErr, c)
      | n # _ \<Rightarrow>
         let rows = (if band_rows = 0 then int n else band_rows)
         in if rows = 0 then (Some ValueErr, c)
            else if rows < 0 then (None, c)
            else send_bands net c a off (nat rows) (range_step 0 n (nat rows)))"

section \<open>Drawing changes one pixel and nothing else\<close>

definition wf_client :: "client \<Rightarrow> bool" where
  "wf_client c \<longleftrightarrow> 0 \<le> c_width c \<and> 0 \<le> c_height c
     \<and> take (c_header_len c) (c_data c)
         = header_P6_FT (c_width c) (c_height c) 0 0 (c_layer c)
     \<and> c_header_len c = length (header_P6_FT (c_width c) (c_height c) 0 0 (c_layer c))
     \<and> length (c_data c) = c_header_len c + nat (c_width c * c_height c * 3)"

definition client_pixel :: "client \<Rightarrow> int \<Rightarrow> int \<Rightarrow> byte \<times> byte \<times> byte" where
  "client_pixel c x y =
     (let off = pixel_offset c x y
      in (c_data c ! off, c_data c ! (off + 1), c_data c ! (off + 2)))"

definition on_canvas :: "client \<Rightarrow> int \<Rightarrow> int \<Rightarrow> bool" where
  "on_canvas c x y \<longleftrightarrow> 0 \<le> x \<and> x < c_width c \<and> 0 \<le> y \<and> y < c_height c"

definition drawn_color :: "client \<Rightarrow> int \<times> int \<times> int \<Rightarrow> byte \<times> byte \<times> byte" where
  "drawn_color c color =
     (if color = (0, 0, 0) \<and> \<not> c_transparent c then (1, 1, 1)
      else (of_int (fst color), of_int (fst (snd color)), of_int (snd (snd color))))"

definition byte_color :: "int \<times> int \<times> int \<Rightarrow> bool" where
  "byte_color color \<longleftrightarrow>
     (case color of (r, g, b) \<Rightarrow> 0 \<le> r \<and> r < 256 \<and> 0 \<le> g \<and> g < 256 \<and> 0 \<le> b \<and> b < 256)"

lemma Flaschen_wf:
  "Flaschen w h layer tr = Inr c \<Longrightarrow> 0 \<le> w \<Longrightarrow> 0 \<le> h \<Longrightarrow> wf_client c"
  by (auto simp: Flaschen_def wf_client_def Let_def nat_add_distrib split: if_splits)

lemma pixel_index_bounds:
  assumes "on_canvas c x y"
  shows "0 \<le> x + y * c_width c" and "x + y * c_width c < c_width c * c_height c"
proof -
  have c: "0 \<le> x" "x < c_width c" "0 \<le> y" "y + 1 \<le> c_height c"
    using assms by (auto simp: on_canvas_def)
  then show "0 \<le> x + y * c_width c" by simp
  have "(y + 1) * c_width c \<le> c_height c * c_width c"
    using c by (intro mult_right_mono) auto
  then show "x + y * c_width c < c_width c * c_height c"
    using c by (simp add: algebra_simps)
qed

lemma pixel_index_inj:
  assumes "on_canvas c x y" and "on_canvas c x' y'" and "(x, y) \<noteq> (x', y')"
  shows "x + y * c_width c \<noteq> x' + y' * c_width c"
proof
  assume eq: "x + y * c_width c = x' + y' * c_width c"
  have "(x + y * c_width c) div c_width c = y" "(x' + y' * c_width c) div c_width c = y'"
    using assms by (auto simp: on_canvas_def)
  with eq assms(3) show False by auto
qed

lemma pixel_offset_room:
  assumes "wf_client c" and "on_canvas c x y"
  shows "c_header_len c \<le> pixel_offset c x y" and "pixel_offset c x y + 2 < length (c_data c)"
proof -
  have scale: "0 \<le> a * 3 \<and> a * 3 + 3 \<le> b * 3" if "0 \<le> a" "a < b" for a b :: int
    using that by simp
  have "0 \<le> (x + y * c_width c) * 3"
    and "(x + y * c_width c) * 3 + 3 \<le> c_width c * c_height c * 3"
    using scale [OF pixel_index_bounds [OF assms(2)]] by blast+
  then show "c_header_len c \<le> pixel_offset c x y"
    and "pixel_offset c x y + 2 < length (c_data c)"
    using assms(1) by (auto simp: pixel_offset_def wf_client_def)
qed

lemma pixel_offset_apart:
  assumes "on_canvas c x y" and "on_canvas c x' y'" and "(x, y) \<noteq> (x', y')"
  shows "pixel_offset c x y + 3 \<le> pixel_offset c x' y'
       \<or> pixel_offset c x' y' + 3 \<le> pixel_offset c x y"
  using pixel_index_inj [OF assms] pixel_index_bounds [OF assms(1)] pixel_index_bounds [OF assms(2)]
  by (auto simp: pixel_offset_def)

lemma put_bytes_three:
  assumes "off + 2 < length d" and "byte_color (r, g, b)"
  shows "put_bytes d off [r, g, b]
    = (None, d[off := of_int r, Suc off := of_int g, Suc (Suc off) := of_int b])"
  using assms by (simp add: byte_color_def)

lemma drawn_color_byte: "byte_color color \<Longrightarrow> byte_color (1, 1, 1) \<and> byte_color color"
  by (simp add: byte_color_def)

lemma client_set_on_canvas:
  assumes wf: "wf_client c" and on: "on_canvas c x y" and col: "byte_color color"
  obtains r g b where "drawn_color c color = (r, g, b)"
    and "client_set c x y color =
      (None, c\<lparr>c_data := (c_data c)[pixel_offset c x y := r, Suc (pixel_offset c x y) := g,
                                   Suc (Suc (pixel_offset c x y)) := b]\<rparr>)"
proof -
  obtain r g b where rgb: "color = (r, g, b)" by (cases color)
  let ?o = "pixel_offset c x y"
  have room: "?o + 2 < length (c_data c)"
    using pixel_offset_room [OF wf on] by simp
  have guard: "\<not> (c_width c \<le> x \<or> c_height c \<le> y \<or> x < 0 \<or> y < 0)"
    using on by (auto simp: on_canvas_def)
  show thesis
  proof (cases "color = (0, 0, 0) \<and> \<not> c_transparent c")
    case True
    then show thesis
      using guard put_bytes_three [OF room, of 1 1 1]
      by (intro that [of 1 1 1])
        (simp_all add: client_set_def drawn_color_def byte_color_def del: put_bytes.simps)
  next
    case False
    then show thesis
      using guard put_bytes_three [OF room col [unfolded rgb]] rgb
      by (intro that [of "of_int r" "of_int g" "of_int b"])
        (auto simp: client_set_def drawn_color_def simp del: put_bytes.simps)
  qed
qed

lemma client_set_clipped:
  "\<not> on_canvas c x y \<Longrightarrow> client_set c x y color = (None, c)"
  by (auto simp: client_set_def on_canvas_def)

lemma client_set_frame [ft_frame]:
  "c_width (snd (client_set c x y color)) = c_width c"
  "c_height (snd (client_set c x y color)) = c_height c"
  "c_header_len (snd (client_set c x y color)) = c_header_len c"
  "c_layer (snd (client_set c x y color)) = c_layer c"
  "c_transparent (snd (client_set c x y color)) = c_transparent c"
  "c_calls (snd (client_set c x y color)) = c_calls c"
  by (auto simp: client_set_def Let_def split: prod.splits)

lemma client_set_wf [ft_inv]:
  assumes "wf_client c" and "byte_color color"
  shows "wf_client (snd (client_set c x y color))"
proof (cases "on_canvas c x y")
  case True
  then obtain r g b where "client_set c x y color =
      (None, c\<lparr>c_data := (c_data c)[pixel_offset c x y := r, Suc (pixel_offset c x y) := g,
                                   Suc (Suc (pixel_offset c x y)) := b]\<rparr>)"
    using client_set_on_canvas assms by meson
  moreover have "c_header_len c \<le> pixel_offset c x y"
    using pixel_offset_room [OF assms(1) True] by simp
  ultimately show ?thesis
    using assms(1) by (auto simp: wf_client_def take_update_cancel)
next
  case False
  with assms(1) show ?thesis by (simp add: client_set_clipped)
qed

text \<open>Reading the buffer after a drawing operation.\<close>

lemma client_set_pixel_same:
  assumes "wf_client c" and "on_canvas c x y" and "byte_color color"
  shows "client_pixel (snd (client_set c x y color)) x y = drawn_color c color"
proof -
  obtain r g b where "drawn_color c color = (r, g, b)"
    and "client_set c x y color =
      (None, c\<lparr>c_data := (c_data c)[pixel_offset c x y := r, Suc (pixel_offset c x y) := g,
                                   Suc (Suc (pixel_offset c x y)) := b]\<rparr>)"
    using client_set_on_canvas [OF assms] by metis
  with pixel_offset_room [OF assms(1,2)] show ?thesis
    by (simp add: client_pixel_def pixel_offset_def Let_def)
qed

lemma client_set_pixel_other:
  assumes "wf_client c" and "on_canvas c x y" and "byte_color color"
    and "on_canvas c x' y'" and "(x, y) \<noteq> (x', y')"
  shows "client_pixel (snd (client_set c x y color)) x' y' = client_pixel c x' y'"
proof -
  obtain r g b where step: "client_set c x y color =
      (None, c\<lparr>c_data := (c_data c)[pixel_offset c x y := r, Suc (pixel_offset c x y) := g,
                                   Suc (Suc (pixel_offset c x y)) := b]\<rparr>)"
    using client_set_on_canvas [OF assms(1-3)] by metis
  have same: "pixel_offset (c\<lparr>c_data := d\<rparr>) x' y' = pixel_offset c x' y'" for d
    by (simp add: pixel_offset_def)
  have nth: "xs[i := r, Suc i := g, Suc (Suc i) := b] ! k = xs ! k"
    if "k < i \<or> i + 2 < k" for xs :: "byte list" and i k
    using that by auto
  let ?i = "pixel_offset c x y" and ?k = "pixel_offset c x' y'"
  have "?k + 2 < ?i \<or> ?i + 2 < ?k"
    using pixel_offset_apart [OF assms(2,4,5)] by linarith
  then have "?k < ?i \<or> ?i + 2 < ?k" "?k + 1 < ?i \<or> ?i + 2 < ?k + 1"
    "?k + 2 < ?i \<or> ?i + 2 < ?k + 2"
    by linarith+
  note nths = this [THEN nth]
  show ?thesis
    unfolding step client_pixel_def Let_def snd_conv same using nths by simp
qed

section \<open>The unreachable/recovery state machine\<close>

text \<open>
  Notices strictly alternate: \<open>notices_state\<close> replays what was printed and fails on a
  repetition; \<open>True\<close> is "last reported unreachable".
\<close>

fun notices_state :: "bool \<Rightarrow> notice list \<Rightarrow> bool option" where
  "notices_state b [] = Some b"
| "notices_state b (Unreachable e # ns) = (if b then None else notices_state True ns)"
| "notices_state b (Reachable_again k # ns) = (if b then notices_state False ns else None)"

lemma notices_state_append:
  "notices_state b (ns @ ms) =
     (case notices_state b ns of None \<Rightarrow> None | Some b' \<Rightarrow> notices_state b' ms)"
  by (induction b ns rule: notices_state.induct) auto

definition sender_inv :: "client \<Rightarrow> bool" where
  "sender_inv c \<longleftrightarrow>
     notices_state False (c_stderr c) = Some (c_unreachable c)
     \<and> 0 \<le> c_dropped_at_notice c \<and> c_dropped_at_notice c \<le> c_dropped c
     \<and> (c_unreachable c \<longrightarrow> 0 \<le> c_ok_streak c \<and> c_ok_streak c < RECOVERY_STREAK
                          \<and> 0 < c_dropped_at_notice c)"

lemma Flaschen_sender_inv [ft_inv]: "Flaschen w h layer tr = Inr c \<Longrightarrow> sender_inv c"
  by (auto simp: Flaschen_def sender_inv_def Let_def split: if_splits)

lemma sock_send_frame:
  "sock_send net c data = (r, c') \<Longrightarrow>
     c' = c\<lparr>c_calls := Suc (c_calls c),
            c_wire := (if r = SendOk then c_wire c @ [data] else c_wire c)\<rparr>"
  by (auto simp: sock_send_def Let_def)

lemma sender_inv_sock [ft_inv]:
  "sock_send net c data = (r, c') \<Longrightarrow> sender_inv c \<Longrightarrow> sender_inv c'"
  by (auto dest!: sock_send_frame simp: sender_inv_def)

lemma sender_inv_note [ft_inv]: "sender_inv c \<Longrightarrow> sender_inv (note_reachable c)"
  by (auto simp: sender_inv_def note_reachable_def Let_def notices_state_append)

lemma sender_inv_failed [ft_inv]: "sender_inv c \<Longrightarrow> sender_inv (snd (send_failed c e entered))"
  by (auto simp: sender_inv_def send_failed_def Let_def notices_state_append RECOVERY_STREAK_def)

lemma sender_inv_send [ft_inv]: "sender_inv c \<Longrightarrow> sender_inv (snd (send_data net c data))"
  by (auto simp: send_data_def intro!: sender_inv_note sender_inv_failed
      intro: sender_inv_sock split: prod.splits send_result.splits)

text \<open>A stream of frames: it stops at the first error that propagates.\<close>

fun send_stream ::
  "(nat \<Rightarrow> send_result) \<Rightarrow> client \<Rightarrow> byte list list \<Rightarrow> client_error option \<times> client" where
  "send_stream net c [] = (None, c)"
| "send_stream net c (d # ds) =
     (case send_data net c d of
        (Some e, c1) \<Rightarrow> (Some e, c1)
      | (None, c1) \<Rightarrow> send_stream net c1 ds)"

lemma sender_inv_stream [ft_inv]:
  "sender_inv c \<Longrightarrow> sender_inv (snd (send_stream net c ds))"
proof (induction ds arbitrary: c)
  case Nil
  then show ?case by simp
next
  case (Cons d ds)
  obtain err c1 where step: "send_data net c d = (err, c1)" by fastforce
  then have "sender_inv c1"
    using sender_inv_send [OF Cons.prems, of net d] by simp
  then show ?case
    using Cons.IH step by (cases err) simp_all
qed

text \<open>What one call does, as one case per outcome.\<close>

definition send_outcome :: "(nat \<Rightarrow> send_result) \<Rightarrow> nat \<Rightarrow> send_result" where
  "send_outcome net n =
     (case net n of
        SendOk \<Rightarrow> SendOk
      | SendErr e \<Rightarrow> if e \<in> set RETRY_ERRNOS then net (Suc n) else SendErr e)"

definition send_cost :: "(nat \<Rightarrow> send_result) \<Rightarrow> nat \<Rightarrow> nat" where
  "send_cost net n =
     (case net n of
        SendOk \<Rightarrow> 1
      | SendErr e \<Rightarrow> if e \<in> set RETRY_ERRNOS then 2 else 1)"

definition send_entered :: "(nat \<Rightarrow> send_result) \<Rightarrow> nat \<Rightarrow> errno" where
  "send_entered net n = (case net n of SendOk \<Rightarrow> EOTHER 0 | SendErr e \<Rightarrow> e)"

lemma send_data_outcome:
  "send_data net c data =
     (let c1 = c\<lparr>c_calls := c_calls c + send_cost net (c_calls c)\<rparr> in
      case send_outcome net (c_calls c) of
        SendOk \<Rightarrow> (None, note_reachable (c1\<lparr>c_wire := c_wire c @ [data]\<rparr>))
      | SendErr e \<Rightarrow> send_failed c1 e (send_entered net (c_calls c)))"
proof (cases "net (c_calls c)")
  case SendOk
  then show ?thesis
    by (simp add: send_data_def sock_send_def send_outcome_def send_cost_def send_entered_def Let_def)
next
  case (SendErr e)
  show ?thesis
  proof (cases "e \<in> set RETRY_ERRNOS")
    case True
    then show ?thesis
      using SendErr by (cases "net (Suc (c_calls c))")
        (simp_all add: send_data_def sock_send_def send_outcome_def send_cost_def send_entered_def Let_def)
  next
    case False
    then show ?thesis
      using SendErr
      by (simp add: send_data_def sock_send_def send_outcome_def send_cost_def send_entered_def Let_def)
  qed
qed

lemma note_reachable_frame [ft_frame]:
  "c_wire (note_reachable c) = c_wire c"
  "c_calls (note_reachable c) = c_calls c"
  "c_transparent (note_reachable c) = c_transparent c"
  by (simp_all add: note_reachable_def Let_def)

lemma send_data_ok:
  assumes "net (c_calls c) = SendOk"
  obtains c' where "send_data net c data = (None, c')" and "c_wire c' = c_wire c @ [data]"
    and "c_transparent c' = c_transparent c" and "c_calls c' = Suc (c_calls c)"
  using assms by (simp add: send_data_def sock_send_def ft_frame)

section \<open>Properties\<close>

text \<open>
  Drawing is exact: after setting a pixel of a canvas every pixel of it reads as before,
  except the one set, which reads as the colour drawn (black becoming the faintest grey unless
  the client is transparent); a pixel off the canvas changes nothing.
\<close>

theorem drawing_is_exact:
  assumes "wf_client c" and "byte_color color" and "on_canvas c u v"
  shows "client_pixel (snd (client_set c x y color)) u v =
      (if (x, y) = (u, v) then drawn_color c color else client_pixel c u v)
    \<and> fst (client_set c x y color) = None \<and> wf_client (snd (client_set c x y color))"
proof (cases "on_canvas c x y")
  case True
  moreover have "fst (client_set c x y color) = None"
    using client_set_on_canvas [OF assms(1) True assms(2)] by (metis fst_conv)
  ultimately show ?thesis
    using client_set_pixel_same [OF assms(1) True assms(2)]
      client_set_pixel_other [OF assms(1) True assms(2,3)] client_set_wf [OF assms(1,2)] by auto
next
  case False
  then show ?thesis using assms by (auto simp: client_set_clipped)
qed

definition canvas_2x1 :: client where
  "canvas_2x1 = projr (Flaschen 2 1 5 False)"

lemma canvas_2x1: "Flaschen 2 1 5 False = Inr canvas_2x1"
  by (simp add: canvas_2x1_def Flaschen_def Let_def)

lemma canvas_2x1_fields: "c_width canvas_2x1 = 2" "c_height canvas_2x1 = 1" "\<not> c_transparent canvas_2x1"
  by (simp_all add: canvas_2x1_def Flaschen_def Let_def)

theorem drawing_is_exact_witness:
  "client_pixel (snd (client_set canvas_2x1 1 0 (0, 0, 0))) 1 0 = (1, 1, 1)
   \<and> client_pixel (snd (client_set canvas_2x1 1 0 (0, 0, 0))) 0 0 = client_pixel canvas_2x1 0 0"
  using drawing_is_exact [of canvas_2x1 "(0, 0, 0)" 1 0 1 0] drawing_is_exact [of canvas_2x1 "(0, 0, 0)" 0 0 1 0]
    Flaschen_wf [OF canvas_2x1] canvas_2x1_fields
  by (simp add: byte_color_def on_canvas_def drawn_color_def)

text \<open>
  The notices on standard error alternate: whatever the network answers over a whole
  stream of frames, "unreachable" and "reachable again" are never printed twice in a row, the
  first is "unreachable", and the last one printed agrees with what the client believes.
\<close>

theorem notices_alternate:
  assumes "Flaschen w h layer tr = Inr c"
  shows "notices_state False (c_stderr (snd (send_stream net c frames)))
    = Some (c_unreachable (snd (send_stream net c frames)))"
  using sender_inv_stream [OF Flaschen_sender_inv [OF assms], of net frames]
  by (simp add: sender_inv_def)

theorem notices_alternate_witness:
  "notices_state False (c_stderr (snd (send_stream (\<lambda>n. if even n then SendErr ECONNREFUSED else SendErr ENOBUFS)
      canvas_2x1 [[1], [2], [3]]))) = Some (c_unreachable (snd (send_stream
        (\<lambda>n. if even n then SendErr ECONNREFUSED else SendErr ENOBUFS) canvas_2x1 [[1], [2], [3]])))"
  by (rule notices_alternate [OF canvas_2x1])

text \<open>One send is at most two system calls, and what it puts on the wire is the frame or nothing.\<close>

lemma send_data_wire:
  "c_wire (snd (send_data net c data)) = c_wire c @ (if send_outcome net (c_calls c) = SendOk then [data] else [])"
  by (auto simp: send_data_outcome Let_def send_failed_def ft_frame split: send_result.split)

text \<open>
  A stream of frames is never reordered or repeated: what reaches the wire is the frames,
  in order, some of them left out, and a frame is left out only when it was refused.
\<close>

theorem stream_is_a_subsequence:
  shows "\<exists>kept. c_wire (snd (send_stream net c frames)) = c_wire c @ kept \<and> subseq kept frames
    \<and> ((\<forall>n. net n = SendOk) \<longrightarrow> kept = frames)"
proof (induction frames arbitrary: c)
  case Nil
  then show ?case by simp
next
  case (Cons d ds)
  obtain err c1 where step: "send_data net c d = (err, c1)" by fastforce
  have wire: "c_wire c1 = c_wire c @ (if send_outcome net (c_calls c) = SendOk then [d] else [])"
    using send_data_wire [of net c d] step by simp
  have ok: "(\<forall>n. net n = SendOk) \<Longrightarrow> err = None \<and> c_wire c1 = c_wire c @ [d]"
    using send_data_ok [of net c d] step by auto
  show ?case
  proof (cases err)
    case None
    obtain kept where kept: "c_wire (snd (send_stream net c1 ds)) = c_wire c1 @ kept" "subseq kept ds"
      "(\<forall>n. net n = SendOk) \<longrightarrow> kept = ds"
      using Cons.IH by blast
    show ?thesis
    proof (cases "send_outcome net (c_calls c) = SendOk")
      case True
      then show ?thesis using kept wire step None by (intro exI [of _ "d # kept"]) auto
    next
      case False
      then show ?thesis using kept wire step None ok
        by (intro exI [of _ kept]) (auto simp: subseq_Cons')
    qed
  next
    case (Some e)
    then show ?thesis
      using step wire ok by (cases "send_outcome net (c_calls c) = SendOk") (auto intro: exI [of _ "[d]"] exI [of _ "[]"])
  qed
qed

theorem stream_is_a_subsequence_witness:
  "c_wire (snd (send_stream (\<lambda>_. SendOk) canvas_2x1 [[1], [2]])) = c_wire canvas_2x1 @ [[1], [2]]"
  using stream_is_a_subsequence [of "\<lambda>_. SendOk" canvas_2x1 "[[1], [2]]"] by auto

section \<open>The count in the notice\<close>

lemma recovering:
  assumes "c_unreachable c" and "c_ok_streak c + int (length ds) < RECOVERY_STREAK"
    and "\<forall>n. c_calls c \<le> n \<longrightarrow> net n = SendOk"
  shows "\<exists>c'. send_stream net c ds = (None, c') \<and> c_unreachable c' \<and> c_stderr c' = c_stderr c
    \<and> c_dropped c' = c_dropped c \<and> c_dropped_at_notice c' = c_dropped_at_notice c
    \<and> c_ok_streak c' = c_ok_streak c + int (length ds) \<and> c_calls c \<le> c_calls c'"
  using assms
proof (induction ds arbitrary: c)
  case Nil
  then show ?case by simp
next
  case (Cons d ds)
  let ?c = "c\<lparr>c_calls := Suc (c_calls c), c_wire := c_wire c @ [d], c_ok_streak := c_ok_streak c + 1\<rparr>"
  have step: "send_data net c d = (None, ?c)"
    using Cons.prems by (simp add: send_data_def sock_send_def note_reachable_def Let_def)
  show ?case
    using Cons.IH [of ?c] Cons.prems by (fastforce simp: step algebra_simps dest: Suc_leD)
qed

text \<open>
  The number of dropped frames that the recovery notice reports leaves out the frame whose
  loss caused the first notice: after one dropped frame and a full streak of good ones the
  client has counted one drop and prints that none was dropped.
\<close>

theorem recovery_notice_misses_a_drop:
  assumes "Flaschen w h layer tr = Inr c" and "e \<in> set UNREACHABLE_ERRNOS" and "e \<notin> set RETRY_ERRNOS"
    and "length frames = Suc (nat RECOVERY_STREAK)"
  shows "\<exists>c'. send_stream (\<lambda>n. if n = 0 then SendErr e else SendOk) c frames = (None, c')
    \<and> c_dropped c' = 1 \<and> c_stderr c' = [Unreachable e, Reachable_again 0]"
proof -
  let ?net = "\<lambda>n. if n = 0 then SendErr e else SendOk :: send_result"
  have init: "c_calls c = 0" "c_dropped c = 0" "\<not> c_unreachable c" "c_stderr c = []" "c_wire c = []"
    using assms(1) by (auto simp: Flaschen_def Let_def split: if_split_asm)
  obtain d ds x where frames: "frames = d # ds @ [x]" and len: "length ds + 1 = nat RECOVERY_STREAK"
  proof -
    from assms(4) obtain d ds' where "frames = d # ds'" "length ds' = nat RECOVERY_STREAK"
      by (cases frames) auto
    moreover from this obtain ds x where "ds' = ds @ [x]"
      by (cases ds' rule: rev_cases) (auto simp: RECOVERY_STREAK_def)
    ultimately show thesis using that by simp
  qed
  let ?c1 = "c\<lparr>c_calls := 1, c_dropped := 1, c_ok_streak := 0, c_unreachable := True,
      c_dropped_at_notice := 1, c_stderr := [Unreachable e]\<rparr>"
  have first: "send_data ?net c d = (None, ?c1)"
    using assms(2,3) init by (simp add: send_data_def sock_send_def send_failed_def Let_def)
  have streak: "c_ok_streak ?c1 + int (length ds) + 1 = RECOVERY_STREAK"
    using len by (simp add: RECOVERY_STREAK_def)
  obtain c2 where c2: "send_stream ?net ?c1 ds = (None, c2)" "c_unreachable c2"
    "c_stderr c2 = [Unreachable e]" "c_dropped c2 = 1" "c_dropped_at_notice c2 = 1"
    "c_ok_streak c2 + 1 = RECOVERY_STREAK" "1 \<le> c_calls c2"
    using recovering [of ?c1 ds ?net] streak by auto
  have last: "\<exists>c3. send_data ?net c2 x = (None, c3) \<and> c_dropped c3 = 1
      \<and> c_stderr c3 = [Unreachable e, Reachable_again 0]"
    using c2 by (simp add: send_data_def sock_send_def note_reachable_def Let_def)
  have app: "send_stream ?net c' (ds @ [x]) = (case send_stream ?net c' ds of
      (Some e, c1) \<Rightarrow> (Some e, c1) | (None, c1) \<Rightarrow> send_stream ?net c1 [x])" for c'
    by (induction ds arbitrary: c') (auto split: prod.split option.split)
  show ?thesis
    unfolding frames using first c2(1) last by (auto simp: app)
qed

theorem recovery_notice_misses_a_drop_witness:
  "\<exists>c'. send_stream (\<lambda>n. if n = 0 then SendErr ECONNREFUSED else SendOk) canvas_2x1
      (replicate (Suc (nat RECOVERY_STREAK)) [7]) = (None, c')
    \<and> c_dropped c' = 1 \<and> c_stderr c' = [Unreachable ECONNREFUSED, Reachable_again 0]"
  by (rule recovery_notice_misses_a_drop [OF canvas_2x1])
    (simp_all add: UNREACHABLE_ERRNOS_def RETRY_ERRNOS_def)

end
