(* ===== verification/FT_Ppm.thy ===== *)
theory FT_Ppm
  imports FT_Prelude
begin

text \<open>
  The P6 parser of the browser display server, \<open>src/tools/ft-web/ft-web-server.py\<close>
  (\<open>Meta\<close>, \<open>_skip_whitespace\<close>, \<open>_read_number\<close>, \<open>_parse_offsets\<close>,
  \<open>read_image_data\<close>). Positions are indices into the received datagram as in the code;
  \<open>None\<close> is the code's \<open>None\<close> position. The code's mutable \<open>meta\<close> argument is
  threaded as a state; its \<open>meta=None\<close> calls instantiate the state with \<open>unit\<close>.
\<close>

section \<open>Image meta data\<close>

record meta =
  m_width :: int
  m_height :: int
  m_range :: int
  m_offset_x :: int
  m_offset_y :: int
  m_layer :: int

definition Meta :: "int \<Rightarrow> int \<Rightarrow> meta" where
  "Meta w h = \<lparr>m_width = w, m_height = h, m_range = 0,
               m_offset_x = 0, m_offset_y = 0, m_layer = 0\<rparr>"

section \<open>White space, comments, numbers\<close>

definition space_bytes :: "byte list" where
  "space_bytes = [32, 9, 10, 13, 11, 12]"

text \<open>\<open>b in b" \t\n\r\v\f"\<close> on bytes objects is containment of a sub-sequence.\<close>

definition is_space :: "byte list \<Rightarrow> bool" where
  "is_space b \<longleftrightarrow> sublist b space_bytes"

definition not_newline :: "byte list \<Rightarrow> bool" where
  "not_newline b \<longleftrightarrow> b \<noteq> [10]"

lemma is_space_one: "is_space [b] \<longleftrightarrow> b \<in> set space_bytes"
proof -
  have "sublist [b] xs \<longleftrightarrow> b \<in> set xs" for xs :: "byte list"
    by (induction xs) (auto simp: sublist_Cons_right prefix_Cons)
  then show ?thesis
    by (simp add: is_space_def)
qed

text \<open>
  \<open>on_comment s e m\<close> is what a comment at \<open>[s - 4, e)\<close> that starts with \<open>#FT:\<close> does to
  the meta state: \<open>_parse_offsets\<close> for a real \<open>meta\<close>, nothing for \<open>None\<close>.
\<close>

function skip_whitespace ::
  "(int \<Rightarrow> int \<Rightarrow> 'm \<Rightarrow> 'm) \<Rightarrow> byte list \<Rightarrow> int \<Rightarrow> int \<Rightarrow> 'm \<Rightarrow> int option \<times> 'm"
where
  "skip_whitespace on_comment buf pos e m =
     (let p = scan is_space buf pos e in
      if e \<le> p then (None, m)
      else if pyslice buf p (p + 1) \<noteq> [35] then (Some p, m)
      else
        let q = scan not_newline buf p e;
            m' = (if 4 \<le> q - p \<and> pyslice buf p (p + 4) = [35, 70, 84, 58]
                  then on_comment (p + 4) q m else m)
        in skip_whitespace on_comment buf q e m')"
  by pat_completeness auto
termination
proof (relation "measure (\<lambda>(cb, buf, pos, e, m). nat (e - pos))", goal_cases)
  case 1
  then show ?case by simp
next
  case (2 cb buf pos e m p q m')
  have "pos \<le> p"
    using 2(1) scan_ge by simp
  moreover have "p < q"
    using 2 by (auto intro!: scan_gt simp: not_newline_def)
  ultimately show ?case
    using 2(2) by simp
qed

declare skip_whitespace.simps [simp del]

definition read_number ::
  "(int \<Rightarrow> int \<Rightarrow> 'm \<Rightarrow> 'm) \<Rightarrow> byte list \<Rightarrow> int \<Rightarrow> int \<Rightarrow> 'm
     \<Rightarrow> (int \<times> int option) \<times> 'm" where
  "read_number on_comment buf pos e m =
     (case skip_whitespace on_comment buf pos e m of
        (None, m') \<Rightarrow> ((0, None), m')
      | (Some start, m') \<Rightarrow>
          let digits = (if pyslice buf start (start + 1) \<in> {[43], [45]} then start + 1 else start);
              q = scan is_digit buf digits e
          in if q = digits then ((0, None), m')
             else ((py_int_bytes (pyslice buf start q), Some q), m'))"

text \<open>With \<open>meta=None\<close> a comment has no effect.\<close>

definition read_number_plain :: "byte list \<Rightarrow> int \<Rightarrow> int \<Rightarrow> int \<times> int option" where
  "read_number_plain buf pos e = fst (read_number (\<lambda>_ _ u. u) buf pos e ())"

definition parse_offsets :: "byte list \<Rightarrow> int \<Rightarrow> int \<Rightarrow> meta \<Rightarrow> meta" where
  "parse_offsets buf pos e m =
     (case read_number_plain buf pos e of
        (x, None) \<Rightarrow> m\<lparr>m_offset_x := x\<rparr>
      | (x, Some p) \<Rightarrow>
         (case read_number_plain buf p e of
            (y, None) \<Rightarrow> m\<lparr>m_offset_x := x, m_offset_y := y\<rparr>
          | (y, Some p') \<Rightarrow>
              m\<lparr>m_offset_x := x, m_offset_y := y,
                m_layer := fst (read_number_plain buf p' e)\<rparr>))"

definition read_number_meta ::
  "byte list \<Rightarrow> int \<Rightarrow> int \<Rightarrow> meta \<Rightarrow> (int \<times> int option) \<times> meta" where
  "read_number_meta buf pos e m = read_number (parse_offsets buf) buf pos e m"

section \<open>The header\<close>

definition read_image_data :: "byte list \<Rightarrow> meta \<Rightarrow> int \<times> meta" where
  "read_image_data buf m =
     (let e = int (length buf) in
      if e < 3 then (0, m)
      else if pyslice buf 0 2 \<noteq> [80, 54]
              \<or> \<not> (is_space (pyslice buf 2 3) \<or> pyslice buf 2 3 = [35]) then (0, m)
      else case read_number_meta buf 2 e m of
        ((_, None), m1) \<Rightarrow> (0, m1)
      | ((width, Some p1), m1) \<Rightarrow>
      (case read_number_meta buf p1 e m1 of
        ((_, None), m2) \<Rightarrow> (0, m2)
      | ((height, Some p2), m2) \<Rightarrow>
      (case read_number_meta buf p2 e m2 of
        ((_, None), m3) \<Rightarrow> (0, m3)
      | ((range_, Some p3), m3) \<Rightarrow>
          if e \<le> p3 \<or> \<not> is_space (pyslice buf p3 (p3 + 1)) then (0, m3)
          else
            let pos = p3 + 1;
                expected = width * height * 3;
                actual = e - pos
            in if actual < expected then (0, m3)
               else
                 let m4 = (if expected < actual
                           then parse_offsets buf (pos + expected) e m3 else m3)
                 in (pos, m4\<lparr>m_width := width, m_height := height, m_range := range_\<rparr>))))"

section \<open>Reading one number\<close>

lemma skip_to_token:
  assumes "drop pos buf = ws @ b # rest" and "pos + length ws < e"
    and "\<forall>x \<in> set ws. x \<in> set space_bytes"
    and "b \<notin> set space_bytes" and "b \<noteq> 35"
  shows "skip_whitespace cb buf (int pos) (int e) m = (Some (int pos + int (length ws)), m)"
proof -
  have "scan is_space buf (int pos) (int e) = int pos + int (length ws)"
    using assms by (intro scan_run [where rest = "b # rest"]) (auto simp: is_space_one)
  moreover have "pyslice buf (int (pos + length ws)) (int (pos + length ws) + 1) = [b]"
  proof -
    have "drop (pos + length ws) buf = b # rest"
      using assms(1) by (metis add.commute append_eq_conv_conj drop_drop)
    then show ?thesis
      by (simp add: pyslice_numeral del: of_nat_add)
  qed
  ultimately show ?thesis
    using assms by (subst skip_whitespace.simps) (simp add: Let_def)
qed

lemma digit_not_space: "is_digit [b] \<Longrightarrow> b \<notin> set space_bytes \<and> b \<noteq> 35"
  by (auto simp: is_digit_def space_bytes_def word_le_nat_alt)

lemma dec_bytes_cases:
  obtains (neg) "i < 0" "dec_bytes i = 45 # digits10 (nat (- i))"
  | (pos) "0 \<le> i" "dec_bytes i = digits10 (nat i)"
  by (cases "i < 0") (auto simp: dec_bytes_def)

text \<open>
  A number printed by \<open>%d\<close>, after white space and before a byte that is no digit (or the
  end of the region), is read back, and the position moves just past it.
\<close>

lemma read_number_dec:
  assumes buf: "drop pos buf = ws @ dec_bytes i @ rest"
    and e: "pos + length ws + length (dec_bytes i) \<le> e"
    and ws: "\<forall>x \<in> set ws. x \<in> set space_bytes"
    and stop: "pos + length ws + length (dec_bytes i) = e \<or> (\<exists>y ys. rest = y # ys \<and> \<not> is_digit [y])"
  shows "read_number cb buf (int pos) (int e) m =
    ((i, Some (int (pos + length ws + length (dec_bytes i)))), m)"
proof -
  let ?s = "pos + length ws"
  obtain b ds where b: "dec_bytes i = b # ds"
    using dec_bytes_nonempty by (meson list.exhaust)
  have at_s: "drop ?s buf = dec_bytes i @ rest"
    using buf by (metis add.commute append_eq_conv_conj drop_drop)
  have b_tok: "b \<notin> set space_bytes \<and> b \<noteq> 35"
  proof (cases rule: dec_bytes_cases [of i])
    case neg
    then show ?thesis using b by (simp add: space_bytes_def)
  next
    case pos
    then have "b \<in> set (digits10 (nat i))"
      using b by (metis list.set_intros(1))
    then show ?thesis using digits10_digits digit_not_space by blast
  qed
  have skip: "skip_whitespace cb buf (int pos) (int e) m = (Some (int ?s), m)"
    using skip_to_token [of pos buf ws b "ds @ rest" e] buf b b_tok ws e by simp
  have first: "pyslice buf (int ?s) (int ?s + 1) = [b]"
    using at_s b by (simp add: pyslice_numeral del: of_nat_add)
  have whole: "pyslice buf (int ?s) (int ?s + int (length (dec_bytes i))) = dec_bytes i"
    using at_s by (rule pyslice_at)
  show ?thesis
  proof (cases rule: dec_bytes_cases [of i])
    case neg
    then have b45: "b = 45" and ds: "ds = digits10 (nat (- i))"
      using b by auto
    have drop1: "drop (Suc ?s) buf = ds @ rest"
      using at_s b by (metis append_Cons drop_Suc list.sel(3) tl_drop)
    have "scan is_digit buf (int (Suc ?s)) (int e) = int (Suc ?s) + int (length ds)"
      by (rule scan_run [OF drop1]) (use e b stop ds digits10_digits in auto)
    then have "scan is_digit buf (int pos + int (length ws) + 1) (int e)
        = int pos + int (length ws) + 1 + int (length ds)"
      by (simp add: ac_simps)
    moreover have "ds \<noteq> []"
      using ds digits10_nonempty by simp
    ultimately show ?thesis
      using skip first b45 b whole py_int_dec [of i]
      by (simp add: read_number_def Let_def ac_simps)
  next
    case pos
    then have digs: "\<forall>x \<in> set (dec_bytes i). is_digit [x]"
      using digits10_digits by simp
    then have "b \<noteq> 43 \<and> b \<noteq> 45"
      using b digit_not_sign by auto
    moreover have "scan is_digit buf (int ?s) (int e) = int ?s + int (length (dec_bytes i))"
      by (rule scan_run [OF at_s]) (use e stop digs in auto)
    ultimately show ?thesis
      using skip first b whole py_int_dec [of i]
      by (simp add: read_number_def Let_def)
  qed
qed

lemma read_number_plain_dec:
  assumes "drop pos buf = ws @ dec_bytes i @ rest"
    and "pos + length ws + length (dec_bytes i) \<le> e"
    and "\<forall>x \<in> set ws. x \<in> set space_bytes"
    and "pos + length ws + length (dec_bytes i) = e \<or> (\<exists>y ys. rest = y # ys \<and> \<not> is_digit [y])"
  shows "read_number_plain buf (int pos) (int e) = (i, Some (int (pos + length ws + length (dec_bytes i))))"
  unfolding read_number_plain_def using read_number_dec [OF assms, where cb = "\<lambda>_ _ u. u" and m = "()"] by simp

end
