(* ===== verification/FT_Display.thy ===== *)
theory FT_Display
  imports FT_Ppm
begin

text \<open>
  The layered display of \<open>src/tools/ft-web/ft-web-server.py\<close>: class \<open>Display\<close> with
  \<open>apply\<close> (one datagram), \<open>expire\<close> (idle layers), \<open>composite\<close> (flattening) and the
  counters. A layer is a list of rows of pixels; times are the floats of the monotonic
  clock, read as rationals.
\<close>

section \<open>State\<close>

type_synonym pixel = "byte \<times> byte \<times> byte"
type_synonym grid = "pixel list list"

abbreviation black :: pixel where "black \<equiv> (0, 0, 0)"

definition NUM_LAYERS :: nat where "NUM_LAYERS = 16"
definition LAYER_TIMEOUT :: int where "LAYER_TIMEOUT = 15"

record display =
  d_width :: nat
  d_height :: nat
  d_timeout :: int
  d_layers :: "grid list"
  d_touched :: "bool list"
  d_last_use :: "rat list"
  d_generation :: nat
  d_datagrams :: nat
  d_frames :: nat
  d_bytes_in :: nat
  d_bad_packets :: nat
  d_last_arrival :: rat

definition black_grid :: "nat \<Rightarrow> nat \<Rightarrow> grid" where
  "black_grid w h = replicate h (replicate w black)"

definition Display :: "nat \<Rightarrow> nat \<Rightarrow> nat \<Rightarrow> int \<Rightarrow> display" where
  "Display w h layers timeout =
     \<lparr>d_width = w, d_height = h, d_timeout = timeout,
      d_layers = replicate layers (black_grid w h),
      d_touched = replicate layers False,
      d_last_use = replicate layers 0,
      d_generation = 0, d_datagrams = 0, d_frames = 0, d_bytes_in = 0,
      d_bad_packets = 0, d_last_arrival = 0\<rparr>"

section \<open>Ingesting a datagram\<close>

datatype apply_error = ReshapeError

text \<open>The pixel in row \<open>r\<close>, column \<open>c\<close> of the image of width \<open>w\<close> at \<open>start\<close>.\<close>

definition img_pixel :: "byte list \<Rightarrow> nat \<Rightarrow> nat \<Rightarrow> nat \<Rightarrow> nat \<Rightarrow> pixel" where
  "img_pixel buf start w r c =
     (let o' = start + (r * w + c) * 3 in (buf ! o', buf ! (o' + 1), buf ! (o' + 2)))"

text \<open>The assignment to the rectangle \<open>[y0, y1) x [x0, x1)\<close> of one layer.\<close>

definition blit :: "nat \<Rightarrow> nat \<Rightarrow> grid \<Rightarrow> int \<Rightarrow> int \<Rightarrow> int \<Rightarrow> int \<Rightarrow> (nat \<Rightarrow> nat \<Rightarrow> pixel) \<Rightarrow> grid" where
  "blit w h g x0 x1 y0 y1 src =
     map (\<lambda>y. map (\<lambda>x. if y0 \<le> int y \<and> int y < y1 \<and> x0 \<le> int x \<and> int x < x1
                       then src x y else g ! y ! x) [0..<w]) [0..<h]"

definition clamp_layer :: "display \<Rightarrow> int \<Rightarrow> nat" where
  "clamp_layer d z = nat (min (max z 0) (int (length (d_layers d)) - 1))"

text \<open>
  \<open>img.reshape(h, w, 3)\<close> raises \<open>ValueError\<close> when both sizes are negative: their product
  passes the size check, and the exception leaves \<open>apply\<close> and its caller, the UDP loop.
\<close>

definition apply_datagram :: "display \<Rightarrow> byte list \<Rightarrow> rat \<Rightarrow> apply_error + display" where
  "apply_datagram d buf now =
     (let (start, m) = read_image_data buf (Meta (int (d_width d)) (int (d_height d)));
          need = m_width m * m_height m * 3
      in if need \<le> 0 \<or> int (length buf) - start < need
         then Inr (d\<lparr>d_bad_packets := Suc (d_bad_packets d),
                     d_datagrams := Suc (d_datagrams d),
                     d_bytes_in := d_bytes_in d + length buf\<rparr>)
         else if m_width m < 0 then Inl ReshapeError
         else
           let layer = clamp_layer d (m_layer m);
               dx0 = m_offset_x m; dy0 = m_offset_y m;
               sx0 = max 0 (- dx0); sy0 = max 0 (- dy0);
               sx1 = min (m_width m) (int (d_width d) - dx0);
               sy1 = min (m_height m) (int (d_height d) - dy0);
               d1 = d\<lparr>d_datagrams := Suc (d_datagrams d),
                      d_bytes_in := d_bytes_in d + length buf,
                      d_last_arrival := now,
                      d_last_use := (d_last_use d)[layer := now]\<rparr>
           in if sx0 < sx1 \<and> sy0 < sy1
              then Inr (d1\<lparr>d_layers := (d_layers d)[layer :=
                               blit (d_width d) (d_height d) (d_layers d ! layer)
                                 (dx0 + sx0) (dx0 + sx1) (dy0 + sy0) (dy0 + sy1)
                                 (\<lambda>x y. img_pixel buf (nat start) (nat (m_width m))
                                          (nat (int y - dy0)) (nat (int x - dx0)))],
                           d_touched := (d_touched d)[layer := True],
                           d_frames := Suc (d_frames d),
                           d_generation := Suc (d_generation d)\<rparr>)
              else Inr d1)"

section \<open>Expiry and flattening\<close>

definition expire_layer :: "rat \<Rightarrow> nat \<Rightarrow> display \<Rightarrow> display" where
  "expire_layer now z d =
     (if d_touched d ! z \<and> of_int (d_timeout d) < now - d_last_use d ! z
      then d\<lparr>d_layers := (d_layers d)[z := black_grid (d_width d) (d_height d)],
             d_touched := (d_touched d)[z := False],
             d_generation := Suc (d_generation d)\<rparr>
      else d)"

definition expire :: "rat \<Rightarrow> display \<Rightarrow> display" where
  "expire now d = fold (expire_layer now) [1..<length (d_layers d)] d"

definition overlay :: "grid \<Rightarrow> grid \<Rightarrow> grid" where
  "overlay layer out = map2 (map2 (\<lambda>l p. if l \<noteq> black then l else p)) layer out"

definition composite :: "display \<Rightarrow> nat \<times> grid" where
  "composite d =
     (d_generation d,
      fold (\<lambda>z out. if d_touched d ! z then overlay (d_layers d ! z) out else out)
        [1..<length (d_layers d)] (d_layers d ! 0))"

definition snapshot_counters :: "display \<Rightarrow> nat \<times> nat \<times> nat \<times> nat \<times> bool list" where
  "snapshot_counters d =
     (d_datagrams d, d_frames d, d_bytes_in d, d_bad_packets d, d_touched d)"

section \<open>The display invariant\<close>

definition wf_grid :: "nat \<Rightarrow> nat \<Rightarrow> grid \<Rightarrow> bool" where
  "wf_grid w h g \<longleftrightarrow> length g = h \<and> (\<forall>row \<in> set g. length row = w)"

definition display_inv :: "display \<Rightarrow> bool" where
  "display_inv d \<longleftrightarrow>
     0 < length (d_layers d)
     \<and> length (d_touched d) = length (d_layers d)
     \<and> length (d_last_use d) = length (d_layers d)
     \<and> (\<forall>z < length (d_layers d). wf_grid (d_width d) (d_height d) (d_layers d ! z))
     \<and> (\<forall>z < length (d_layers d). 1 \<le> z \<longrightarrow> \<not> d_touched d ! z
          \<longrightarrow> d_layers d ! z = black_grid (d_width d) (d_height d))
     \<and> d_frames d + d_bad_packets d \<le> d_datagrams d"

lemma wf_grid_black [simp]: "wf_grid w h (black_grid w h)"
  by (auto simp: wf_grid_def black_grid_def)

lemma wf_grid_blit [simp]: "wf_grid w h (blit w h g x0 x1 y0 y1 src)"
  by (auto simp: wf_grid_def blit_def)

lemma wf_grid_row: "wf_grid w h g \<Longrightarrow> y < h \<Longrightarrow> length (g ! y) = w"
  by (auto simp: wf_grid_def)

lemma blit_nth:
  "x < w \<Longrightarrow> y < h \<Longrightarrow> blit w h g x0 x1 y0 y1 src ! y ! x =
     (if y0 \<le> int y \<and> int y < y1 \<and> x0 \<le> int x \<and> int x < x1 then src x y else g ! y ! x)"
  by (simp add: blit_def)

lemma display_inv_init [ft_inv]: "0 < n \<Longrightarrow> display_inv (Display w h n t)"
  by (auto simp: display_inv_def Display_def)

lemma clamp_layer_less: "display_inv d \<Longrightarrow> clamp_layer d z < length (d_layers d)"
  by (cases "d_layers d") (auto simp: display_inv_def clamp_layer_def nat_less_iff)

lemma display_inv_apply [ft_inv]:
  assumes "display_inv d" and "apply_datagram d buf now = Inr d'"
  shows "display_inv d'"
proof -
  note lt = clamp_layer_less [OF assms(1)]
  have "display_inv d''" if "display_inv d" and "k < length (d_layers d)" and "d'' \<in>
      {d\<lparr>d_bad_packets := Suc (d_bad_packets d), d_datagrams := Suc (d_datagrams d),
         d_bytes_in := b\<rparr>,
       d\<lparr>d_datagrams := Suc (d_datagrams d), d_bytes_in := b, d_last_arrival := t,
         d_last_use := (d_last_use d)[k := t]\<rparr>,
       d\<lparr>d_datagrams := Suc (d_datagrams d), d_bytes_in := b, d_last_arrival := t,
         d_last_use := (d_last_use d)[k := t],
         d_layers := (d_layers d)[k := blit (d_width d) (d_height d) g x0 x1 y0 y1 src],
         d_touched := (d_touched d)[k := True], d_frames := Suc (d_frames d),
         d_generation := Suc (d_generation d)\<rparr>}" for d'' b t k g x0 x1 y0 y1 src
    using that by (auto simp: display_inv_def nth_list_update)
  note step = this [OF assms(1) lt]
  from assms(2) show ?thesis
    unfolding apply_datagram_def Let_def
    by (auto split: prod.splits if_splits intro!: step)
qed

lemma display_inv_expire_layer [ft_inv]:
  "display_inv d \<Longrightarrow> z < length (d_layers d) \<Longrightarrow> display_inv (expire_layer now z d)"
  by (auto simp: display_inv_def expire_layer_def nth_list_update)

lemma expire_layer_frame [ft_frame]:
  "length (d_layers (expire_layer now z d)) = length (d_layers d)"
  "length (d_touched (expire_layer now z d)) = length (d_touched d)"
  "d_width (expire_layer now z d) = d_width d"
  "d_height (expire_layer now z d) = d_height d"
  "d_timeout (expire_layer now z d) = d_timeout d"
  "d_last_use (expire_layer now z d) = d_last_use d"
  by (auto simp: expire_layer_def)

lemma display_inv_expire_fold:
  assumes "display_inv d" and "\<forall>z \<in> set zs. z < length (d_layers d)"
  shows "display_inv (fold (expire_layer now) zs d)"
  using assms
proof (induction zs arbitrary: d)
  case Nil
  then show ?case by simp
next
  case (Cons z zs)
  then show ?case
    by (simp add: ft_frame display_inv_expire_layer)
qed

lemma display_inv_expire [ft_inv]: "display_inv d \<Longrightarrow> display_inv (expire now d)"
  unfolding expire_def by (rule display_inv_expire_fold) auto

section \<open>Flattening shows the topmost pixel that is not black\<close>

text \<open>
  The specification: the highest layer that is not black at the pixel, with layer 0 as an
  opaque background. It mentions neither \<open>d_touched\<close> nor the order of blending.
\<close>

definition top_layer :: "display \<Rightarrow> nat \<Rightarrow> nat \<Rightarrow> nat" where
  "top_layer d x y =
     Max {z. z < length (d_layers d) \<and> (z = 0 \<or> d_layers d ! z ! y ! x \<noteq> black)}"

definition shown_pixel :: "display \<Rightarrow> nat \<Rightarrow> nat \<Rightarrow> pixel" where
  "shown_pixel d x y = d_layers d ! top_layer d x y ! y ! x"

lemma wf_grid_overlay:
  "wf_grid w h g \<Longrightarrow> wf_grid w h out \<Longrightarrow> wf_grid w h (overlay g out)"
  by (auto simp: wf_grid_def overlay_def set_zip)

lemma overlay_nth:
  assumes "wf_grid w h g" and "wf_grid w h out" and "x < w" and "y < h"
  shows "overlay g out ! y ! x = (if g ! y ! x \<noteq> black then g ! y ! x else out ! y ! x)"
proof -
  have "length g = h" "length out = h" "length (g ! y) = w" "length (out ! y) = w"
    using assms by (auto simp: wf_grid_def)
  then show ?thesis
    using assms(3,4) by (simp add: overlay_def)
qed

text \<open>The layers below \<open>n\<close> only, for the induction over the blending loop.\<close>

definition top_below :: "display \<Rightarrow> nat \<Rightarrow> nat \<Rightarrow> nat \<Rightarrow> nat" where
  "top_below d n x y = Max {z. z < n \<and> (z = 0 \<or> d_layers d ! z ! y ! x \<noteq> black)}"

lemma top_below_Suc:
  assumes "0 < n"
  shows "top_below d (Suc n) x y =
    (if d_layers d ! n ! y ! x \<noteq> black then n else top_below d n x y)"
proof -
  let ?S = "\<lambda>k. {z. z < k \<and> (z = 0 \<or> d_layers d ! z ! y ! x \<noteq> black)}"
  have fin: "finite (?S n)" and ne: "?S n \<noteq> {}"
    using assms by auto
  show ?thesis
  proof (cases "d_layers d ! n ! y ! x \<noteq> black")
    case True
    then have "?S (Suc n) = insert n (?S n)" by auto
    moreover have "Max (insert n (?S n)) = n"
      using fin by (intro Max_eqI) auto
    ultimately show ?thesis using True by (simp add: top_below_def)
  next
    case False
    then have "?S (Suc n) = ?S n"
      using assms by (auto simp: less_Suc_eq)
    then show ?thesis using False by (simp add: top_below_def)
  qed
qed

lemma top_below_1 [simp]: "top_below d (Suc 0) x y = 0"
proof -
  have "{z. z < Suc 0 \<and> (z = 0 \<or> d_layers d ! z ! y ! x \<noteq> black)} = {0}" by auto
  then show ?thesis by (simp add: top_below_def)
qed

lemma composite_below:
  assumes inv: "display_inv d" and "1 \<le> n" and "n \<le> length (d_layers d)"
    and "x < d_width d" and "y < d_height d"
  shows "wf_grid (d_width d) (d_height d)
      (fold (\<lambda>z out. if d_touched d ! z then overlay (d_layers d ! z) out else out)
         [1..<n] (d_layers d ! 0))
    \<and> fold (\<lambda>z out. if d_touched d ! z then overlay (d_layers d ! z) out else out)
         [1..<n] (d_layers d ! 0) ! y ! x = d_layers d ! top_below d n x y ! y ! x"
  using assms(2,3)
proof (induction n rule: dec_induct)
  case base
  then show ?case
    using inv by (simp add: display_inv_def)
next
  case (step n)
  have wf: "wf_grid (d_width d) (d_height d) (d_layers d ! n)"
    using inv step by (simp add: display_inv_def)
  show ?case
  proof (cases "d_touched d ! n")
    case True
    then show ?thesis
      using step wf assms(4,5)
      by (simp add: wf_grid_overlay overlay_nth top_below_Suc)
  next
    case False
    then have "d_layers d ! n = black_grid (d_width d) (d_height d)"
      using inv step by (simp add: display_inv_def)
    then have "d_layers d ! n ! y ! x = black"
      using assms(4,5) by (simp add: black_grid_def)
    then show ?thesis
      using step False by (simp add: top_below_Suc)
  qed
qed

lemma composite_pixel:
  assumes "display_inv d" and "x < d_width d" and "y < d_height d"
  shows "snd (composite d) ! y ! x = shown_pixel d x y"
  using composite_below [OF assms(1) _ order_refl assms(2,3)] assms(1)
  by (simp add: composite_def shown_pixel_def top_layer_def top_below_def display_inv_def Suc_leI)

section \<open>What expiry does to each layer\<close>

definition idle :: "display \<Rightarrow> rat \<Rightarrow> nat \<Rightarrow> bool" where
  "idle d now z \<longleftrightarrow> d_touched d ! z \<and> of_int (d_timeout d) < now - d_last_use d ! z"

lemma expire_layer_idle: 
  "z < length (d_touched d) \<Longrightarrow> z' \<noteq> z \<Longrightarrow> idle (expire_layer now z d) now z' = idle d now z'"
  by (simp add: idle_def expire_layer_def)

lemma expire_fold_effect:
  assumes "distinct zs" and "\<forall>z \<in> set zs. z < length (d_layers d)"
    and "length (d_touched d) = length (d_layers d)" and "k < length (d_layers d)"
  shows "d_layers (fold (expire_layer now) zs d) ! k =
      (if k \<in> set zs \<and> idle d now k then black_grid (d_width d) (d_height d) else d_layers d ! k)
    \<and> d_touched (fold (expire_layer now) zs d) ! k =
      (if k \<in> set zs \<and> idle d now k then False else d_touched d ! k)"
  using assms
proof (induction zs arbitrary: d)
  case Nil
  then show ?case by simp
next
  case (Cons z zs)
  let ?d = "expire_layer now z d"
  have IH: "d_layers (fold (expire_layer now) zs ?d) ! k =
      (if k \<in> set zs \<and> idle ?d now k then black_grid (d_width d) (d_height d) else d_layers ?d ! k)
    \<and> d_touched (fold (expire_layer now) zs ?d) ! k =
      (if k \<in> set zs \<and> idle ?d now k then False else d_touched ?d ! k)"
    using Cons.IH [of ?d] Cons.prems by (simp add: ft_frame)
  show ?case
  proof (cases "k = z")
    case True
    then have "k \<notin> set zs" using Cons.prems by simp
    moreover have "d_layers ?d ! k =
        (if idle d now k then black_grid (d_width d) (d_height d) else d_layers d ! k)"
      and "d_touched ?d ! k = (if idle d now k then False else d_touched d ! k)"
      using True Cons.prems by (simp_all add: expire_layer_def idle_def)
    ultimately show ?thesis
      using IH True by simp
  next
    case False
    have "d_layers ?d ! k = d_layers d ! k" "d_touched ?d ! k = d_touched d ! k"
      using False by (simp_all add: expire_layer_def)
    with IH False Cons.prems expire_layer_idle [of z d k now] show ?thesis by simp
  qed
qed

lemma expire_effect:
  assumes "display_inv d" and "k < length (d_layers d)"
  shows "d_layers (expire now d) ! k =
      (if 1 \<le> k \<and> idle d now k then black_grid (d_width d) (d_height d) else d_layers d ! k)"
    and "d_touched (expire now d) ! k = (d_touched d ! k \<and> \<not> (1 \<le> k \<and> idle d now k))"
  using expire_fold_effect [of "[1..<length (d_layers d)]" d k now] assms
  by (auto simp: expire_def display_inv_def)

section \<open>What a datagram does\<close>

text \<open>Every datagram, accepted or not, is counted once, with its length.\<close>

lemma apply_counts:
  "apply_datagram d buf now = Inr d' \<Longrightarrow>
     d_datagrams d' = Suc (d_datagrams d) \<and> d_bytes_in d' = d_bytes_in d + length buf"
  by (auto simp: apply_datagram_def Let_def split: prod.splits if_splits)

lemma apply_frame [ft_frame]:
  "apply_datagram d buf now = Inr d' \<Longrightarrow>
     d_width d' = d_width d \<and> d_height d' = d_height d \<and> d_timeout d' = d_timeout d
     \<and> length (d_layers d') = length (d_layers d)"
  by (auto simp: apply_datagram_def Let_def split: prod.splits if_splits)

text \<open>
  A parsed image of positive size reaches exactly the rectangle it covers, clipped to the
  display, in exactly the layer it names, clamped to the stack.
\<close>

lemma apply_image:
  assumes inv: "display_inv d"
    and hdr: "read_image_data buf (Meta (int (d_width d)) (int (d_height d))) = (int start, m)"
    and sz: "m_width m = int iw" "m_height m = int ih" "0 < iw" "0 < ih"
    and data: "length buf = start + iw * ih * 3"
  obtains d' where "apply_datagram d buf now = Inr d'"
    and "\<And>z x y. z < length (d_layers d) \<Longrightarrow> x < d_width d \<Longrightarrow> y < d_height d \<Longrightarrow>
      d_layers d' ! z ! y ! x =
        (if z = clamp_layer d (m_layer m)
            \<and> m_offset_x m \<le> int x \<and> int x < m_offset_x m + int iw
            \<and> m_offset_y m \<le> int y \<and> int y < m_offset_y m + int ih
         then img_pixel buf start iw (nat (int y - m_offset_y m)) (nat (int x - m_offset_x m))
         else d_layers d ! z ! y ! x)"
    and "d_last_use d' ! clamp_layer d (m_layer m) = now"
proof -
  have pos: "\<not> (m_width m * m_height m * 3 \<le> 0
      \<or> int (length buf) - int start < m_width m * m_height m * 3)"
    using sz data by (auto simp: mult_le_0_iff)
  have nneg: "\<not> m_width m < 0" using sz by simp
  note lt = clamp_layer_less [OF inv, of "m_layer m"]
  have lu: "clamp_layer d (m_layer m) < length (d_last_use d)"
    using lt inv by (simp add: display_inv_def)
  note unfolded = apply_datagram_def Let_def hdr prod.case if_not_P [OF pos] if_not_P [OF nneg]
  show thesis
  proof (cases "max 0 (- m_offset_x m) < min (m_width m) (int (d_width d) - m_offset_x m)
      \<and> max 0 (- m_offset_y m) < min (m_height m) (int (d_height d) - m_offset_y m)")
    case True
    show thesis
      by (rule that, unfold unfolded if_P [OF True], rule refl)
        (use lt lu sz in \<open>auto simp: nth_list_update blit_nth\<close>)
  next
    case False
    show thesis
      by (rule that, unfold unfolded if_not_P [OF False], rule refl)
        (use False lt lu sz in auto)
  qed
qed

section \<open>Histories\<close>

datatype display_op = Datagram "byte list" rat | Expire rat

fun display_run :: "display_op list \<Rightarrow> display \<Rightarrow> apply_error + display" where
  "display_run [] d = Inr d"
| "display_run (Datagram buf now # ops) d = bindE (apply_datagram d buf now) (display_run ops)"
| "display_run (Expire now # ops) d = display_run ops (expire now d)"

lemma display_inv_run [ft_inv]:
  "display_inv d \<Longrightarrow> display_run ops d = Inr d' \<Longrightarrow> display_inv d'"
  by (induction ops d rule: display_run.induct)
    (auto elim!: bindE_E intro: display_inv_apply display_inv_expire)

lemma expire_counts [ft_frame]:
  "d_datagrams (expire now d) = d_datagrams d" "d_bytes_in (expire now d) = d_bytes_in d"
proof -
  have "d_datagrams (fold (expire_layer now) zs d) = d_datagrams d
      \<and> d_bytes_in (fold (expire_layer now) zs d) = d_bytes_in d" for zs
    by (induction zs arbitrary: d) (simp_all add: expire_layer_def)
  then show "d_datagrams (expire now d) = d_datagrams d" "d_bytes_in (expire now d) = d_bytes_in d"
    by (simp_all add: expire_def)
qed

definition datagrams_of :: "display_op list \<Rightarrow> byte list list" where
  "datagrams_of ops = List.map_filter (\<lambda>p. case p of Datagram b _ \<Rightarrow> Some b | _ \<Rightarrow> None) ops"

lemma display_run_counts:
  "display_run ops d = Inr d' \<Longrightarrow>
     d_datagrams d' = d_datagrams d + length (datagrams_of ops)
     \<and> d_bytes_in d' = d_bytes_in d + sum_list (map length (datagrams_of ops))"
  by (induction ops d rule: display_run.induct)
    (auto simp: datagrams_of_def List.map_filter_simps ft_frame dest: apply_counts elim!: bindE_E)

section \<open>Properties\<close>

text \<open>
  C22. After any history of datagrams and expiries the viewer shows, at every place, the
  colour of the topmost layer that is not black there, layer 0 being the opaque background,
  although the flattening skips the layers it believes empty.
\<close>

theorem viewer_shows_topmost:
  assumes "0 < n" and "display_run ops (Display w h n timeout) = Inr d"
    and "x < d_width d" and "y < d_height d"
  shows "snd (composite d) ! y ! x = shown_pixel d x y"
  using composite_pixel [OF display_inv_run [OF display_inv_init [OF assms(1)] assms(2)] assms(3,4)] .

theorem viewer_shows_topmost_witness:
  "snd (composite (expire 99 (Display 2 1 16 15))) ! 0 ! 1 = shown_pixel (expire 99 (Display 2 1 16 15)) 1 0"
proof -
  have "expire 99 (Display 2 1 16 15) = Display 2 1 16 15"
    by (simp add: expire_def expire_layer_def Display_def upt_rec)
  then show ?thesis
    using viewer_shows_topmost [of 16 "[Expire 99]" 2 1 15 _ 1 0] by (simp add: Display_def)
qed

text \<open>
  Expiry is exact: a layer above the background goes black exactly when it was drawn on
  and nothing arrived for it within the timeout; every other layer, and the background
  always, keeps its pixels and its mark.
\<close>

theorem expiry_is_exact:
  assumes "display_inv d" and "k < length (d_layers d)"
  shows "d_layers (expire now d) ! k =
      (if 1 \<le> k \<and> idle d now k then black_grid (d_width d) (d_height d) else d_layers d ! k)
    \<and> d_touched (expire now d) ! k = (d_touched d ! k \<and> \<not> (1 \<le> k \<and> idle d now k))"
  using expire_effect [OF assms] by simp

theorem expiry_is_exact_witness:
  "d_layers (expire 16 ((Display 1 1 2 15)\<lparr>d_layers := [[[(1, 1, 1)]], [[(2, 2, 2)]]], d_touched := [True, True]\<rparr>))
     ! 1 = [[black]]"
proof -
  let ?d = "(Display 1 1 2 15)\<lparr>d_layers := [[[(1, 1, 1)]], [[(2, 2, 2)]]], d_touched := [True, True]\<rparr>"
  have "display_inv ?d"
    by (auto simp: display_inv_def Display_def wf_grid_def less_Suc_eq)
  moreover have "idle ?d 16 1" by (simp add: idle_def Display_def)
  ultimately show ?thesis
    using expiry_is_exact [of ?d 1 16] by (simp add: Display_def black_grid_def)
qed

text \<open>
  The counters tell the truth: after any history every datagram has been counted once
  with its length, the drawn and the bad ones together are no more than that, and all layers
  still have the display's shape.
\<close>

theorem counters_tell_the_truth:
  assumes "0 < n" and "display_run ops (Display w h n timeout) = Inr d"
  shows "d_datagrams d = length (datagrams_of ops)
    \<and> d_bytes_in d = sum_list (map length (datagrams_of ops))
    \<and> d_frames d + d_bad_packets d \<le> d_datagrams d
    \<and> (\<forall>z < length (d_layers d). wf_grid (d_width d) (d_height d) (d_layers d ! z))"
  using display_inv_run [OF display_inv_init [OF assms(1)] assms(2)] display_run_counts [OF assms(2)]
  by (simp add: display_inv_def Display_def)

theorem counters_tell_the_truth_witness:
  "\<exists>d. display_run [Datagram [1, 2] 0, Expire 5, Datagram [] 7] (Display 2 1 16 15) = Inr d
     \<and> d_datagrams d = 2 \<and> d_bytes_in d = 2"
proof -
  have "\<exists>d. display_run [Datagram [1, 2] 0, Expire 5, Datagram [] 7] (Display 2 1 16 15) = Inr d"
    by (simp add: apply_datagram_def read_image_data_def Meta_def Let_def)
  then obtain d where d: "display_run [Datagram [1, 2] 0, Expire 5, Datagram [] 7] (Display 2 1 16 15) = Inr d"
    by blast
  from counters_tell_the_truth [OF _ d] d show ?thesis
    by (auto simp: datagrams_of_def List.map_filter_simps)
qed

end
