(* ===== verification/FT_Wire.thy ===== *)
theory FT_Wire
  imports FT_Client FT_Display
begin

text \<open>
  The wire format between the Python client (\<open>FT_Client\<close>) and the browser server's
  parser and display (\<open>FT_Ppm\<close>, \<open>FT_Display\<close>): a header printed by the client is read
  back by the server, and the pixels that follow it land where the client put them.
\<close>

section \<open>The special comment\<close>

lemma drop_shift:
  assumes "drop p buf = xs @ ys" and "n = p + length xs"
  shows "drop n buf = ys"
  using assms by (metis add.commute append_eq_conv_conj drop_drop)

lemma hash_not_space: "35 \<notin> set space_bytes"
  by (simp add: space_bytes_def)

lemma skip_ft_comment:
  assumes buf: "drop pos buf = ws @ [35, 70, 84, 58] @ cm @ 10 # rest"
    and e: "pos + length ws + 4 + length cm < e"
    and ws: "\<forall>x \<in> set ws. x \<in> set space_bytes"
    and cm: "10 \<notin> set cm"
  shows "skip_whitespace cb buf (int pos) (int e) m =
    skip_whitespace cb buf (int (pos + length ws + 4 + length cm)) (int e)
      (cb (int (pos + length ws + 4)) (int (pos + length ws + 4 + length cm)) m)"
proof -
  let ?p = "pos + length ws" and ?q = "pos + length ws + 4 + length cm"
  have at_p: "drop ?p buf = ([35, 70, 84, 58] @ cm) @ 10 # rest"
    by (rule drop_shift [of pos buf ws]) (use buf in simp_all)
  have scan1: "scan is_space buf (int pos) (int e) = int ?p"
    using scan_run_until [of pos buf ws 35 "[70, 84, 58] @ cm @ 10 # rest" e is_space] buf e ws
    by (simp add: is_space_one hash_not_space)
  have scan2: "scan not_newline buf (int ?p) (int e) = int ?q"
  proof -
    have "\<forall>x \<in> set ([35, 70, 84, 58] @ cm). not_newline [x]"
      using cm by (auto simp: not_newline_def)
    then show ?thesis
      using scan_run_until [OF at_p, of e not_newline] e by (simp add: not_newline_def)
  qed
  have hash: "pyslice buf (int ?p) (int ?p + 1) = [35]"
    and tag: "pyslice buf (int ?p) (int ?p + 4) = [35, 70, 84, 58]"
    using at_p by (simp_all add: pyslice_numeral del: of_nat_add)
  show ?thesis
    using scan1 scan2 hash tag e
    by (subst skip_whitespace.simps) (simp add: Let_def)
qed

lemma read_number_skip:
  "skip_whitespace cb buf pos e m = skip_whitespace cb buf pos' e m' \<Longrightarrow>
     read_number cb buf pos e m = read_number cb buf pos' e m'"
  by (simp add: read_number_def)

lemma dec_bytes_no_newline: "10 \<notin> set (dec_bytes i)"
proof -
  have "\<not> is_digit [10]" by (simp add: is_digit_def word_le_nat_alt)
  then have "10 \<notin> set (digits10 n)" for n
    using digits10_digits by blast
  then show ?thesis by (simp add: dec_bytes_def)
qed

lemma not_digit_sep [simp]: "\<not> is_digit [10]" "\<not> is_digit [32]"
  by (simp_all add: is_digit_def word_le_nat_alt)

lemma sep_space [simp]: "10 \<in> set space_bytes" "32 \<in> set space_bytes"
  by (simp_all add: space_bytes_def)

lemma dec_255: "dec_bytes 255 = [50, 53, 53]"
  by (simp add: dec_bytes_def digits10.simps)

section \<open>Three offsets\<close>

lemma parse_offsets_printed:
  assumes buf: "drop pos buf = [32] @ dec_bytes x @ [32] @ dec_bytes y @ [32] @ dec_bytes z @ rest"
    and e: "e = pos + 3 + length (dec_bytes x) + length (dec_bytes y) + length (dec_bytes z)"
  shows "parse_offsets buf (int pos) (int e) m =
    m\<lparr>m_offset_x := x, m_offset_y := y, m_layer := z\<rparr>"
proof -
  let ?p1 = "pos + 1 + length (dec_bytes x)"
  let ?p2 = "?p1 + 1 + length (dec_bytes y)"
  have b1: "drop ?p1 buf = [32] @ dec_bytes y @ [32] @ dec_bytes z @ rest"
    by (rule drop_shift [of pos buf "[32] @ dec_bytes x"]) (use buf in simp_all)
  have b2: "drop ?p2 buf = [32] @ dec_bytes z @ rest"
    by (rule drop_shift [of ?p1 buf "[32] @ dec_bytes y"]) (use b1 in simp_all)
  have "read_number_plain buf (int pos) (int e) = (x, Some (int ?p1))"
    using read_number_plain_dec [OF buf, of e] e by simp
  moreover have "read_number_plain buf (int ?p1) (int e) = (y, Some (int ?p2))"
    using read_number_plain_dec [OF b1, of e] e by simp
  moreover have "read_number_plain buf (int ?p2) (int e) = (z, Some (int e))"
    using read_number_plain_dec [OF b2, of e] e by simp
  ultimately show ?thesis
    by (simp add: parse_offsets_def del: of_nat_add)
qed

section \<open>The printed header is read back\<close>

lemma header_read_back:
  assumes px: "int (length px) = w * h * 3"
  shows "read_image_data (header_P6_FT w h x y z @ px) m0 =
    (int (length (header_P6_FT w h x y z)),
     m0\<lparr>m_width := w, m_height := h, m_range := 255,
        m_offset_x := x, m_offset_y := y, m_layer := z\<rparr>)"
proof -
  let ?hd = "header_P6_FT w h x y z"
  define buf where "buf = ?hd @ px"
  let ?e = "length buf"
  let ?p1 = "3 + length (dec_bytes w)"
  let ?p2 = "?p1 + 1 + length (dec_bytes h)"
  let ?cm = "[32] @ dec_bytes x @ [32] @ dec_bytes y @ [32] @ dec_bytes z"
  let ?p3 = "?p2 + 5 + length ?cm"
  let ?p4 = "?p3 + 4"
  have b0: "drop 2 buf = [10] @ dec_bytes w @ [32] @ dec_bytes h @
      [10, 35, 70, 84, 58] @ ?cm @ [10, 50, 53, 53, 10] @ px"
    by (simp add: buf_def header_P6_FT_def)
  have b1: "drop ?p1 buf = [32] @ dec_bytes h @ [10, 35, 70, 84, 58] @ ?cm @ [10, 50, 53, 53, 10] @ px"
    by (rule drop_shift [of 2 buf "[10] @ dec_bytes w"]) (use b0 in simp_all)
  have b2: "drop ?p2 buf = [10] @ [35, 70, 84, 58] @ ?cm @ 10 # [50, 53, 53, 10] @ px"
    by (rule drop_shift [of ?p1 buf "[32] @ dec_bytes h"]) (use b1 in simp_all)
  have b2': "drop (?p2 + 5) buf = [32] @ dec_bytes x @ [32] @ dec_bytes y @ [32] @ dec_bytes z
      @ [10, 50, 53, 53, 10] @ px"
    by (rule drop_shift [of ?p2 buf "[10, 35, 70, 84, 58]"]) (use b2 in simp_all)
  have b3: "drop ?p3 buf = [10] @ dec_bytes 255 @ 10 # px"
    by (rule drop_shift [of "?p2 + 5" buf ?cm]) (use b2' in \<open>simp_all add: dec_255\<close>)
  have b4: "drop ?p4 buf = 10 # px"
    by (rule drop_shift [of ?p3 buf "[10] @ dec_bytes 255"]) (use b3 in \<open>simp_all add: dec_255\<close>)
  have len: "length ?hd = Suc ?p4" and e: "?e = Suc ?p4 + length px"
    by (simp_all add: buf_def header_P6_FT_def)
  let ?m3 = "m0\<lparr>m_offset_x := x, m_offset_y := y, m_layer := z\<rparr>"
  have n1: "read_number_meta buf 2 (int ?e) m0 = ((w, Some (int ?p1)), m0)"
    unfolding read_number_meta_def
    using read_number_dec [OF b0, of ?e "parse_offsets buf" m0] e by simp
  have n2: "read_number_meta buf (int ?p1) (int ?e) m0 = ((h, Some (int ?p2)), m0)"
    unfolding read_number_meta_def
    using read_number_dec [OF b1, of ?e "parse_offsets buf" m0] e by simp
  have offs: "parse_offsets buf (int (?p2 + 5)) (int ?p3) m0 = ?m3"
    by (rule parse_offsets_printed [OF b2']) simp
  have "skip_whitespace (parse_offsets buf) buf (int ?p2) (int ?e) m0 =
      skip_whitespace (parse_offsets buf) buf (int ?p3) (int ?e) ?m3"
    using skip_ft_comment [OF b2, of ?e "parse_offsets buf" m0] offs e
    by (simp add: dec_bytes_no_newline)
  then have "read_number_meta buf (int ?p2) (int ?e) m0
      = read_number_meta buf (int ?p3) (int ?e) ?m3"
    unfolding read_number_meta_def by (rule read_number_skip)
  moreover have "read_number_meta buf (int ?p3) (int ?e) ?m3 = ((255, Some (int ?p4)), ?m3)"
    unfolding read_number_meta_def
    using read_number_dec [OF b3, of ?e "parse_offsets buf" ?m3] e by (simp add: dec_255)
  ultimately have n3: "read_number_meta buf (int ?p2) (int ?e) m0 = ((255, Some (int ?p4)), ?m3)"
    by simp
  have nl: "pyslice buf (int ?p4) (int ?p4 + 1) = [10]"
    using b4 by (simp add: pyslice_numeral del: of_nat_add)
  have magic: "pyslice buf 0 2 = [80, 54]" "is_space (pyslice buf 2 3)"
    using pyslice_nat [of buf 0 2] pyslice_nat [of buf 2 3]
    by (simp_all add: buf_def header_P6_FT_def is_space_one)
  have big: "\<not> int ?e < 3" "\<not> int ?e \<le> int ?p4"
    using e by simp_all
  show ?thesis
    unfolding read_image_data_def Let_def buf_def [symmetric]
    using big magic n1 n2 n3 nl px e len
    by (simp add: is_space_one del: of_nat_add)
qed

section \<open>A client's frame on the server\<close>

lemma wf_client_data:
  assumes "wf_client c"
  obtains px where "c_data c = header_P6_FT (c_width c) (c_height c) 0 0 (c_layer c) @ px"
    and "int (length px) = c_width c * c_height c * 3"
proof -
  have "c_data c = take (c_header_len c) (c_data c) @ drop (c_header_len c) (c_data c)"
    by simp
  moreover have "int (length (drop (c_header_len c) (c_data c))) = c_width c * c_height c * 3"
    using assms by (simp add: wf_client_def)
  ultimately show thesis
    using assms that unfolding wf_client_def by metis
qed

lemma img_pixel_client:
  assumes "0 \<le> c_width c"
  shows "img_pixel (c_data c) (c_header_len c) (nat (c_width c)) y x = client_pixel c (int x) (int y)"
proof -
  have "pixel_offset c (int x) (int y) = c_header_len c + (y * nat (c_width c) + x) * 3"
    using assms by (simp add: pixel_offset_def nat_add_distrib nat_mult_distrib algebra_simps)
  then show ?thesis by (simp add: img_pixel_def client_pixel_def Let_def)
qed

lemma client_frame_lands:
  assumes wf: "wf_client c" and pos: "0 < c_width c" "0 < c_height c" and inv: "display_inv d"
  obtains d' where "apply_datagram d (c_data c) now = Inr d'"
    and "\<And>z x y. z < length (d_layers d) \<Longrightarrow> x < d_width d \<Longrightarrow> y < d_height d \<Longrightarrow>
      d_layers d' ! z ! y ! x =
        (if z = clamp_layer d (c_layer c) \<and> int x < c_width c \<and> int y < c_height c
         then client_pixel c (int x) (int y) else d_layers d ! z ! y ! x)"
proof -
  let ?start = "Meta (int (d_width d)) (int (d_height d))"
  let ?m = "?start\<lparr>m_width := c_width c, m_height := c_height c, m_range := 255,
              m_offset_x := 0, m_offset_y := 0, m_layer := c_layer c\<rparr>"
  obtain px where data: "c_data c = header_P6_FT (c_width c) (c_height c) 0 0 (c_layer c) @ px"
    and px: "int (length px) = c_width c * c_height c * 3"
    using wf by (rule wf_client_data)
  have hl: "c_header_len c = length (header_P6_FT (c_width c) (c_height c) 0 0 (c_layer c))"
    using wf by (simp add: wf_client_def)
  have hdr: "read_image_data (c_data c) ?start = (int (c_header_len c), ?m)"
    unfolding data hl by (rule header_read_back [OF px])
  have "int (length (c_data c)) = int (c_header_len c + nat (c_width c) * nat (c_height c) * 3)"
    unfolding data hl using px pos by simp
  then have len: "length (c_data c) = c_header_len c + nat (c_width c) * nat (c_height c) * 3"
    by (simp only: of_nat_eq_iff)
  show thesis
    by (rule apply_image [OF inv hdr _ _ _ _ len, of now])
      (use pos in \<open>auto intro!: that simp: img_pixel_client\<close>)
qed

text \<open>A stack whose higher layers are black at a pixel shows the layer below.\<close>

lemma shown_below:
  assumes "k < length (d_layers d)" and "d_layers d ! k ! y ! x \<noteq> black"
    and "\<And>z. k < z \<Longrightarrow> z < length (d_layers d) \<Longrightarrow> d_layers d ! z ! y ! x = black"
  shows "shown_pixel d x y = d_layers d ! k ! y ! x"
proof -
  have "top_layer d x y = k"
    unfolding top_layer_def
    by (rule Max_eqI) (use assms in \<open>auto simp: not_less intro: leI\<close>)
  then show ?thesis by (simp add: shown_pixel_def)
qed

section \<open>Properties\<close>

text \<open>
  C1. What a client draws is what the viewer sees: set a pixel, send the canvas, let the
  server apply the datagram that went out, and the flattened image has the drawn colour at
  that place, when no higher layer covers it.
\<close>

theorem drawn_pixel_is_shown:
  assumes wf: "wf_client c" and on: "on_canvas c (int x) (int y)" and col: "byte_color color"
    and net: "net (c_calls c) = SendOk"
    and inv: "display_inv d" and fits: "x < d_width d" "y < d_height d"
    and lit: "drawn_color c color \<noteq> black"
    and uncovered: "\<forall>z. clamp_layer d (c_layer c) < z \<and> z < length (d_layers d)
                      \<longrightarrow> d_layers d ! z ! y ! x = black"
  shows "\<exists>d'. apply_datagram d
           (last (c_wire (snd (client_send net (snd (client_set c (int x) (int y) color)))))) now
           = Inr d'
         \<and> snd (composite d') ! y ! x = drawn_color c color"
proof -
  let ?c = "snd (client_set c (int x) (int y) color)"
  have pos: "0 < c_width ?c" "0 < c_height ?c"
    using on by (auto simp: ft_frame on_canvas_def)
  obtain d' where d': "apply_datagram d (c_data ?c) now = Inr d'"
    and px: "\<And>z x y. z < length (d_layers d) \<Longrightarrow> x < d_width d \<Longrightarrow> y < d_height d \<Longrightarrow>
      d_layers d' ! z ! y ! x =
        (if z = clamp_layer d (c_layer ?c) \<and> int x < c_width ?c \<and> int y < c_height ?c
         then client_pixel ?c (int x) (int y) else d_layers d ! z ! y ! x)"
    using client_frame_lands [OF client_set_wf [OF wf col] pos inv] by metis
  let ?k = "clamp_layer d (c_layer c)"
  note dim = apply_frame [OF d']
  have k: "?k < length (d_layers d)" using inv by (rule clamp_layer_less)
  have here: "d_layers d' ! ?k ! y ! x = drawn_color c color"
    using px [OF k fits] on client_set_pixel_same [OF wf on col]
    by (simp add: ft_frame on_canvas_def)
  have "shown_pixel d' x y = d_layers d' ! ?k ! y ! x"
  proof (rule shown_below)
    show "d_layers d' ! z ! y ! x = black" if "?k < z" "z < length (d_layers d')" for z
      using px [of z x y] fits that uncovered dim by (simp add: ft_frame)
  qed (use here lit k dim in simp_all)
  then have "snd (composite d') ! y ! x = drawn_color c color"
    using composite_pixel [OF display_inv_apply [OF inv d']] fits dim here by simp
  moreover have "last (c_wire (snd (client_send net ?c))) = c_data ?c"
    unfolding client_send_def
    by (rule send_data_ok [of net ?c "c_data ?c"]) (use net in \<open>simp_all add: ft_frame\<close>)
  ultimately show ?thesis using d' by auto
qed

theorem drawn_pixel_is_shown_witness:
  "\<exists>d'. apply_datagram (Display 1 1 2 15)
      (last (c_wire (snd (client_send (\<lambda>_. SendOk)
         (snd (client_set (projr (Flaschen 1 1 1 False)) (int 0) (int 0) (7, 8, 9))))))) 3 = Inr d'
    \<and> snd (composite d') ! 0 ! 0 = (7, 8, 9)"
proof -
  let ?c = "projr (Flaschen 1 1 1 False)"
  have c: "Flaschen 1 1 1 False = Inr ?c"
    by (simp add: Flaschen_def Let_def)
  have fields: "c_width ?c = 1" "c_height ?c = 1" "c_layer ?c = 1" "\<not> c_transparent ?c"
    by (simp_all add: Flaschen_def Let_def)
  have wf: "wf_client ?c" using Flaschen_wf [OF c] by simp
  have col: "drawn_color ?c (7, 8, 9) = (7, 8, 9)" by (simp add: drawn_color_def)
  have top: "clamp_layer (Display 1 1 2 15) 1 = 1"
    by (simp add: clamp_layer_def Display_def)
  have "\<exists>d'. apply_datagram (Display 1 1 2 15)
      (last (c_wire (snd (client_send (\<lambda>_. SendOk)
         (snd (client_set ?c (int 0) (int 0) (7, 8, 9))))))) 3 = Inr d'
    \<and> snd (composite d') ! 0 ! 0 = drawn_color ?c (7, 8, 9)"
    by (rule drawn_pixel_is_shown)
      (use wf fields top in \<open>simp_all add: col on_canvas_def byte_color_def display_inv_init,
                     simp_all add: Display_def black_grid_def\<close>)
  then show ?thesis unfolding col .
qed

text \<open>
  A header with a negative width and a negative height passes the size check, because the
  check is on the product; the reshape that follows then raises out of \<open>apply\<close>.
\<close>

theorem negative_image_raises:
  assumes "w < 0" and "h < 0" and "int (length px) = w * h * 3"
  shows "apply_datagram d (header_P6_FT w h x y z @ px) now = Inl ReshapeError"
proof -
  have "\<not> w * h * 3 \<le> 0" using mult_neg_neg [OF assms(1,2)] by linarith
  then show ?thesis
    unfolding apply_datagram_def header_read_back [OF assms(3)]
    using assms by (simp add: Let_def del: mult_le_0_iff)
qed

theorem negative_image_raises_witness:
  "apply_datagram (Display 2 2 16 15) (header_P6_FT (- 1) (- 1) 0 0 0 @ [1, 2, 3]) 0
     = Inl ReshapeError"
  by (rule negative_image_raises) simp_all

end
