(* ===== verification/FT_Banded.thy ===== *)
theory FT_Banded
  imports FT_Wire
begin

text \<open>
  A frame sent as an array, whole (\<open>send_array\<close>) or in bands of rows
  (\<open>send_array_banded\<close>) by \<open>src/api/python/flaschen.py\<close>, and what the web display makes of
  the datagrams: both leave the same layers.
\<close>

section \<open>The bytes of a band\<close>

text \<open>The bytes of an array as they are sent.\<close>

definition sent_bytes :: "bool \<Rightarrow> byte list \<Rightarrow> byte list" where
  "sent_bytes transparent bs = (if transparent then bs else blacks_to_ones bs)"

lemma length_blacks_to_ones [simp]: "length (blacks_to_ones bs) = length bs"
  by (induction bs rule: blacks_to_ones.induct) auto

lemma blacks_to_ones_append:
  "length xs mod 3 = 0 \<Longrightarrow> blacks_to_ones (xs @ ys) = blacks_to_ones xs @ blacks_to_ones ys"
proof (induction xs rule: blacks_to_ones.induct)
  case (1 r g b rest)
  then show ?case by (simp add: mod_Suc split: if_split_asm)
qed (simp_all add: mod_Suc)

lemma length_sent_bytes [simp]: "length (sent_bytes tr bs) = length bs"
  by (simp add: sent_bytes_def)

lemma sent_bytes_append:
  "length xs mod 3 = 0 \<Longrightarrow> sent_bytes tr (xs @ ys) = sent_bytes tr xs @ sent_bytes tr ys"
  by (simp add: sent_bytes_def blacks_to_ones_append)

text \<open>Black pixels are changed one by one, so cutting at a row boundary commutes with it.\<close>

lemma sent_bytes_slice:
  assumes "k mod 3 = 0" and "n mod 3 = 0" and "k + n \<le> length bs"
  shows "sent_bytes tr (take n (drop k bs)) = take n (drop k (sent_bytes tr bs))"
proof -
  let ?a = "take k bs" and ?b = "take n (drop k bs)" and ?c = "drop (k + n) bs"
  have "bs = ?a @ ?b @ ?c" by (metis add.commute append_take_drop_id drop_drop)
  then have "sent_bytes tr bs = sent_bytes tr (?a @ ?b @ ?c)" by simp
  also have "\<dots> = sent_bytes tr ?a @ sent_bytes tr ?b @ sent_bytes tr ?c"
    using assms by (simp add: sent_bytes_append)
  finally show ?thesis using assms by simp
qed

section \<open>The datagrams\<close>

definition image :: "nat \<Rightarrow> nat \<Rightarrow> byte list \<Rightarrow> ndarray" where
  "image h w bs = \<lparr>nd_shape = [h, w, 3], nd_bytes = bs\<rparr>"

definition datagram :: "nat \<Rightarrow> nat \<Rightarrow> int \<times> int \<times> int \<Rightarrow> byte list \<Rightarrow> byte list" where
  "datagram h w off bs = (case off of (x, y, z) \<Rightarrow> header_P6_FT (int w) (int h) x y z @ bs)"

definition band_rows_at :: "nat \<Rightarrow> nat \<Rightarrow> nat \<Rightarrow> nat" where
  "band_rows_at h rows lo = min (lo + rows) h - lo"

definition band :: "nat \<Rightarrow> nat \<Rightarrow> int \<times> int \<times> int \<Rightarrow> byte list \<Rightarrow> nat \<Rightarrow> nat \<Rightarrow> byte list" where
  "band h w off bs rows lo =
     (case off of (x, y, z) \<Rightarrow>
        datagram (band_rows_at h rows lo) w (x, y + int lo, z)
          (take (band_rows_at h rows lo * w * 3) (drop (lo * w * 3) bs)))"

lemma send_array_ok:
  assumes "\<forall>n. net n = SendOk"
  obtains c' where "send_array net c (image h w bs) off = (None, c')"
    and "c_wire c' = c_wire c @ [datagram h w off (sent_bytes (c_transparent c) bs)]"
    and "c_transparent c' = c_transparent c"
proof -
  obtain x y z where off: "off = (x, y, z)" by (cases off)
  let ?dg = "header_P6_FT (int w) (int h) x y z @ sent_bytes (c_transparent c) bs"
  obtain c' where "send_data net c ?dg = (None, c')" "c_wire c' = c_wire c @ [?dg]"
    "c_transparent c' = c_transparent c"
    using send_data_ok [of net c ?dg] assms by metis
  moreover have "send_array net c (image h w bs) off = send_data net c ?dg"
    by (simp add: send_array_def image_def sent_bytes_def off)
  ultimately show thesis using that [of c'] by (simp add: datagram_def off)
qed

lemma row_slice_image:
  "row_slice (image h w bs) lo rows =
     image (band_rows_at h rows lo) w (take (band_rows_at h rows lo * w * 3) (drop (lo * w * 3) bs))"
  by (simp add: row_slice_def image_def band_rows_at_def Let_def mult.assoc)

lemma band_fits: "(k * w * 3 :: nat) mod 3 = 0"
  by simp

lemma send_bands_ok:
  assumes "\<forall>n. net n = SendOk" and len: "length bs = h * w * 3" and "\<forall>lo \<in> set los. lo < h"
  shows "\<exists>c'. send_bands net c (image h w bs) off rows los = (None, c')
    \<and> c_wire c' = c_wire c @ map (band h w off (sent_bytes (c_transparent c) bs) rows) los"
  using assms(3)
proof (induction los arbitrary: c)
  case Nil
  then show ?case by simp
next
  case (Cons lo los)
  obtain x y z where off: "off = (x, y, z)" by (cases off)
  let ?n = "band_rows_at h rows lo"
  have "lo + ?n \<le> h" using Cons.prems by (simp add: band_rows_at_def min_def)
  then have "(lo + ?n) * (w * 3) \<le> h * (w * 3)" by (rule mult_le_mono1)
  then have room: "lo * w * 3 + ?n * w * 3 \<le> length bs" by (simp add: len algebra_simps)
  obtain c1 where c1: "send_array net c (row_slice (image h w bs) lo rows) (x, y + int lo, z) = (None, c1)"
    "c_wire c1 = c_wire c @ [band h w off (sent_bytes (c_transparent c) bs) rows lo]"
    "c_transparent c1 = c_transparent c"
    using send_array_ok [OF assms(1), of c ?n w "take (?n * w * 3) (drop (lo * w * 3) bs)" "(x, y + int lo, z)"]
    unfolding row_slice_image sent_bytes_slice [OF band_fits band_fits room] band_def off prod.case
    by metis
  show ?case
    using Cons.IH [of c1] Cons.prems c1 by (simp add: off)
qed

lemma range_step_less: "lo \<in> set (range_step i n k) \<Longrightarrow> i \<le> lo \<and> lo < n"
proof (induction i n k rule: range_step.induct)
  case (1 i n k)
  then show ?case
    by (subst (asm) (2) range_step.simps) (auto split: if_split_asm)
qed

section \<open>What one datagram does\<close>

text \<open>The pixel of row \<open>r\<close> and column \<open>c\<close> in rows of width \<open>w\<close>.\<close>

definition byte_pixel :: "byte list \<Rightarrow> nat \<Rightarrow> nat \<Rightarrow> nat \<Rightarrow> pixel" where
  "byte_pixel bs w r c = (let o' = (r * w + c) * 3 in (bs ! o', bs ! (o' + 1), bs ! (o' + 2)))"

text \<open>A layer stack after the rows \<open>[lo, hi)\<close> of an image have been put on it.\<close>

definition painted ::
  "display \<Rightarrow> display \<Rightarrow> nat \<Rightarrow> int \<times> int \<times> int \<Rightarrow> byte list \<Rightarrow> nat \<Rightarrow> nat \<Rightarrow> bool" where
  "painted d d' w off bs lo hi \<longleftrightarrow>
     (case off of (x0, y0, z0) \<Rightarrow>
       d_width d' = d_width d \<and> d_height d' = d_height d \<and> length (d_layers d') = length (d_layers d)
       \<and> (\<forall>z < length (d_layers d). \<forall>x < d_width d. \<forall>y < d_height d.
            d_layers d' ! z ! y ! x =
              (if z = clamp_layer d z0 \<and> x0 \<le> int x \<and> int x < x0 + int w
                  \<and> y0 + int lo \<le> int y \<and> int y < y0 + int hi
               then byte_pixel bs w (nat (int y - y0)) (nat (int x - x0))
               else d_layers d ! z ! y ! x)))"

lemma img_pixel_skip: "img_pixel (hd' @ bs) (length hd') w r c = byte_pixel bs w r c"
  by (simp add: img_pixel_def byte_pixel_def nth_append Let_def)

lemma byte_pixel_slice:
  assumes "r < n" and "c < w" and "lo * w * 3 \<le> length bs"
  shows "byte_pixel (take (n * w * 3) (drop (lo * w * 3) bs)) w r c = byte_pixel bs w (lo + r) c"
proof -
  have "(r * w + c) + 1 \<le> n * w"
  proof -
    have "(r + 1) * w \<le> n * w" using assms(1) by (intro mult_le_mono1) simp
    then show ?thesis using assms(2) by simp
  qed
  then obtain k where "n * w = (r * w + c) + 1 + k" using le_Suc_ex by blast
  then have "(r * w + c) * 3 + 2 < n * w * 3" by simp
  then have nth: "take (n * w * 3) (drop (lo * w * 3) bs) ! ((r * w + c) * 3 + j)
      = bs ! (((lo + r) * w + c) * 3 + j)" if "j \<le> 2" for j
    using that assms(3) by (simp add: algebra_simps)
  show ?thesis
    using nth [of 0] nth [of 1] nth [of 2] by (simp only: byte_pixel_def Let_def add_0_right)
qed

lemma clamp_layer_same: "length (d_layers d') = length (d_layers d) \<Longrightarrow> clamp_layer d' z = clamp_layer d z"
  by (simp add: clamp_layer_def)

lemma band_applied:
  assumes inv: "display_inv d" and w: "0 < w" and lo: "lo < h" and rows: "0 < rows"
    and len: "length bs = h * w * 3"
  obtains d' where "apply_datagram d (band h w off bs rows lo) now = Inr d'"
    and "painted d d' w off bs lo (min (lo + rows) h)"
proof -
  obtain x0 y0 z0 where off: "off = (x0, y0, z0)" by (cases off)
  let ?n = "band_rows_at h rows lo"
  let ?px = "take (?n * w * 3) (drop (lo * w * 3) bs)"
  let ?hd = "header_P6_FT (int w) (int ?n) x0 (y0 + int lo) z0"
  let ?start = "Meta (int (d_width d)) (int (d_height d))"
  let ?m = "?start\<lparr>m_width := int w, m_height := int ?n, m_range := 255,
              m_offset_x := x0, m_offset_y := y0 + int lo, m_layer := z0\<rparr>"
  have n: "0 < ?n" "lo + ?n = min (lo + rows) h" using lo rows by (simp_all add: band_rows_at_def min_def)
  have "lo + ?n \<le> h" using n(2) by simp
  then have "(lo + ?n) * (w * 3) \<le> h * (w * 3)" by (rule mult_le_mono1)
  then have px: "length ?px = ?n * w * 3" by (simp add: len algebra_simps)
  have buf: "band h w off bs rows lo = ?hd @ ?px" by (simp add: band_def datagram_def off)
  have "int (length ?px) = int w * int ?n * 3" unfolding px by (simp add: algebra_simps)
  then have hdr: "read_image_data (?hd @ ?px) ?start = (int (length ?hd), ?m)"
    by (rule header_read_back)
  have total: "length (?hd @ ?px) = length ?hd + w * ?n * 3" using px by (simp add: algebra_simps)
  obtain d' where d': "apply_datagram d (?hd @ ?px) now = Inr d'"
    and eff: "\<And>z x y. z < length (d_layers d) \<Longrightarrow> x < d_width d \<Longrightarrow> y < d_height d \<Longrightarrow>
      d_layers d' ! z ! y ! x =
        (if z = clamp_layer d (m_layer ?m)
            \<and> m_offset_x ?m \<le> int x \<and> int x < m_offset_x ?m + int w
            \<and> m_offset_y ?m \<le> int y \<and> int y < m_offset_y ?m + int ?n
         then img_pixel (?hd @ ?px) (length ?hd) w (nat (int y - m_offset_y ?m)) (nat (int x - m_offset_x ?m))
         else d_layers d ! z ! y ! x)"
    by (rule apply_image [OF inv hdr _ _ w n(1) total, of now]) (auto simp: n)
  have "painted d d' w off bs lo (min (lo + rows) h)"
    unfolding painted_def off prod.case n(2) [symmetric]
  proof (intro conjI allI impI)
    fix z x y assume zxy: "z < length (d_layers d)" "x < d_width d" "y < d_height d"
    have "byte_pixel ?px w (nat (int y - (y0 + int lo))) (nat (int x - x0))
        = byte_pixel bs w (nat (int y - y0)) (nat (int x - x0))"
      if "y0 + int lo \<le> int y" "int y < y0 + int lo + int ?n" "x0 \<le> int x" "int x < x0 + int w"
    proof -
      have "nat (int y - y0) = lo + nat (int y - (y0 + int lo))" using that by simp
      moreover have "lo * (w * 3) \<le> h * (w * 3)" using lo by (intro mult_le_mono1) simp
      then have "lo * w * 3 \<le> length bs" by (simp add: len mult.assoc)
      then have "byte_pixel ?px w (nat (int y - (y0 + int lo))) (nat (int x - x0))
          = byte_pixel bs w (lo + nat (int y - (y0 + int lo))) (nat (int x - x0))"
        using that by (intro byte_pixel_slice) (simp_all add: nat_less_iff)
      ultimately show ?thesis by simp
    qed
    then show "d_layers d' ! z ! y ! x =
        (if z = clamp_layer d z0 \<and> x0 \<le> int x \<and> int x < x0 + int w
            \<and> y0 + int lo \<le> int y \<and> int y < y0 + int (lo + ?n)
         then byte_pixel bs w (nat (int y - y0)) (nat (int x - x0)) else d_layers d ! z ! y ! x)"
      using eff [OF zxy] by (simp add: img_pixel_skip add.assoc)
  qed (use apply_frame [OF d'] in simp_all)
  with d' show thesis by (intro that) (simp_all add: buf)
qed

section \<open>A sequence of bands\<close>

fun apply_all :: "display \<Rightarrow> byte list list \<Rightarrow> rat \<Rightarrow> apply_error + display" where
  "apply_all d [] now = Inr d"
| "apply_all d (buf # bufs) now = bindE (apply_datagram d buf now) (\<lambda>d'. apply_all d' bufs now)"

lemma painted_refl: "h \<le> lo \<Longrightarrow> painted d d w off bs lo h"
  by (auto simp: painted_def split: prod.split)

lemma painted_trans:
  assumes "painted d d1 w off bs lo mid" and "painted d1 d2 w off bs mid hi" and "lo \<le> mid" and "mid \<le> hi"
  shows "painted d d2 w off bs lo hi"
  using assms by (auto simp: painted_def clamp_layer_same [of d1 d] split: prod.split_asm)

lemma bands_applied:
  assumes "display_inv d" and "0 < w" and "0 < rows" and "length bs = h * w * 3" and "lo \<le> h"
  shows "\<exists>d'. apply_all d (map (band h w off bs rows) (range_step lo h rows)) now = Inr d'
    \<and> painted d d' w off bs lo h"
  using assms
proof (induction "h - lo" arbitrary: lo d rule: less_induct)
  case less
  show ?case
  proof (cases "lo < h")
    case True
    obtain d1 where d1: "apply_datagram d (band h w off bs rows lo) now = Inr d1"
      "painted d d1 w off bs lo (min (lo + rows) h)"
      using band_applied [OF less.prems(1,2) True less.prems(3,4)] by metis
    have inv1: "display_inv d1" using display_inv_apply [OF less.prems(1) d1(1)] .
    let ?mid = "min (lo + rows) h"
    have same: "range_step (lo + rows) h rows = range_step ?mid h rows"
    proof (cases "lo + rows \<le> h")
      case False
      then show ?thesis by (simp add: range_step.simps [of "lo + rows"] range_step.simps [of h])
    qed (simp add: min_def)
    obtain d2 where d2: "apply_all d1 (map (band h w off bs rows) (range_step ?mid h rows)) now = Inr d2"
      "painted d1 d2 w off bs ?mid h"
    proof -
      have "h - ?mid < h - lo" using True less.prems(3) by (auto simp: min_def)
      then show thesis using less.hyps [of ?mid d1] less.prems inv1 that by auto
    qed
    have "painted d d2 w off bs lo h"
      by (rule painted_trans [OF d1(2) d2(2)]) (use True in simp_all)
    then show ?thesis
      using d1 d2 True less.prems(3) by (simp add: range_step.simps [of lo] same)
  next
    case False
    then have "range_step lo h rows = []" "h \<le> lo"
      by (subst range_step.simps, simp) (use False in simp)
    then show ?thesis by (simp add: painted_refl)
  qed
qed

lemma painted_same_layers:
  assumes "painted d d1 w off bs lo hi" and "painted d d2 w off bs lo hi"
    and "display_inv d1" and "display_inv d2"
  shows "d_layers d1 = d_layers d2"
proof (rule nth_equalityI)
  show "length (d_layers d1) = length (d_layers d2)"
    using assms(1,2) by (auto simp: painted_def split: prod.split_asm)
  fix z assume z: "z < length (d_layers d1)"
  have dims: "d_width d1 = d_width d2" "d_height d1 = d_height d2" "d_width d1 = d_width d"
    "d_height d1 = d_height d" "length (d_layers d1) = length (d_layers d)" "length (d_layers d2) = length (d_layers d)"
    using assms(1,2) by (auto simp: painted_def split: prod.split_asm)
  have "wf_grid (d_width d) (d_height d) (d_layers d1 ! z)" "wf_grid (d_width d) (d_height d) (d_layers d2 ! z)"
    using assms(3,4) z dims by (simp_all add: display_inv_def)
  moreover have "d_layers d1 ! z ! y ! x = d_layers d2 ! z ! y ! x" if "x < d_width d" "y < d_height d" for x y
    using assms(1,2) that z dims by (simp add: painted_def split: prod.split_asm)
  ultimately show "d_layers d1 ! z = d_layers d2 ! z"
    by (intro nth_equalityI) (auto simp: wf_grid_def)
qed

lemma apply_all_inv: "display_inv d \<Longrightarrow> apply_all d bufs now = Inr d' \<Longrightarrow> display_inv d'"
  by (induction bufs arbitrary: d) (auto elim!: bindE_E intro: display_inv_apply)

lemma band_whole: "length bs = h * w * 3 \<Longrightarrow> band h w off bs h 0 = datagram h w off bs"
  by (simp add: band_def band_rows_at_def split: prod.split)

section \<open>Properties\<close>

text \<open>
  C21. Banding is invisible: an RGB array sent in bands of any positive number of rows leaves
  every layer of the display exactly as the same array sent in one datagram, wherever it is
  placed, clipped or not, and no band makes the server fail.
\<close>

theorem banding_is_invisible:
  assumes "\<forall>n. net n = SendOk" and "display_inv d"
    and "0 < w" and "0 < h" and "length bs = h * w * 3" and "0 < rows"
  shows "\<exists>d1 d2.
      apply_all d (drop (length (c_wire c)) (c_wire (snd (send_array net c (image h w bs) off)))) now = Inr d1
    \<and> apply_all d (drop (length (c_wire c))
        (c_wire (snd (send_array_banded net c (image h w bs) off (int rows))))) now = Inr d2
    \<and> d_layers d1 = d_layers d2"
proof -
  let ?bs = "sent_bytes (c_transparent c) bs"
  have len: "length ?bs = h * w * 3" using assms(5) by simp
  have one: "drop (length (c_wire c)) (c_wire (snd (send_array net c (image h w bs) off)))
      = map (band h w off ?bs h) [0]"
    using send_array_ok [OF assms(1), of c h w bs off] by (metis append_eq_conv_conj band_whole len list.simps(8,9) snd_conv)
  have "\<forall>lo \<in> set (range_step 0 h rows). lo < h" using range_step_less by blast
  then have many: "drop (length (c_wire c))
        (c_wire (snd (send_array_banded net c (image h w bs) off (int rows))))
      = map (band h w off ?bs rows) (range_step 0 h rows)"
    using send_bands_ok [OF assms(1,5), of "range_step 0 h rows" c off rows] assms(6)
    by (auto simp: send_array_banded_def image_def)
  have "range_step 0 h h = [0]"
    using assms(4) by (simp add: range_step.simps [of 0] range_step.simps [of h])
  then obtain d1 where d1: "apply_all d (map (band h w off ?bs h) [0]) now = Inr d1"
    "painted d d1 w off ?bs 0 h"
    using bands_applied [OF assms(2,3,4) len, of 0 off now] by auto
  obtain d2 where d2: "apply_all d (map (band h w off ?bs rows) (range_step 0 h rows)) now = Inr d2"
    "painted d d2 w off ?bs 0 h"
    using bands_applied [OF assms(2,3,6) len, of 0 off now] by auto
  have "d_layers d1 = d_layers d2"
    by (rule painted_same_layers [OF d1(2) d2(2)]) (use apply_all_inv assms(2) d1 d2 in blast)+
  then show ?thesis unfolding one many using d1 d2 by blast
qed

theorem banding_is_invisible_witness:
  "\<exists>d1 d2.
      apply_all (Display 2 2 16 15) (drop (length (c_wire canvas_2x1)) (c_wire (snd (send_array (\<lambda>_. SendOk)
        canvas_2x1 (image 3 1 [1, 2, 3, 4, 5, 6, 7, 8, 9]) (1, - 1, 4))))) 0 = Inr d1
    \<and> apply_all (Display 2 2 16 15) (drop (length (c_wire canvas_2x1)) (c_wire (snd (send_array_banded (\<lambda>_. SendOk)
        canvas_2x1 (image 3 1 [1, 2, 3, 4, 5, 6, 7, 8, 9]) (1, - 1, 4) (int 2))))) 0 = Inr d2
    \<and> d_layers d1 = d_layers d2"
  by (rule banding_is_invisible) (simp_all add: display_inv_init)

end
