(* ===== verification/FT_WebSocket.thy ===== *)
theory FT_WebSocket
  imports FT_Prelude
begin

text \<open>
  The WebSocket side of \<open>src/tools/ft-web/ft-web-server.py\<close>: \<open>ws_frame\<close>, the browser
  \<open>Client\<close> with its frame-dropping \<open>send\<close>, the \<open>Hub\<close> that broadcasts, and the read loop.
  The socket's answers are parameters; the read side is the byte stream up to its end, with
  a flag that says whether the end is an \<open>OSError\<close> rather than end of file.
\<close>

unbundle bit_operations_syntax

section \<open>Framing\<close>

text \<open>Big-endian integers, as \<open>struct.pack("!H" / "!Q")\<close> writes them.\<close>

primrec be_bytes :: "nat \<Rightarrow> nat \<Rightarrow> byte list" where
  "be_bytes 0 n = []"
| "be_bytes (Suc k) n = be_bytes k (n div 256) @ [of_nat (n mod 256)]"

definition be_val :: "byte list \<Rightarrow> nat" where
  "be_val bs = foldl (\<lambda>acc b. 256 * acc + unat b) 0 bs"

definition ws_frame :: "byte list \<Rightarrow> byte \<Rightarrow> byte list" where
  "ws_frame payload opcode =
     (let n = length payload;
          head = (if n < 126 then [0x80 OR opcode, of_nat n]
                  else if n \<le> 0xFFFF then [0x80 OR opcode, 126] @ be_bytes 2 n
                  else [0x80 OR opcode, 127] @ be_bytes 8 n)
      in head @ payload)"

section \<open>Clients and the hub\<close>

record ws_client =
  wc_alive :: bool
  wc_locked :: bool
  wc_sent :: nat
  wc_skipped :: nat
  wc_out :: "byte list list"

definition new_ws_client :: ws_client where
  "new_ws_client = \<lparr>wc_alive = True, wc_locked = False, wc_sent = 0, wc_skipped = 0, wc_out = []\<rparr>"

text \<open>
  \<open>ok\<close> is whether \<open>sendall\<close> succeeds; \<open>wc_locked\<close> whether another send is in flight, so
  that \<open>lock.acquire(False)\<close> fails.
\<close>

definition ws_client_send :: "bool \<Rightarrow> ws_client \<Rightarrow> byte list \<Rightarrow> byte \<Rightarrow> bool \<times> ws_client" where
  "ws_client_send ok c payload opcode =
     (if \<not> wc_alive c then (False, c)
      else if wc_locked c then (False, c\<lparr>wc_skipped := Suc (wc_skipped c)\<rparr>)
      else if ok then
        (True, c\<lparr>wc_sent := Suc (wc_sent c), wc_out := wc_out c @ [ws_frame payload opcode]\<rparr>)
      else (False, c\<lparr>wc_alive := False\<rparr>))"

definition ws_client_close :: "ws_client \<Rightarrow> ws_client" where
  "ws_client_close c = c\<lparr>wc_alive := False\<rparr>"

text \<open>The hub: the registered identities in registration order, and every client's state.\<close>

record hub =
  h_clients :: "nat list"
  h_state :: "nat \<Rightarrow> ws_client"

definition hub_add :: "nat \<Rightarrow> hub \<Rightarrow> hub" where
  "hub_add i h = h\<lparr>h_clients := (if i \<in> set (h_clients h) then h_clients h else h_clients h @ [i])\<rparr>"

definition hub_remove :: "nat \<Rightarrow> hub \<Rightarrow> hub" where
  "hub_remove i h = h\<lparr>h_clients := filter (\<lambda>j. j \<noteq> i) (h_clients h)\<rparr>"

definition hub_count :: "hub \<Rightarrow> nat" where
  "hub_count h = length (h_clients h)"

definition hub_send :: "(nat \<Rightarrow> bool) \<Rightarrow> byte list \<Rightarrow> byte \<Rightarrow> nat \<Rightarrow> hub \<Rightarrow> hub" where
  "hub_send ok payload opcode i h =
     h\<lparr>h_state := (h_state h)(i := snd (ws_client_send (ok i) (h_state h i) payload opcode))\<rparr>"

definition hub_broadcast :: "(nat \<Rightarrow> bool) \<Rightarrow> hub \<Rightarrow> byte list \<Rightarrow> byte \<Rightarrow> hub" where
  "hub_broadcast ok h payload opcode =
     (let targets = h_clients h;
          h1 = fold (hub_send ok payload opcode) targets h;
          dead = filter (\<lambda>i. \<not> wc_alive (h_state h1 i)) targets
      in fold hub_remove dead h1)"

section \<open>Reading frames\<close>

datatype ws_event =
    WsEof \<comment> \<open>no header: the peer closed the connection\<close>
  | WsTruncated \<comment> \<open>end of stream inside a frame\<close>
  | WsStopped \<comment> \<open>the client was marked dead by another thread\<close>
  | WsError \<comment> \<open>the read raised \<open>OSError\<close>\<close>
  | WsClose nat "byte list" \<comment> \<open>opcode 8, with its code and reason\<close>
  | WsPing "byte list" \<comment> \<open>opcode 9, answered with its body\<close>
  | WsIgnored byte "byte list"

definition recv_exact :: "nat \<Rightarrow> byte list \<Rightarrow> (byte list \<times> byte list) option" where
  "recv_exact n s = (if n \<le> length s then Some (take n s, drop n s) else None)"

definition unmask :: "byte list \<Rightarrow> byte list \<Rightarrow> byte list" where
  "unmask key body = map (\<lambda>i. body ! i XOR key ! (i mod 4)) [0..<length body]"

definition ws_classify :: "byte \<Rightarrow> byte list \<Rightarrow> ws_event" where
  "ws_classify opcode body =
     (if opcode = 0x8 then
        WsClose (if 2 \<le> length body then be_val (take 2 body) else 0) (drop 2 body)
      else if opcode = 0x9 then WsPing body
      else WsIgnored opcode body)"

text \<open>One turn of the loop; \<open>broken\<close> is what a read past the end of the stream means.\<close>

definition ws_read_frame :: "bool \<Rightarrow> byte list \<Rightarrow> ws_event \<times> byte list" where
  "ws_read_frame os_error s =
     (let broken = (if os_error then WsError else WsTruncated) in
      case recv_exact 2 s of
        None \<Rightarrow> (if os_error then WsError else WsEof, [])
      | Some (hd', s1) \<Rightarrow>
          let opcode = hd' ! 0 AND 0x0F;
              masked = (hd' ! 1 AND 0x80 \<noteq> 0);
              len7 = unat (hd' ! 1 AND 0x7F)
          in case (if len7 = 126 then map_option (\<lambda>(b, r). (be_val b, r)) (recv_exact 2 s1)
                   else if len7 = 127 then map_option (\<lambda>(b, r). (be_val b, r)) (recv_exact 8 s1)
                   else Some (len7, s1)) of
               None \<Rightarrow> (broken, [])
             | Some (len, s2) \<Rightarrow>
                (case (if masked then map_option (\<lambda>(k, r). (Some k, r)) (recv_exact 4 s2)
                       else Some (None, s2)) of
                   None \<Rightarrow> (broken, [])
                 | Some (key, s3) \<Rightarrow>
                    (case recv_exact len s3 of
                       None \<Rightarrow> (broken, [])
                     | Some (body, s4) \<Rightarrow>
                        (ws_classify opcode (case key of None \<Rightarrow> body | Some k \<Rightarrow> unmask k body), s4))))"

text \<open>
  The whole loop: the pongs to send, in order. \<open>alive n\<close> is whether the client is still
  alive before the n-th turn (a failed pong or the broadcaster can end it). Every turn that
  goes on has consumed at least the two header bytes, so the stream length is a measure.
\<close>

lemma recv_exact_shorter:
  "recv_exact n s = Some (b, r) \<Longrightarrow> length s = n + length r"
  by (auto simp: recv_exact_def split: if_splits)

lemma ws_classify_cases: "ws_classify opc b \<noteq> WsEof" "ws_classify opc b \<noteq> WsTruncated"
  "ws_classify opc b \<noteq> WsError"
  by (auto simp: ws_classify_def)

lemma ws_read_frame_shorter:
  "ws_read_frame f s = (ev, s') \<Longrightarrow> ev \<noteq> WsEof \<Longrightarrow> ev \<noteq> WsTruncated \<Longrightarrow> ev \<noteq> WsError
     \<Longrightarrow> length s' < length s"
  unfolding ws_read_frame_def Let_def
  by (auto simp: ws_classify_cases dest!: recv_exact_shorter split: option.splits if_splits prod.splits)

function ws_read_loop :: "(nat \<Rightarrow> bool) \<Rightarrow> nat \<Rightarrow> bool \<Rightarrow> byte list \<Rightarrow> byte list list \<times> ws_event" where
  "ws_read_loop alive n os_error s =
     (if \<not> alive n then ([], WsStopped)
      else case ws_read_frame os_error s of
        (WsPing body, s') \<Rightarrow>
          (let (pongs, ev) = ws_read_loop alive (Suc n) os_error s' in (body # pongs, ev))
      | (WsIgnored opc body, s') \<Rightarrow> ws_read_loop alive (Suc n) os_error s'
      | (ev, _) \<Rightarrow> ([], ev))"
  by pat_completeness auto
termination
  by (relation "measure (\<lambda>(alive, n, f, s). length s)") (auto dest!: ws_read_frame_shorter [OF sym])

declare ws_read_loop.simps [simp del]

section \<open>Round trips\<close>

lemma length_be_bytes [simp]: "length (be_bytes k n) = k"
  by (induction k arbitrary: n) auto

lemma be_val_snoc: "be_val (bs @ [b]) = 256 * be_val bs + unat b"
  by (simp add: be_val_def)

lemma be_val_be_bytes: "be_val (be_bytes k n) = n mod 256 ^ k"
proof (induction k arbitrary: n)
  case 0
  then show ?case by (simp add: be_val_def)
next
  case (Suc k)
  have "unat (of_nat (n mod 256) :: byte) = n mod 256"
    by (simp add: unat_of_nat take_bit_eq_mod)
  then show ?case
    using Suc by (simp add: be_val_snoc mod_mult2_eq)
qed

lemma recv_exact_append: "length xs = n \<Longrightarrow> recv_exact n (xs @ ys) = Some (xs, ys)"
  by (simp add: recv_exact_def)

lemma unmask_unmask: "unmask key (unmask key body) = body"
  by (rule nth_equalityI) (simp_all add: unmask_def xor.assoc)

lemma length_unmask [simp]: "length (unmask key body) = length body"
  by (simp add: unmask_def)

lemma unat_low7: "n < 128 \<Longrightarrow> unat ((of_nat n :: byte) AND 0x7F) = n"
proof -
  assume n: "n < 128"
  have "(0x7F :: byte) = mask 7" by (simp add: mask_eq_exp_minus_1)
  then have "(of_nat n :: byte) AND 0x7F = take_bit 7 (of_nat n)"
    by (simp only: take_bit_eq_mask)
  then have "unat ((of_nat n :: byte) AND 0x7F) = take_bit 7 (unat (of_nat n :: byte))"
    by (simp only: unsigned_take_bit_eq)
  with n show ?thesis
    by (simp add: unat_of_nat take_bit_eq_mod)
qed

lemma high_bit_clear: "n < 128 \<Longrightarrow> (of_nat n :: byte) AND 0x80 = 0"
proof -
  assume n: "n < 128"
  have "\<not> bit (of_nat n :: byte) 7"
    using n bit_word_of_int_iff [where k = "int n" and n = 7 and 'a = 8]
    by (simp add: bit_iff_odd [of "int n"])
  then have "(of_nat n :: byte) AND 2 ^ 7 = 0"
    by (rule and_exp_eq_0_iff_not_bit [THEN iffD2])
  then show ?thesis by simp
qed

lemma opcode_back: "(op AND 0x0F :: byte) = op \<Longrightarrow> (0x80 OR op) AND 0x0F = op"
  by (simp add: bit.conj_disj_distrib2)

text \<open>The reader takes a frame that \<open>ws_frame\<close> made apart again and leaves the rest.\<close>

lemma read_ws_frame:
  assumes op: "(op AND 0x0F :: byte) = op" and len: "length payload < 2 ^ 64"
  shows "ws_read_frame f (ws_frame payload op @ rest) = (ws_classify op payload, rest)"
proof -
  let ?n = "length payload"
  consider "?n < 126" | "126 \<le> ?n" "?n \<le> 0xFFFF" | "0xFFFF < ?n" by linarith
  then show ?thesis
  proof cases
    case 1
    have "recv_exact 2 ((0x80 OR op) # of_nat ?n # payload @ rest)
        = Some ([0x80 OR op, of_nat ?n], payload @ rest)"
      by (simp add: recv_exact_def)
    then show ?thesis
      using 1 op by (simp add: ws_frame_def ws_read_frame_def Let_def opcode_back unat_low7
          high_bit_clear recv_exact_append)
  next
    case 2
    have "recv_exact 2 ((0x80 OR op) # 126 # be_bytes 2 ?n @ payload @ rest)
        = Some ([0x80 OR op, 126], be_bytes 2 ?n @ payload @ rest)"
      by (simp add: recv_exact_def)
    moreover have "be_val (be_bytes 2 ?n) = ?n"
      using 2 by (subst be_val_be_bytes) simp
    ultimately show ?thesis
      using 2 op by (simp add: ws_frame_def ws_read_frame_def Let_def opcode_back recv_exact_append)
  next
    case 3
    have "recv_exact 2 ((0x80 OR op) # 127 # be_bytes 8 ?n @ payload @ rest)
        = Some ([0x80 OR op, 127], be_bytes 8 ?n @ payload @ rest)"
      by (simp add: recv_exact_def)
    moreover have "be_val (be_bytes 8 ?n) = ?n"
      using len by (subst be_val_be_bytes) simp
    ultimately show ?thesis
      using 3 op by (simp add: ws_frame_def ws_read_frame_def Let_def opcode_back recv_exact_append)
  qed
qed

section \<open>The hub never keeps a dead client\<close>

lemma hub_send_fold:
  "distinct is \<Longrightarrow>
     h_clients (fold (hub_send ok payload opc) is h) = h_clients h
     \<and> h_state (fold (hub_send ok payload opc) is h) i =
        (if i \<in> set is then snd (ws_client_send (ok i) (h_state h i) payload opc) else h_state h i)"
proof (induction "is" arbitrary: h)
  case Nil
  then show ?case by simp
next
  case (Cons j js)
  then show ?case
    by (auto simp: hub_send_def)
qed

lemma hub_remove_fold:
  "h_clients (fold hub_remove dead h) = filter (\<lambda>i. i \<notin> set dead) (h_clients h)
   \<and> h_state (fold hub_remove dead h) = h_state h"
proof (induction dead arbitrary: h)
  case Nil
  then show ?case by simp
next
  case (Cons i dead)
  then show ?case
    by (auto simp: hub_remove_def filter_filter intro: filter_cong)
qed

lemma broadcast_survivors:
  assumes "distinct (h_clients h)"
  shows "h_clients (hub_broadcast ok h payload opc) =
    filter (\<lambda>i. wc_alive (snd (ws_client_send (ok i) (h_state h i) payload opc))) (h_clients h)"
  using hub_send_fold [OF assms, of ok payload opc h]
  by (auto simp: hub_broadcast_def Let_def hub_remove_fold intro!: filter_cong)

section \<open>Frames from a browser\<close>

text \<open>A short frame as a browser sends it: final, masked with a four-byte key.\<close>

definition masked_frame :: "byte \<Rightarrow> byte list \<Rightarrow> byte list \<Rightarrow> byte list" where
  "masked_frame op key payload =
     [0x80 OR op, 0x80 OR of_nat (length payload)] @ key @ unmask key payload"

lemma mask_bit: "n < 128 \<Longrightarrow> (0x80 OR of_nat n :: byte) AND 0x80 \<noteq> 0"
  by (simp add: bit.conj_disj_distrib2)

lemma mask_len: "n < 128 \<Longrightarrow> unat ((0x80 OR of_nat n :: byte) AND 0x7F) = n"
  using unat_low7 by (simp add: bit.conj_disj_distrib2)

lemma read_masked_frame:
  assumes "(op AND 0x0F :: byte) = op" and "length payload < 126" and "length key = 4"
  shows "ws_read_frame f (masked_frame op key payload @ rest) = (ws_classify op payload, rest)"
proof -
  let ?n = "length payload"
  have "recv_exact 2 (masked_frame op key payload @ rest)
      = Some ([0x80 OR op, 0x80 OR of_nat ?n], key @ unmask key payload @ rest)"
    by (simp add: masked_frame_def recv_exact_def)
  then show ?thesis
    using assms by (simp add: ws_read_frame_def Let_def opcode_back mask_bit mask_len
        recv_exact_append unmask_unmask)
qed

section \<open>Properties\<close>

text \<open>
  A browser's pings are answered, each with its own body and in their order, until its
  close frame ends the loop with the code and the reason it sent; nothing behind that frame
  is read.
\<close>

theorem pings_answered_until_close:
  assumes "\<forall>(key, body) \<in> set pings. length key = 4 \<and> length body < 126"
    and "length ckey = 4" and "length reason < 124" and "code < 65536"
  shows "ws_read_loop (\<lambda>_. True) n f
      (concat (map (\<lambda>(key, body). masked_frame 9 key body) pings)
         @ masked_frame 8 ckey (be_bytes 2 code @ reason) @ rest)
    = (map snd pings, WsClose code reason)"
  using assms(1)
proof (induction pings arbitrary: n)
  case Nil
  have "ws_read_frame f (masked_frame 8 ckey (be_bytes 2 code @ reason) @ rest)
      = (ws_classify 8 (be_bytes 2 code @ reason), rest)"
    by (rule read_masked_frame) (use assms in simp_all)
  moreover have "be_val (be_bytes 2 code) = code"
    using assms(4) by (subst be_val_be_bytes) simp
  ultimately show ?case
    by (simp add: ws_read_loop.simps [of _ n] ws_classify_def)
next
  case (Cons kb pings)
  obtain key body where kb: "kb = (key, body)" by fastforce
  have "ws_read_frame f (masked_frame 9 key body @ tail) = (ws_classify 9 body, tail)" for tail
    by (rule read_masked_frame) (use Cons.prems kb in simp_all)
  then show ?case
    using Cons kb by (simp add: ws_read_loop.simps [of _ n] ws_classify_def)
qed

theorem pings_answered_until_close_witness:
  "ws_read_loop (\<lambda>_. True) 0 False
      (masked_frame 9 [1, 2, 3, 4] [104, 105] @ masked_frame 8 [9, 9, 9, 9] (be_bytes 2 1001 @ [])
         @ [255])
    = ([[104, 105]], WsClose 1001 [])"
  using pings_answered_until_close
    [of "[([1, 2, 3, 4], [104, 105])]" "[9, 9, 9, 9]" "[]" 1001 0 False "[255]"] by simp

text \<open>
  What the server sends is a well-formed frame at every length, the three encodings of
  the length included: reading it back gives the payload and leaves what follows.
\<close>

theorem sent_frame_reads_back:
  assumes "length payload < 2 ^ 64"
  shows "ws_read_frame f (ws_frame payload 2 @ rest) = (WsIgnored 2 payload, rest)
    \<and> ws_read_frame f (ws_frame payload 9 @ rest) = (WsPing payload, rest)"
  using read_ws_frame [OF _ assms, of 2 f rest] read_ws_frame [OF _ assms, of 9 f rest]
  by (simp add: ws_classify_def)

theorem sent_frame_reads_back_witness:
  "ws_read_frame False (ws_frame (replicate 300 7) 2 @ [1]) = (WsIgnored 2 (replicate 300 7), [1])"
  by (rule sent_frame_reads_back [THEN conjunct1]) simp

text \<open>
  A broadcast reaches every client that is alive and free, costs a busy one the frame and
  nothing else, and drops exactly the clients that are dead or whose socket fails, so that no
  dead client is kept and no live one is lost.
\<close>

theorem broadcast_is_exact:
  assumes "distinct (h_clients h)" and "i \<in> set (h_clients h)"
    and "h' = hub_broadcast ok h payload opc"
  shows "(i \<in> set (h_clients h') \<longleftrightarrow>
            wc_alive (h_state h i) \<and> (wc_locked (h_state h i) \<or> ok i))
    \<and> wc_out (h_state h' i) = wc_out (h_state h i)
        @ (if wc_alive (h_state h i) \<and> \<not> wc_locked (h_state h i) \<and> ok i then [ws_frame payload opc] else [])"
proof -
  have "h_state h' i = snd (ws_client_send (ok i) (h_state h i) payload opc)"
    using hub_send_fold [OF assms(1), of ok payload opc h i] assms(2)
    by (simp add: assms(3) hub_broadcast_def Let_def hub_remove_fold)
  then show ?thesis
    using broadcast_survivors [OF assms(1), of ok payload opc] assms(2)
    by (auto simp: assms(3) ws_client_send_def)
qed

definition two_clients :: hub where
  "two_clients = \<lparr>h_clients = [3, 5], h_state = (\<lambda>i. new_ws_client\<lparr>wc_locked := (i = 5)\<rparr>)\<rparr>"

theorem broadcast_is_exact_witness:
  "5 \<in> set (h_clients (hub_broadcast (\<lambda>_. False) two_clients [1] 2))"
  using broadcast_is_exact [of two_clients 5 _ "\<lambda>_. False" "[1]" 2, OF _ _ refl]
  by (simp add: two_clients_def new_ws_client_def)

end
