(* ===== verification/FT_Json.thy ===== *)
theory FT_Json
  imports FT_Prelude "HOL-Library.AList" "HOL-Library.Char_ord" "HOL-Library.List_Lexorder"
begin

text \<open>
  Python values as the JSON interfaces of the scheduler and the control daemon carry them:
  the value type, dictionaries as association lists in insertion order, truth values, and
  the conversions \<open>int(...)\<close>, \<open>float(...)\<close> with the exceptions they raise. Floats are
  their exact rational values (or an infinity or NaN); rounding to 53 bits is not modelled.
\<close>

section \<open>Values\<close>

datatype pyfloat = Fin rat | Inf | NegInf | NaN

datatype json =
    JNull
  | JBool bool
  | JInt int
  | JFloat pyfloat
  | JStr string
  | JArr "json list"
  | JObj "(string \<times> json) list"

type_synonym dict = "(string \<times> json) list"

abbreviation dget :: "dict \<Rightarrow> string \<Rightarrow> json option" where
  "dget d k \<equiv> map_of d k"

definition dget_or :: "dict \<Rightarrow> string \<Rightarrow> json \<Rightarrow> json" where
  "dget_or d k v = (case dget d k of None \<Rightarrow> v | Some x \<Rightarrow> x)"

text \<open>\<open>bool(x)\<close>: NaN is true, a zero of either type false.\<close>

fun truthy :: "json \<Rightarrow> bool" where
  "truthy JNull = False"
| "truthy (JBool b) = b"
| "truthy (JInt i) = (i \<noteq> 0)"
| "truthy (JFloat (Fin q)) = (q \<noteq> 0)"
| "truthy (JFloat _) = True"
| "truthy (JStr s) = (s \<noteq> [])"
| "truthy (JArr xs) = (xs \<noteq> [])"
| "truthy (JObj d) = (d \<noteq> [])"

text \<open>
  \<open>==\<close>: numbers compare by value whatever their type, dictionaries by key whatever their
  order. Nested containers are compared structurally.
\<close>

definition num_of :: "json \<Rightarrow> pyfloat option" where
  "num_of v =
     (case v of
        JBool b \<Rightarrow> Some (Fin (if b then 1 else 0))
      | JInt i \<Rightarrow> Some (Fin (of_int i))
      | JFloat f \<Rightarrow> Some f
      | _ \<Rightarrow> None)"

definition py_eq :: "json \<Rightarrow> json \<Rightarrow> bool" where
  "py_eq v w =
     (case (num_of v, num_of w) of
        (Some a, Some b) \<Rightarrow> a = b
      | (None, None) \<Rightarrow> v = w
      | _ \<Rightarrow> False)"

definition dict_eq :: "dict \<Rightarrow> dict \<Rightarrow> bool" where
  "dict_eq d e \<longleftrightarrow>
     (\<forall>k \<in> set (map fst d @ map fst e).
        case (dget d k, dget e k) of
          (Some v, Some w) \<Rightarrow> py_eq v w
        | _ \<Rightarrow> False)"

text \<open>\<open>round(x)\<close>: to the nearest integer, a half to the even one.\<close>

definition py_round :: "rat \<Rightarrow> int" where
  "py_round q =
     (let f = \<lfloor>q\<rfloor>; r = q - of_int f in
      if r < 1 / 2 then f
      else if 1 / 2 < r then f + 1
      else if even f then f else f + 1)"

text \<open>\<open>round(x, n)\<close> for a number of decimals.\<close>

definition py_round_to :: "nat \<Rightarrow> rat \<Rightarrow> rat" where
  "py_round_to n q = of_int (py_round (q * 10 ^ n)) / 10 ^ n"

section \<open>Strings\<close>

text \<open>ASCII only: \<open>str.strip\<close>, \<open>str.lower\<close>, \<open>str.upper\<close>, \<open>partition\<close>, \<open>split\<close>.\<close>

definition is_ws :: "char \<Rightarrow> bool" where
  "is_ws c \<longleftrightarrow> of_char c \<in> {9, 10, 11, 12, 13, 28, 29, 30, 31, 32 :: nat}"

definition lstrip :: "string \<Rightarrow> string" where "lstrip s = dropWhile is_ws s"
definition rstrip :: "string \<Rightarrow> string" where "rstrip s = rev (dropWhile is_ws (rev s))"
definition strip :: "string \<Rightarrow> string" where "strip s = rstrip (lstrip s)"

definition lower_char :: "char \<Rightarrow> char" where
  "lower_char c = (if 65 \<le> (of_char c :: nat) \<and> of_char c \<le> (90 :: nat)
                   then char_of ((of_char c :: nat) + 32) else c)"

definition upper_char :: "char \<Rightarrow> char" where
  "upper_char c = (if 97 \<le> (of_char c :: nat) \<and> of_char c \<le> (122 :: nat)
                   then char_of ((of_char c :: nat) - 32) else c)"

definition lower :: "string \<Rightarrow> string" where "lower = map lower_char"
definition upper :: "string \<Rightarrow> string" where "upper = map upper_char"

text \<open>\<open>s.partition(c)\<close> for a one-character separator: head, separator found, tail.\<close>

definition partition_at :: "char \<Rightarrow> string \<Rightarrow> string \<times> bool \<times> string" where
  "partition_at c s =
     (let h = takeWhile (\<lambda>x. x \<noteq> c) s; t = dropWhile (\<lambda>x. x \<noteq> c) s
      in (h, t \<noteq> [], tl t))"

text \<open>\<open>s.rpartition(c)\<close>: with no separator the head is empty and the tail is everything.\<close>

definition rpartition_at :: "char \<Rightarrow> string \<Rightarrow> string \<times> bool \<times> string" where
  "rpartition_at c s =
     (let (t, found, h) = partition_at c (rev s)
      in if found then (rev h, True, rev t) else ([], False, s))"

function split_on :: "char \<Rightarrow> string \<Rightarrow> string list" where
  "split_on c s =
     (let (h, found, t) = partition_at c s in if found then h # split_on c t else [h])"
  by pat_completeness auto
termination
proof (relation "measure (\<lambda>(c, s). length s)", goal_cases)
  case 1
  then show ?case by simp
next
  case (2 c s x h xa found t)
  then have "dropWhile (\<lambda>x. x \<noteq> c) s \<noteq> []" and t: "t = tl (dropWhile (\<lambda>x. x \<noteq> c) s)"
    by (auto simp: partition_at_def Let_def)
  then have "length t < length (dropWhile (\<lambda>x. x \<noteq> c) s)" by simp
  then show ?case using length_dropWhile_le [of "\<lambda>x. x \<noteq> c" s] by simp
qed

declare split_on.simps [simp del]

definition starts_with :: "string \<Rightarrow> string \<Rightarrow> bool" where
  "starts_with p s \<longleftrightarrow> take (length p) s = p"

definition ends_with :: "string \<Rightarrow> string \<Rightarrow> bool" where
  "ends_with p s \<longleftrightarrow> length p \<le> length s \<and> drop (length s - length p) s = p"

section \<open>Numbers from strings\<close>

definition char_digit :: "char \<Rightarrow> nat option" where
  "char_digit c = (if 48 \<le> (of_char c :: nat) \<and> of_char c \<le> (57 :: nat)
                   then Some (of_char c - 48) else None)"

text \<open>A digit run with single underscores between digits; \<open>prev\<close> is "a digit came before".\<close>

fun digit_run :: "bool \<Rightarrow> nat \<Rightarrow> string \<Rightarrow> nat option" where
  "digit_run prev acc [] = (if prev then Some acc else None)"
| "digit_run prev acc (c # cs) =
     (case char_digit c of
        Some d \<Rightarrow> digit_run True (10 * acc + d) cs
      | None \<Rightarrow> if c = CHR ''_'' \<and> prev then digit_run False acc cs else None)"

definition take_sign :: "string \<Rightarrow> bool \<times> string" where
  "take_sign s =
     (case s of
        [] \<Rightarrow> (False, [])
      | c # cs \<Rightarrow> if c = CHR ''-'' then (True, cs) else if c = CHR ''+'' then (False, cs)
                 else (False, s))"

definition int_of_str :: "string \<Rightarrow> int option" where
  "int_of_str s =
     (let (neg, r) = take_sign (strip s)
      in map_option (\<lambda>n. if neg then - int n else int n) (digit_run False 0 r))"

text \<open>The largest finite double is below this; a larger value overflows to infinity.\<close>

definition FLOAT_OVERFLOW :: int where "FLOAT_OVERFLOW = 2 ^ 1024 - 2 ^ 970"

definition clamp_float :: "rat \<Rightarrow> pyfloat" where
  "clamp_float q = (if of_int FLOAT_OVERFLOW \<le> q then Inf
                    else if q \<le> - of_int FLOAT_OVERFLOW then NegInf else Fin q)"

definition digit_count :: "string \<Rightarrow> nat" where
  "digit_count s = length (filter (\<lambda>c. char_digit c \<noteq> None) s)"

definition mantissa_of_str :: "string \<Rightarrow> rat option" where
  "mantissa_of_str s =
     (let (ip, dot, fp) = partition_at (CHR ''.'') s in
      if \<not> dot then map_option of_nat (digit_run False 0 s)
      else if ip = [] \<and> fp = [] then None
      else case (if ip = [] then Some 0 else digit_run False 0 ip,
                 if fp = [] then Some 0 else digit_run False 0 fp) of
             (Some a, Some b) \<Rightarrow> Some (of_nat a + of_nat b / 10 ^ digit_count fp)
           | _ \<Rightarrow> None)"

definition exponent_of_str :: "string \<Rightarrow> int option" where
  "exponent_of_str s =
     (let (neg, r) = take_sign s
      in map_option (\<lambda>n. if neg then - int n else int n) (digit_run False 0 r))"

definition scale10 :: "rat \<Rightarrow> int \<Rightarrow> rat" where
  "scale10 q k = (if 0 \<le> k then q * 10 ^ nat k else q / 10 ^ nat (- k))"

definition float_of_str :: "string \<Rightarrow> pyfloat option" where
  "float_of_str s =
     (let (neg, r0) = take_sign (strip s); r = lower r0 in
      if r = ''inf'' \<or> r = ''infinity'' then Some (if neg then NegInf else Inf)
      else if r = ''nan'' then Some NaN
      else
        let (m, e, x) = partition_at (CHR ''e'') r in
        case (mantissa_of_str m, if e then exponent_of_str x else Some 0) of
          (Some q, Some k) \<Rightarrow> Some (clamp_float (if neg then - scale10 q k else scale10 q k))
        | _ \<Rightarrow> None)"

section \<open>Conversions\<close>

datatype py_error = TypeError | ValueError | OverflowError | KeyError | AttributeError

fun py_int :: "json \<Rightarrow> py_error + int" where
  "py_int (JBool b) = Inr (if b then 1 else 0)"
| "py_int (JInt i) = Inr i"
| "py_int (JFloat (Fin q)) = Inr (if 0 \<le> q then \<lfloor>q\<rfloor> else \<lceil>q\<rceil>)"
| "py_int (JFloat NaN) = Inl ValueError"
| "py_int (JFloat _) = Inl OverflowError"
| "py_int (JStr s) = (case int_of_str s of None \<Rightarrow> Inl ValueError | Some i \<Rightarrow> Inr i)"
| "py_int _ = Inl TypeError"

fun py_float :: "json \<Rightarrow> py_error + pyfloat" where
  "py_float (JBool b) = Inr (Fin (if b then 1 else 0))"
| "py_float (JInt i) =
     (if FLOAT_OVERFLOW \<le> \<bar>i\<bar> then Inl OverflowError else Inr (Fin (of_int i)))"
| "py_float (JFloat f) = Inr f"
| "py_float (JStr s) = (case float_of_str s of None \<Rightarrow> Inl ValueError | Some f \<Rightarrow> Inr f)"
| "py_float _ = Inl TypeError"

text \<open>\<open>%d\<close> of an integer as a string.\<close>

fun nat_str :: "nat \<Rightarrow> string" where
  "nat_str n = (if n < 10 then [char_of (48 + n)] else nat_str (n div 10) @ [char_of (48 + n mod 10)])"

declare nat_str.simps [simp del]

definition int_str :: "int \<Rightarrow> string" where
  "int_str i = (if i < 0 then CHR ''-'' # nat_str (nat (- i)) else nat_str (nat i))"

section \<open>Facts about the conversions\<close>

lemma char_digit_of: "n < 10 \<Longrightarrow> char_digit (char_of (48 + n)) = Some n"
  by (simp add: char_digit_def of_char_of)

lemma digit_run_nat_str:
  "digit_run p acc (nat_str n @ s) = digit_run True (acc * 10 ^ length (nat_str n) + n) s"
proof (induction n arbitrary: p acc s rule: nat_str.induct)
  case (1 n)
  show ?case
  proof (cases "n < 10")
    case True
    then show ?thesis
      by (subst (1 2) nat_str.simps) (simp add: char_digit_of mult.commute)
  next
    case False
    have "digit_run p acc (nat_str (n div 10) @ char_of (48 + n mod 10) # s)
        = digit_run True (acc * 10 ^ length (nat_str (n div 10)) + n div 10)
            (char_of (48 + n mod 10) # s)"
      using "1.IH" False by blast
    also have "\<dots> = digit_run True (10 * (acc * 10 ^ length (nat_str (n div 10)) + n div 10) + n mod 10) s"
      by (simp add: char_digit_of)
    finally show ?thesis
      using False by (subst (1 2) nat_str.simps) (simp add: algebra_simps)
  qed
qed

lemma digit_run_nat_str0: "digit_run False 0 (nat_str n) = Some n"
  using digit_run_nat_str [of False 0 n "[]"] by simp

lemma char_nat_digit: "n < 10 \<Longrightarrow> char_of (48 + n) = c \<Longrightarrow> of_char c = (48 + n :: nat)"
  by (auto simp: of_char_of)

lemma nat_str_digits: "c \<in> set (nat_str n) \<Longrightarrow> 48 \<le> (of_char c :: nat) \<and> of_char c \<le> (57 :: nat)"
proof (induction n rule: nat_str.induct)
  case (1 n)
  show ?case
  proof (cases "n < 10")
    case True
    then have "c = char_of (48 + n)" using 1 by (subst (asm) (2) nat_str.simps) simp
    then show ?thesis using True by (simp add: of_char_of)
  next
    case False
    then have "c \<in> set (nat_str (n div 10)) \<or> c = char_of (48 + n mod 10)"
      using 1(2) by (subst (asm) nat_str.simps) auto
    then show ?thesis using 1(1) False by (auto simp: of_char_of)
  qed
qed

lemma nat_str_not: "c \<in> set (nat_str n) \<Longrightarrow> c \<noteq> CHR '':'' \<and> c \<noteq> CHR ''-'' \<and> c \<noteq> CHR ''+'' \<and> \<not> is_ws c"
  using nat_str_digits [of c n] by (auto simp: is_ws_def)

lemma nat_str_nonempty [simp]: "nat_str n \<noteq> []"
  by (subst nat_str.simps) simp

lemma lstrip_none: "s = [] \<or> \<not> is_ws (hd s) \<Longrightarrow> lstrip s = s"
  by (cases s) (auto simp: lstrip_def)

lemma strip_none:
  assumes "s \<noteq> []" and "\<not> is_ws (hd s)" and "\<not> is_ws (last s)"
  shows "strip s = s"
proof -
  have "dropWhile is_ws (rev s) = rev s"
    using assms(1,3) by (cases "rev s") (auto simp: last_rev hd_rev rev_swap)
  then show ?thesis using assms by (simp add: strip_def rstrip_def lstrip_none)
qed

lemma int_of_nat_str: "int_of_str (nat_str n) = Some (int n)"
proof -
  obtain c cs where s: "nat_str n = c # cs" by (cases "nat_str n") auto
  have "strip (nat_str n) = nat_str n"
    by (rule strip_none) (use nat_str_not [OF hd_in_set, of n] nat_str_not [OF last_in_set, of n] in simp_all)
  moreover have "take_sign (nat_str n) = (False, nat_str n)"
    using nat_str_not [of c n] by (simp add: take_sign_def s)
  ultimately show ?thesis by (simp add: int_of_str_def digit_run_nat_str0)
qed

lemma int_of_int_str [simp]: "int_of_str (int_str n) = Some n"
proof (cases "n < 0")
  case True
  let ?s = "CHR ''-'' # nat_str (nat (- n))"
  have "strip ?s = ?s"
    by (rule strip_none) (use nat_str_not [OF last_in_set, of "nat (- n)"] in \<open>simp_all add: is_ws_def\<close>)
  then show ?thesis using True by (simp add: int_str_def int_of_str_def take_sign_def digit_run_nat_str0)
qed (simp add: int_str_def int_of_nat_str)

section \<open>Facts about comparison\<close>

lemma py_eq_refl [simp]: "py_eq v v"
  by (simp add: py_eq_def split: option.splits)

lemma py_eq_sym: "py_eq v w \<Longrightarrow> py_eq w v"
  by (auto simp: py_eq_def split: option.splits)

lemma dict_eq_rel: "dict_eq d e \<longleftrightarrow> (\<forall>k. rel_option py_eq (dget d k) (dget e k))"
proof -
  have step: "(case (dget d k, dget e k) of (Some v, Some w) \<Rightarrow> py_eq v w | _ \<Rightarrow> False)
      \<longleftrightarrow> rel_option py_eq (dget d k) (dget e k)" if "dget d k \<noteq> None \<or> dget e k \<noteq> None" for k
    using that by (auto split: option.splits)
  have out: "k \<in> set (map fst d @ map fst e) \<longleftrightarrow> dget d k \<noteq> None \<or> dget e k \<noteq> None" for k
    by (simp add: map_of_eq_None_iff)
  have none: "rel_option py_eq (dget d k) (dget e k)" if "k \<notin> set (map fst d @ map fst e)" for k
    using that out [of k] by simp
  show ?thesis
    unfolding dict_eq_def using step none out by blast
qed

lemma dict_eqI: "map_of d = map_of e \<Longrightarrow> dict_eq d e"
  by (simp add: dict_eq_rel option.rel_refl)

lemma dict_eq_refl [simp]: "dict_eq d d"
  by (rule dict_eqI) simp

lemma dict_eq_sym: "dict_eq d e \<Longrightarrow> dict_eq e d"
  unfolding dict_eq_rel by (metis option.rel_sel py_eq_sym)

text \<open>Rounding moves a number by at most a half.\<close>

lemma py_round_cases:
  "(py_round q = \<lfloor>q\<rfloor> \<and> q - of_int \<lfloor>q\<rfloor> \<le> 1 / 2)
   \<or> (py_round q = \<lfloor>q\<rfloor> + 1 \<and> 1 / 2 \<le> q - of_int \<lfloor>q\<rfloor>)"
proof -
  define r where "r = q - of_int \<lfloor>q\<rfloor>"
  have "py_round q = (if r < 1 / 2 then \<lfloor>q\<rfloor> else if 1 / 2 < r then \<lfloor>q\<rfloor> + 1
      else if even \<lfloor>q\<rfloor> then \<lfloor>q\<rfloor> else \<lfloor>q\<rfloor> + 1)"
    by (simp only: py_round_def Let_def r_def)
  then show ?thesis unfolding r_def [symmetric] by (auto split: if_splits)
qed

lemma py_round_near: "\<bar>of_int (py_round q) - q\<bar> \<le> 1 / 2"
proof -
  have "of_int \<lfloor>q\<rfloor> \<le> q" "q < of_int \<lfloor>q\<rfloor> + 1"
    using floor_correct [of q] by simp_all
  with py_round_cases [of q] show ?thesis by (auto simp: abs_le_iff)
qed

text \<open>A number that lies strictly within a half of an integer rounds to it.\<close>

lemma py_round_unique: "\<bar>of_int n - q\<bar> < 1 / 2 \<Longrightarrow> py_round q = n"
proof -
  assume near: "\<bar>of_int n - q\<bar> < 1 / 2"
  have "\<bar>of_int (py_round q) - q\<bar> \<le> 1 / 2" by (rule py_round_near)
  with near have "\<bar>rat_of_int (py_round q) - rat_of_int n\<bar> < 1" by arith
  then have "\<bar>rat_of_int (py_round q - n)\<bar> < 1" by simp
  then have "\<bar>py_round q - n\<bar> < 1" by linarith
  then show ?thesis by simp
qed

end
