(* ===== verification/FT_Rotation.thy ===== *)
theory FT_Rotation
  imports FT_Json
begin

text \<open>
  The running order of the scheduler, \<open>src/demos/ftsched.py\<close>: class \<open>Entry\<close> with its JSON
  form, the built-in \<open>ROTATION\<close>, \<open>pair_check\<close>, and class \<open>Rotation\<close>. Entries are objects
  with identity in the code; here an entry is named by its position in \<open>r_all\<close>, which
  never changes, and its fields are read from there.
\<close>

section \<open>Entries\<close>

record entry =
  e_kind :: string
  e_name :: string
  e_module :: string
  e_seconds :: rat
  e_fps :: int
  e_options :: dict
  e_base_options :: dict
  e_clears :: "json list"
  e_wait :: bool
  e_ms :: rat
  e_solo :: bool
  e_argv :: "json list"
  e_enabled :: bool

definition DEFAULT_SECONDS :: rat where "DEFAULT_SECONDS = 45"

definition Entry ::
  "string \<Rightarrow> string \<Rightarrow> rat \<Rightarrow> int \<Rightarrow> dict \<Rightarrow> rat \<Rightarrow> bool \<Rightarrow> json list \<Rightarrow> bool \<Rightarrow> json list
     \<Rightarrow> bool \<Rightarrow> string option \<Rightarrow> entry" where
  "Entry kind name seconds fps options ms solo argv enabled clears wait' mdl =
     \<lparr>e_kind = kind, e_name = name,
      e_module = (case mdl of None \<Rightarrow> name | Some m \<Rightarrow> if m = [] then name else m),
      e_seconds = seconds, e_fps = fps, e_options = options, e_base_options = options,
      e_clears = clears, e_wait = wait', e_ms = ms, e_solo = (solo \<or> kind = ''exec''),
      e_argv = argv, e_enabled = enabled\<rparr>"

definition to_json :: "entry \<Rightarrow> dict" where
  "to_json e =
     [(''kind'', JStr (e_kind e)), (''name'', JStr (e_name e)),
      (''seconds'', JFloat (Fin (e_seconds e))), (''fps'', JInt (e_fps e)),
      (''enabled'', JBool (e_enabled e)), (''ms'', JFloat (Fin (e_ms e))),
      (''solo'', JBool (e_solo e))]
     @ (if e_options e \<noteq> [] then [(''options'', JObj (e_options e))] else [])
     @ (if e_argv e \<noteq> [] then [(''argv'', JArr (e_argv e))] else [])
     @ (if e_clears e \<noteq> [] then [(''clears'', JArr (e_clears e))] else [])
     @ (if \<not> e_wait e then [(''wait'', JBool False)] else [])
     @ (if e_module e \<noteq> e_name e then [(''module'', JStr (e_module e))] else [])"

definition customised :: "entry \<Rightarrow> bool" where
  "customised e \<longleftrightarrow> \<not> dict_eq (e_options e) (e_base_options e)"

text \<open>
  \<open>Entry.from_json\<close>. \<open>NotModelled\<close> marks values that the code accepts and the entry type
  has no room for: a name, kind or module that is no string, a non-finite number of
  seconds, options given as a list of pairs.
\<close>

datatype load_error = Raised py_error | NotModelled

definition json_str :: "json \<Rightarrow> load_error + string" where
  "json_str v = (case v of JStr s \<Rightarrow> Inr s | _ \<Rightarrow> Inl NotModelled)"

definition json_rat :: "json \<Rightarrow> load_error + rat" where
  "json_rat v =
     (case py_float v of
        Inl e \<Rightarrow> Inl (Raised e)
      | Inr (Fin q) \<Rightarrow> Inr q
      | Inr _ \<Rightarrow> Inl NotModelled)"

definition json_int_or0 :: "json \<Rightarrow> load_error + int" where
  "json_int_or0 v =
     (case py_int (if truthy v then v else JInt 0) of Inl e \<Rightarrow> Inl (Raised e) | Inr i \<Rightarrow> Inr i)"

definition json_dict :: "json \<Rightarrow> load_error + dict" where
  "json_dict v =
     (if \<not> truthy v then Inr []
      else case v of
        JObj d \<Rightarrow> Inr d
      | JStr _ \<Rightarrow> Inl (Raised ValueError)
      | JArr _ \<Rightarrow> Inl NotModelled
      | _ \<Rightarrow> Inl (Raised TypeError))"

definition json_list :: "json \<Rightarrow> load_error + json list" where
  "json_list v =
     (if \<not> truthy v then Inr []
      else case v of
        JArr xs \<Rightarrow> Inr xs
      | JStr s \<Rightarrow> Inr (map (\<lambda>c. JStr [c]) s)
      | JObj d \<Rightarrow> Inr (map (\<lambda>p. JStr (fst p)) d)
      | _ \<Rightarrow> Inl (Raised TypeError))"

definition json_module :: "json \<Rightarrow> load_error + string option" where
  "json_module v = (if \<not> truthy v then Inr None
                    else case v of JStr s \<Rightarrow> Inr (Some s) | _ \<Rightarrow> Inl NotModelled)"

definition from_json :: "dict \<Rightarrow> load_error + entry" where
  "from_json d =
     (case dget d ''name'' of
        None \<Rightarrow> Inl (Raised KeyError)
      | Some name \<Rightarrow>
          bindE (json_str (dget_or d ''kind'' (JStr ''py''))) (\<lambda>kind.
          bindE (json_str name) (\<lambda>name.
          bindE (json_rat (dget_or d ''seconds'' (JFloat (Fin DEFAULT_SECONDS)))) (\<lambda>seconds.
          bindE (json_int_or0 (dget_or d ''fps'' (JInt 0))) (\<lambda>fps.
          bindE (json_dict (dget_or d ''options'' JNull)) (\<lambda>options.
          bindE (json_list (dget_or d ''clears'' JNull)) (\<lambda>clears.
          bindE (json_rat (dget_or d ''ms'' (JFloat (Fin 0)))) (\<lambda>ms.
          bindE (json_list (dget_or d ''argv'' JNull)) (\<lambda>argv.
          bindE (json_module (dget_or d ''module'' JNull)) (\<lambda>mdl.
            Inr (Entry kind name seconds fps options ms
                   (truthy (dget_or d ''solo'' (JBool False))) argv
                   (truthy (dget_or d ''enabled'' (JBool True))) clears
                   (truthy (dget_or d ''wait'' (JBool True))) mdl)))))))))))"

text \<open>
  The rows of \<open>load_rotation\<close>: the file's \<open>"rotation"\<close> list, each an object. The first
  entry that does not convert aborts the load.
\<close>

fun load_entries :: "dict list \<Rightarrow> load_error + entry list" where
  "load_entries [] = Inr []"
| "load_entries (d # ds) =
     bindE (from_json d) (\<lambda>e. bindE (load_entries ds) (\<lambda>es. Inr (e # es)))"

section \<open>The built-in running order\<close>

definition ROTATION :: "(string \<times> rat \<times> int \<times> dict \<times> rat \<times> bool) list" where
  "ROTATION =
    [(''starfield'', 45, 50, [], 99/10, False),
     (''sunset'', 70, 24, [], 300/10, False),
     (''wopr'', 45, 30, [], 60/10, False),
     (''defcon'', 80, 30, [], 257/10, False),
     (''knit'', 45, 60, [], 45/10, False),
     (''karl'', 45, 24, [], 327/10, False),
     (''cycle'', 45, 60, [], 22/10, False),
     (''water'', 45, 20, [(''drops'', JInt 4)], 458/10, False),
     (''boing'', 45, 60, [], 20/10, False),
     (''sneakers'', 45, 30, [], 83/10, False),
     (''tron'', 45, 30, [], 161/10, False),
     (''headroom'', 45, 30, [], 160/10, False),
     (''laser'', 45, 40, [], 119/10, False),
     (''trench'', 45, 24, [], 292/10, False),
     (''mario'', 45, 60, [], 64/10, False),
     (''goldengate'', 45, 30, [], 192/10, False),
     (''nyancat'', 45, 60, [], 82/10, False),
     (''esper'', 70, 30, [], 109/10, False),
     (''printer'', 45, 30, [], 169/10, False),
     (''splitflap'', 45, 30, [], 62/10, False),
     (''grove'', 45, 30, [], 187/10, False),
     (''daliclock'', 45, 30, [], 201/10, False),
     (''fire'', 45, 30, [], 188/10, False),
     (''fsn'', 45, 20, [], 466/10, True),
     (''wheel'', 45, 40, [], 131/10, False),
     (''tunnel'', 45, 40, [(''palette'', JStr ''ice'')], 135/10, False),
     (''fireworks'', 45, 24, [(''rate'', JInt 3)], 337/10, False),
     (''floor'', 45, 50, [], 103/10, False),
     (''metaballs'', 45, 24, [(''palette'', JStr ''magma'')], 290/10, False),
     (''rotozoom'', 45, 40, [(''palette'', JStr ''rainbow'')], 126/10, False),
     (''slime'', 60, 8, [(''agents'', JInt 6000), (''warmup'', JInt 60)], 815/10, True),
     (''fireflies'', 60, 12, [], 613/10, True),
     (''scroller'', 45, 40, [(''plasma_frames'', JInt 60)], 120/10, False)]"

definition default_rotation :: "entry list" where
  "default_rotation =
     map (\<lambda>(name, secs, fps, opts, ms, solo).
            Entry ''py'' name secs fps opts ms solo [] True [] True None) ROTATION"

section \<open>Neighbours that cost too much\<close>

definition TRANSITION_HEADROOM :: rat where "TRANSITION_HEADROOM = 8 / 10"

text \<open>A warning: the two names, the paced rate and their own rate.\<close>

definition pair_check :: "entry list \<Rightarrow> int \<Rightarrow> (string \<times> string \<times> int \<times> int) list" where
  "pair_check entries fps =
     (let live = filter (\<lambda>e. e_enabled e \<and> \<not> e_solo e \<and> e_ms e \<noteq> 0) entries in
      if length live < 2 then []
      else
        concat (map (\<lambda>(a, b).
          let own = min (if e_fps a \<noteq> 0 then e_fps a else fps) (if e_fps b \<noteq> 0 then e_fps b else fps);
              quot = TRANSITION_HEADROOM * 1000 / (e_ms a + e_ms b);
              paced = min own (if 0 \<le> quot then \<lfloor>quot\<rfloor> else \<lceil>quot\<rceil>)
          in if of_int paced < of_int own * (3 / 4 :: rat)
             then [(e_name a, e_name b, paced, own)] else [])
          (zip live (tl live @ [hd live]))))"

section \<open>The steerable running order\<close>

record rotation =
  r_all :: "entry list"
  r_offset :: int

definition Rotation :: "entry list \<Rightarrow> rotation" where
  "Rotation es = \<lparr>r_all = es, r_offset = 0\<rparr>"

definition live :: "rotation \<Rightarrow> nat list" where
  "live r = filter (\<lambda>i. e_enabled (r_all r ! i)) [0..<length (r_all r)]"

definition rot_at :: "rotation \<Rightarrow> int \<Rightarrow> nat option" where
  "rot_at r index =
     (let l = live r
      in if l = [] then None
         else Some (l ! nat ((index + r_offset r) mod int (length l))))"

definition named :: "rotation \<Rightarrow> string \<Rightarrow> nat list" where
  "named r name = filter (\<lambda>i. e_name (r_all r ! i) = name) [0..<length (r_all r)]"

definition update_entries :: "(entry \<Rightarrow> entry) \<Rightarrow> nat list \<Rightarrow> rotation \<Rightarrow> rotation" where
  "update_entries f is r =
     r\<lparr>r_all := map (\<lambda>i. if i \<in> set is then f (r_all r ! i) else r_all r ! i)
                  [0..<length (r_all r)]\<rparr>"

definition set_enabled :: "string \<Rightarrow> bool \<Rightarrow> rotation \<Rightarrow> bool \<times> rotation" where
  "set_enabled name on r =
     (let hit = named r name in
      if hit = [] then (False, r)
      else if \<not> on \<and> length (live r) \<le> length (filter (\<lambda>i. e_enabled (r_all r ! i)) hit)
      then (False, r)
      else (True, update_entries (\<lambda>e. e\<lparr>e_enabled := on\<rparr>) hit r))"

text \<open>\<open>keep\<close> is an entry or \<open>None\<close>; the loop writes only entries that change.\<close>

definition set_all :: "bool \<Rightarrow> nat option \<Rightarrow> rotation \<Rightarrow> bool \<times> rotation" where
  "set_all on keep r =
     (let want = (\<lambda>i. on \<or> Some i = keep);
          changed = (\<exists>i \<in> set [0..<length (r_all r)]. e_enabled (r_all r ! i) \<noteq> want i);
          r1 = r\<lparr>r_all := map (\<lambda>i. (r_all r ! i)\<lparr>e_enabled := want i\<rparr>) [0..<length (r_all r)]\<rparr>
      in if \<not> (\<exists>e \<in> set (r_all r1). e_enabled e) \<and> r_all r1 \<noteq> []
         then (True, r1\<lparr>r_all := (r_all r1)[0 := (r_all r1 ! 0)\<lparr>e_enabled := True\<rparr>]\<rparr>)
         else (changed, r1))"

definition rot_configure :: "string \<Rightarrow> dict option \<Rightarrow> rotation \<Rightarrow> nat list \<times> rotation" where
  "rot_configure name options r =
     (let hit = named r name
      in (hit, update_entries (\<lambda>e. e\<lparr>e_options :=
                 (case options of None \<Rightarrow> e_base_options e | Some d \<Rightarrow> d)\<rparr>) hit r))"

definition jump :: "int \<Rightarrow> int \<Rightarrow> rotation \<Rightarrow> bool \<times> rotation" where
  "jump position at_index r =
     (let l = live r in
      if l = [] \<or> \<not> (0 \<le> position \<and> position < int (length l)) then (False, r)
      else (True, r\<lparr>r_offset := (position - at_index) mod int (length l)\<rparr>))"

fun index_of :: "'a \<Rightarrow> 'a list \<Rightarrow> nat option" where
  "index_of x [] = None"
| "index_of x (y # ys) = (if x = y then Some 0 else map_option Suc (index_of x ys))"

definition position_of :: "nat option \<Rightarrow> rotation \<Rightarrow> int" where
  "position_of e r =
     (case e of
        None \<Rightarrow> -1
      | Some i \<Rightarrow> (case index_of i (live r) of None \<Rightarrow> -1 | Some k \<Rightarrow> int k))"

definition cycle_seconds :: "rotation \<Rightarrow> rat" where
  "cycle_seconds r = sum_list (map (\<lambda>i. e_seconds (r_all r ! i)) (live r))"

text \<open>\<open>dict(e.to_json(), module=..., ...)\<close>: keyword fields overwrite in place or append.\<close>

definition rot_snapshot :: "rotation \<Rightarrow> dict list" where
  "rot_snapshot r =
     map (\<lambda>i. let e = r_all r ! i in
            AList.update ''position'' (JInt (position_of (Some i) r))
              (AList.update ''customised'' (JBool (customised e))
                (AList.update ''options'' (JObj (e_options e))
                  (AList.update ''module'' (JStr (e_module e)) (to_json e)))))
       [0..<length (r_all r)]"

section \<open>Entries survive the round trip through JSON\<close>

text \<open>
  What the constructor guarantees of an entry, plus options still at their file values
  (\<open>to_json\<close> writes the current ones, \<open>from_json\<close> makes them the base).
\<close>

definition entry_ok :: "entry \<Rightarrow> bool" where
  "entry_ok e \<longleftrightarrow> e_base_options e = e_options e \<and> (e_kind e = ''exec'' \<longrightarrow> e_solo e)
     \<and> (e_module e = e_name e \<or> e_module e \<noteq> [])"

lemma to_json_lookup:
  "dget (to_json e) ''name'' = Some (JStr (e_name e))"
  "dget_or (to_json e) ''kind'' v = JStr (e_kind e)"
  "dget_or (to_json e) ''seconds'' v = JFloat (Fin (e_seconds e))"
  "dget_or (to_json e) ''fps'' v = JInt (e_fps e)"
  "dget_or (to_json e) ''enabled'' v = JBool (e_enabled e)"
  "dget_or (to_json e) ''ms'' v = JFloat (Fin (e_ms e))"
  "dget_or (to_json e) ''solo'' v = JBool (e_solo e)"
  "dget_or (to_json e) ''options'' v = (if e_options e \<noteq> [] then JObj (e_options e) else v)"
  "dget_or (to_json e) ''argv'' v = (if e_argv e \<noteq> [] then JArr (e_argv e) else v)"
  "dget_or (to_json e) ''clears'' v = (if e_clears e \<noteq> [] then JArr (e_clears e) else v)"
  "dget_or (to_json e) ''wait'' v = (if e_wait e then v else JBool False)"
  "dget_or (to_json e) ''module'' v = (if e_module e \<noteq> e_name e then JStr (e_module e) else v)"
  by (simp_all add: dget_or_def to_json_def)

lemma from_to_json: "entry_ok e \<Longrightarrow> from_json (to_json e) = Inr e"
  by (cases e)
    (auto simp: from_json_def to_json_lookup json_str_def json_rat_def json_int_or0_def
      json_dict_def json_list_def json_module_def Entry_def entry_ok_def)

lemma load_entries_to_json: "\<forall>e \<in> set es. entry_ok e \<Longrightarrow> load_entries (map to_json es) = Inr es"
  by (induction es) (auto simp: from_to_json)

section \<open>The live entries\<close>

lemma live_less: "i \<in> set (live r) \<Longrightarrow> i < length (r_all r)"
  by (simp add: live_def)

lemma live_iff: "i \<in> set (live r) \<longleftrightarrow> i < length (r_all r) \<and> e_enabled (r_all r ! i)"
  by (auto simp: live_def)

lemma distinct_live [simp]: "distinct (live r)"
  by (simp add: live_def)

lemma live_ne_iff: "live r \<noteq> [] \<longleftrightarrow> (\<exists>e \<in> set (r_all r). e_enabled e)"
proof -
  have "live r \<noteq> [] \<longleftrightarrow> (\<exists>i < length (r_all r). e_enabled (r_all r ! i))"
    by (auto simp: live_def filter_empty_conv)
  then show ?thesis by (metis in_set_conv_nth)
qed

lemma update_entries_nth:
  "i < length (r_all r) \<Longrightarrow>
     r_all (update_entries f is r) ! i = (if i \<in> set is then f (r_all r ! i) else r_all r ! i)"
  by (simp add: update_entries_def)

lemma length_update_entries [simp]:
  "length (r_all (update_entries f is r)) = length (r_all r)"
  by (simp add: update_entries_def)

lemma offset_update_entries [simp]: "r_offset (update_entries f is r) = r_offset r"
  by (simp add: update_entries_def)

section \<open>The order is never emptied by a command\<close>

text \<open>
  Refusing is decided by counting: the entries that would be switched off are exactly the
  live ones of that name, so the check is "is anything else live".
\<close>

lemma refuse_iff:
  "length (live r) \<le> length (filter (\<lambda>i. e_enabled (r_all r ! i)) (named r name))
     \<longleftrightarrow> (\<forall>i \<in> set (live r). e_name (r_all r ! i) = name)"
proof -
  let ?on = "filter (\<lambda>i. e_enabled (r_all r ! i)) (named r name)"
  have on: "?on = filter (\<lambda>i. e_name (r_all r ! i) = name) (live r)"
    by (simp add: named_def live_def conj_commute)
  have "length (live r) \<le> length (filter (\<lambda>i. e_name (r_all r ! i) = name) (live r))
      \<longleftrightarrow> (\<forall>i \<in> set (live r). e_name (r_all r ! i) = name)"
    using length_filter_less [of _ "live r" "\<lambda>i. e_name (r_all r ! i) = name"]
    by (metis (mono_tags, lifting) filter_True leD order_refl)
  then show ?thesis by (simp add: on)
qed

lemma set_enabled_live [ft_inv]:
  assumes "live r \<noteq> []"
  shows "live (snd (set_enabled name on r)) \<noteq> []"
proof (cases "named r name = [] \<or>
    (\<not> on \<and> length (live r) \<le> length (filter (\<lambda>i. e_enabled (r_all r ! i)) (named r name)))")
  case True
  then show ?thesis using assms by (auto simp: set_enabled_def Let_def)
next
  case False
  show ?thesis
  proof (cases on)
    case True
    obtain i where "i \<in> set (live r)" using assms by (meson last_in_set)
    then have "i \<in> set (live (update_entries (\<lambda>e. e\<lparr>e_enabled := on\<rparr>) (named r name) r))"
      using True by (auto simp: live_iff update_entries_nth)
    then show ?thesis
      using False by (auto simp: set_enabled_def Let_def)
  next
    case off: False
    then have "\<not> (\<forall>i \<in> set (live r). e_name (r_all r ! i) = name)"
      using False refuse_iff by blast
    then obtain i where i: "i \<in> set (live r)" "e_name (r_all r ! i) \<noteq> name" by blast
    then have "i \<in> set (live (update_entries (\<lambda>e. e\<lparr>e_enabled := on\<rparr>) (named r name) r))"
      by (auto simp: live_iff update_entries_nth named_def)
    then show ?thesis
      using False by (auto simp: set_enabled_def Let_def)
  qed
qed

lemma set_all_live [ft_inv]: "r_all r \<noteq> [] \<Longrightarrow> live (snd (set_all on keep r)) \<noteq> []"
  by (auto simp: set_all_def Let_def live_ne_iff
      intro!: bexI [OF _ set_update_memI])

lemma rot_configure_live [ft_inv]: "live (snd (rot_configure name options r)) = live r"
  by (auto simp: rot_configure_def Let_def live_def update_entries_nth intro!: filter_cong
      split: option.splits if_splits)

lemma jump_live [ft_frame]: "live (snd (jump p i r)) = live r"
  by (simp add: jump_def Let_def live_def)

section \<open>Walking the order\<close>

lemma rot_at_live: "live r \<noteq> [] \<Longrightarrow> \<exists>i \<in> set (live r). rot_at r k = Some i"
proof -
  assume ne: "live r \<noteq> []"
  then have "nat ((k + r_offset r) mod int (length (live r))) < length (live r)"
    by (simp add: nat_less_iff)
  then show ?thesis
    using ne by (auto simp: rot_at_def Let_def)
qed

lemma jump_at:
  assumes "0 \<le> p" and "p < int (length (live r))"
  shows "fst (jump p k r)"
    and "rot_at (snd (jump p k r)) (k + d) = Some (live r ! nat ((p + d) mod int (length (live r))))"
proof -
  have ne: "live r \<noteq> []" using assms by auto
  show "fst (jump p k r)" using assms ne by (simp add: jump_def Let_def)
  have "(k + d + (p - k) mod int (length (live r))) mod int (length (live r))
      = (p + d) mod int (length (live r))"
  proof -
    have "(k + d + (p - k) mod int (length (live r))) mod int (length (live r))
        = (k + d + (p - k)) mod int (length (live r))"
      by (rule mod_add_right_eq)
    then show ?thesis by (simp add: add.commute)
  qed
  then show "rot_at (snd (jump p k r)) (k + d)
      = Some (live r ! nat ((p + d) mod int (length (live r))))"
    using assms ne jump_live [of p k r] by (simp add: rot_at_def jump_def Let_def live_def)
qed

lemma index_of_nth: "distinct xs \<Longrightarrow> k < length xs \<Longrightarrow> index_of (xs ! k) xs = Some k"
proof (induction xs arbitrary: k)
  case Nil
  then show ?case by simp
next
  case (Cons x xs)
  then show ?case by (cases k) (auto simp: nth_eq_iff_index_eq)
qed

lemma position_of_live: "k < length (live r) \<Longrightarrow> position_of (Some (live r ! k)) r = int k"
  by (simp add: position_of_def index_of_nth)

text \<open>
  Any \<open>n\<close> consecutive indices play every live entry exactly once, in running order: the
  window is a rotation of the live list.
\<close>

lemma rot_at_window:
  assumes "live r \<noteq> []"
  shows "map (\<lambda>j. rot_at r (k + int j)) [0..<length (live r)]
    = map Some (rotate (nat ((k + r_offset r) mod int (length (live r)))) (live r))"
proof (rule nth_equalityI)
  fix j assume j: "j < length (map (\<lambda>j. rot_at r (k + int j)) [0..<length (live r)])"
  let ?n = "length (live r)"
  let ?m = "nat ((k + r_offset r) mod int ?n)"
  have n: "0 < int ?n" using assms by simp
  have "(k + int j + r_offset r) mod int ?n = (int ?m + int j) mod int ?n"
    using n by (simp add: mod_simps ac_simps)
  also have "\<dots> = int ((?m + j) mod ?n)"
    by (simp add: zmod_int)
  finally have "nat ((k + int j + r_offset r) mod int ?n) = (?m + j) mod ?n"
    by simp
  then show "map (\<lambda>j. rot_at r (k + int j)) [0..<?n] ! j = map Some (rotate ?m (live r)) ! j"
    using j assms by (simp add: rot_at_def Let_def nth_rotate)
qed simp

section \<open>Switching everything on or off\<close>

lemma set_all_entries:
  assumes "i < length (r_all r)"
  shows "e_enabled (r_all (snd (set_all on keep r)) ! i) \<longleftrightarrow>
    on \<or> Some i = keep \<or> (i = 0 \<and> \<not> (\<exists>k < length (r_all r). Some k = keep))"
proof -
  let ?want = "\<lambda>i. on \<or> Some i = keep"
  let ?es = "map (\<lambda>i. (r_all r ! i)\<lparr>e_enabled := ?want i\<rparr>) [0..<length (r_all r)]"
  have some: "(\<exists>e \<in> set ?es. e_enabled e) \<longleftrightarrow> (\<exists>k < length (r_all r). ?want k)"
    by auto
  show ?thesis
  proof (cases "\<exists>k < length (r_all r). ?want k")
    case True
    then have "r_all (snd (set_all on keep r)) = ?es"
      using some by (auto simp: set_all_def Let_def)
    then show ?thesis using True assms by auto
  next
    case False
    then have "r_all (snd (set_all on keep r)) = ?es[0 := (?es ! 0)\<lparr>e_enabled := True\<rparr>]"
      using some assms by (auto simp: set_all_def Let_def)
    then show ?thesis using False assms by (cases "i = 0") auto
  qed
qed

lemma set_all_same_length [ft_frame]:
  "length (r_all (snd (set_all on keep r))) = length (r_all r)"
  by (simp add: set_all_def Let_def)

lemma set_all_unchanged:
  assumes "\<not> fst (set_all on keep r)"
  shows "snd (set_all on keep r) = r"
proof -
  have "(r_all r ! i)\<lparr>e_enabled := on \<or> Some i = keep\<rparr> = r_all r ! i"
    if "i < length (r_all r)" for i
  proof -
    have "\<not> (\<exists>i < length (r_all r). e_enabled (r_all r ! i) \<noteq> (on \<or> Some i = keep))"
      using assms by (simp add: set_all_def Let_def split: if_splits)
    with that have "e_enabled (r_all r ! i) = (on \<or> Some i = keep)" by blast
    then show ?thesis by (simp flip: \<open>e_enabled (r_all r ! i) = (on \<or> Some i = keep)\<close>)
  qed
  then have "map (\<lambda>i. (r_all r ! i)\<lparr>e_enabled := on \<or> Some i = keep\<rparr>) [0..<length (r_all r)]
      = r_all r"
    by (intro nth_equalityI) auto
  then show ?thesis
    using assms by (auto simp: set_all_def Let_def split: if_splits)
qed

section \<open>What switching one entry does\<close>

lemma set_enabled_refused:
  "\<not> fst (set_enabled name on r) \<Longrightarrow> snd (set_enabled name on r) = r"
  by (auto simp: set_enabled_def Let_def split: if_splits)

lemma set_enabled_accepted:
  "fst (set_enabled name on r) \<longleftrightarrow>
     (\<exists>i < length (r_all r). e_name (r_all r ! i) = name)
     \<and> (on \<or> (\<exists>i \<in> set (live r). e_name (r_all r ! i) \<noteq> name))"
proof -
  have "named r name \<noteq> [] \<longleftrightarrow> (\<exists>i < length (r_all r). e_name (r_all r ! i) = name)"
    by (auto simp: named_def filter_empty_conv)
  then show ?thesis
    using refuse_iff [of r name] by (auto simp: set_enabled_def Let_def)
qed

lemma set_enabled_entries:
  assumes "fst (set_enabled name on r)" and "i < length (r_all r)"
  shows "r_all (snd (set_enabled name on r)) ! i =
    (if e_name (r_all r ! i) = name then (r_all r ! i)\<lparr>e_enabled := on\<rparr> else r_all r ! i)"
proof -
  have "snd (set_enabled name on r)
      = update_entries (\<lambda>e. e\<lparr>e_enabled := on\<rparr>) (named r name) r"
    using assms(1) by (auto simp: set_enabled_def Let_def split: if_splits)
  then show ?thesis
    using assms(2) by (simp add: update_entries_nth named_def)
qed

section \<open>Properties\<close>

text \<open>
  A rotation written as JSON and loaded again is the same rotation, entry by entry: this
  is what \<open>--dump-rotation\<close> and a rotation file rely on.
\<close>

theorem rotation_file_round_trip:
  assumes "\<forall>e \<in> set es. entry_ok e"
  shows "load_entries (map to_json es) = Inr es"
  using assms by (rule load_entries_to_json)

lemma default_rotation_ok: "\<forall>e \<in> set default_rotation. entry_ok e"
  by (auto simp: default_rotation_def entry_ok_def Entry_def)

theorem rotation_file_round_trip_witness:
  "load_entries (map to_json default_rotation) = Inr default_rotation \<and> 0 < length default_rotation"
  using rotation_file_round_trip [OF default_rotation_ok] by (simp add: default_rotation_def ROTATION_def)

text \<open>
  C34. The order is fair: any stretch of the index as long as the number of live entries plays
  each of them exactly once, in running order, wherever it starts and however the order was
  jumped in before.
\<close>

theorem running_order_is_fair:
  assumes "live r \<noteq> []"
  shows "\<exists>k < length (live r).
    map (\<lambda>j. rot_at r (i + int j)) [0..<length (live r)] = map Some (rotate k (live r))"
proof -
  let ?k = "nat ((i + r_offset r) mod int (length (live r)))"
  have "?k < length (live r)" using assms by (simp add: nat_less_iff)
  then show ?thesis using rot_at_window [OF assms] by blast
qed

definition abc :: rotation where
  "abc = \<lparr>r_all = [Entry ''py'' ''fire'' 30 0 [] 0 False [] True [] True None,
     Entry ''py'' ''life'' 30 0 [] 0 False [] False [] True None,
     Entry ''py'' ''maze'' 30 0 [] 0 False [] True [] True None,
     Entry ''py'' ''fire'' 9 0 [] 0 False [] True [] True None], r_offset = 5\<rparr>"

lemma live_abc: "live abc = [0, 2, 3]"
  by (simp add: live_def abc_def Entry_def upt_rec)

lemma abc_facts: "length (r_all abc) = 4" "e_name (r_all abc ! 0) = ''fire''"
  "e_name (r_all abc ! 2) = ''maze''" "e_name (r_all abc ! 3) = ''fire''"
  by (simp_all add: abc_def Entry_def)

theorem running_order_is_fair_witness:
  "live abc = [0, 2, 3] \<and> (\<exists>k < length (live abc).
     map (\<lambda>j. rot_at abc (7 + int j)) [0..<length (live abc)] = map Some (rotate k (live abc)))"
  using live_abc running_order_is_fair [of abc 7] by simp

text \<open>
  Switching by name does what the panel shows or nothing: it is accepted exactly when the
  name exists and something else stays on, every entry of the name and no other then has the
  new state, and a refusal leaves the rotation as it was.
\<close>

theorem toggle_is_exact:
  shows "(fst (set_enabled name on r) \<longleftrightarrow>
           (\<exists>i < length (r_all r). e_name (r_all r ! i) = name)
           \<and> (on \<or> (\<exists>i \<in> set (live r). e_name (r_all r ! i) \<noteq> name)))
    \<and> (fst (set_enabled name on r) \<longrightarrow> (\<forall>i < length (r_all r).
           r_all (snd (set_enabled name on r)) ! i =
             (if e_name (r_all r ! i) = name then (r_all r ! i)\<lparr>e_enabled := on\<rparr> else r_all r ! i)))
    \<and> (\<not> fst (set_enabled name on r) \<longrightarrow> snd (set_enabled name on r) = r)"
  using set_enabled_accepted set_enabled_entries set_enabled_refused by simp

theorem toggle_is_exact_witness:
  "fst (set_enabled ''fire'' False abc) \<and> \<not> e_enabled (r_all (snd (set_enabled ''fire'' False abc)) ! 3)"
proof -
  note t = toggle_is_exact [of "''fire''" False abc]
  have "fst (set_enabled ''fire'' False abc)"
    using t abc_facts by (auto simp: live_abc intro: exI [of _ 0])
  with t abc_facts show ?thesis by simp
qed

text \<open>
  A jump lands: after jumping to a position of the running order the index asked for
  plays the entry at that position, the ones after it follow in order from there, and the
  entry reports that position.
\<close>

theorem jump_lands:
  assumes "0 \<le> p" and "p < int (length (live r))"
  shows "rot_at (snd (jump p k r)) (k + int d)
      = Some (live r ! ((nat p + d) mod length (live r)))
    \<and> position_of (rot_at (snd (jump p k r)) k) (snd (jump p k r)) = p"
proof -
  have "nat ((p + int d) mod int (length (live r))) = (nat p + d) mod length (live r)" for d
    using assms(1) by (simp add: nat_mod_distrib nat_add_distrib)
  then have at: "rot_at (snd (jump p k r)) (k + int d)
      = Some (live r ! ((nat p + d) mod length (live r)))" for d
    using jump_at(2) [OF assms, of k "int d"] by simp
  have "rot_at (snd (jump p k r)) k = Some (live (snd (jump p k r)) ! nat p)"
    using at [of 0] assms by (simp add: jump_live)
  then show ?thesis
    using at position_of_live [of "nat p" "snd (jump p k r)"] assms by (simp add: jump_live)
qed

theorem jump_lands_witness: "rot_at (snd (jump 2 10 abc)) (10 + int 1) = Some 0"
  using jump_lands [of 2 abc 10 1] by (simp add: live_abc)

end
