(* ===== verification/FT_Builder.thy ===== *)
theory FT_Builder
  imports FT_Rotation
begin

text \<open>
  Building ahead of the playhead: the dictionaries of \<open>Builder\<close> in
  \<open>src/demos/megademo.py\<close> (\<open>start\<close>, \<open>_next_missing\<close>, \<open>get\<close>, \<open>retire\<close>, \<open>spec\<close>,
  \<open>shutdown\<close>, \<open>_run\<close>) and its subclass in \<open>src/demos/ftsched.py\<close> (\<open>entry_at\<close>,
  \<open>segment_for\<close>, \<open>forget\<close>, \<open>invalidate_from\<close>, \<open>_run\<close>). The worker thread and the frame
  loop run concurrently; every stretch of code between two lock operations is one step.
\<close>

section \<open>The dictionaries\<close>

record 'r builder =
  b_ready :: "nat \<rightharpoonup> 'r"
  b_specs :: "nat \<rightharpoonup> nat"
  b_want :: nat
  b_lead :: nat
  b_gen :: nat
  b_stop :: bool
  b_segcache :: "nat \<rightharpoonup> dict"

definition new_builder :: "int \<Rightarrow> 'r builder" where
  "new_builder lead =
     \<lparr>b_ready = Map.empty, b_specs = Map.empty, b_want = 0, b_lead = nat (max 1 lead),
      b_gen = 0, b_stop = False, b_segcache = Map.empty\<rparr>"

text \<open>\<open>start(first)\<close>: the opening render, with the first segment as its spec.\<close>

definition b_start :: "nat \<Rightarrow> 'r \<Rightarrow> 'r builder \<Rightarrow> 'r builder" where
  "b_start seg0 first b =
     b\<lparr>b_ready := (b_ready b)(0 \<mapsto> first), b_specs := (b_specs b)(0 \<mapsto> seg0), b_want := 0\<rparr>"

definition next_missing :: "'r builder \<Rightarrow> nat option" where
  "next_missing b = find (\<lambda>i. b_ready b i = None) [b_want b..<b_want b + b_lead b + 1]"

definition b_get :: "nat \<Rightarrow> 'r builder \<Rightarrow> 'r option" where
  "b_get i b = b_ready b i"

definition retire :: "nat \<Rightarrow> 'r builder \<Rightarrow> 'r builder" where
  "retire below b =
     b\<lparr>b_ready := (\<lambda>i. if i < below then None else b_ready b i),
       b_specs := (\<lambda>i. if i < below \<and> b_ready b i \<noteq> None then None else b_specs b i),
       b_want := below\<rparr>"

definition b_shutdown :: "'r builder \<Rightarrow> 'r builder" where
  "b_shutdown b = b\<lparr>b_stop := True\<rparr>"

definition invalidate_from :: "nat \<Rightarrow> 'r builder \<Rightarrow> 'r builder" where
  "invalidate_from index b =
     b\<lparr>b_ready := (\<lambda>i. if index \<le> i then None else b_ready b i),
       b_specs := (\<lambda>i. if index \<le> i \<and> b_ready b i \<noteq> None then None else b_specs b i),
       b_gen := Suc (b_gen b)\<rparr>"

definition forget :: "nat \<Rightarrow> 'r builder \<Rightarrow> 'r builder" where
  "forget e b = b\<lparr>b_segcache := (b_segcache b)(e := None)\<rparr>"

definition file_build :: "nat \<Rightarrow> nat \<Rightarrow> 'r \<Rightarrow> 'r builder \<Rightarrow> 'r builder" where
  "file_build index e render b =
     b\<lparr>b_ready := (b_ready b)(index \<mapsto> render), b_specs := (b_specs b)(index \<mapsto> e)\<rparr>"

text \<open>What a demo is built with: the entry's options, and its frame rate when it has one.\<close>

definition overrides :: "entry \<Rightarrow> dict" where
  "overrides e = (if e_fps e \<noteq> 0 then AList.update ''fps'' (JInt (e_fps e)) (e_options e)
                  else e_options e)"

text \<open>The scheduler's \<open>spec\<close>: pinned for a built index, the rotation's answer otherwise.\<close>

definition spec :: "rotation \<Rightarrow> 'r builder \<Rightarrow> nat \<Rightarrow> nat option" where
  "spec r b i = (case b_specs b i of Some e \<Rightarrow> Some e | None \<Rightarrow> rot_at r (int i))"

section \<open>The megademo's worker\<close>

text \<open>
  One pass of \<open>megademo.Builder._run\<close> with an outcome of the build: the segment list
  shrinks when a build raises, and the thread ends when nothing would be left.
\<close>

definition mega_spec :: "nat list \<Rightarrow> 'r builder \<Rightarrow> nat \<Rightarrow> nat option" where
  "mega_spec segs b i =
     (case b_specs b i of
        Some s \<Rightarrow> Some s
      | None \<Rightarrow> if segs = [] then None else Some (segs ! (i mod length segs)))"

definition mega_run_pass ::
  "(nat \<Rightarrow> 'r option) \<Rightarrow> nat list \<Rightarrow> 'r builder \<Rightarrow> nat list \<times> 'r builder" where
  "mega_run_pass build segs b =
     (if b_stop b then (segs, b)
      else case next_missing b of
        None \<Rightarrow> (segs, b)
      | Some i \<Rightarrow>
          if segs = [] then (segs, b)
          else
            let seg = segs ! (i mod length segs) in
            (case build seg of
               None \<Rightarrow> if 1 < length segs \<and> seg \<in> set segs then (remove1 seg segs, b)
                       else (segs, b\<lparr>b_stop := True\<rparr>)
             | Some render \<Rightarrow> (segs, file_build i seg render b)))"

section \<open>The scheduler: two threads over a rotation and a builder\<close>

text \<open>
  A render is what it was built from: the entry and the options it was given. The worker
  is between two lock operations of \<open>_run\<close> / \<open>segment_for\<close>; the frame loop is idle or on
  its way through the tail of a command.
\<close>

type_synonym render = "nat \<times> dict"

datatype worker =
    W_idle
  | W_captured nat nat
  | W_segment nat nat nat dict
  | W_building nat nat nat dict

datatype mainloop = M_idle | M_forget "nat list" | M_invalidate

record sys =
  s_rot :: rotation
  s_b :: "render builder"
  s_index :: nat
  s_worker :: worker
  s_main :: mainloop

text \<open>The worker thread, when no build raises.\<close>

inductive worker_step :: "sys \<Rightarrow> sys \<Rightarrow> bool" where
  w_capture: "s_worker s = W_idle \<Longrightarrow> \<not> b_stop (s_b s) \<Longrightarrow> next_missing (s_b s) = Some i \<Longrightarrow>
     worker_step s (s\<lparr>s_worker := W_captured i (b_gen (s_b s))\<rparr>)"
| w_nothing: "s_worker s = W_captured i g \<Longrightarrow> rot_at (s_rot s) (int i) = None \<Longrightarrow>
     worker_step s (s\<lparr>s_worker := W_idle\<rparr>)"
| w_exec: "s_worker s = W_captured i g \<Longrightarrow> rot_at (s_rot s) (int i) = Some e \<Longrightarrow>
     e_kind (r_all (s_rot s) ! e) = ''exec'' \<Longrightarrow>
     worker_step s (s\<lparr>s_worker := W_building i g e []\<rparr>)"
| w_cached: "s_worker s = W_captured i g \<Longrightarrow> rot_at (s_rot s) (int i) = Some e \<Longrightarrow>
     e_kind (r_all (s_rot s) ! e) \<noteq> ''exec'' \<Longrightarrow> b_segcache (s_b s) e = Some ov \<Longrightarrow>
     worker_step s (s\<lparr>s_worker := W_building i g e ov\<rparr>)"
| w_segment: "s_worker s = W_captured i g \<Longrightarrow> rot_at (s_rot s) (int i) = Some e \<Longrightarrow>
     e_kind (r_all (s_rot s) ! e) \<noteq> ''exec'' \<Longrightarrow> b_segcache (s_b s) e = None \<Longrightarrow>
     worker_step s (s\<lparr>s_worker := W_segment i g e (overrides (r_all (s_rot s) ! e))\<rparr>)"
| w_store: "s_worker s = W_segment i g e ov \<Longrightarrow>
     worker_step s (s\<lparr>s_worker := W_building i g e ov,
                      s_b := (s_b s)\<lparr>b_segcache := (b_segcache (s_b s))(e \<mapsto> ov)\<rparr>\<rparr>)"
| w_file: "s_worker s = W_building i g e ov \<Longrightarrow> b_gen (s_b s) = g \<Longrightarrow>
     worker_step s (s\<lparr>s_worker := W_idle, s_b := file_build i e (e, ov) (s_b s)\<rparr>)"
| w_discard: "s_worker s = W_building i g e ov \<Longrightarrow> b_gen (s_b s) \<noteq> g \<Longrightarrow>
     worker_step s (s\<lparr>s_worker := W_idle\<rparr>)"

text \<open>A build that raises: the entry is switched off and the generation moves.\<close>

inductive worker_fails :: "sys \<Rightarrow> sys \<Rightarrow> bool" where
  w_fail: "s_worker s = W_building i g e ov \<Longrightarrow>
     worker_fails s (s\<lparr>s_worker := W_idle,
       s_rot := update_entries (\<lambda>x. x\<lparr>e_enabled := False\<rparr>) [e] (s_rot s),
       s_b := (s_b s)\<lparr>b_gen := Suc (b_gen (s_b s))\<rparr>\<rparr>)"

text \<open>
  The frame loop: the commands as far as they touch the rotation and the builder, one lock
  operation at a time, and the advance of the playhead.
\<close>

inductive main_step :: "sys \<Rightarrow> sys \<Rightarrow> bool" where
  m_toggle: "s_main s = M_idle \<Longrightarrow> set_enabled name on (s_rot s) = (True, r') \<Longrightarrow>
     main_step s (s\<lparr>s_rot := r', s_main := M_invalidate\<rparr>)"
| m_all: "s_main s = M_idle \<Longrightarrow>
     set_all on (rot_at (s_rot s) (int (s_index s))) (s_rot s) = (True, r') \<Longrightarrow>
     main_step s (s\<lparr>s_rot := r', s_main := M_invalidate\<rparr>)"
| m_jump: "s_main s = M_idle \<Longrightarrow>
     jump p (int (s_index s) + 1) (s_rot s) = (True, r') \<Longrightarrow>
     main_step s (s\<lparr>s_rot := r', s_main := M_invalidate\<rparr>)"
| m_configure: "s_main s = M_idle \<Longrightarrow> rot_configure name opts (s_rot s) = (hit, r') \<Longrightarrow>
     main_step s (s\<lparr>s_rot := r', s_main := M_forget hit\<rparr>)"
| m_forget: "s_main s = M_forget (e # es) \<Longrightarrow>
     main_step s (s\<lparr>s_b := forget e (s_b s), s_main := M_forget es\<rparr>)"
| m_forgotten: "s_main s = M_forget [] \<Longrightarrow> main_step s (s\<lparr>s_main := M_invalidate\<rparr>)"
| m_restart: "s_main s = M_idle \<Longrightarrow> main_step s (s\<lparr>s_main := M_invalidate\<rparr>)"
| m_invalidate: "s_main s = M_invalidate \<Longrightarrow>
     main_step s (s\<lparr>s_b := invalidate_from (Suc (s_index s)) (s_b s), s_main := M_idle\<rparr>)"
| m_advance: "s_main s = M_idle \<Longrightarrow> b_ready (s_b s) (Suc (s_index s)) = Some x \<Longrightarrow>
     main_step s (s\<lparr>s_index := Suc (s_index s), s_b := retire (Suc (s_index s)) (s_b s)\<rparr>)"

inductive sys_reach :: "sys \<Rightarrow> sys \<Rightarrow> bool" where
  reach_refl: "sys_reach s s"
| reach_worker: "sys_reach s t \<Longrightarrow> worker_step t u \<Longrightarrow> sys_reach s u"
| reach_main: "sys_reach s t \<Longrightarrow> main_step t u \<Longrightarrow> sys_reach s u"

text \<open>The start: the opening entry built inline, everything idle.\<close>

definition sys_start :: "rotation \<Rightarrow> int \<Rightarrow> render \<Rightarrow> sys" where
  "sys_start r lead first =
     \<lparr>s_rot = r, s_b = b_start 0 first (new_builder lead), s_index = 0,
      s_worker = W_idle, s_main = M_idle\<rparr>"

section \<open>Nothing stale is filed ahead of the playhead\<close>

definition fresh_ahead :: "sys \<Rightarrow> bool" where
  "fresh_ahead s \<longleftrightarrow>
     (\<forall>i > s_index s. \<forall>e ov. b_ready (s_b s) i = Some (e, ov) \<longrightarrow>
        rot_at (s_rot s) (int i) = Some e \<and> b_specs (s_b s) i = Some e)"

fun worker_ok :: "rotation \<Rightarrow> nat \<Rightarrow> bool \<Rightarrow> worker \<Rightarrow> bool" where
  "worker_ok r gen idle W_idle = True"
| "worker_ok r gen idle (W_captured i g) = (g \<le> gen)"
| "worker_ok r gen idle (W_segment i g e ov) =
     (g \<le> gen \<and> (idle \<and> g = gen \<longrightarrow> rot_at r (int i) = Some e))"
| "worker_ok r gen idle (W_building i g e ov) =
     (g \<le> gen \<and> (idle \<and> g = gen \<longrightarrow> rot_at r (int i) = Some e))"

definition sys_inv :: "sys \<Rightarrow> bool" where
  "sys_inv s \<longleftrightarrow>
     (s_main s = M_idle \<longrightarrow> fresh_ahead s)
     \<and> worker_ok (s_rot s) (b_gen (s_b s)) (s_main s = M_idle) (s_worker s)"

lemma worker_ok_busy:
  "worker_ok r gen idle w \<Longrightarrow> worker_ok r' gen False w"
  by (cases w) auto

lemma worker_ok_bumped: "worker_ok r gen idle w \<Longrightarrow> worker_ok r' (Suc gen) idle' w"
  by (cases w) auto

lemma sys_inv_start [ft_inv]: "sys_inv (sys_start r lead first)"
  by (auto simp: sys_inv_def sys_start_def fresh_ahead_def b_start_def new_builder_def)

lemma sys_inv_worker [ft_inv]: "worker_step s t \<Longrightarrow> sys_inv s \<Longrightarrow> sys_inv t"
  by (induction rule: worker_step.induct)
    (auto simp: sys_inv_def fresh_ahead_def file_build_def)

lemma sys_inv_main [ft_inv]: "main_step s t \<Longrightarrow> sys_inv s \<Longrightarrow> sys_inv t"
proof (induction rule: main_step.induct)
  case (m_invalidate s)
  then show ?case
    by (auto simp: sys_inv_def fresh_ahead_def invalidate_from_def intro: worker_ok_bumped)
next
  case (m_advance s x)
  then show ?case
    by (auto simp: sys_inv_def fresh_ahead_def retire_def)
qed (auto simp: sys_inv_def forget_def intro: worker_ok_busy)

lemma sys_inv_reach: "sys_reach s t \<Longrightarrow> sys_inv s \<Longrightarrow> sys_inv t"
  by (induction rule: sys_reach.induct) (auto intro: sys_inv_worker sys_inv_main)

section \<open>Properties\<close>

text \<open>
  C7. Whatever the interleaving of the worker thread with the commands of the frame loop, a
  render filed for an index past the playhead is always one of the entry that the rotation
  names at that index now, as long as no build fails: the generation counter discards every
  build that was overtaken by a jump, a toggle or a configuration.
\<close>

theorem nothing_stale_is_filed:
  assumes "sys_reach (sys_start r lead first) s" and "s_main s = M_idle"
  shows "\<forall>i > s_index s. \<forall>e ov. b_ready (s_b s) i = Some (e, ov) \<longrightarrow>
     rot_at (s_rot s) (int i) = Some e \<and> b_specs (s_b s) i = Some e"
  using sys_inv_reach [OF assms(1) sys_inv_start] assms(2)
  by (simp add: sys_inv_def fresh_ahead_def)

definition three :: rotation where
  "three = Rotation
     [Entry ''py'' ''fire'' 30 0 [] 0 False [] True [] True None,
      Entry ''py'' ''life'' 30 0 [] 0 False [] True [] True None,
      Entry ''py'' ''maze'' 30 0 [] 0 False [] True [] True None]"

lemma live_three [simp]: "live three = [0, 1, 2]" "live (three\<lparr>r_offset := k\<rparr>) = [0, 1, 2]"
  by (simp_all add: live_def three_def Rotation_def Entry_def upt_rec)

lemma three_simps [simp]:
  "r_offset three = 0" "length (r_all three) = 3" "overrides (r_all three ! 0) = []"
  "overrides (r_all three ! Suc 0) = []" "overrides (r_all three ! 2) = []"
  "e_kind (r_all three ! 0) = ''py''" "e_kind (r_all three ! Suc 0) = ''py''" "e_kind (r_all three ! 2) = ''py''"
  by (simp_all add: three_def Rotation_def Entry_def overrides_def)

text \<open>The opening built, entry 1 built ahead and filed.\<close>

abbreviation opened :: sys where "opened \<equiv> sys_start three 2 (0, [])"

lemmas run_simps = sys_start_def b_start_def new_builder_def next_missing_def upt_rec
  rot_at_def Let_def file_build_def invalidate_from_def

abbreviation capt1 :: sys where "capt1 \<equiv> opened\<lparr>s_worker := W_captured 1 0\<rparr>"
abbreviation segm1 :: sys where "segm1 \<equiv> opened\<lparr>s_worker := W_segment 1 0 1 []\<rparr>"

lemma reach_segm1: "sys_reach opened segm1"
proof -
  have "worker_step opened capt1"
    using w_capture [of opened 1] by (simp add: run_simps)
  moreover have "worker_step capt1 segm1"
    using w_segment [of capt1 1 0 1] by (simp add: run_simps)
  ultimately show ?thesis by (blast intro: reach_refl reach_worker)
qed

theorem nothing_stale_is_filed_witness:
  "\<exists>s. sys_reach (sys_start three 2 (0, [])) s \<and> b_ready (s_b s) 1 = Some (1, [])
     \<and> rot_at (s_rot s) (int 1) = Some 1"
proof -
  let ?built = "segm1\<lparr>s_worker := W_building 1 0 1 [],
      s_b := (s_b segm1)\<lparr>b_segcache := (b_segcache (s_b segm1))(1 \<mapsto> [])\<rparr>\<rparr>"
  let ?filed = "?built\<lparr>s_worker := W_idle, s_b := file_build 1 1 (1, []) (s_b ?built)\<rparr>"
  have "worker_step segm1 ?built" by (rule w_store) simp
  moreover have "worker_step ?built ?filed" by (rule w_file) (simp_all add: run_simps)
  ultimately have r: "sys_reach opened ?filed"
    using reach_segm1 by (blast intro: reach_worker)
  moreover have "b_ready (s_b ?filed) 1 = Some (1, [])" "s_main ?filed = M_idle"
    by (simp_all add: run_simps)
  moreover have "rot_at (s_rot ?filed) (int 1) = Some 1"
    using nothing_stale_is_filed [OF r] calculation(2,3) by (simp add: run_simps)
  ultimately show ?thesis by blast
qed

text \<open>
  Changed options can be lost: if the worker has read an entry's options for a segment
  and not stored it yet when \<open>configure\<close> changes them and forgets the cached segment, the
  segment stored afterwards carries the old options, and the next build, of the current
  generation, is made from it and filed.
\<close>

theorem configured_options_can_be_lost:
  "\<exists>s. sys_reach (sys_start three 2 (0, [])) s \<and> s_main s = M_idle
     \<and> e_options (r_all (s_rot s) ! 1) = [(''cells'', JInt 9)]
     \<and> b_ready (s_b s) 1 = Some (1, [])"
proof -
  let ?r = "update_entries (\<lambda>e. e\<lparr>e_options := [(''cells'', JInt 9)]\<rparr>) [Suc 0] three"
  have "named three ''life'' = [1]"
    by (simp add: named_def three_def Rotation_def Entry_def upt_rec)
  then have cfg: "rot_configure ''life'' (Some [(''cells'', JInt 9)]) three = ([Suc 0], ?r)"
    by (simp add: rot_configure_def Let_def)
  have opts: "e_options (r_all ?r ! 1) = [(''cells'', JInt 9)]"
    and kind: "e_kind (r_all ?r ! Suc 0) = ''py''"
    by (simp_all add: update_entries_nth)
  have live: "live ?r = [0, 1, 2]"
    using rot_configure_live [of "''life''" "Some [(''cells'', JInt 9)]" three] by (simp add: cfg)
  have off: "r_offset ?r = 0" by simp
  let ?s1 = "segm1\<lparr>s_rot := ?r, s_main := M_forget [Suc 0]\<rparr>"
  let ?s2 = "?s1\<lparr>s_b := forget (Suc 0) (s_b ?s1), s_main := M_forget []\<rparr>"
  let ?s3 = "?s2\<lparr>s_main := M_invalidate\<rparr>"
  let ?s4 = "?s3\<lparr>s_b := invalidate_from (Suc (s_index ?s3)) (s_b ?s3), s_main := M_idle\<rparr>"
  let ?s5 = "?s4\<lparr>s_worker := W_building 1 0 1 [],
      s_b := (s_b ?s4)\<lparr>b_segcache := (b_segcache (s_b ?s4))(1 \<mapsto> [])\<rparr>\<rparr>"
  let ?s6 = "?s5\<lparr>s_worker := W_idle\<rparr>"
  let ?s7 = "?s6\<lparr>s_worker := W_captured 1 1\<rparr>"
  let ?s8 = "?s7\<lparr>s_worker := W_building 1 1 1 []\<rparr>"
  let ?s9 = "?s8\<lparr>s_worker := W_idle, s_b := file_build 1 1 (1, []) (s_b ?s8)\<rparr>"
  have "main_step segm1 ?s1"
    by (rule m_configure [where name = "''life''" and opts = "Some [(''cells'', JInt 9)]"])
      (simp_all add: run_simps cfg)
  then have "sys_reach opened ?s1" using reach_segm1 by (blast intro: reach_main)
  moreover have "main_step ?s1 ?s2" by (rule m_forget) simp
  ultimately have "sys_reach opened ?s2" by (blast intro: reach_main)
  moreover have "main_step ?s2 ?s3" by (rule m_forgotten) simp
  ultimately have "sys_reach opened ?s3" by (blast intro: reach_main)
  moreover have "main_step ?s3 ?s4" by (rule m_invalidate) simp
  ultimately have "sys_reach opened ?s4" by (blast intro: reach_main)
  moreover have "worker_step ?s4 ?s5" by (rule w_store) simp
  ultimately have "sys_reach opened ?s5" by (blast intro: reach_worker)
  moreover have "worker_step ?s5 ?s6"
    by (rule w_discard [of _ 1 0 1 "[]"]) (simp_all add: run_simps forget_def)
  ultimately have "sys_reach opened ?s6" by (blast intro: reach_worker)
  moreover have "worker_step ?s6 ?s7"
    using w_capture [of ?s6 1] by (simp add: run_simps forget_def)
  ultimately have "sys_reach opened ?s7" by (blast intro: reach_worker)
  moreover have "worker_step ?s7 ?s8"
    by (rule w_cached [of _ 1 1 1 "[]"]) (simp_all add: run_simps live off kind)
  ultimately have "sys_reach opened ?s8" by (blast intro: reach_worker)
  moreover have "worker_step ?s8 ?s9"
    by (rule w_file) (simp_all add: run_simps forget_def)
  ultimately have "sys_reach opened ?s9" by (blast intro: reach_worker)
  then show ?thesis
    by (intro exI [of _ ?s9]) (use opts in \<open>simp add: file_build_def\<close>)
qed

text \<open>
  A build that fails breaks the promise of the generation counter: switching the entry
  off moves the mapping under builds that are already filed, and those are not dropped. Here
  entry 2 was built for index 1, and after the failure the rotation says entry 1 plays there.
\<close>

theorem failed_build_leaves_stale_renders:
  "\<exists>s t. sys_reach (sys_start three 2 (0, [])) s \<and> worker_fails s t \<and> s_main t = M_idle
     \<and> b_ready (s_b t) 1 = Some (2, []) \<and> rot_at (s_rot t) (int 1) = Some 1"
proof -
  let ?r = "three\<lparr>r_offset := 1\<rparr>"
  have j: "jump 2 1 three = (True, ?r)" by (simp add: jump_def)
  let ?s1 = "opened\<lparr>s_rot := ?r, s_main := M_invalidate\<rparr>"
  let ?s2 = "?s1\<lparr>s_b := invalidate_from (Suc (s_index ?s1)) (s_b ?s1), s_main := M_idle\<rparr>"
  let ?s3 = "?s2\<lparr>s_worker := W_captured 1 1\<rparr>"
  let ?s4 = "?s3\<lparr>s_worker := W_segment 1 1 2 []\<rparr>"
  let ?s5 = "?s4\<lparr>s_worker := W_building 1 1 2 [],
      s_b := (s_b ?s4)\<lparr>b_segcache := (b_segcache (s_b ?s4))(2 \<mapsto> [])\<rparr>\<rparr>"
  let ?s6 = "?s5\<lparr>s_worker := W_idle, s_b := file_build 1 2 (2, []) (s_b ?s5)\<rparr>"
  let ?s7 = "?s6\<lparr>s_worker := W_captured 2 1\<rparr>"
  let ?s8 = "?s7\<lparr>s_worker := W_segment 2 1 0 []\<rparr>"
  let ?s9 = "?s8\<lparr>s_worker := W_building 2 1 0 [],
      s_b := (s_b ?s8)\<lparr>b_segcache := (b_segcache (s_b ?s8))(0 \<mapsto> [])\<rparr>\<rparr>"
  let ?t = "?s9\<lparr>s_worker := W_idle,
       s_rot := update_entries (\<lambda>x. x\<lparr>e_enabled := False\<rparr>) [0] (s_rot ?s9),
       s_b := (s_b ?s9)\<lparr>b_gen := Suc (b_gen (s_b ?s9))\<rparr>\<rparr>"
  have "main_step opened ?s1"
    by (rule m_jump [where p = 2]) (simp_all add: run_simps j)
  then have "sys_reach opened ?s1" by (blast intro: reach_refl reach_main)
  moreover have "main_step ?s1 ?s2" by (rule m_invalidate) simp
  ultimately have "sys_reach opened ?s2" by (blast intro: reach_main)
  moreover have "worker_step ?s2 ?s3"
    using w_capture [of ?s2 1] by (simp add: run_simps)
  ultimately have "sys_reach opened ?s3" by (blast intro: reach_worker)
  moreover have "worker_step ?s3 ?s4"
    using w_segment [of ?s3 1 1 2] by (simp add: run_simps)
  ultimately have "sys_reach opened ?s4" by (blast intro: reach_worker)
  moreover have "worker_step ?s4 ?s5" by (rule w_store) simp
  ultimately have "sys_reach opened ?s5" by (blast intro: reach_worker)
  moreover have "worker_step ?s5 ?s6" by (rule w_file) (simp_all add: run_simps)
  ultimately have "sys_reach opened ?s6" by (blast intro: reach_worker)
  moreover have "worker_step ?s6 ?s7"
    using w_capture [of ?s6 2] by (simp add: run_simps)
  ultimately have "sys_reach opened ?s7" by (blast intro: reach_worker)
  moreover have "worker_step ?s7 ?s8"
    using w_segment [of ?s7 2 1 0] by (simp add: run_simps)
  ultimately have "sys_reach opened ?s8" by (blast intro: reach_worker)
  moreover have "worker_step ?s8 ?s9" by (rule w_store) simp
  ultimately have "sys_reach opened ?s9" by (blast intro: reach_worker)
  moreover have "worker_fails ?s9 ?t" by (rule w_fail) simp
  moreover have "live (update_entries (\<lambda>x. x\<lparr>e_enabled := False\<rparr>) [0] ?r) = [1, 2]"
    by (simp add: live_def update_entries_def three_def Rotation_def Entry_def upt_rec)
  ultimately show ?thesis
    by (intro exI [of _ ?s9] exI [of _ ?t]) (simp add: file_build_def rot_at_def Let_def)
qed

end
