(* ===== verification/FT_Show.thy ===== *)
theory FT_Show
  imports FT_Builder
begin

text \<open>
  The sequencers: \<open>Show\<close> of \<open>src/demos/megademo.py\<close> and its subclass in
  \<open>src/demos/ftsched.py\<close>. Times are seconds as rationals. A render callback is a value of
  type \<open>'r\<close> applied by \<open>render\<close>; the blends are a record, so that nothing here depends on
  pixels. The loop that advances the playhead is given fuel; \<open>ft_advance_done\<close> shows that
  the look-ahead of the builder is enough.
\<close>

section \<open>State\<close>

record show_state =
  sh_T :: rat
  sh_index :: nat
  sh_start :: rat
  sh_clock :: "nat \<rightharpoonup> rat"
  sh_count :: "nat \<rightharpoonup> nat"
  sh_in_transition :: bool
  sh_stalled :: bool
  sh_paused :: bool

datatype show_error = MissingClock nat | NotBuilt nat

definition new_show :: "rat \<Rightarrow> show_state" where
  "new_show T =
     \<lparr>sh_T = T, sh_index = 0, sh_start = 0, sh_clock = [0 \<mapsto> - T], sh_count = [0 \<mapsto> 0],
      sh_in_transition = False, sh_stalled = False, sh_paused = False\<rparr>"

text \<open>
  \<open>megademo.Show.__init__\<close>: no overlap with a single segment. The scheduler's constructor
  first runs this one (over all entries), then sets \<open>T\<close> from its option; the clock of
  effect 0 keeps the first value.
\<close>

definition mega_show :: "nat \<Rightarrow> rat \<Rightarrow> show_state" where
  "mega_show n_segments transition = new_show (if 1 < n_segments then transition else 0)"

definition ft_show :: "nat \<Rightarrow> rat \<Rightarrow> show_state" where
  "ft_show n_entries transition = (mega_show n_entries transition)\<lparr>sh_T := transition\<rparr>"

record 'f blender =
  bl_fade_black :: "'f \<Rightarrow> rat \<Rightarrow> 'f"
  bl_crossfade :: "'f \<Rightarrow> 'f \<Rightarrow> rat \<Rightarrow> 'f"
  bl_wipe :: "'f \<Rightarrow> 'f \<Rightarrow> rat \<Rightarrow> 'f"
  bl_through_black :: "'f \<Rightarrow> 'f \<Rightarrow> rat \<Rightarrow> 'f"
  bl_flash :: "'f \<Rightarrow> 'f \<Rightarrow> rat \<Rightarrow> 'f"

section \<open>Rendering one effect\<close>

definition show_one ::
  "('r \<Rightarrow> rat \<Rightarrow> nat \<Rightarrow> 'f) \<Rightarrow> 'r builder \<Rightarrow> nat \<Rightarrow> rat \<Rightarrow> show_state
     \<Rightarrow> (show_error + 'f) \<times> show_state" where
  "show_one render b i t s =
     (let n = (case sh_count s i of None \<Rightarrow> 0 | Some n \<Rightarrow> n);
          s1 = s\<lparr>sh_count := (sh_count s)(i \<mapsto> Suc n)\<rparr>
      in case sh_clock s i of
           None \<Rightarrow> (Inl (MissingClock i), s1)
         | Some c \<Rightarrow>
            (case b_get i b of
               None \<Rightarrow> (Inl (NotBuilt i), s1)
             | Some r \<Rightarrow> (Inr (render r (t - c) n), s1)))"

text \<open>Both neighbours, outgoing first, then the blend.\<close>

definition show_two ::
  "('r \<Rightarrow> rat \<Rightarrow> nat \<Rightarrow> 'f) \<Rightarrow> ('f \<Rightarrow> 'f \<Rightarrow> 'f) \<Rightarrow> 'r builder \<Rightarrow> nat \<Rightarrow> nat \<Rightarrow> rat
     \<Rightarrow> show_state \<Rightarrow> (show_error + 'f) \<times> show_state" where
  "show_two render blend b i j t s =
     (case show_one render b i t s of
        (Inl e, s1) \<Rightarrow> (Inl e, s1)
      | (Inr f, s1) \<Rightarrow>
         (case show_one render b j t s1 of
            (Inl e, s2) \<Rightarrow> (Inl e, s2)
          | (Inr g, s2) \<Rightarrow> (Inr (blend f g), s2)))"

section \<open>Advancing the playhead\<close>

definition drop_old :: "nat \<Rightarrow> show_state \<Rightarrow> show_state" where
  "drop_old i s =
     s\<lparr>sh_clock := (\<lambda>k. if k < i then None else sh_clock s k),
       sh_count := (\<lambda>k. if k < i \<and> sh_clock s k \<noteq> None then None else sh_count s k)\<rparr>"

definition enter :: "rat \<Rightarrow> show_state \<Rightarrow> show_state" where
  "enter d s = (drop_old (Suc (sh_index s)) (s\<lparr>sh_index := Suc (sh_index s)\<rparr>))
                 \<lparr>sh_start := sh_start s + d\<rparr>"

text \<open>
  The scheduler's addition: an effect that a cut brought in has no clock yet, so it starts
  here.
\<close>

definition start_clock :: "show_state \<Rightarrow> show_state" where
  "start_clock s =
     (if sh_clock s (sh_index s) = None
      then s\<lparr>sh_clock := (sh_clock s)(sh_index s \<mapsto> sh_start s),
             sh_count := (sh_count s)(sh_index s \<mapsto> 0)\<rparr>
      else s)"

fun mega_advance ::
  "nat \<Rightarrow> (nat \<Rightarrow> rat) \<Rightarrow> rat \<Rightarrow> 'r builder \<Rightarrow> show_state \<Rightarrow> 'r builder \<times> show_state" where
  "mega_advance 0 dur t b s = (b, s)"
| "mega_advance (Suc fuel) dur t b s =
     (let d = dur (sh_index s); i = Suc (sh_index s) in
      if sh_start s + d \<le> t \<and> b_get i b \<noteq> None
      then mega_advance fuel dur t (retire i b) (enter d s)
      else (b, s))"

fun ft_advance ::
  "nat \<Rightarrow> (nat \<Rightarrow> rat) \<Rightarrow> rat \<Rightarrow> 'r builder \<Rightarrow> show_state \<Rightarrow> 'r builder \<times> show_state" where
  "ft_advance 0 dur t b s = (b, s)"
| "ft_advance (Suc fuel) dur t b s =
     (let d = dur (sh_index s); i = Suc (sh_index s) in
      if sh_start s + d \<le> t \<and> b_ready b i \<noteq> None
      then ft_advance fuel dur t (retire i b) (start_clock (enter d s))
      else (b, s))"

section \<open>Composing a frame\<close>

text \<open>The megademo: \<open>kind i\<close> is the transition named by the spec of segment \<open>i\<close>.\<close>

definition mega_compose ::
  "('r \<Rightarrow> rat \<Rightarrow> nat \<Rightarrow> 'f) \<Rightarrow> ('f \<Rightarrow> rat \<Rightarrow> 'f) \<Rightarrow> (string \<Rightarrow> 'f \<Rightarrow> 'f \<Rightarrow> rat \<Rightarrow> 'f)
     \<Rightarrow> (nat \<Rightarrow> rat) \<Rightarrow> (nat \<Rightarrow> string) \<Rightarrow> rat \<Rightarrow> 'r builder \<Rightarrow> show_state
     \<Rightarrow> (show_error + 'f) \<times> 'r builder \<times> show_state" where
  "mega_compose render fade transitions dur kind t b0 s0 =
     (let (b, s) = mega_advance (Suc (b_lead b0)) dur t b0 s0;
          nxt_at = sh_start s + dur (sh_index s) - sh_T s
      in if sh_T s \<le> 0 \<or> t < nxt_at then
           let s1 = s\<lparr>sh_in_transition := False\<rparr> in
           if sh_index s = 0 \<and> 0 < sh_T s \<and> t < sh_T s
           then (case show_one render b 0 t s1 of
                   (Inl e, s2) \<Rightarrow> (Inl e, b, s2)
                 | (Inr f, s2) \<Rightarrow> (Inr (fade f (1 - t / sh_T s)), b, s2))
           else (case show_one render b (sh_index s) t s1 of (r, s2) \<Rightarrow> (r, b, s2))
         else
           let nxt = Suc (sh_index s) in
           if b_get nxt b = None
           then (case show_one render b (sh_index s) t
                       (s\<lparr>sh_stalled := True, sh_in_transition := False\<rparr>) of (r, s2) \<Rightarrow> (r, b, s2))
           else
             let s1 = s\<lparr>sh_stalled := False,
                        sh_clock := (if sh_clock s nxt = None then (sh_clock s)(nxt \<mapsto> nxt_at)
                                     else sh_clock s),
                        sh_count := (if sh_clock s nxt = None then (sh_count s)(nxt \<mapsto> 0)
                                     else sh_count s),
                        sh_in_transition := True\<rparr>;
                 k = min ((t - nxt_at) / sh_T s) 1
             in (case show_two render (\<lambda>f g. transitions (kind nxt) f g k) b (sh_index s) nxt t s1 of
                   (r, s2) \<Rightarrow> (r, b, s2)))"

text \<open>The scheduler: a cut has no overlap, and \<open>dur\<close>, \<open>kind\<close> are asked per index.\<close>

definition blended :: "'f blender \<Rightarrow> string \<Rightarrow> 'f \<Rightarrow> 'f \<Rightarrow> rat \<Rightarrow> 'f" where
  "blended bl kind a b k =
     (if kind = ''cut'' then (if 1 \<le> k then b else a)
      else if kind = ''wipe'' then bl_wipe bl a b k
      else if kind = ''black'' then bl_through_black bl a b k
      else if kind = ''flash'' then bl_flash bl a b k
      else bl_crossfade bl a b k)"

definition ft_compose ::
  "('r \<Rightarrow> rat \<Rightarrow> nat \<Rightarrow> 'f) \<Rightarrow> 'f blender \<Rightarrow> (nat \<Rightarrow> rat) \<Rightarrow> (nat \<Rightarrow> string) \<Rightarrow> rat
     \<Rightarrow> 'r builder \<Rightarrow> show_state \<Rightarrow> (show_error + 'f) \<times> 'r builder \<times> show_state" where
  "ft_compose render bl dur kind_of t b0 s0 =
     (let (b, s) = ft_advance (Suc (b_lead b0)) dur t b0 s0;
          kind = kind_of (Suc (sh_index s));
          T = (if kind = ''cut'' then 0 else sh_T s);
          nxt_at = sh_start s + dur (sh_index s) - T
      in if T \<le> 0 \<or> t < nxt_at then
           let s1 = s\<lparr>sh_in_transition := False\<rparr> in
           if sh_index s = 0 \<and> 0 < sh_T s \<and> t < sh_T s
           then (case show_one render b 0 t s1 of
                   (Inl e, s2) \<Rightarrow> (Inl e, b, s2)
                 | (Inr f, s2) \<Rightarrow> (Inr (bl_fade_black bl f (1 - t / sh_T s)), b, s2))
           else (case show_one render b (sh_index s) t s1 of (r, s2) \<Rightarrow> (r, b, s2))
         else
           let nxt = Suc (sh_index s) in
           if b_ready b nxt = None
           then (case show_one render b (sh_index s) t
                       (s\<lparr>sh_stalled := True, sh_in_transition := False\<rparr>) of (r, s2) \<Rightarrow> (r, b, s2))
           else
             let s1 = s\<lparr>sh_stalled := False,
                        sh_clock := (if sh_clock s nxt = None then (sh_clock s)(nxt \<mapsto> nxt_at)
                                     else sh_clock s),
                        sh_count := (if sh_clock s nxt = None then (sh_count s)(nxt \<mapsto> 0)
                                     else sh_count s),
                        sh_in_transition := True\<rparr>;
                 k = min ((t - nxt_at) / T) 1
             in (case show_two render (\<lambda>f g. blended bl kind f g k) b (sh_index s) nxt t s1 of
                   (r, s2) \<Rightarrow> (r, b, s2)))"

section \<open>Steering\<close>

text \<open>\<open>dur\<close> of the rotation, and the transition between two neighbours.\<close>

definition ft_dur :: "rotation \<Rightarrow> nat \<Rightarrow> rat" where
  "ft_dur r i = (case rot_at r (int i) of None \<Rightarrow> DEFAULT_SECONDS | Some e \<Rightarrow> e_seconds (r_all r ! e))"

definition SPARSE :: "string list" where
  "SPARSE = [''starfield'', ''fireworks'', ''boing'', ''daliclock'', ''sierpinski_rain'',
     ''wardial'', ''ansi'', ''toasters'', ''dither'', ''dvd'', ''wiki'', ''solarwind'', ''fine'',
     ''solar'', ''muni'', ''crash'']"

definition pick_transition :: "string \<Rightarrow> string \<Rightarrow> nat \<Rightarrow> string" where
  "pick_transition from_name to_name index =
     (if from_name \<in> set SPARSE \<or> to_name \<in> set SPARSE then ''black''
      else if index mod 2 = 1 then ''wipe'' else ''crossfade'')"

definition transition_for :: "rotation \<Rightarrow> nat \<Rightarrow> string" where
  "transition_for r index =
     (case (rot_at r (int index - 1), rot_at r (int index)) of
        (Some c, Some n) \<Rightarrow>
          let cur = r_all r ! c; nxt = r_all r ! n in
          if e_solo cur \<or> e_solo nxt then ''cut''
          else pick_transition (e_name cur) (e_name nxt) index
      | _ \<Rightarrow> ''cut'')"

definition show_skip :: "rotation \<Rightarrow> rat \<Rightarrow> rat \<Rightarrow> show_state \<Rightarrow> show_state" where
  "show_skip r t gap s = s\<lparr>sh_start := min (sh_start s) (t + gap - ft_dur r (sh_index s))\<rparr>"

definition show_hold :: "rat \<Rightarrow> show_state \<Rightarrow> show_state" where
  "show_hold seconds s = s\<lparr>sh_start := sh_start s + seconds\<rparr>"

section \<open>The playhead always stands on a built effect with a running clock\<close>

text \<open>
  \<open>show_inv\<close> holds between frames. The last conjunct is what the builder promises: it
  files only indices inside its window \<open>[want, want + lead]\<close>.
\<close>

definition show_inv :: "'r builder \<Rightarrow> show_state \<Rightarrow> bool" where
  "show_inv b s \<longleftrightarrow>
     sh_clock s (sh_index s) \<noteq> None \<and> b_ready b (sh_index s) \<noteq> None
     \<and> b_want b = sh_index s \<and> (\<forall>i. b_ready b i \<noteq> None \<longrightarrow> i \<le> b_want b + b_lead b)"

lemma show_inv_start: "show_inv (b_start seg0 first (new_builder lead)) (ft_show n T)"
  by (simp add: show_inv_def b_start_def new_builder_def ft_show_def mega_show_def new_show_def)

lemma next_missing_window: "next_missing b = Some i \<Longrightarrow> i \<le> b_want b + b_lead b"
proof -
  assume "next_missing b = Some i"
  then have "i \<in> set [b_want b..<b_want b + b_lead b + 1]"
    unfolding next_missing_def by (auto simp only: find_Some_iff intro: nth_mem)
  then show ?thesis by auto
qed

text \<open>Filing a build whose index was missing when it was captured keeps the promise.\<close>

lemma show_inv_file:
  "show_inv b s \<Longrightarrow> i \<le> b_want b + b_lead b \<Longrightarrow> show_inv (file_build i e r b) s"
  by (auto simp: show_inv_def file_build_def)

lemma show_inv_invalidate:
  "show_inv b s \<Longrightarrow> show_inv (invalidate_from (Suc (sh_index s)) b) s"
  by (auto simp: show_inv_def invalidate_from_def)

lemma show_inv_fields:
  "show_inv b (s\<lparr>sh_start := x, sh_in_transition := y, sh_stalled := z, sh_paused := w\<rparr>)
     \<longleftrightarrow> show_inv b s"
  by (simp add: show_inv_def)

lemma enter_fields:
  "sh_index (start_clock (enter d s)) = Suc (sh_index s)"
  "sh_T (start_clock (enter d s)) = sh_T s"
  "sh_start (start_clock (enter d s)) = sh_start s + d"
  "sh_clock (start_clock (enter d s)) (Suc (sh_index s)) \<noteq> None"
  by (auto simp: start_clock_def enter_def drop_old_def)

lemma show_inv_enter:
  "show_inv b s \<Longrightarrow> b_ready b (Suc (sh_index s)) \<noteq> None \<Longrightarrow>
     show_inv (retire (Suc (sh_index s)) b) (start_clock (enter d s))"
  using enter_fields [of d s] by (auto simp: show_inv_def retire_def)

lemma ft_advance_inv:
  "show_inv b s \<Longrightarrow> ft_advance n dur t b s = (b', s') \<Longrightarrow>
     show_inv b' s' \<and> sh_index s \<le> sh_index s' \<and> sh_T s' = sh_T s"
proof (induction n dur t b s rule: ft_advance.induct)
  case (1 dur t b s)
  then show ?case by simp
next
  case (2 fuel dur t b s)
  show ?case
  proof (cases "sh_start s + dur (sh_index s) \<le> t \<and> b_ready b (Suc (sh_index s)) \<noteq> None")
    case True
    then show ?thesis
      using "2.IH" "2.prems" show_inv_enter [OF "2.prems"(1), of "dur (sh_index s)"]
      by (force simp: Let_def enter_fields)
  next
    case False
    then show ?thesis using "2.prems" by (auto simp: Let_def)
  qed
qed

text \<open>
  With fuel for every index up to a horizon beyond which nothing is built, the loop ends
  because its condition fails.
\<close>

lemma ft_advance_stops:
  assumes "\<forall>i. b_ready b i \<noteq> None \<longrightarrow> i \<le> h" and "h < sh_index s + n"
    and "ft_advance n dur t b s = (b', s')"
  shows "t < sh_start s' + dur (sh_index s') \<or> b_ready b' (Suc (sh_index s')) = None"
  using assms
proof (induction n dur t b s rule: ft_advance.induct)
  case (1 dur t b s)
  then show ?case by fastforce
next
  case (2 fuel dur t b s)
  show ?case
  proof (cases "sh_start s + dur (sh_index s) \<le> t \<and> b_ready b (Suc (sh_index s)) \<noteq> None")
    case True
    have "\<forall>i. b_ready (retire (Suc (sh_index s)) b) i \<noteq> None \<longrightarrow> i \<le> h"
      using "2.prems"(1) by (simp add: retire_def)
    with True show ?thesis
      using "2.IH" "2.prems" by (force simp: Let_def enter_fields)
  next
    case False
    then show ?thesis using "2.prems" by (auto simp: Let_def)
  qed
qed

lemma ft_advance_done:
  assumes "show_inv b s" and "ft_advance (Suc (b_lead b)) dur t b s = (b', s')"
  shows "t < sh_start s' + dur (sh_index s') \<or> b_ready b' (Suc (sh_index s')) = None"
  using ft_advance_stops [OF _ _ assms(2), where h = "sh_index s + b_lead b"] assms(1)
  by (auto simp: show_inv_def)

section \<open>Composing a frame never asks for a missing clock or build\<close>

lemma show_one_ok:
  assumes "sh_clock s i \<noteq> None" and "b_ready b i \<noteq> None"
  obtains f s' where "show_one render b i t s = (Inr f, s')"
    and "sh_clock s' = sh_clock s" and "sh_index s' = sh_index s"
    and "sh_in_transition s' = sh_in_transition s" and "sh_start s' = sh_start s"
  using assms by (auto simp: show_one_def Let_def b_get_def split: option.splits)

lemma show_two_ok:
  assumes "sh_clock s i \<noteq> None" "b_ready b i \<noteq> None" "sh_clock s j \<noteq> None" "b_ready b j \<noteq> None"
  obtains f s' where "show_two render blend b i j t s = (Inr f, s')"
    and "sh_clock s' = sh_clock s" and "sh_index s' = sh_index s"
    and "sh_in_transition s' = sh_in_transition s" and "sh_start s' = sh_start s"
proof -
  obtain f s1 where one: "show_one render b i t s = (Inr f, s1)" "sh_clock s1 = sh_clock s"
      "sh_index s1 = sh_index s" "sh_in_transition s1 = sh_in_transition s" "sh_start s1 = sh_start s"
    using show_one_ok [OF assms(1,2)] by metis
  have clock: "sh_clock s1 j \<noteq> None" using one assms(3) by simp
  obtain g s2 where two: "show_one render b j t s1 = (Inr g, s2)" "sh_clock s2 = sh_clock s1"
      "sh_index s2 = sh_index s1" "sh_in_transition s2 = sh_in_transition s1" "sh_start s2 = sh_start s1"
    using show_one_ok [OF clock assms(4)] by metis
  show thesis
    using one two by (intro that [of "blend f g" s2]) (simp_all add: show_two_def)
qed

text \<open>
  The scheduler's frame: it always comes out, the invariant holds again, the playhead never
  moves back, and a segment that is over is held only while the next one is not built. In a
  transition the frame is a blend at a position between 0 and 1.
\<close>

definition composed_ok ::
  "'f blender \<Rightarrow> (nat \<Rightarrow> rat) \<Rightarrow> (nat \<Rightarrow> string) \<Rightarrow> rat \<Rightarrow> show_state
     \<Rightarrow> (show_error + 'f) \<times> 'r builder \<times> show_state \<Rightarrow> bool" where
  "composed_ok bl dur kind_of t s res \<longleftrightarrow>
     (case res of (r, b', s') \<Rightarrow>
        show_inv b' s' \<and> sh_index s \<le> sh_index s'
        \<and> (t < sh_start s' + dur (sh_index s') \<or> b_ready b' (Suc (sh_index s')) = None)
        \<and> (case r of
             Inl _ \<Rightarrow> False
           | Inr frame \<Rightarrow> sh_in_transition s' \<longrightarrow>
               (\<exists>f g k. 0 \<le> k \<and> k \<le> 1
                  \<and> frame = blended bl (kind_of (Suc (sh_index s'))) f g k)))"

lemma composed_ok_one:
  assumes "show_inv b s1" and "sh_index s \<le> sh_index s1" and "\<not> sh_in_transition s1"
    and "t < sh_start s1 + dur (sh_index s1) \<or> b_ready b (Suc (sh_index s1)) = None"
    and "i = sh_index s1"
  shows "composed_ok bl dur kind_of t s
      (case show_one render b i t s1 of (Inl e, s2) \<Rightarrow> (Inl e, b, s2)
        | (Inr f, s2) \<Rightarrow> (Inr (h f), b, s2))"
proof -
  have "sh_clock s1 i \<noteq> None" "b_ready b i \<noteq> None"
    using assms by (auto simp: show_inv_def)
  then obtain f s2 where "show_one render b i t s1 = (Inr f, s2)"
    "sh_clock s2 = sh_clock s1" "sh_index s2 = sh_index s1"
    "sh_in_transition s2 = sh_in_transition s1" "sh_start s2 = sh_start s1"
    using show_one_ok by metis
  then show ?thesis
    using assms by (auto simp: composed_ok_def show_inv_def)
qed

lemma composed_ok_plain:
  assumes "show_inv b s1" and "sh_index s \<le> sh_index s1" and "\<not> sh_in_transition s1"
    and "t < sh_start s1 + dur (sh_index s1) \<or> b_ready b (Suc (sh_index s1)) = None"
    and "i = sh_index s1"
  shows "composed_ok bl dur kind_of t s (case show_one render b i t s1 of (r, s2) \<Rightarrow> (r, b, s2))"
  using composed_ok_one [where h = "\<lambda>f. f" and bl = bl and kind_of = kind_of and render = render
      and dur = dur and t = t, OF assms]
  by (cases "show_one render b i t s1") (auto split: sum.splits)

lemma ft_compose_ok:
  assumes "show_inv b0 s0"
  shows "composed_ok bl dur kind_of t s0 (ft_compose render bl dur kind_of t b0 s0)"
proof -
  obtain b s where adv: "ft_advance (Suc (b_lead b0)) dur t b0 s0 = (b, s)" by fastforce
  have inv: "show_inv b s" and mono: "sh_index s0 \<le> sh_index s"
    using ft_advance_inv [OF assms adv] by simp_all
  note done' = ft_advance_done [OF assms adv]
  let ?kind = "kind_of (Suc (sh_index s))"
  let ?T = "if ?kind = ''cut'' then 0 else sh_T s"
  let ?at = "sh_start s + dur (sh_index s) - ?T"
  let ?nxt = "Suc (sh_index s)"
  note unfolded = ft_compose_def Let_def adv prod.case
  consider (steady) "?T \<le> 0 \<or> t < ?at" | (stall) "\<not> (?T \<le> 0 \<or> t < ?at)" "b_ready b ?nxt = None"
    | (blend) "\<not> (?T \<le> 0 \<or> t < ?at)" "b_ready b ?nxt \<noteq> None" by blast
  then show ?thesis
  proof cases
    case steady
    show ?thesis
      unfolding unfolded if_P [OF steady]
      using inv mono done'
      by (auto intro!: composed_ok_one composed_ok_plain simp: show_inv_def)
  next
    case stall
    show ?thesis
      unfolding unfolded if_not_P [OF stall(1)] if_P [OF stall(2)]
      by (rule composed_ok_plain) (use inv mono stall in \<open>auto simp: show_inv_def\<close>)
  next
    case blend
    define s1 where "s1 = s\<lparr>sh_stalled := False,
        sh_clock := (if sh_clock s ?nxt = None then (sh_clock s)(?nxt \<mapsto> ?at) else sh_clock s),
        sh_count := (if sh_clock s ?nxt = None then (sh_count s)(?nxt \<mapsto> 0) else sh_count s),
        sh_in_transition := True\<rparr>"
    define k where "k = min ((t - ?at) / ?T) 1"
    have "sh_clock s1 (sh_index s) \<noteq> None" "sh_clock s1 ?nxt \<noteq> None" "b_ready b (sh_index s) \<noteq> None"
      using inv by (auto simp: s1_def show_inv_def)
    then obtain f s2 where two: "show_two render (\<lambda>f g. blended bl ?kind f g k) b (sh_index s) ?nxt t s1 = (Inr f, s2)"
      and keep: "sh_clock s2 = sh_clock s1" "sh_index s2 = sh_index s1"
        "sh_start s2 = sh_start s1"
      using show_two_ok blend(2) by metis
    have "\<exists>f' g'. f = blended bl ?kind f' g' k"
      using two by (auto simp: show_two_def split: prod.splits sum.splits)
    moreover have "0 \<le> k" "k \<le> 1"
      using blend(1) by (auto simp: k_def)
    moreover have "ft_compose render bl dur kind_of t b0 s0 = (Inr f, b, s2)"
      unfolding unfolded if_not_P [OF blend(1)] if_not_P [OF blend(2)]
      using two by (simp add: s1_def k_def)
    moreover have "sh_clock s2 (sh_index s2) \<noteq> None" "sh_index s2 = sh_index s" "sh_start s2 = sh_start s"
      using keep inv by (auto simp: s1_def show_inv_def)
    ultimately show ?thesis
      using inv mono done' by (auto simp: composed_ok_def show_inv_def)
  qed
qed

section \<open>Skipping and holding\<close>

text \<open>After \<open>skip(t, gap)\<close> the current segment ends at \<open>t + gap\<close>, or earlier if it did.\<close>

lemma show_skip_end:
  "sh_start (show_skip r t gap s) + ft_dur r (sh_index s)
     = min (sh_start s + ft_dur r (sh_index s)) (t + gap)"
  by (simp add: show_skip_def min_def)

lemma show_inv_skip_hold:
  "show_inv b (show_skip r t gap s) \<longleftrightarrow> show_inv b s"
  "show_inv b (show_hold dt s) \<longleftrightarrow> show_inv b s"
  by (simp_all add: show_inv_def show_skip_def show_hold_def)

lemma mega_advance_one:
  assumes "sh_start s + dur (sh_index s) \<le> t" and "b_ready b (Suc (sh_index s)) \<noteq> None"
    and "t < sh_start s + dur (sh_index s) + dur (Suc (sh_index s))"
  shows "mega_advance (Suc (Suc n)) dur t b s
    = (retire (Suc (sh_index s)) b, enter (dur (sh_index s)) s)"
  using assms by (simp add: b_get_def enter_def drop_old_def Let_def)

section \<open>Properties\<close>

text \<open>
  The scheduler's frame: it always comes out; the playhead never moves back; a segment
  whose time is over is held only while the next one is not built; and in a transition the
  frame is a blend of the kind chosen for it, at a position between 0 and 1.
\<close>

theorem scheduler_frame_composes:
  assumes "show_inv b s"
  shows "\<exists>frame b' s'. ft_compose render bl dur kind_of t b s = (Inr frame, b', s')
    \<and> show_inv b' s' \<and> sh_index s \<le> sh_index s'
    \<and> (t < sh_start s' + dur (sh_index s') \<or> b_ready b' (Suc (sh_index s')) = None)
    \<and> (sh_in_transition s' \<longrightarrow>
         (\<exists>f g k. 0 \<le> k \<and> k \<le> 1 \<and> frame = blended bl (kind_of (Suc (sh_index s'))) f g k))"
proof -
  obtain r b' s' where c: "ft_compose render bl dur kind_of t b s = (r, b', s')"
    using prod_cases3 by blast
  have "composed_ok bl dur kind_of t s (r, b', s')"
    unfolding c [symmetric] using assms by (rule ft_compose_ok)
  then show ?thesis
    using c by (auto simp: composed_ok_def split: sum.split_asm)
qed

definition plain_blender :: "nat blender" where
  "plain_blender = \<lparr>bl_fade_black = \<lambda>f k. f, bl_crossfade = \<lambda>f g k. f + g, bl_wipe = \<lambda>f g k. f,
     bl_through_black = \<lambda>f g k. f, bl_flash = \<lambda>f g k. f\<rparr>"

definition two_built :: "nat builder" where
  "two_built = file_build 1 1 70 (b_start 0 30 (new_builder 2))"

theorem scheduler_frame_composes_witness:
  "\<exists>frame b' s'. ft_compose (\<lambda>r x n. r) plain_blender (\<lambda>i. 10) (\<lambda>i. ''crossfade'') 11 two_built (ft_show 2 2)
     = (Inr frame, b', s')"
proof -
  have "show_inv two_built (ft_show 2 2)"
    unfolding two_built_def by (rule show_inv_file [OF show_inv_start]) (simp add: b_start_def new_builder_def)
  from scheduler_frame_composes [OF this, of "\<lambda>r x n. r" plain_blender "\<lambda>i. 10" "\<lambda>i. ''crossfade''" 11]
  show ?thesis by blast
qed

text \<open>
  The plain megademo stops on a missing clock: with no overlap (\<open>--transition 0\<close>) the
  second effect is entered without ever having been in a transition, nothing has set its
  clock, and composing its first frame raises.
\<close>

theorem megademo_without_overlap_crashes:
  assumes "sh_T s \<le> 0" and "sh_start s + dur (sh_index s) \<le> t"
    and "t < sh_start s + dur (sh_index s) + dur (Suc (sh_index s))"
    and "b_ready b (Suc (sh_index s)) \<noteq> None" and "sh_clock s (Suc (sh_index s)) = None" and "0 < b_lead b"
  shows "fst (mega_compose render fade transitions dur kind t b s) = Inl (MissingClock (Suc (sh_index s)))"
proof -
  obtain n where n: "b_lead b = Suc n" using assms(6) gr0_implies_Suc by blast
  have "mega_advance (Suc (b_lead b)) dur t b s
      = (retire (Suc (sh_index s)) b, enter (dur (sh_index s)) s)"
    unfolding n by (rule mega_advance_one [OF assms(2,4,3)])
  then show ?thesis
    using assms(1,5) by (simp add: mega_compose_def Let_def enter_def drop_old_def show_one_def)
qed

theorem megademo_without_overlap_crashes_witness:
  "fst (mega_compose (\<lambda>r x n. r) (\<lambda>f k. f) (\<lambda>kind f g k. f) (\<lambda>i. 10) (\<lambda>i. ''cut'') 10 two_built (mega_show 2 0))
     = Inl (MissingClock 1)"
  using megademo_without_overlap_crashes [of "mega_show 2 0" "\<lambda>i. 10" 10 two_built]
  by (simp add: mega_show_def new_show_def two_built_def file_build_def b_start_def new_builder_def)

end
