(* ===== verification/FT_Blend.thy ===== *)
theory FT_Blend
  imports FT_Show FT_Display
begin

text \<open>
  The pixel arithmetic of \<open>src/demos/demoscene.py\<close>: class \<open>Blender\<close>, the free transition
  functions, and ordered dithering. Frames are grids of \<open>uint8\<close> pixels; the \<open>float32\<close>
  intermediate is exact here, and the cast to \<open>uint8\<close> truncates.
\<close>

section \<open>Channels and frames\<close>

definition clip01 :: "rat \<Rightarrow> rat" where
  "clip01 k = max 0 (min 1 k)"

definition to_u8 :: "rat \<Rightarrow> byte" where
  "to_u8 v = of_int \<lfloor>v\<rfloor>"

definition u8 :: "byte \<Rightarrow> rat" where
  "u8 b = of_nat (unat b)"

definition mix_ch :: "rat \<Rightarrow> byte \<Rightarrow> byte \<Rightarrow> byte" where
  "mix_ch w a b = to_u8 (u8 a * (1 - w) + u8 b * w)"

definition mix_px :: "rat \<Rightarrow> pixel \<Rightarrow> pixel \<Rightarrow> pixel" where
  "mix_px w p q =
     (case (p, q) of ((r, g, b), (r', g', b')) \<Rightarrow> (mix_ch w r r', mix_ch w g g', mix_ch w b b'))"

text \<open>Pixel-wise maps that know the column, over the shape of the first frame.\<close>

definition map_cols :: "(nat \<Rightarrow> 'a \<Rightarrow> 'b) \<Rightarrow> 'a list \<Rightarrow> 'b list" where
  "map_cols f row = map2 f [0..<length row] row"

definition mix :: "(nat \<Rightarrow> rat) \<Rightarrow> grid \<Rightarrow> grid \<Rightarrow> grid" where
  "mix weights a b =
     map2 (\<lambda>ra rb. map_cols (\<lambda>c (p, q). mix_px (weights c) p q) (zip ra rb)) a b"

definition white_like :: "grid \<Rightarrow> grid" where
  "white_like a = map (map (\<lambda>_. (255, 255, 255))) a"

section \<open>The Blender\<close>

definition crossfade :: "grid \<Rightarrow> grid \<Rightarrow> rat \<Rightarrow> grid" where
  "crossfade a b k = mix (\<lambda>_. clip01 k) a b"

definition fade_black :: "grid \<Rightarrow> rat \<Rightarrow> grid" where
  "fade_black a k =
     map (map (\<lambda>(r, g, b). (to_u8 (u8 r * (1 - clip01 k)), to_u8 (u8 g * (1 - clip01 k)),
                            to_u8 (u8 b * (1 - clip01 k))))) a"

definition grid_width :: "grid \<Rightarrow> nat" where
  "grid_width a = (case a of [] \<Rightarrow> 0 | row # _ \<Rightarrow> length row)"

definition wipe_ramp :: "nat \<Rightarrow> int \<Rightarrow> rat \<Rightarrow> nat \<Rightarrow> rat" where
  "wipe_ramp w softness k col =
     (let edge = clip01 k * (of_nat w + of_int softness)
      in clip01 ((edge - of_nat col) / max (of_int softness) (1 / 1000000)))"

definition wipe :: "int \<Rightarrow> grid \<Rightarrow> grid \<Rightarrow> rat \<Rightarrow> grid" where
  "wipe softness a b k = mix (wipe_ramp (grid_width a) softness k) a b"

definition flash :: "grid \<Rightarrow> grid \<Rightarrow> rat \<Rightarrow> grid" where
  "flash a b k =
     (if k < 1 / 2 then crossfade a (white_like a) (k * 2)
      else crossfade (white_like b) b (k * 2 - 1))"

definition through_black :: "grid \<Rightarrow> grid \<Rightarrow> rat \<Rightarrow> grid" where
  "through_black a b k =
     (if k < 1 / 2 then fade_black a (k * 2) else fade_black b (2 - k * 2))"

definition Blender :: "int \<Rightarrow> grid blender" where
  "Blender softness =
     \<lparr>bl_fade_black = fade_black, bl_crossfade = crossfade, bl_wipe = wipe softness,
      bl_through_black = through_black, bl_flash = flash\<rparr>"

section \<open>Ordered dithering\<close>

definition BAYER8 :: "nat list list" where
  "BAYER8 =
    [[0, 32, 8, 40, 2, 34, 10, 42], [48, 16, 56, 24, 50, 18, 58, 26],
     [12, 44, 4, 36, 14, 46, 6, 38], [60, 28, 52, 20, 62, 30, 54, 22],
     [3, 35, 11, 43, 1, 33, 9, 41], [51, 19, 59, 27, 49, 17, 57, 25],
     [15, 47, 7, 39, 13, 45, 5, 37], [63, 31, 55, 23, 61, 29, 53, 21]]"

definition bayer :: "nat \<Rightarrow> nat \<Rightarrow> rat" where
  "bayer y x = of_nat (BAYER8 ! (y mod 8) ! (x mod 8)) / 64"

definition dither_ch :: "rat \<Rightarrow> rat \<Rightarrow> byte" where
  "dither_ch t v = to_u8 (max 0 (min 255 (v + t)))"

definition dither :: "(rat \<times> rat \<times> rat) list list \<Rightarrow> grid" where
  "dither img =
     map2 (\<lambda>y row. map_cols (\<lambda>x (r, g, b).
              (dither_ch (bayer y x) r, dither_ch (bayer y x) g, dither_ch (bayer y x) b)) row)
       [0..<length img] img"

section \<open>Both ends of every blend are exact\<close>

lemma clip01_simps [simp]: "clip01 0 = 0" "clip01 1 = 1" "0 \<le> clip01 k" "clip01 k \<le> 1"
  by (simp_all add: clip01_def)

lemma clip01_low: "k \<le> 0 \<Longrightarrow> clip01 k = 0"
  and clip01_high: "1 \<le> k \<Longrightarrow> clip01 k = 1"
  by (simp_all add: clip01_def)

lemma to_u8_u8 [simp]: "to_u8 (u8 b) = b"
proof -
  have "\<lfloor>of_nat (unat b) :: rat\<rfloor> = int (unat b)"
    by (rule floor_of_nat)
  then show ?thesis
    unfolding to_u8_def u8_def by (simp only: of_int_of_nat_eq) simp
qed

lemma mix_ch_ends [simp]: "mix_ch 0 a b = a" "mix_ch 1 a b = b"
  by (simp_all add: mix_ch_def)

lemma mix_px_ends [simp]: "mix_px 0 p q = p" "mix_px 1 p q = q"
  by (cases p; cases q; simp add: mix_px_def)+

definition same_shape :: "grid \<Rightarrow> grid \<Rightarrow> bool" where
  "same_shape a b \<longleftrightarrow> map length a = map length b"

lemma same_shape_nth:
  assumes "same_shape a b"
  shows "length a = length b" and "y < length a \<Longrightarrow> length (a ! y) = length (b ! y)"
proof -
  have eq: "map length a = map length b"
    using assms by (simp add: same_shape_def)
  then show "length a = length b" by (rule map_eq_imp_length_eq)
  with eq show "y < length a \<Longrightarrow> length (a ! y) = length (b ! y)"
    by (metis nth_map)
qed

lemma length_map_cols [simp]: "length (map_cols f row) = length row"
  by (simp add: map_cols_def)

lemma map_cols_nth: "x < length row \<Longrightarrow> map_cols f row ! x = f x (row ! x)"
  by (simp add: map_cols_def)

lemma mix_nth:
  assumes "same_shape a b" and "y < length a" and "x < length (a ! y)"
  shows "mix w a b ! y ! x = mix_px (w x) (a ! y ! x) (b ! y ! x)"
  using assms same_shape_nth [OF assms(1)] by (simp add: mix_def map_cols_nth)

lemma mix_shape:
  assumes "same_shape a b"
  shows "length (mix w a b) = length a"
    and "y < length a \<Longrightarrow> length (mix w a b ! y) = length (a ! y)"
  using same_shape_nth [OF assms] by (simp_all add: mix_def)

lemma grid_eqI:
  assumes "length f = length g" and "\<And>y. y < length g \<Longrightarrow> length (f ! y) = length (g ! y)"
    and "\<And>y x. y < length g \<Longrightarrow> x < length (g ! y) \<Longrightarrow> f ! y ! x = g ! y ! x"
  shows "f = (g :: grid)"
  using assms by (auto intro!: nth_equalityI)

lemma mix_first:
  assumes "same_shape a b" and "\<And>y x. y < length a \<Longrightarrow> x < length (a ! y) \<Longrightarrow> w x = 0"
  shows "mix w a b = a"
  using assms by (intro grid_eqI) (simp_all add: mix_shape mix_nth)

lemma mix_second:
  assumes "same_shape a b" and "\<And>y x. y < length a \<Longrightarrow> x < length (a ! y) \<Longrightarrow> w x = 1"
  shows "mix w a b = b"
proof (rule grid_eqI)
  show "length (mix w a b) = length b"
    using assms(1) by (simp add: mix_shape same_shape_nth)
next
  fix y assume "y < length b"
  then show "length (mix w a b ! y) = length (b ! y)"
    using assms(1) by (simp add: mix_shape same_shape_nth)
next
  fix y x assume "y < length b" "x < length (b ! y)"
  then have "y < length a" "x < length (a ! y)"
    using same_shape_nth [OF assms(1)] by simp_all
  then show "mix w a b ! y ! x = b ! y ! x"
    using assms by (simp add: mix_nth)
qed

lemma fade_black_0 [simp]: "fade_black a 0 = a"
  by (auto simp: fade_black_def intro!: map_idI)

lemma same_shape_white: "same_shape a (white_like a)" "same_shape (white_like b) b"
  by (simp_all add: same_shape_def white_like_def)

text \<open>
  A transition as the sequencer uses it: it starts on the outgoing frame and ends on the
  incoming one, for frames of equal shape.
\<close>

locale transition_blend =
  fixes blend :: "'f \<Rightarrow> 'f \<Rightarrow> rat \<Rightarrow> 'f"
    and fits :: "'f \<Rightarrow> 'f \<Rightarrow> bool"
  assumes at_start: "fits a b \<Longrightarrow> blend a b 0 = a"
    and at_end: "fits a b \<Longrightarrow> blend a b 1 = b"
begin

text \<open>
  Pacing a transition of length \<open>T\<close> that starts at \<open>t0\<close>: no jump when it begins, none when
  it is over, however late the last frame is.
\<close>

lemma no_jump_at_start: "fits a b \<Longrightarrow> blend a b (min ((t0 - t0) / T) 1) = a"
  by (simp add: at_start min_def)

lemma no_jump_at_end:
  assumes "fits a b" and "0 < T" and "t0 + T \<le> t"
  shows "blend a b (min ((t - t0) / T) 1) = b"
proof -
  have "1 \<le> (t - t0) / T" using assms(2,3) by (simp add: le_divide_eq)
  then show ?thesis using assms(1) by (simp add: at_end min_def)
qed

end

interpretation crossfade: transition_blend crossfade same_shape
  by unfold_locales (simp_all add: crossfade_def mix_first mix_second)

interpretation through_black: transition_blend through_black same_shape
  by unfold_locales (simp_all add: through_black_def)

interpretation flash: transition_blend flash same_shape
proof unfold_locales
  fix a b :: grid assume "same_shape a b"
  show "flash a b 0 = a"
    by (simp add: flash_def crossfade.at_start same_shape_white)
  show "flash a b 1 = b"
    by (simp add: flash_def crossfade.at_end same_shape_white)
qed

text \<open>
  The wipe travels a full softness past the last column, so that nothing of the outgoing
  frame is left at the end; that needs a frame of one width and a softness that is not
  negative.
\<close>

definition rectangle :: "grid \<Rightarrow> bool" where
  "rectangle a \<longleftrightarrow> (\<forall>row \<in> set a. length row = grid_width a)"

definition fits_wipe :: "grid \<Rightarrow> grid \<Rightarrow> bool" where
  "fits_wipe a b \<longleftrightarrow> same_shape a b \<and> rectangle a"

lemma wipe_ramp_0: "wipe_ramp w s 0 x = 0"
proof -
  have "(0 - rat_of_nat x) / max (of_int s) (1 / 1000000) \<le> 0"
    by (simp add: divide_le_0_iff max_def)
  then show ?thesis by (simp add: wipe_ramp_def Let_def clip01_low)
qed

lemma wipe_ramp_1:
  assumes "0 \<le> s" and "x < w"
  shows "wipe_ramp w s 1 x = 1"
proof -
  let ?m = "max (of_int s) (1 / 1000000) :: rat"
  have m: "0 < ?m" by (simp add: max_def)
  have "1 \<le> rat_of_nat w - rat_of_nat x"
    using assms(2) by (simp add: of_nat_diff [symmetric] del: of_nat_diff)
  moreover have "?m \<le> of_int s + 1"
    using assms(1) by (simp add: max_def)
  ultimately have "?m \<le> of_nat w + of_int s - of_nat x" by linarith
  then have "1 \<le> (of_nat w + of_int s - of_nat x) / ?m"
    using m by (simp add: le_divide_eq)
  then show ?thesis by (simp add: wipe_ramp_def Let_def clip01_high)
qed

lemma wipe_transition: "0 \<le> s \<Longrightarrow> transition_blend (wipe s) fits_wipe"
proof unfold_locales
  fix a b :: grid assume s: "0 \<le> s" and "fits_wipe a b"
  then have shape: "same_shape a b" and width: "\<And>y. y < length a \<Longrightarrow> length (a ! y) = grid_width a"
    by (auto simp: fits_wipe_def rectangle_def)
  show "wipe s a b 0 = a"
    unfolding wipe_def by (rule mix_first [OF shape]) (simp add: wipe_ramp_0)
  show "wipe s a b 1 = b"
    unfolding wipe_def by (rule mix_second [OF shape]) (use s width in \<open>simp add: wipe_ramp_1\<close>)
qed

text \<open>The softness the two sequencers pass by default.\<close>

interpretation wipe28: transition_blend "wipe 28" fits_wipe
  by (rule wipe_transition) simp

section \<open>Dithering\<close>

lemma bayer_range: "0 \<le> bayer y x" "bayer y x < 1"
proof -
  have "\<forall>row \<in> set BAYER8. length row = 8 \<and> (\<forall>v \<in> set row. v < 64)" and "length BAYER8 = 8"
    by (simp_all add: BAYER8_def)
  then have "BAYER8 ! (y mod 8) ! (x mod 8) < 64"
    by (metis mod_less_divisor nth_mem zero_less_numeral)
  then show "0 \<le> bayer y x" "bayer y x < 1"
    by (simp_all add: bayer_def)
qed


lemma floor_clipped_level:
  assumes "0 \<le> t" and "t < 1" and "n \<le> 255"
  shows "\<lfloor>max 0 (min 255 (rat_of_nat n + t))\<rfloor> = int n"
proof -
  have n: "0 \<le> rat_of_nat n" "rat_of_nat n \<le> 255" using assms(3) by simp_all
  then show ?thesis
    unfolding floor_eq_iff using assms(1,2) by (auto simp: max_def min_def)
qed

text \<open>A channel that is already a whole level is kept, whatever the offset.\<close>

lemma dither_ch_level:
  assumes "0 \<le> t" and "t < 1"
  shows "dither_ch t (u8 v) = v"
proof -
  have "unat v < 2 ^ LENGTH(8)" by (rule unsigned_less)
  then have "unat v \<le> 255" by simp
  from floor_clipped_level [OF assms this] show ?thesis
    unfolding dither_ch_def to_u8_def u8_def by (simp only: of_int_of_nat_eq) simp
qed

lemma map_cols_const: "map_cols f row = row" if "\<And>x p. p \<in> set row \<Longrightarrow> f x p = p"
  using that by (intro nth_equalityI) (simp_all add: map_cols_nth)

text \<open>Hence an image that is already made of whole levels comes out as it went in.\<close>

lemma dither_level_row:
  "map_cols (\<lambda>x (r, g, b). (dither_ch (bayer y x) r, dither_ch (bayer y x) g, dither_ch (bayer y x) b))
     (map (\<lambda>(r, g, b). (u8 r, u8 g, u8 b)) row) = row"
  by (intro nth_equalityI) (auto simp: map_cols_nth dither_ch_level bayer_range split: prod.splits)

lemma dither_levels:
  "dither (map (map (\<lambda>(r, g, b). (u8 r, u8 g, u8 b))) img) = img"
  by (intro nth_equalityI) (simp_all add: dither_def dither_level_row)

text \<open>Dithering moves a channel to one of the two levels around it.\<close>

lemma dither_ch_near:
  assumes "0 \<le> t" and "t < 1" and "0 \<le> v" and "v \<le> 255"
  shows "unat (dither_ch t v) = nat \<lfloor>v\<rfloor> \<or> unat (dither_ch t v) = nat \<lfloor>v\<rfloor> + 1"
proof -
  let ?m = "max 0 (min 255 (v + t))"
  let ?f = "\<lfloor>?m\<rfloor>"
  have m: "v \<le> ?m" "?m < v + 1" "?m \<le> 255" "0 \<le> ?m"
    using assms by (auto simp: max_def min_def)
  have f: "0 \<le> ?f" "?f \<le> 255" using m(3,4) by (simp_all add: le_floor_iff floor_le_iff)
  have "\<lfloor>v\<rfloor> \<le> ?f" using m(1) by (rule floor_mono)
  moreover have "?f \<le> \<lfloor>v\<rfloor> + 1" using m(2) by linarith
  ultimately have "?f = \<lfloor>v\<rfloor> \<or> ?f = \<lfloor>v\<rfloor> + 1" by linarith
  moreover have "unat (dither_ch t v) = nat ?f"
    using f by (simp add: dither_ch_def to_u8_def unsigned_of_int take_bit_int_eq_self)
  moreover have "nat (\<lfloor>v\<rfloor> + 1) = nat \<lfloor>v\<rfloor> + 1" using assms(3) by (simp add: nat_add_distrib)
  ultimately show ?thesis by metis
qed

lemma u8_bounds: "0 \<le> u8 b" "u8 b \<le> 255"
proof -
  have "unat b < 2 ^ LENGTH(8)" by (rule unsigned_less)
  then have "unat b \<le> 255" by simp
  then show "0 \<le> u8 b" "u8 b \<le> 255" unfolding u8_def by (simp_all only: of_nat_0_le_iff of_nat_le_iff [of _ 255, simplified])
qed

lemma unat_to_u8: "0 \<le> v \<Longrightarrow> v < 256 \<Longrightarrow> int (unat (to_u8 v)) = \<lfloor>v\<rfloor>"
  by (simp add: to_u8_def unsigned_of_int take_bit_int_eq_self floor_less_iff)

section \<open>Properties\<close>

text \<open>
  C33. No transition jumps: for every kind the sequencer can pick, the blend is the outgoing
  frame at the start and the incoming one from the moment its time is up, for frames of one
  size; a cut switches at that moment.
\<close>

theorem transitions_are_seamless:
  assumes "fits_wipe a b" and "0 < T" and "t0 + T \<le> t"
  shows "blended (Blender 28) kind a b (min ((t0 - t0) / T) 1) = a
    \<and> blended (Blender 28) kind a b (min ((t - t0) / T) 1) = b"
proof -
  have same: "same_shape a b" using assms(1) by (simp add: fits_wipe_def)
  have "1 \<le> (t - t0) / T" using assms(2,3) by (simp add: le_divide_eq)
  then have one: "min ((t - t0) / T) 1 = 1" by (simp add: min_def)
  note starts = crossfade.at_start [OF same] through_black.at_start [OF same]
    flash.at_start [OF same] wipe28.at_start [OF assms(1)]
  note ends = crossfade.at_end [OF same] through_black.at_end [OF same]
    flash.at_end [OF same] wipe28.at_end [OF assms(1)]
  show ?thesis unfolding one by (simp add: blended_def Blender_def starts ends)
qed

theorem transitions_are_seamless_witness:
  "blended (Blender 28) ''wipe'' [[(1, 2, 3), (4, 5, 6)]] [[(9, 9, 9), (8, 8, 8)]] (min ((7 - 3) / 2) 1)
     = [[(9, 9, 9), (8, 8, 8)]]"
  by (rule transitions_are_seamless [THEN conjunct2])
    (simp_all add: fits_wipe_def same_shape_def rectangle_def grid_width_def)

text \<open>
  Blending never leaves the range between the two frames, channel by channel, so that no
  value wraps around in the cast to a byte.
\<close>

theorem mix_stays_between:
  assumes "0 \<le> w" and "w \<le> 1"
  shows "min (unat a) (unat b) \<le> unat (mix_ch w a b) \<and> unat (mix_ch w a b) \<le> max (unat a) (unat b)"
proof -
  let ?v = "u8 a * (1 - w) + u8 b * w"
  let ?lo = "min (u8 a) (u8 b)" and ?hi = "max (u8 a) (u8 b)"
  have "?lo * (1 - w) + ?lo * w \<le> ?v" "?v \<le> ?hi * (1 - w) + ?hi * w"
    using assms by (intro add_mono mult_right_mono; simp)+
  then have lo: "?lo \<le> ?v" and hi: "?v \<le> ?hi" by (simp_all add: algebra_simps)
  have "0 \<le> ?lo" "?hi \<le> 255" using u8_bounds [of a] u8_bounds [of b] by simp_all
  then have v: "0 \<le> ?v" "?v < 256" using lo hi by linarith+
  have m: "int (unat (mix_ch w a b)) = \<lfloor>?v\<rfloor>"
    unfolding mix_ch_def by (rule unat_to_u8 [OF v])
  have "rat_of_nat (min (unat a) (unat b)) \<le> ?v" "?v \<le> rat_of_nat (max (unat a) (unat b))"
    using lo hi unfolding u8_def of_nat_min of_nat_max .
  then have "int (min (unat a) (unat b)) \<le> \<lfloor>?v\<rfloor>" "\<lfloor>?v\<rfloor> \<le> int (max (unat a) (unat b))"
    unfolding le_floor_iff floor_le_iff of_int_of_nat_eq by linarith+
  then show ?thesis using m by linarith
qed

theorem mix_stays_between_witness:
  "min (unat (200 :: byte)) (unat (10 :: byte)) \<le> unat (mix_ch (1 / 3) 200 10)
   \<and> unat (mix_ch (1 / 3) 200 10) \<le> max (unat (200 :: byte)) (unat (10 :: byte))"
  by (rule mix_stays_between) simp_all

text \<open>
  Dithering is a rounding: an image of whole levels comes out as it went in, and any
  channel in range comes out as the level below it or the one above.
\<close>

theorem dither_rounds:
  shows "dither (map (map (\<lambda>(r, g, b). (u8 r, u8 g, u8 b))) img) = img
    \<and> (0 \<le> v \<and> v \<le> 255 \<longrightarrow>
         unat (dither_ch (bayer y x) v) \<in> {nat \<lfloor>v\<rfloor>, nat \<lfloor>v\<rfloor> + 1})"
  using dither_levels dither_ch_near [OF bayer_range] by auto

theorem dither_rounds_witness:
  "unat (dither_ch (bayer 3 5) (161 / 2)) \<in> {80, 81}
   \<and> dither [[(u8 7, u8 8, u8 9)]] = [[(7, 8, 9)]]"
proof -
  have "\<lfloor>161 / 2 :: rat\<rfloor> = 80" by (simp add: floor_eq_iff)
  then show ?thesis using dither_rounds [of "[[(7, 8, 9)]]" "161 / 2" 3 5] by simp
qed

end
