(* ===== verification/FT_Options.thy ===== *)
theory FT_Options
  imports FT_Json
begin

text \<open>
  \<open>src/demos/ftsched_opts.py\<close>: the options a demo declares, read off its argument parser
  (\<open>describe\<close>), and the validation of values for them (\<open>check\<close>, \<open>one_opt\<close>). The parser
  object is \<open>argparse\<close>'s; what the code reads of it is the list of actions and the default
  of each destination. Error texts are abstracted to the case that raises them.
\<close>

section \<open>What a demo declares\<close>

datatype opt_kind = KBool | KInt | KFloat | KStr

text \<open>\<open>nargs\<close>: absent, zero, or anything else. \<open>a_type\<close>: the \<open>type=\<close> callable, if any.\<close>

datatype nargs = NargsNone | NargsZero | NargsMany

datatype opt_type = TInt | TFloat | TOther

record action =
  a_dest :: string
  a_option_strings :: "string list"
  a_nargs :: nargs
  a_const_bool :: bool
  a_type :: "opt_type option"
  a_choices :: "string list"
  a_help :: string

record opt_spec =
  os_name :: string
  os_label :: string
  os_flags :: "string list"
  os_type :: opt_kind
  os_default :: json
  os_choices :: "string list option"
  os_help :: string

definition is_flag :: "action \<Rightarrow> bool" where
  "is_flag a \<longleftrightarrow> a_nargs a = NargsZero \<and> a_const_bool a"

text \<open>The actions kept, and their destinations in order of first appearance.\<close>

definition own_actions :: "string list \<Rightarrow> action list \<Rightarrow> action list" where
  "own_actions base acts = filter (\<lambda>a. a_dest a \<notin> set base \<and> a_option_strings a \<noteq> []) acts"

definition add_dest :: "action \<Rightarrow> string list \<Rightarrow> string list" where
  "add_dest a order = (if a_dest a \<in> set order then order else order @ [a_dest a])"

definition dest_order :: "action list \<Rightarrow> string list" where
  "dest_order acts = fold add_dest acts []"

definition dest_group :: "string \<Rightarrow> action list \<Rightarrow> action list" where
  "dest_group dest acts = filter (\<lambda>a. a_dest a = dest) acts"

text \<open>\<open>None\<close> for an option that takes several values.\<close>

definition kind_of_group :: "action list \<Rightarrow> opt_kind option" where
  "kind_of_group acts =
     (if \<exists>a \<in> set acts. is_flag a then Some KBool
      else if \<exists>a \<in> set acts. a_nargs a = NargsMany then None
      else case filter (\<lambda>a. a_type a \<noteq> None) acts of
             [] \<Rightarrow> Some KStr
           | a # _ \<Rightarrow> (case a_type a of Some TInt \<Rightarrow> Some KInt | Some TFloat \<Rightarrow> Some KFloat | _ \<Rightarrow> Some KStr))"

definition dashed :: "string \<Rightarrow> string" where
  "dashed s = map (\<lambda>c. if c = CHR ''_'' then CHR ''-'' else c) s"

definition join_with :: "string \<Rightarrow> string list \<Rightarrow> string" where
  "join_with sep xs = (case xs of [] \<Rightarrow> [] | y # ys \<Rightarrow> y @ concat (map (\<lambda>z. sep @ z) ys))"

text \<open>
  \<open>isinstance(default, (bool, int, float, str, type(None)))\<close>; a default of another type is
  an array or object here. The choices are strings already (\<open>map(str, ...)\<close>).
\<close>

definition scalar :: "json \<Rightarrow> bool" where
  "scalar v = (case v of JArr _ \<Rightarrow> False | JObj _ \<Rightarrow> False | _ \<Rightarrow> True)"

definition describe_dest :: "action list \<Rightarrow> (string \<Rightarrow> json) \<Rightarrow> string \<Rightarrow> opt_spec option" where
  "describe_dest acts dflt dest =
     (let g = dest_group dest acts in
      case kind_of_group g of
        None \<Rightarrow> None
      | Some k \<Rightarrow>
          if \<not> scalar (dflt dest) then None
          else Some \<lparr>os_name = dest, os_label = dashed dest,
                     os_flags = concat (map a_option_strings g), os_type = k,
                     os_default = dflt dest,
                     os_choices = (case filter (\<lambda>a. a_choices a \<noteq> []) g of
                                     [] \<Rightarrow> None | a # _ \<Rightarrow> Some (sort (a_choices a))),
                     os_help = join_with ''; '' (filter (\<lambda>h. h \<noteq> []) (map a_help g))\<rparr>)"

definition describe :: "string list \<Rightarrow> action list \<Rightarrow> (string \<Rightarrow> json) \<Rightarrow> opt_spec list" where
  "describe base acts dflt =
     (let own = own_actions base acts
      in List.map_filter (describe_dest own dflt) (dest_order own))"

text \<open>
  \<open>schema\<close>: the cache over \<open>describe\<close>. \<open>load\<close> is the import of a module and the reading of
  its parser; \<open>None\<close> is any exception it raises.
\<close>

definition schema ::
  "(string \<Rightarrow> opt_spec list option) \<Rightarrow> string \<Rightarrow> (string \<rightharpoonup> opt_spec list)
     \<Rightarrow> opt_spec list \<times> (string \<rightharpoonup> opt_spec list)" where
  "schema load name cache =
     (case cache name of
        Some s \<Rightarrow> (s, cache)
      | None \<Rightarrow>
          let found = (case load name of None \<Rightarrow> [] | Some s \<Rightarrow> s)
          in (found, cache(name \<mapsto> found)))"

definition prime ::
  "(string \<Rightarrow> opt_spec list option) \<Rightarrow> string list \<Rightarrow> (string \<rightharpoonup> opt_spec list)
     \<Rightarrow> (string \<rightharpoonup> opt_spec list)" where
  "prime load names cache = fold (\<lambda>n c. snd (schema load n c)) names cache"

section \<open>Validation\<close>

definition MAX_TEXT :: nat where "MAX_TEXT = 512"
definition MAX_NUMBER :: rat where "MAX_NUMBER = 1000000000"

datatype opt_error =
    NotAnObject
  | NoSuchOption string
  | WantsBool string
  | WantsNumber string
  | OutOfRange string
  | WantsText string
  | TooLong string
  | NotAChoice string

text \<open>
  \<open>float_repr\<close> is \<open>str(x)\<close> of a float, which the code compares with the choices.
\<close>

definition py_str :: "(pyfloat \<Rightarrow> string) \<Rightarrow> json \<Rightarrow> string" where
  "py_str float_repr v =
     (case v of
        JBool b \<Rightarrow> (if b then ''True'' else ''False'')
      | JInt i \<Rightarrow> int_str i
      | JFloat f \<Rightarrow> float_repr f
      | JStr s \<Rightarrow> s
      | _ \<Rightarrow> ''None'')"

text \<open>\<open>-MAX_NUMBER <= out <= MAX_NUMBER\<close>, false for an infinity and for NaN.\<close>

definition in_range :: "json \<Rightarrow> bool" where
  "in_range v =
     (case v of
        JInt i \<Rightarrow> - MAX_NUMBER \<le> of_int i \<and> of_int i \<le> MAX_NUMBER
      | JFloat (Fin q) \<Rightarrow> - MAX_NUMBER \<le> q \<and> q \<le> MAX_NUMBER
      | _ \<Rightarrow> False)"

definition to_number :: "opt_kind \<Rightarrow> json \<Rightarrow> py_error + json" where
  "to_number k v =
     (if k = KInt then (case py_int v of Inl e \<Rightarrow> Inl e | Inr i \<Rightarrow> Inr (JInt i))
      else (case py_float v of Inl e \<Rightarrow> Inl e | Inr f \<Rightarrow> Inr (JFloat f)))"

definition coerce_opt :: "opt_spec \<Rightarrow> json \<Rightarrow> opt_error + json" where
  "coerce_opt spec v =
     (let label = os_label spec in
      if os_type spec = KBool then
        (case v of
           JBool b \<Rightarrow> Inr v
         | JStr s \<Rightarrow> Inr (JBool (lower (strip s) \<in> {''1'', ''true'', ''yes'', ''on''}))
         | _ \<Rightarrow> Inl (WantsBool label))
      else if os_type spec = KInt \<or> os_type spec = KFloat then
        (if (case v of JBool _ \<Rightarrow> True | _ \<Rightarrow> False) then Inl (WantsNumber label)
         else case to_number (os_type spec) v of
                Inl _ \<Rightarrow> Inl (WantsNumber label)
              | Inr out \<Rightarrow> if in_range out then Inr out else Inl (OutOfRange label))
      else
        (case v of
           JStr s \<Rightarrow> if MAX_TEXT < length s then Inl (TooLong label) else Inr v
         | _ \<Rightarrow> Inl (WantsText label)))"

definition one_opt :: "(pyfloat \<Rightarrow> string) \<Rightarrow> opt_spec \<Rightarrow> json \<Rightarrow> opt_error + json" where
  "one_opt float_repr spec v =
     (case coerce_opt spec v of
        Inl e \<Rightarrow> Inl e
      | Inr out \<Rightarrow>
          (case os_choices spec of
             None \<Rightarrow> Inr out
           | Some cs \<Rightarrow> if py_str float_repr out \<in> set cs then Inr out
                        else Inl (NotAChoice (os_label spec))))"

text \<open>\<open>{o["name"]: o for o in schema}\<close>: the last of two specs of one name wins.\<close>

definition known_specs :: "opt_spec list \<Rightarrow> string \<rightharpoonup> opt_spec" where
  "known_specs specs = map_of (map (\<lambda>o'. (os_name o', o')) (rev specs))"

fun check_items ::
  "(pyfloat \<Rightarrow> string) \<Rightarrow> opt_spec list \<Rightarrow> dict \<Rightarrow> opt_error + dict" where
  "check_items float_repr specs [] = Inr []"
| "check_items float_repr specs ((key, v) # rest) =
     (case known_specs specs key of
        None \<Rightarrow> Inl (NoSuchOption (dashed key))
      | Some spec \<Rightarrow>
          bindE (one_opt float_repr spec v) (\<lambda>out.
          bindE (check_items float_repr specs rest) (\<lambda>clean. Inr ((key, out) # clean))))"

definition check :: "(pyfloat \<Rightarrow> string) \<Rightarrow> opt_spec list \<Rightarrow> json \<Rightarrow> opt_error + dict" where
  "check float_repr specs options =
     (case options of JObj d \<Rightarrow> check_items float_repr specs d | _ \<Rightarrow> Inl NotAnObject)"

section \<open>Facts about validation\<close>

text \<open>What a value of each declared type looks like once accepted.\<close>

definition conforms :: "(pyfloat \<Rightarrow> string) \<Rightarrow> opt_spec \<Rightarrow> json \<Rightarrow> bool" where
  "conforms float_repr spec v \<longleftrightarrow>
     (case os_type spec of
        KBool \<Rightarrow> (\<exists>b. v = JBool b)
      | KInt \<Rightarrow> (\<exists>i. v = JInt i \<and> \<bar>i\<bar> \<le> 1000000000)
      | KFloat \<Rightarrow> (\<exists>q. v = JFloat (Fin q) \<and> \<bar>q\<bar> \<le> MAX_NUMBER)
      | KStr \<Rightarrow> (\<exists>s. v = JStr s \<and> length s \<le> MAX_TEXT))
     \<and> (\<forall>cs. os_choices spec = Some cs \<longrightarrow> py_str float_repr v \<in> set cs)"

lemma in_range_int: "in_range (JInt i) \<longleftrightarrow> \<bar>i\<bar> \<le> 1000000000"
proof -
  have "in_range (JInt i) \<longleftrightarrow> rat_of_int (- 1000000000) \<le> of_int i \<and> rat_of_int i \<le> of_int 1000000000"
    by (simp add: in_range_def MAX_NUMBER_def)
  then show ?thesis by (simp only: of_int_le_iff) auto
qed

lemma in_range_float: "in_range (JFloat f) \<longleftrightarrow> (\<exists>q. f = Fin q \<and> \<bar>q\<bar> \<le> MAX_NUMBER)"
  by (cases f) (auto simp: in_range_def abs_le_iff)

lemma coerce_conforms:
  assumes "coerce_opt spec v = Inr out"
  shows "case os_type spec of
        KBool \<Rightarrow> (\<exists>b. out = JBool b)
      | KInt \<Rightarrow> (\<exists>i. out = JInt i \<and> \<bar>i\<bar> \<le> 1000000000)
      | KFloat \<Rightarrow> (\<exists>q. out = JFloat (Fin q) \<and> \<bar>q\<bar> \<le> MAX_NUMBER)
      | KStr \<Rightarrow> (\<exists>s. out = JStr s \<and> length s \<le> MAX_TEXT)"
  using assms
  by (cases "os_type spec")
    (auto simp: coerce_opt_def to_number_def in_range_int in_range_float Let_def
        split: if_splits sum.splits json.splits)

lemma one_opt_conforms: "one_opt float_repr spec v = Inr out \<Longrightarrow> conforms float_repr spec out"
  by (auto simp: one_opt_def conforms_def dest: coerce_conforms
      split: sum.splits option.splits if_splits)

lemma coerce_fixed:
  assumes "case os_type spec of
        KBool \<Rightarrow> (\<exists>b. v = JBool b)
      | KInt \<Rightarrow> (\<exists>i. v = JInt i \<and> \<bar>i\<bar> \<le> 1000000000)
      | KFloat \<Rightarrow> (\<exists>q. v = JFloat (Fin q) \<and> \<bar>q\<bar> \<le> MAX_NUMBER)
      | KStr \<Rightarrow> (\<exists>s. v = JStr s \<and> length s \<le> MAX_TEXT)"
  shows "coerce_opt spec v = Inr v"
  using assms
  by (cases "os_type spec")
    (auto simp: coerce_opt_def to_number_def in_range_int in_range_float Let_def)

lemma one_opt_fixed: "conforms float_repr spec v \<Longrightarrow> one_opt float_repr spec v = Inr v"
  by (auto simp: one_opt_def conforms_def coerce_fixed split: option.splits)

definition accepted :: "(pyfloat \<Rightarrow> string) \<Rightarrow> opt_spec list \<Rightarrow> dict \<Rightarrow> bool" where
  "accepted float_repr specs d \<longleftrightarrow>
     (\<forall>kv \<in> set d. \<exists>spec. known_specs specs (fst kv) = Some spec \<and> conforms float_repr spec (snd kv))"

lemma check_items_sound:
  assumes "check_items float_repr specs d = Inr clean"
  shows "map fst clean = map fst d \<and> accepted float_repr specs clean"
  using assms unfolding accepted_def
proof (induction d arbitrary: clean)
  case Nil
  then show ?case by simp
next
  case (Cons kv d)
  obtain key v where kv: "kv = (key, v)" by fastforce
  from Cons.prems obtain spec out rest where
    "known_specs specs key = Some spec" "one_opt float_repr spec v = Inr out"
    "check_items float_repr specs d = Inr rest" "clean = (key, out) # rest"
    by (auto simp: kv bindE_Inr split: option.splits)
  with Cons.IH [of rest] show ?case
    by (auto simp: kv dest: one_opt_conforms)
qed

lemma check_items_fixed:
  "accepted float_repr specs d \<Longrightarrow> check_items float_repr specs d = Inr d"
  by (induction d) (auto simp: accepted_def one_opt_fixed)

text \<open>A list of options is refused exactly when one of them is.\<close>

lemma check_items_total:
  "(\<exists>clean. check_items float_repr specs d = Inr clean)
     \<longleftrightarrow> (\<forall>kv \<in> set d. \<exists>spec out. known_specs specs (fst kv) = Some spec
                              \<and> one_opt float_repr spec (snd kv) = Inr out)"
  by (induction d) (auto simp: bindE_Inr split: option.splits)

section \<open>Facts about the description\<close>

lemma dest_order_fold:
  "distinct order \<Longrightarrow> distinct (fold add_dest acts order)
     \<and> set (fold add_dest acts order) = set order \<union> a_dest ` set acts"
  by (induction acts arbitrary: order) (auto simp: add_dest_def)

lemma distinct_dest_order [simp]: "distinct (dest_order acts)"
  and set_dest_order [simp]: "set (dest_order acts) = a_dest ` set acts"
  using dest_order_fold [of "[]" acts] by (simp_all add: dest_order_def)

lemma describe_dest_name: "describe_dest acts dflt dest = Some spec \<Longrightarrow> os_name spec = dest"
  by (auto simp: describe_dest_def Let_def split: option.splits if_splits)

lemma describe_dest_type:
  "describe_dest acts dflt dest = Some spec \<Longrightarrow> kind_of_group (dest_group dest acts) = Some (os_type spec)"
  by (auto simp: describe_dest_def Let_def split: option.splits if_splits)

lemma map_filter_names:
  "map os_name (List.map_filter (describe_dest acts dflt) ds)
     = filter (\<lambda>d. describe_dest acts dflt d \<noteq> None) ds"
  by (induction ds) (auto simp: List.map_filter_simps describe_dest_name split: option.splits)

lemma describe_names:
  "map os_name (describe base acts dflt)
     = filter (\<lambda>d. describe_dest (own_actions base acts) dflt d \<noteq> None)
         (dest_order (own_actions base acts))"
  by (simp add: describe_def Let_def map_filter_names)

lemma describe_lookup:
  "spec \<in> set (describe base acts dflt) \<Longrightarrow>
     describe_dest (own_actions base acts) dflt (os_name spec) = Some spec"
  using describe_dest_name by (fastforce simp: describe_def Let_def List.map_filter_def)

lemma known_specs_distinct:
  assumes "distinct (map os_name specs)" and "spec \<in> set specs"
  shows "known_specs specs (os_name spec) = Some spec"
proof -
  have "distinct (map fst (map (\<lambda>s. (os_name s, s)) (rev specs)))"
    using assms(1) by (simp add: comp_def rev_map [symmetric])
  then show ?thesis
    using assms(2) by (auto simp: known_specs_def intro!: map_of_is_SomeI)
qed

lemma kind_flag:
  "\<exists>a \<in> set acts. is_flag a \<Longrightarrow> kind_of_group acts = Some KBool"
  by (simp add: kind_of_group_def)

section \<open>Properties\<close>

text \<open>
  C32. What \<open>check\<close> lets through is exactly what was asked for, key by key, each value in the
  type its demo declared, inside the bounds and among the choices.
\<close>

theorem check_conforms:
  assumes "check float_repr specs (JObj d) = Inr clean"
  shows "map fst clean = map fst d \<and> accepted float_repr specs clean"
  using assms by (simp add: check_def check_items_sound)

definition example_specs :: "opt_spec list" where
  "example_specs =
     [\<lparr>os_name = ''min_cols'', os_label = ''min-cols'', os_flags = [''--min-cols''], os_type = KInt,
       os_default = JInt 4, os_choices = None, os_help = []\<rparr>,
      \<lparr>os_name = ''plasma'', os_label = ''plasma'', os_flags = [''--plasma'', ''--no-plasma''],
       os_type = KBool, os_default = JBool True, os_choices = None, os_help = []\<rparr>]"

definition example_options :: dict where
  "example_options = [(''min_cols'', JStr '' 12 ''), (''plasma'', JStr ''Yes'')]"

lemma example_check:
  "check (\<lambda>_. []) example_specs (JObj example_options)
     = Inr [(''min_cols'', JInt 12), (''plasma'', JBool True)]"
  by code_simp

theorem check_conforms_witness:
  "map fst [(''min_cols'', JInt 12), (''plasma'', JBool True)] = map fst example_options
   \<and> accepted (\<lambda>_. []) example_specs [(''min_cols'', JInt 12), (''plasma'', JBool True)]"
  by (rule check_conforms [OF example_check])

text \<open>
  Validation is idempotent: options that were accepted once are accepted again and come
  out unchanged. The scheduler relies on it: it validates what the HTTP handler already
  validated, and what it saved in the state file.
\<close>

theorem check_idempotent:
  assumes "check float_repr specs options = Inr clean"
  shows "check float_repr specs (JObj clean) = Inr clean"
  using assms check_items_sound [of float_repr specs _ clean]
  by (auto simp: check_def check_items_fixed split: json.splits)

theorem check_idempotent_witness:
  "check (\<lambda>_. []) example_specs (JObj [(''min_cols'', JInt 12), (''plasma'', JBool True)])
     = Inr [(''min_cols'', JInt 12), (''plasma'', JBool True)]"
  by (rule check_idempotent [OF example_check])

text \<open>
  The editor's form is read off the parser without duplicates: one field per destination,
  none of them an option every demo has, and a pair of flags that write one destination is a
  single boolean field.
\<close>

theorem describe_fields:
  "distinct (map os_name (describe base acts dflt))
   \<and> set (map os_name (describe base acts dflt)) \<inter> set base = {}
   \<and> (\<forall>spec \<in> set (describe base acts dflt).
        (\<exists>a \<in> set acts. is_flag a \<and> a_dest a = os_name spec \<and> a_option_strings a \<noteq> [])
          \<longrightarrow> os_type spec = KBool)"
proof (intro conjI ballI impI)
  show "distinct (map os_name (describe base acts dflt))"
    by (simp add: describe_names)
  show "set (map os_name (describe base acts dflt)) \<inter> set base = {}"
    unfolding describe_names by (auto simp: own_actions_def)
next
  fix spec assume spec: "spec \<in> set (describe base acts dflt)"
  assume flag: "\<exists>a \<in> set acts. is_flag a \<and> a_dest a = os_name spec \<and> a_option_strings a \<noteq> []"
  have "os_name spec \<in> set (map os_name (describe base acts dflt))" using spec by simp
  then have "os_name spec \<notin> set base"
    unfolding describe_names by (auto simp: own_actions_def)
  then have "\<exists>a \<in> set (dest_group (os_name spec) (own_actions base acts)). is_flag a"
    using flag by (auto simp: dest_group_def own_actions_def)
  then show "os_type spec = KBool"
    using describe_dest_type [OF describe_lookup [OF spec]] by (simp add: kind_flag)
qed

definition example_actions :: "action list" where
  "example_actions =
     [\<lparr>a_dest = ''help'', a_option_strings = [''--help''], a_nargs = NargsZero, a_const_bool = False,
       a_type = None, a_choices = [], a_help = ''usage''\<rparr>,
      \<lparr>a_dest = ''plasma'', a_option_strings = [''--plasma''], a_nargs = NargsZero, a_const_bool = True,
       a_type = None, a_choices = [], a_help = ''on''\<rparr>,
      \<lparr>a_dest = ''plasma'', a_option_strings = [''--no-plasma''], a_nargs = NargsZero,
       a_const_bool = True, a_type = None, a_choices = [], a_help = ''off''\<rparr>]"

theorem describe_fields_witness:
  "os_type (hd (describe [''help''] example_actions (\<lambda>_. JBool True))) = KBool
   \<and> length (describe [''help''] example_actions (\<lambda>_. JBool True)) = 1"
proof -
  let ?d = "describe [''help''] example_actions (\<lambda>_. JBool True)"
  have one: "length ?d = 1" and name: "os_name (hd ?d) = ''plasma''"
    by code_simp+
  then have "hd ?d \<in> set ?d" by (cases ?d) auto
  moreover have "\<exists>a \<in> set example_actions. is_flag a \<and> a_dest a = ''plasma'' \<and> a_option_strings a \<noteq> []"
    by (simp add: example_actions_def is_flag_def)
  ultimately show ?thesis
    using describe_fields [of "[''help'']" example_actions "\<lambda>_. JBool True"] one name by auto
qed

end
