(* ===== verification/FT_Scheduler.thy ===== *)
theory FT_Scheduler
  imports FT_Show FT_Options
begin

text \<open>
  Class \<open>Scheduler\<close> of \<open>src/demos/ftsched.py\<close>: the command queue and what each command
  does, the inline build of the opening, the frame rate, the pacing of the loop, the exec
  child, and the state file. The demo modules' declared options are a parameter
  (\<open>schemas\<close>), and so is \<open>str\<close> of a float (\<open>fr\<close>).
\<close>

section \<open>State\<close>

text \<open>
  What the scheduler does to the world, in order: black pushed on a layer, a child process
  started, asked to terminate, killed.
\<close>

datatype sched_event = Blank json | Spawn nat | SpawnFailed nat | Terminate | Kill

record 'r sched =
  sc_rot :: rotation
  sc_b :: "'r builder"
  sc_show :: show_state
  sc_commands :: "(string \<times> dict) list"
  sc_dirty :: bool
  sc_child :: bool
  sc_child_entry :: "nat option"
  sc_log :: "sched_event list"

record sched_args =
  ar_transition :: rat
  ar_fps :: int
  ar_layer :: int

definition MAX_QUEUE :: nat where "MAX_QUEUE = 64"

section \<open>Commands\<close>

definition submit :: "string \<Rightarrow> dict \<Rightarrow> 'r sched \<Rightarrow> bool \<times> 'r sched" where
  "submit op payload s =
     (if MAX_QUEUE < length (sc_commands s) then (False, s)
      else (True, s\<lparr>sc_commands := sc_commands s @ [(op, payload)]\<rparr>))"

text \<open>\<open>entry_at\<close> of the builder is the rotation's answer.\<close>

definition entry_at :: "'r sched \<Rightarrow> nat \<Rightarrow> nat option" where
  "entry_at s i = rot_at (sc_rot s) (int i)"

definition module_of :: "json \<Rightarrow> rotation \<Rightarrow> string option" where
  "module_of name r =
     (case find (\<lambda>e. JStr (e_name e) = name) (r_all r) of
        None \<Rightarrow> None
      | Some e \<Rightarrow> if e_kind e = ''py'' then Some (e_module e) else None)"

definition set_enabled_json :: "json \<Rightarrow> bool \<Rightarrow> rotation \<Rightarrow> bool \<times> rotation" where
  "set_enabled_json name on r =
     (case name of JStr n \<Rightarrow> set_enabled n on r | _ \<Rightarrow> (False, r))"

text \<open>Everything past the playhead is to be built again.\<close>

definition rebuild_ahead :: "'r sched \<Rightarrow> 'r sched" where
  "rebuild_ahead s = s\<lparr>sc_b := invalidate_from (Suc (sh_index (sc_show s))) (sc_b s)\<rparr>"

definition skip_now :: "rat \<Rightarrow> rat \<Rightarrow> 'r sched \<Rightarrow> 'r sched" where
  "skip_now t gap s = s\<lparr>sc_show := show_skip (sc_rot s) t gap (sc_show s)\<rparr>"

definition jump_to :: "sched_args \<Rightarrow> int \<Rightarrow> rat \<Rightarrow> 'r sched \<Rightarrow> 'r sched" where
  "jump_to args position t s =
     (case jump position (int (sh_index (sc_show s)) + 1) (sc_rot s) of
        (False, _) \<Rightarrow> s
      | (True, r) \<Rightarrow> skip_now t (ar_transition args) (rebuild_ahead (s\<lparr>sc_rot := r\<rparr>)))"

datatype cmd_error = PyErr py_error | BadOption opt_error

definition require :: "string \<Rightarrow> dict \<Rightarrow> cmd_error + json" where
  "require key payload =
     (case dget payload key of None \<Rightarrow> Inl (PyErr KeyError) | Some v \<Rightarrow> Inr v)"

definition sched_configure ::
  "(pyfloat \<Rightarrow> string) \<Rightarrow> (string \<Rightarrow> opt_spec list) \<Rightarrow> sched_args \<Rightarrow> dict \<Rightarrow> rat \<Rightarrow> 'r sched
     \<Rightarrow> cmd_error + 'r sched" where
  "sched_configure fr schemas args payload t s =
     bindE (require ''name'' payload) (\<lambda>name.
     bindE (require ''options'' payload) (\<lambda>options.
       case module_of name (sc_rot s) of
         None \<Rightarrow> Inr s
       | Some mdl \<Rightarrow>
           bindE (if options = JNull then Inr None
                  else case check fr (schemas mdl) options of
                         Inl e \<Rightarrow> Inl (BadOption e) | Inr d \<Rightarrow> Inr (Some d)) (\<lambda>opts.
             let n = (case name of JStr n \<Rightarrow> n | _ \<Rightarrow> []);
                 (changed, r) = rot_configure n opts (sc_rot s);
                 s1 = rebuild_ahead (s\<lparr>sc_rot := r, sc_b := fold forget changed (sc_b s)\<rparr>);
                 s2 = s1\<lparr>sc_dirty := True\<rparr>;
                 live = entry_at s2 (sh_index (sc_show s2))
             in if truthy (dget_or payload ''restart'' JNull) \<and> live \<in> Some ` set changed
                   \<and> 0 \<le> position_of live (sc_rot s2)
                then Inr (jump_to args (position_of live (sc_rot s2)) t s2)
                else Inr s2)))"

definition sched_apply ::
  "(pyfloat \<Rightarrow> string) \<Rightarrow> (string \<Rightarrow> opt_spec list) \<Rightarrow> sched_args \<Rightarrow> string \<Rightarrow> dict \<Rightarrow> rat
     \<Rightarrow> 'r sched \<Rightarrow> cmd_error + 'r sched" where
  "sched_apply fr schemas args op payload t s =
     (if op = ''pause'' then Inr (s\<lparr>sc_show := (sc_show s)\<lparr>sh_paused := True\<rparr>\<rparr>)
      else if op = ''resume'' then Inr (s\<lparr>sc_show := (sc_show s)\<lparr>sh_paused := False\<rparr>\<rparr>)
      else if op = ''toggle'' then
        bindE (require ''name'' payload) (\<lambda>name.
        bindE (require ''on'' payload) (\<lambda>on.
          case set_enabled_json name (truthy on) (sc_rot s) of
            (False, _) \<Rightarrow> Inr s
          | (True, r) \<Rightarrow> Inr ((rebuild_ahead (s\<lparr>sc_rot := r\<rparr>))\<lparr>sc_dirty := True\<rparr>)))
      else if op = ''all'' then
        bindE (require ''on'' payload) (\<lambda>on.
          case set_all (truthy on) (entry_at s (sh_index (sc_show s))) (sc_rot s) of
            (False, _) \<Rightarrow> Inr s
          | (True, r) \<Rightarrow> Inr ((rebuild_ahead (s\<lparr>sc_rot := r\<rparr>))\<lparr>sc_dirty := True\<rparr>))
      else if op = ''jump'' then
        bindE (require ''index'' payload) (\<lambda>v.
          case py_int v of Inl e \<Rightarrow> Inl (PyErr e) | Inr p \<Rightarrow> Inr (jump_to args p t s))
      else if op = ''configure'' then sched_configure fr schemas args payload t s
      else if op = ''next'' then Inr (skip_now t (ar_transition args) s)
      else if op = ''restart'' then Inr (skip_now t (ar_transition args) (rebuild_ahead s))
      else Inl (PyErr ValueError))"

text \<open>A command that raises is reported and changes nothing; the next one runs.\<close>

definition apply_or_warn ::
  "(pyfloat \<Rightarrow> string) \<Rightarrow> (string \<Rightarrow> opt_spec list) \<Rightarrow> sched_args \<Rightarrow> rat \<Rightarrow> string \<times> dict
     \<Rightarrow> 'r sched \<Rightarrow> 'r sched" where
  "apply_or_warn fr schemas args t cmd s =
     (case sched_apply fr schemas args (fst cmd) (snd cmd) t s of Inl _ \<Rightarrow> s | Inr s' \<Rightarrow> s')"

definition drain ::
  "(pyfloat \<Rightarrow> string) \<Rightarrow> (string \<Rightarrow> opt_spec list) \<Rightarrow> sched_args \<Rightarrow> rat \<Rightarrow> 'r sched \<Rightarrow> 'r sched" where
  "drain fr schemas args t s =
     fold (apply_or_warn fr schemas args t) (sc_commands s) (s\<lparr>sc_commands := []\<rparr>)"

section \<open>The opening\<close>

datatype exit_error = RotationEmpty | NothingBuilds

text \<open>
  \<open>_build_opening\<close>: as many attempts as there are entries; \<open>build\<close> is the render callback
  of an entry, or \<open>None\<close> when building it raises, which switches the entry off.
\<close>

fun build_opening :: "(nat \<Rightarrow> 'r option) \<Rightarrow> nat \<Rightarrow> rotation \<Rightarrow> exit_error + (nat \<times> 'r) \<times> rotation" where
  "build_opening build 0 r = Inl NothingBuilds"
| "build_opening build (Suc n) r =
     (case rot_at r 0 of
        None \<Rightarrow> Inl RotationEmpty
      | Some e \<Rightarrow>
          (case build e of
             Some render \<Rightarrow> Inr ((e, render), r)
           | None \<Rightarrow> build_opening build n (update_entries (\<lambda>x. x\<lparr>e_enabled := False\<rparr>) [e] r)))"

section \<open>Rate and pacing\<close>

definition own_rate :: "sched_args \<Rightarrow> entry \<Rightarrow> int" where
  "own_rate args e = (if e_fps e \<noteq> 0 then e_fps e else ar_fps args)"

definition trunc :: "rat \<Rightarrow> int" where
  "trunc q = (if 0 \<le> q then \<lfloor>q\<rfloor> else \<lceil>q\<rceil>)"

definition frame_rate :: "sched_args \<Rightarrow> 'r sched \<Rightarrow> int" where
  "frame_rate args s =
     (let cur = entry_at s (sh_index (sc_show s));
          rate = (case cur of None \<Rightarrow> ar_fps args | Some c \<Rightarrow> own_rate args (r_all (sc_rot s) ! c));
          rate2 = (if sh_in_transition (sc_show s) then
                     (case entry_at s (Suc (sh_index (sc_show s))) of
                        None \<Rightarrow> rate
                      | Some n \<Rightarrow>
                          let nxt = r_all (sc_rot s) ! n; low = min rate (own_rate args nxt) in
                          (case cur of
                             None \<Rightarrow> low
                           | Some c \<Rightarrow>
                               let ms = e_ms (r_all (sc_rot s) ! c) in
                               if ms \<noteq> 0 \<and> e_ms nxt \<noteq> 0
                               then min low (trunc (TRANSITION_HEADROOM * 1000 / (ms + e_ms nxt)))
                               else low))
                   else rate)
      in max 1 rate2)"

text \<open>
  The end of one pass of the loop. \<open>now\<close> and \<open>now2\<close> are the two readings of the clock;
  the result is the new deadline, how long to sleep, and whether the frame was late.
\<close>

definition pace :: "rat \<Rightarrow> rat \<Rightarrow> rat \<Rightarrow> rat \<Rightarrow> rat \<times> rat \<times> bool" where
  "pace dt due now now2 =
     (let due' = due + dt; slack = due' - now in
      if 0 < slack then (due', slack, False)
      else (if dt < - slack then now2 else due', 0, True))"

section \<open>External commands\<close>

text \<open>
  \<open>alive\<close>: \<open>poll()\<close> returns \<open>None\<close>; \<open>obeys\<close>: the child ends within two seconds of being
  asked to; \<open>starts\<close>: \<open>Popen\<close> does not raise.
\<close>

definition reap :: "bool \<Rightarrow> bool \<Rightarrow> 'r sched \<Rightarrow> 'r sched" where
  "reap alive obeys s =
     s\<lparr>sc_child := False, sc_child_entry := None,
       sc_log := sc_log s
         @ (if sc_child s \<and> alive then (if obeys then [Terminate] else [Terminate, Kill]) else [])
         @ (case sc_child_entry s of
              None \<Rightarrow> [] | Some e \<Rightarrow> map Blank (e_clears (r_all (sc_rot s) ! e)))\<rparr>"

definition supervise ::
  "sched_args \<Rightarrow> bool \<Rightarrow> bool \<Rightarrow> bool \<Rightarrow> nat \<Rightarrow> rat \<Rightarrow> 'r sched \<Rightarrow> 'r sched" where
  "supervise args alive obeys starts e t s =
     (if sc_child_entry s \<noteq> Some e then
        let s1 = reap alive obeys s;
            s2 = s1\<lparr>sc_log := sc_log s1 @ [Blank (JInt (ar_layer args))], sc_child_entry := Some e\<rparr>
        in if starts then s2\<lparr>sc_child := True, sc_log := sc_log s2 @ [Spawn e]\<rparr>
           else skip_now t 0 (s2\<lparr>sc_log := sc_log s2 @ [SpawnFailed e]\<rparr>)
      else if sc_child s \<and> \<not> alive then
        let s1 = s\<lparr>sc_child := False\<rparr>
        in if e_wait (r_all (sc_rot s) ! e) then skip_now t 0 s1 else s1
      else s)"

section \<open>One frame\<close>

text \<open>
  \<open>_frame\<close> and the handler around it in \<open>run\<close>. The result is the frame to send, if any:
  none while a child owns the wall, and none when composing raises, which skips the segment.
\<close>

definition sched_frame ::
  "('r \<Rightarrow> rat \<Rightarrow> nat \<Rightarrow> 'f) \<Rightarrow> 'f blender \<Rightarrow> sched_args \<Rightarrow> bool \<Rightarrow> bool \<Rightarrow> bool \<Rightarrow> rat \<Rightarrow> 'r sched
     \<Rightarrow> 'f option \<times> 'r sched" where
  "sched_frame render bl args alive obeys starts t s =
     (case ft_compose render bl (ft_dur (sc_rot s)) (transition_for (sc_rot s)) t (sc_b s) (sc_show s) of
        (Inl _, b, sh) \<Rightarrow> (None, skip_now t 0 (s\<lparr>sc_b := b, sc_show := sh\<rparr>))
      | (Inr frame, b, sh) \<Rightarrow>
          let s1 = s\<lparr>sc_b := b, sc_show := sh\<rparr> in
          (case entry_at s1 (sh_index sh) of
             None \<Rightarrow> (Some frame, if sc_child s1 then reap alive obeys s1 else s1)
           | Some e \<Rightarrow>
               if e_kind (r_all (sc_rot s1) ! e) = ''exec''
               then (None, supervise args alive obeys starts e t s1)
               else (Some frame, if sc_child s1 then reap alive obeys s1 else s1)))"

text \<open>One pass of the loop up to the sending of the frame.\<close>

definition run_pass ::
  "(pyfloat \<Rightarrow> string) \<Rightarrow> (string \<Rightarrow> opt_spec list) \<Rightarrow> ('r \<Rightarrow> rat \<Rightarrow> nat \<Rightarrow> 'f) \<Rightarrow> 'f blender \<Rightarrow> sched_args
     \<Rightarrow> bool \<Rightarrow> bool \<Rightarrow> bool \<Rightarrow> rat \<Rightarrow> 'r sched \<Rightarrow> 'f option \<times> 'r sched" where
  "run_pass fr schemas render bl args alive obeys starts t s =
     (let s1 = drain fr schemas args t s;
          dt = 1 / of_int (frame_rate args s1);
          s2 = (if sh_paused (sc_show s1) then s1\<lparr>sc_show := show_hold dt (sc_show s1)\<rparr> else s1)
      in sched_frame render bl args alive obeys starts t s2)"

section \<open>The state file\<close>

text \<open>
  \<open>save_state\<close>: what is written, keys sorted. \<open>options\<close> is a dictionary by name, so of two
  entries of one name the later is kept.
\<close>

definition sort_keys :: "dict \<Rightarrow> dict" where
  "sort_keys d = sort_key fst d"

definition saved_options :: "rotation \<Rightarrow> dict" where
  "saved_options r =
     fold (\<lambda>e d. AList.update (e_name e) (JObj (sort_keys (e_options e))) d)
       (filter customised (r_all r)) []"

definition save_state :: "rotation \<Rightarrow> dict" where
  "save_state r =
     [(''disabled'', JArr (map (\<lambda>e. JStr (e_name e)) (filter (\<lambda>e. \<not> e_enabled e) (r_all r)))),
      (''options'', JObj (sort_keys (saved_options r)))]"

text \<open>
  \<open>load_state\<close>. \<open>None\<close> stands for a file that is absent or unreadable; the same early
  return is taken when the saved value is no object, its \<open>disabled\<close> cannot become a set, or
  its \<open>options\<close> is no object.
\<close>

fun hashable :: "json \<Rightarrow> bool" where
  "hashable (JArr _) = False"
| "hashable (JObj _) = False"
| "hashable _ = True"

definition off_names :: "json \<Rightarrow> json list option" where
  "off_names v =
     (case v of
        JArr xs \<Rightarrow> if \<forall>x \<in> set xs. hashable x then Some xs else None
      | JStr s \<Rightarrow> Some (map (\<lambda>c. JStr [c]) s)
      | JObj d \<Rightarrow> Some (map (\<lambda>p. JStr (fst p)) d)
      | _ \<Rightarrow> None)"

definition restore_entry ::
  "(pyfloat \<Rightarrow> string) \<Rightarrow> (string \<Rightarrow> opt_spec list) \<Rightarrow> json list \<Rightarrow> dict \<Rightarrow> entry \<Rightarrow> entry" where
  "restore_entry fr schemas off tweaks e =
     (let e1 = (if JStr (e_name e) \<in> set off then e\<lparr>e_enabled := False\<rparr> else e);
          want = dget_or tweaks (e_name e) JNull
      in if want = JNull \<or> e_kind e \<noteq> ''py'' then e1
         else case check fr (schemas (e_module e)) want of
                Inl _ \<Rightarrow> e1
              | Inr d \<Rightarrow> e1\<lparr>e_options := d\<rparr>)"

definition load_state ::
  "(pyfloat \<Rightarrow> string) \<Rightarrow> (string \<Rightarrow> opt_spec list) \<Rightarrow> json option \<Rightarrow> entry list \<Rightarrow> entry list" where
  "load_state fr schemas saved entries =
     (case saved of
        Some (JObj d) \<Rightarrow>
          (case (off_names (dget_or d ''disabled'' (JArr [])), dget_or d ''options'' JNull) of
             (Some off, opts) \<Rightarrow>
               if \<not> truthy opts then map (restore_entry fr schemas off []) entries
               else (case opts of
                       JObj tweaks \<Rightarrow> map (restore_entry fr schemas off tweaks) entries
                     | _ \<Rightarrow> entries)
           | _ \<Rightarrow> entries)
      | _ \<Rightarrow> entries)"

section \<open>Commands keep the show playable\<close>

text \<open>Something is live, the playhead stands on a built effect, a child has an entry.\<close>

definition sched_inv :: "'r sched \<Rightarrow> bool" where
  "sched_inv s \<longleftrightarrow> live (sc_rot s) \<noteq> [] \<and> show_inv (sc_b s) (sc_show s)
     \<and> (sc_child s \<longrightarrow> sc_child_entry s \<noteq> None)"

text \<open>What no command touches: the playhead, its build and its clock.\<close>

definition same_playhead :: "'r sched \<Rightarrow> 'r sched \<Rightarrow> bool" where
  "same_playhead s s' \<longleftrightarrow>
     sh_index (sc_show s') = sh_index (sc_show s)
     \<and> sh_clock (sc_show s') = sh_clock (sc_show s)
     \<and> (\<forall>i \<le> sh_index (sc_show s). b_ready (sc_b s') i = b_ready (sc_b s) i)
     \<and> sc_child s' = sc_child s \<and> sc_child_entry s' = sc_child_entry s"

lemma same_playhead_refl [simp]: "same_playhead s s"
  by (simp add: same_playhead_def)

lemma same_playhead_trans: "same_playhead s t \<Longrightarrow> same_playhead t u \<Longrightarrow> same_playhead s u"
  by (simp add: same_playhead_def)

text \<open>
  The steps commands are made of. \<open>tame s s'\<close>: the invariant carries over and the playhead
  is left alone.
\<close>

definition tame :: "'r sched \<Rightarrow> 'r sched \<Rightarrow> bool" where
  "tame s s' \<longleftrightarrow> (sched_inv s \<longrightarrow> sched_inv s') \<and> same_playhead s s'"

lemma tame_refl [simp]: "tame s s"
  by (simp add: tame_def)

lemma tame_trans: "tame s t \<Longrightarrow> tame t u \<Longrightarrow> tame s u"
  using same_playhead_trans by (auto simp: tame_def)

lemma tame_rebuild: "tame s (rebuild_ahead s)"
  by (auto simp: tame_def sched_inv_def same_playhead_def rebuild_ahead_def
      show_inv_def invalidate_from_def)

lemma tame_skip: "tame s (skip_now t gap s)"
  by (auto simp: tame_def sched_inv_def same_playhead_def skip_now_def show_inv_def show_skip_def)

lemma tame_rot: "(live (sc_rot s) \<noteq> [] \<Longrightarrow> live r \<noteq> []) \<Longrightarrow> tame s (s\<lparr>sc_rot := r\<rparr>)"
  by (auto simp: tame_def sched_inv_def same_playhead_def)

lemma tame_fields: "tame s (s\<lparr>sc_dirty := d\<rparr>)" "tame s (s\<lparr>sc_show := (sc_show s)\<lparr>sh_paused := p\<rparr>\<rparr>)"
  "tame s (s\<lparr>sc_commands := cs\<rparr>)"
  by (auto simp: tame_def sched_inv_def same_playhead_def show_inv_def)

lemma forget_fold [simp]:
  "b_ready (fold forget es b) = b_ready b" "b_want (fold forget es b) = b_want b"
  "b_lead (fold forget es b) = b_lead b"
  by (induction es arbitrary: b) (simp_all add: forget_def)

lemma tame_forget: "tame s (s\<lparr>sc_b := fold forget es (sc_b s)\<rparr>)"
  by (auto simp: tame_def sched_inv_def same_playhead_def show_inv_def)

lemma tame_jump: "tame s (jump_to args p t s)"
proof -
  obtain ok r where j: "jump p (int (sh_index (sc_show s)) + 1) (sc_rot s) = (ok, r)" by fastforce
  have "live r = live (sc_rot s)"
    using jump_live [of p "int (sh_index (sc_show s)) + 1" "sc_rot s"] by (simp add: j)
  then have "tame s (s\<lparr>sc_rot := r\<rparr>)" by (intro tame_rot) simp
  then have "tame s (skip_now t (ar_transition args) (rebuild_ahead (s\<lparr>sc_rot := r\<rparr>)))"
    by (blast intro: tame_trans tame_rebuild tame_skip)
  then show ?thesis by (cases ok) (simp_all add: jump_to_def j)
qed

lemma set_enabled_json_live:
  "set_enabled_json name on r = (ok, r') \<Longrightarrow> live r \<noteq> [] \<Longrightarrow> live r' \<noteq> []"
  using set_enabled_live by (auto simp: set_enabled_json_def split: json.splits) (metis snd_conv)

lemma set_all_keeps_live:
  "set_all on keep r = (ok, r') \<Longrightarrow> live r \<noteq> [] \<Longrightarrow> live r' \<noteq> []"
  using set_all_live [of r on keep] by (cases "r_all r = []") (auto simp: live_def)

text \<open>A command that edits the rotation, then rebuilds ahead and marks the state dirty.\<close>

lemma tame_edit:
  assumes "live (sc_rot s) \<noteq> [] \<Longrightarrow> live r \<noteq> []"
  shows "tame s ((rebuild_ahead (s\<lparr>sc_rot := r\<rparr>))\<lparr>sc_dirty := True\<rparr>)"
  using tame_rot [OF assms] tame_rebuild tame_fields(1) by (blast intro: tame_trans)

lemma tame_configure:
  assumes "sched_configure fr schemas args payload t s = Inr s'"
  shows "tame s s'"
proof -
  have edit: "tame s ((rebuild_ahead (s\<lparr>sc_rot := r, sc_b := fold forget hit (sc_b s)\<rparr>))\<lparr>sc_dirty := True\<rparr>)"
    if "rot_configure n opts (sc_rot s) = (hit, r)" for n opts hit r
  proof -
    have "live r = live (sc_rot s)" using rot_configure_live [of n opts "sc_rot s"] that by simp
    then have "tame s (s\<lparr>sc_rot := r\<rparr>)" by (intro tame_rot) simp
    moreover have "tame (s\<lparr>sc_rot := r\<rparr>) (s\<lparr>sc_rot := r, sc_b := fold forget hit (sc_b s)\<rparr>)"
      using tame_forget [of "s\<lparr>sc_rot := r\<rparr>" hit] by simp
    ultimately show ?thesis
      using tame_rebuild tame_fields(1) by (blast intro: tame_trans)
  qed
  show ?thesis
    using assms
    by (auto simp: sched_configure_def Let_def elim!: bindE_E
        split: option.split_asm prod.split_asm if_split_asm)
      (erule edit | erule tame_trans [OF edit tame_jump])+
qed

lemma tame_apply:
  assumes "sched_apply fr schemas args op payload t s = Inr s'"
  shows "tame s s'"
  using assms
  by (auto simp: sched_apply_def elim!: bindE_E
      intro: tame_fields tame_jump tame_configure tame_skip tame_trans [OF tame_rebuild tame_skip]
      split: if_split_asm prod.split_asm bool.split_asm sum.split_asm)
    (rule tame_edit, erule (1) set_enabled_json_live set_all_keeps_live)+

lemma tame_drain: "tame s (drain fr schemas args t s)"
proof -
  have "tame s (fold (apply_or_warn fr schemas args t) cmds s)" for cmds s
  proof (induction cmds arbitrary: s)
    case (Cons c cmds)
    have "tame s (apply_or_warn fr schemas args t c s)"
      by (auto simp: apply_or_warn_def intro: tame_apply split: sum.splits)
    with Cons show ?case by (simp add: tame_trans [where t = "apply_or_warn fr schemas args t c s"])
  qed simp
  then show ?thesis
    unfolding drain_def using tame_fields(3) tame_trans by blast
qed

section \<open>A frame always comes out\<close>

lemma sched_inv_reap: "sched_inv s \<Longrightarrow> sched_inv (reap alive obeys s)"
  by (simp add: sched_inv_def reap_def)

lemma sched_inv_skip: "sched_inv s \<Longrightarrow> sched_inv (skip_now t gap s)"
  using tame_skip by (auto simp: tame_def)

lemma sched_inv_hold: "sched_inv s \<Longrightarrow> sched_inv (s\<lparr>sc_show := show_hold dt (sc_show s)\<rparr>)"
  by (simp add: sched_inv_def show_inv_skip_hold)

lemma sched_inv_supervise: "sched_inv s \<Longrightarrow> sched_inv (supervise args alive obeys starts e t s)"
  by (auto simp: supervise_def Let_def reap_def sched_inv_def skip_now_def show_skip_def show_inv_def)

lemma supervise_frame [ft_frame]:
  "sc_rot (supervise args alive obeys starts e t s) = sc_rot s"
  "sh_index (sc_show (supervise args alive obeys starts e t s)) = sh_index (sc_show s)"
  by (auto simp: supervise_def Let_def reap_def skip_now_def show_skip_def)

lemma reap_frame [ft_frame]:
  "sc_rot (reap alive obeys s) = sc_rot s" "sc_show (reap alive obeys s) = sc_show s"
  by (simp_all add: reap_def)

text \<open>Whether the entry at the playhead is an external command.\<close>

definition on_exec :: "'r sched \<Rightarrow> bool" where
  "on_exec s \<longleftrightarrow>
     (\<exists>e. entry_at s (sh_index (sc_show s)) = Some e \<and> e_kind (r_all (sc_rot s) ! e) = ''exec'')"

lemma sched_frame_cases:
  assumes "sched_inv s"
  obtains frame b sh where
    "ft_compose render bl (ft_dur (sc_rot s)) (transition_for (sc_rot s)) t (sc_b s) (sc_show s) = (Inr frame, b, sh)"
    and "sched_inv (s\<lparr>sc_b := b, sc_show := sh\<rparr>)" and "sh_index (sc_show s) \<le> sh_index sh"
proof -
  obtain r b sh where c:
    "ft_compose render bl (ft_dur (sc_rot s)) (transition_for (sc_rot s)) t (sc_b s) (sc_show s) = (r, b, sh)"
    using prod_cases3 by blast
  have "show_inv (sc_b s) (sc_show s)" using assms by (simp add: sched_inv_def)
  then have "composed_ok bl (ft_dur (sc_rot s)) (transition_for (sc_rot s)) t (sc_show s) (r, b, sh)"
    unfolding c [symmetric] by (rule ft_compose_ok)
  then obtain frame where "r = Inr frame" "show_inv b sh" "sh_index (sc_show s) \<le> sh_index sh"
    by (auto simp: composed_ok_def split: sum.splits)
  then show thesis
    using c assms by (intro that) (auto simp: sched_inv_def)
qed

lemma sched_frame_ok:
  assumes "sched_inv s" and "sched_frame render bl args alive obeys starts t s = (out, s')"
  shows "sched_inv s' \<and> sh_index (sc_show s) \<le> sh_index (sc_show s') \<and> (out = None \<longleftrightarrow> on_exec s')"
proof -
  obtain frame b sh where c:
    "ft_compose render bl (ft_dur (sc_rot s)) (transition_for (sc_rot s)) t (sc_b s) (sc_show s) = (Inr frame, b, sh)"
    and inv: "sched_inv (s\<lparr>sc_b := b, sc_show := sh\<rparr>)" and mono: "sh_index (sc_show s) \<le> sh_index sh"
    using sched_frame_cases [OF assms(1)] by metis
  let ?s = "s\<lparr>sc_b := b, sc_show := sh\<rparr>"
  note parts = sched_frame_def c prod.case sum.case Let_def
  show ?thesis
  proof (cases "on_exec ?s")
    case True
    then obtain e where e: "entry_at ?s (sh_index sh) = Some e" "e_kind (r_all (sc_rot ?s) ! e) = ''exec''"
      by (auto simp: on_exec_def)
    then have "out = None" "s' = supervise args alive obeys starts e t ?s"
      using assms(2) by (simp_all add: parts)
    then show ?thesis
      using inv mono e by (auto simp: sched_inv_supervise on_exec_def ft_frame entry_at_def)
  next
    case False
    then have "out = Some frame" "s' = (if sc_child ?s then reap alive obeys ?s else ?s)"
      using assms(2) by (auto simp: parts on_exec_def split: option.split_asm if_split_asm)
    then show ?thesis
      using inv mono False by (auto simp: sched_inv_reap on_exec_def ft_frame entry_at_def)
  qed
qed

section \<open>The opening\<close>

lemma rot_at_first:
  assumes "r_offset r = 0"
  shows "rot_at r 0 = (case live r of [] \<Rightarrow> None | e # _ \<Rightarrow> Some e)"
  using assms by (auto simp: rot_at_def Let_def split: list.splits)

lemma live_disable:
  "live (update_entries (\<lambda>x. x\<lparr>e_enabled := False\<rparr>) [e] r) = filter (\<lambda>i. i \<noteq> e) (live r)"
  by (auto simp: live_def update_entries_nth intro!: filter_cong split: if_split_asm)

lemma filter_first_out: "distinct (x # xs) \<Longrightarrow> filter (\<lambda>i. i \<noteq> x) (x # xs) = xs"
  by (auto simp: filter_id_conv)

text \<open>The first live entry that builds is the opening; the live ones before it are switched off.\<close>

lemma build_opening_finds:
  assumes "r_offset r = 0" and "live r = ls @ e # rest" and "\<forall>i \<in> set ls. build i = None"
    and "build e = Some x" and "length ls < n"
  shows "\<exists>r'. build_opening build n r = Inr ((e, x), r') \<and> live r' = e # rest"
  using assms
proof (induction ls arbitrary: r n)
  case Nil
  then show ?case by (cases n) (auto simp: rot_at_first)
next
  case (Cons l ls)
  then obtain m where n: "n = Suc m" by (cases n) auto
  let ?r = "update_entries (\<lambda>x. x\<lparr>e_enabled := False\<rparr>) [l] r"
  have "distinct (l # ls @ e # rest)" using distinct_live [of r] Cons.prems(2) by simp
  then have "live ?r = ls @ e # rest"
    using filter_first_out [of l "ls @ e # rest"] Cons.prems(2) by (simp add: live_disable)
  then have "\<exists>r'. build_opening build m ?r = Inr ((e, x), r') \<and> live r' = e # rest"
    using Cons.IH [of ?r m] Cons.prems n by simp
  then show ?case
    using Cons.prems n by (simp add: rot_at_first)
qed

lemma build_opening_fails:
  assumes "r_offset r = 0" and "\<forall>i \<in> set (live r). build i = None" and "length (live r) \<le> n"
  shows "\<exists>e. build_opening build n r = Inl e"
  using assms
proof (induction n arbitrary: r)
  case 0
  then show ?case by simp
next
  case (Suc n)
  show ?case
  proof (cases "live r")
    case Nil
    then show ?thesis using Suc.prems by (simp add: rot_at_first)
  next
    case (Cons l ls)
    let ?r = "update_entries (\<lambda>x. x\<lparr>e_enabled := False\<rparr>) [l] r"
    have "live ?r = ls"
      using filter_first_out [of l ls] distinct_live [of r] Cons by (simp add: live_disable)
    then have "\<exists>e. build_opening build n ?r = Inl e"
      using Suc.IH [of ?r] Suc.prems Cons by simp
    then show ?thesis using Suc.prems Cons by (simp add: rot_at_first)
  qed
qed

lemma live_length: "length (live r) \<le> length (r_all r)"
  unfolding live_def by (rule order_trans [OF length_filter_le]) simp

section \<open>Rate\<close>

lemma trunc_le: "0 \<le> q \<Longrightarrow> of_int (trunc q) \<le> q"
  by (simp add: trunc_def)

section \<open>Properties\<close>


definition two_entries :: "entry list" where
  "two_entries =
     [Entry ''py'' ''plasma'' 30 0 [] 0 False [] True [] True None,
      Entry ''exec'' ''clock'' 20 0 [] 0 True [] True [JInt 6] False None]"

definition example_sched :: "(nat \<times> dict) sched" where
  "example_sched =
     \<lparr>sc_rot = Rotation two_entries, sc_b = b_start 0 (0, []) (new_builder 2),
      sc_show = ft_show 2 2,
      sc_commands = [(''all'', [(''on'', JBool False)]), (''toggle'', [(''name'', JStr ''plasma'')]),
                     (''toggle'', [(''name'', JStr ''plasma''), (''on'', JBool False)]), (''nonsense'', [])],
      sc_dirty = False, sc_child = False, sc_child_entry = None, sc_log = []\<rparr>"

lemma example_sched_inv: "sched_inv example_sched"
proof -
  have "live (sc_rot example_sched) = [0, 1]"
    by (simp add: live_def example_sched_def Rotation_def two_entries_def Entry_def upt_rec)
  moreover have "show_inv (sc_b example_sched) (sc_show example_sched)"
    unfolding example_sched_def by (simp add: show_inv_start)
  ultimately show ?thesis by (simp add: sched_inv_def example_sched_def)
qed

definition example_args :: sched_args where
  "example_args = \<lparr>ar_transition = 2, ar_fps = 20, ar_layer = 4\<rparr>"




text \<open>
  The opening is the first live entry that builds, every live entry before it having been
  switched off, within as many attempts as there are entries; only when none builds does the
  daemon give up.
\<close>

theorem opening_is_found:
  assumes "r_offset r = 0"
  shows "(\<forall>ls e rest x. live r = ls @ e # rest \<and> (\<forall>i \<in> set ls. build i = None) \<and> build e = Some x \<longrightarrow>
            (\<exists>r'. build_opening build (length (r_all r)) r = Inr ((e, x), r') \<and> live r' = e # rest))
       \<and> ((\<forall>i \<in> set (live r). build i = None) \<longrightarrow>
            (\<exists>err. build_opening build (length (r_all r)) r = Inl err))"
proof (intro conjI allI impI)
  fix ls e rest x
  assume a: "live r = ls @ e # rest \<and> (\<forall>i \<in> set ls. build i = None) \<and> build e = Some x"
  have "length ls < length (r_all r)" using live_length [of r] a by simp
  then show "\<exists>r'. build_opening build (length (r_all r)) r = Inr ((e, x), r') \<and> live r' = e # rest"
    using build_opening_finds [OF assms, of ls e rest build x] a by simp
next
  assume "\<forall>i \<in> set (live r). build i = None"
  then show "\<exists>err. build_opening build (length (r_all r)) r = Inl err"
    using build_opening_fails [OF assms _ live_length] by blast
qed

theorem opening_is_found_witness:
  "\<exists>r'. build_opening (\<lambda>i. if i = 1 then Some True else None)
      (length (r_all (Rotation two_entries))) (Rotation two_entries) = Inr ((1, True), r') \<and> live r' = [1]"
proof -
  have "live (Rotation two_entries) = [0] @ 1 # []"
    by (simp add: live_def Rotation_def two_entries_def Entry_def upt_rec)
  then have "\<exists>r'. build_opening (\<lambda>i. if i = 1 then Some True else None)
      (length (r_all (Rotation two_entries))) (Rotation two_entries) = Inr ((1, True), r') \<and> live r' = 1 # []"
    by (intro opening_is_found [THEN conjunct1, rule_format]) (auto simp: Rotation_def)
  then show ?thesis .
qed

text \<open>
  The frame rate is at least one, and in a transition between two effects whose cost is
  known the two together never take more than the headroom allows of a frame, unless that
  floor of one frame a second is reached.
\<close>

theorem rate_fits_the_pair:
  assumes "entry_at s (sh_index (sc_show s)) = Some c"
    and "entry_at s (Suc (sh_index (sc_show s))) = Some n"
    and "sh_in_transition (sc_show s)"
    and "0 < e_ms (r_all (sc_rot s) ! c)" and "0 < e_ms (r_all (sc_rot s) ! n)"
  shows "1 \<le> frame_rate args s
    \<and> (frame_rate args s = 1
       \<or> of_int (frame_rate args s) * (e_ms (r_all (sc_rot s) ! c) + e_ms (r_all (sc_rot s) ! n))
          \<le> TRANSITION_HEADROOM * 1000)"
proof -
  let ?ms = "e_ms (r_all (sc_rot s) ! c) + e_ms (r_all (sc_rot s) ! n)"
  let ?q = "TRANSITION_HEADROOM * 1000 / ?ms"
  have ms: "0 < ?ms" using assms(4,5) by simp
  have "of_int (trunc ?q) \<le> ?q" using ms by (intro trunc_le) (simp add: TRANSITION_HEADROOM_def)
  then have fits: "of_int k * ?ms \<le> TRANSITION_HEADROOM * 1000" if "k \<le> trunc ?q" for k
  proof -
    have "rat_of_int k \<le> ?q" using that \<open>of_int (trunc ?q) \<le> ?q\<close> by (meson of_int_le_iff order_trans)
    then show ?thesis using ms by (simp add: le_divide_eq)
  qed
  have "frame_rate args s \<le> max 1 (trunc ?q)"
    using assms by (simp add: frame_rate_def Let_def)
  then have "frame_rate args s \<le> 1 \<or> frame_rate args s \<le> trunc ?q" by linarith
  moreover have "1 \<le> frame_rate args s" by (simp add: frame_rate_def Let_def)
  ultimately show ?thesis using fits by force
qed

definition costly_pair :: "entry list" where
  "costly_pair =
     [Entry ''py'' ''grove'' 30 30 [] (388 / 10) False [] True [] True None,
      Entry ''py'' ''daliclock'' 30 30 [] 5 False [] True [] True None]"

theorem rate_fits_the_pair_witness:
  "frame_rate example_args (example_sched\<lparr>sc_rot := Rotation costly_pair,
      sc_show := (ft_show 2 2)\<lparr>sh_in_transition := True\<rparr>\<rparr>) = 18
   \<and> rat_of_int (frame_rate example_args (example_sched\<lparr>sc_rot := Rotation costly_pair,
      sc_show := (ft_show 2 2)\<lparr>sh_in_transition := True\<rparr>\<rparr>)) * (388 / 10 + 5) \<le> 800"
proof -
  let ?s = "example_sched\<lparr>sc_rot := Rotation costly_pair,
      sc_show := (ft_show 2 2)\<lparr>sh_in_transition := True\<rparr>\<rparr>"
  have "entry_at ?s 0 = Some 0" "entry_at ?s 1 = Some 1" and eighteen: "frame_rate example_args ?s = 18"
    by code_simp+
  then show ?thesis
    using rate_fits_the_pair [of ?s 0 1 example_args]
    by (simp add: ft_show_def mega_show_def new_show_def Rotation_def costly_pair_def Entry_def
        TRANSITION_HEADROOM_def)
qed

text \<open>
  Pacing never builds up a backlog: after a pass the loop wakes at the deadline or is at
  most one frame behind it, so that there is never more than one frame to make good.
\<close>

theorem pacing_never_catches_up:
  assumes "0 < dt" and "now \<le> now2" and "pace dt due now now2 = (due', sleep, late)"
  shows "0 \<le> sleep \<and> now + sleep - due' \<le> dt
    \<and> (\<not> late \<longrightarrow> now + sleep = due' \<and> due' = due + dt)
    \<and> (late \<longrightarrow> sleep = 0 \<and> due + dt \<le> now)"
  using assms by (auto simp: pace_def Let_def split: if_split_asm)

theorem pacing_never_catches_up_witness:
  "pace (1 / 20) 10 (1034 / 100) (1034 / 100) = (1034 / 100, 0, True)
   \<and> rat_of_int 1034 / 100 + 0 - 1034 / 100 \<le> 1 / 20"
proof -
  have p: "pace (1 / 20) 10 (1034 / 100) (1034 / 100) = (1034 / 100, 0, True)"
    by (simp add: pace_def)
  then show ?thesis using pacing_never_catches_up [OF _ _ p] by simp
qed


text \<open>The child has run and exited; the wall shows plasma, then comes back to the clock.\<close>

definition after_exit :: "(nat \<times> dict) sched" where
  "after_exit = example_sched\<lparr>sc_child_entry := Some 1, sc_log := [Blank (JInt 4), Spawn 1]\<rparr>"


end
