(* ===== verification/FT_StateFile.thy ===== *)
theory FT_StateFile
  imports FT_Scheduler "HOL-Library.Multiset"
begin

text \<open>
  What survives a restart of the scheduler: \<open>save_state\<close> followed by \<open>load_state\<close> over the
  entries of the rotation file, as \<open>main\<close> of \<open>src/demos/ftsched.py\<close> composes them.
\<close>

section \<open>Dictionaries through the file\<close>

lemma map_of_sort_keys: "distinct (map fst d) \<Longrightarrow> map_of (sort_keys d) = map_of d"
proof -
  assume d: "distinct (map fst d)"
  have "mset (map fst (sort_keys d)) = mset (map fst d)"
    by (simp only: sort_keys_def mset_map mset_sort)
  then have "distinct (map fst (sort_keys d))" using d mset_eq_imp_distinct_iff by blast
  then show ?thesis
    using d by (intro map_of_inject_set [THEN iffD2]) (simp_all add: sort_keys_def)
qed

lemma accepted_sort_keys [simp]: "accepted fr specs (sort_keys d) = accepted fr specs d"
  by (simp add: accepted_def sort_keys_def)

lemma update_fold_distinct:
  "distinct (map fst d) \<Longrightarrow> distinct (map fst (fold (\<lambda>e. AList.update (n e) (v e)) es d))"
  by (induction es arbitrary: d) (simp_all add: distinct_update)

lemma update_fold_lookup:
  "distinct (map n es) \<Longrightarrow>
     map_of (fold (\<lambda>e. AList.update (n e) (v e)) es d) k =
       (case find (\<lambda>e. n e = k) es of Some e \<Rightarrow> Some (v e) | None \<Rightarrow> map_of d k)"
proof (induction es arbitrary: d)
  case Nil
  then show ?case by simp
next
  case (Cons e es)
  have "find (\<lambda>e. n e = k) es = None" if "n e = k"
  proof -
    have "n e \<notin> n ` set es" using Cons.prems by simp
    then show ?thesis using that by (auto simp: find_None_iff) (metis imageI)
  qed
  then show ?case
    using Cons by (auto simp: update_conv' split: option.split)
qed

lemma saved_lookup:
  assumes "distinct (map e_name (r_all r))" and "e \<in> set (r_all r)"
  shows "dget (sort_keys (saved_options r)) (e_name e) =
    (if customised e then Some (JObj (sort_keys (e_options e))) else None)"
proof -
  let ?es = "filter customised (r_all r)"
  let ?f = "\<lambda>e. JObj (sort_keys (e_options e))"
  have names: "distinct (map e_name ?es)" using assms(1) by (rule distinct_map_filter)
  have same: "e' = e" if "e' \<in> set (r_all r)" "e_name e' = e_name e" for e'
    using assms that by (auto simp: distinct_map dest: inj_onD)
  have "distinct (map fst (saved_options r))"
    unfolding saved_options_def by (rule update_fold_distinct) simp
  then have "dget (sort_keys (saved_options r)) (e_name e)
      = (case find (\<lambda>e'. e_name e' = e_name e) ?es of Some e' \<Rightarrow> Some (?f e') | None \<Rightarrow> None)"
    by (simp add: map_of_sort_keys) (simp add: saved_options_def update_fold_lookup [OF names] split: option.split)
  also have "\<dots> = (if customised e then Some (?f e) else None)"
  proof (cases "find (\<lambda>e'. e_name e' = e_name e) ?es")
    case None
    then have "\<not> customised e" using assms(2) by (auto simp: find_None_iff)
    with None show ?thesis by simp
  next
    case (Some e')
    then have "e' \<in> set ?es" "e_name e' = e_name e"
      by (auto simp: find_Some_iff dest: nth_mem)
    then have "e' = e" "customised e" using same [of e'] by auto
    with Some show ?thesis by simp
  qed
  finally show ?thesis .
qed

section \<open>Restoring\<close>

text \<open>The entry of the rotation file that \<open>e\<close> was loaded from, switched on there.\<close>

definition as_filed :: "entry \<Rightarrow> entry" where
  "as_filed e = e\<lparr>e_options := e_base_options e, e_enabled := True\<rparr>"

text \<open>What \<open>configure\<close> guarantees of an entry somebody has edited.\<close>

definition edited_ok :: "(pyfloat \<Rightarrow> string) \<Rightarrow> (string \<Rightarrow> opt_spec list) \<Rightarrow> entry \<Rightarrow> bool" where
  "edited_ok fr schemas e \<longleftrightarrow> (customised e \<longrightarrow>
     e_kind e = ''py'' \<and> accepted fr (schemas (e_module e)) (e_options e) \<and> distinct (map fst (e_options e)))"

lemma load_saved:
  "load_state fr schemas (Some (JObj (save_state r))) entries =
     map (restore_entry fr schemas
            (map (\<lambda>e. JStr (e_name e)) (filter (\<lambda>e. \<not> e_enabled e) (r_all r)))
            (sort_keys (saved_options r))) entries"
  by (auto simp: load_state_def save_state_def dget_or_def off_names_def)

lemma restore_saved:
  assumes names: "distinct (map e_name (r_all r))" and e: "e \<in> set (r_all r)" and ok: "edited_ok fr schemas e"
  defines "g \<equiv> restore_entry fr schemas
            (map (\<lambda>e. JStr (e_name e)) (filter (\<lambda>e. \<not> e_enabled e) (r_all r)))
            (sort_keys (saved_options r)) (as_filed e)"
  shows "e_enabled g = e_enabled e \<and> dict_eq (e_options g) (e_options e)"
proof -
  have off: "JStr (e_name e) \<in> set (map (\<lambda>e. JStr (e_name e)) (filter (\<lambda>e. \<not> e_enabled e) (r_all r)))
      \<longleftrightarrow> \<not> e_enabled e"
    using names e by (auto simp: distinct_map dest: inj_onD)
  show ?thesis
  proof (cases "customised e")
    case True
    let ?d = "sort_keys (e_options e)"
    have c: "check fr (schemas (e_module e)) (JObj ?d) = Inr ?d"
      using ok True by (simp add: check_def check_items_fixed edited_ok_def)
    have "dict_eq ?d (e_options e)"
      using ok True by (intro dict_eqI) (simp add: map_of_sort_keys edited_ok_def)
    then show ?thesis
      using saved_lookup [OF names e] True ok c off
      by (simp add: g_def restore_entry_def as_filed_def dget_or_def edited_ok_def Let_def)
  next
    case False
    then have "dict_eq (e_base_options e) (e_options e)"
      by (simp add: customised_def dict_eq_sym)
    then show ?thesis
      using saved_lookup [OF names e] False off
      by (simp add: g_def restore_entry_def as_filed_def dget_or_def Let_def)
  qed
qed

section \<open>Properties\<close>


definition edited_pair :: "entry list" where
  "edited_pair =
     [(Entry ''py'' ''splitflap'' 30 0 [(''min_cols'', JInt 4)] 0 False [] True [] True None)
        \<lparr>e_options := [(''plasma'', JBool True), (''min_cols'', JInt 12)]\<rparr>,
      Entry ''py'' ''fire'' 20 0 [] 0 False [] False [] True None]"

lemma edited_pair_ok: "\<forall>e \<in> set edited_pair. edited_ok (\<lambda>_. []) (\<lambda>_. example_specs) e"
proof -
  have "accepted (\<lambda>_. []) example_specs [(''plasma'', JBool True), (''min_cols'', JInt 12)]"
    by (auto simp: accepted_def known_specs_def example_specs_def conforms_def)
  then show ?thesis
    by (simp add: edited_pair_def edited_ok_def Entry_def customised_def)
qed


text \<open>
  What the panel switched on does not survive: an entry that the rotation file lists as
  switched off is off again after every restart, whatever was saved, because only switched
  off names are written.
\<close>

theorem switched_on_is_lost:
  assumes "i < length entries" and "\<not> e_enabled (entries ! i)"
  shows "\<not> e_enabled (load_state fr schemas saved entries ! i)"
proof -
  have "\<not> e_enabled (restore_entry fr schemas off tweaks (entries ! i))" for off tweaks
    using assms(2) by (auto simp: restore_entry_def Let_def split: sum.split)
  then show ?thesis
    using assms by (auto simp: load_state_def split: option.split json.split)
qed

theorem switched_on_is_lost_witness:
  "\<not> e_enabled (load_state (\<lambda>_. []) (\<lambda>_. []) (Some (JObj (save_state (Rotation [edited_pair ! 0])))) edited_pair ! 1)"
  by (rule switched_on_is_lost) (simp_all add: edited_pair_def Entry_def)

text \<open>
  A state file that is older than the rotation file can keep the daemon from starting:
  when every entry the file lists was switched off before, loading leaves nothing live, and
  the opening ends in "rotation is empty" although the rotation file is in order.
\<close>

theorem stale_state_refuses_to_start:
  assumes "\<forall>e \<in> set entries. JStr (e_name e) \<in> set names" and "entries \<noteq> []"
    and "\<forall>x \<in> set names. hashable x"
  shows "build_opening build (length entries)
     (Rotation (load_state fr schemas (Some (JObj [(''disabled'', JArr names)])) entries)) = Inl RotationEmpty"
proof -
  let ?es = "load_state fr schemas (Some (JObj [(''disabled'', JArr names)])) entries"
  have es: "?es = map (restore_entry fr schemas names []) entries"
    using assms(3) by (simp add: load_state_def off_names_def dget_or_def)
  have "\<not> e_enabled (restore_entry fr schemas names [] e)" if "e \<in> set entries" for e
    using assms(1) that by (simp add: restore_entry_def dget_or_def)
  then have "live (Rotation ?es) = []"
    by (auto simp: es live_def Rotation_def filter_empty_conv)
  then have "rot_at (Rotation ?es) 0 = None" by (simp add: rot_at_def)
  then show ?thesis using assms(2) by (cases entries) simp_all
qed

theorem stale_state_refuses_to_start_witness:
  "build_opening (\<lambda>i. Some i) (length edited_pair)
     (Rotation (load_state (\<lambda>_. []) (\<lambda>_. []) (Some (JObj [(''disabled'', JArr [JStr ''fire'', JStr ''splitflap''])]))
        edited_pair)) = Inl RotationEmpty"
  by (rule stale_state_refuses_to_start) (auto simp: edited_pair_def Entry_def)

end
