(* ===== verification/FT_SchedWeb.thy ===== *)
theory FT_SchedWeb
  imports FT_Scheduler
begin

text \<open>
  The control server of the scheduler, \<open>src/demos/ftsched_web.py\<close>: the routes, the checks
  a command passes before it is queued, the name of a preview file, and the listen address.
  The body of a request is its parsed JSON (\<open>None\<close> when \<open>json.loads\<close> raises); texts of
  error messages are abstracted to their case.
\<close>

section \<open>Routes\<close>

text \<open>\<open>self.path.split("?", 1)[0]\<close>.\<close>

definition path_only :: "string \<Rightarrow> string" where
  "path_only p = takeWhile (\<lambda>c. c \<noteq> CHR ''?'') p"

text \<open>\<open>posixpath.normpath("/" + name)\<close> as its components, and \<open>basename\<close> of it.\<close>

definition norm_step :: "string \<Rightarrow> string list \<Rightarrow> string list" where
  "norm_step c comps =
     (if c = [] \<or> c = ''.'' then comps
      else if c = ''..'' then butlast comps
      else comps @ [c])"

definition norm_comps :: "string \<Rightarrow> string list" where
  "norm_comps name = fold norm_step (split_on (CHR ''/'') name) []"

definition norm_basename :: "string \<Rightarrow> string" where
  "norm_basename name = (let cs = norm_comps name in if cs = [] then [] else last cs)"

text \<open>\<open>os.path.splitext(name)[1]\<close> of a name without a slash.\<close>

definition ext_of :: "string \<Rightarrow> string" where
  "ext_of name =
     (let (h, dot, t) = rpartition_at (CHR ''.'') name
      in if dot \<and> (\<exists>c \<in> set h. c \<noteq> CHR ''.'') then CHR ''.'' # t else [])"

definition PREVIEW_TYPES :: "(string \<times> string) list" where
  "PREVIEW_TYPES = [(''.webp'', ''image/webp''), (''.gif'', ''image/gif'')]"

text \<open>The file \<open>_preview\<close> opens below the previews directory, with its content type.\<close>

definition preview_file :: "string \<Rightarrow> (string \<times> string) option" where
  "preview_file name =
     (let base = norm_basename name in
      case map_of PREVIEW_TYPES (lower (ext_of base)) of
        None \<Rightarrow> None
      | Some ctype \<Rightarrow> Some (base, ctype))"

datatype get_reply =
    GetPage
  | GetState
  | GetSchema
  | GetPreview string string
  | GetNotFound

definition do_GET :: "string \<Rightarrow> get_reply" where
  "do_GET p =
     (let path = path_only p in
      if path = ''/'' \<or> path = ''/index.html'' then GetPage
      else if path = ''/api/state'' then GetState
      else if path = ''/api/schema'' then GetSchema
      else if starts_with ''/previews/'' path then
        (case preview_file (drop 10 path) of
           None \<Rightarrow> GetNotFound
         | Some (name, ctype) \<Rightarrow> GetPreview name ctype)
      else GetNotFound)"

text \<open>\<open>schemas\<close> of the scheduler: the modules that have one, sorted, without duplicates.\<close>

definition schema_names :: "rotation \<Rightarrow> string list" where
  "schema_names r = sorted_list_of_set (set (map e_module (filter (\<lambda>e. e_kind e = ''py'') (r_all r))))"

section \<open>Commands\<close>

definition MAX_BODY :: int where "MAX_BODY = 4096"

definition OPS :: "(string \<times> string list) list" where
  "OPS = [(''jump'', [''index'']), (''toggle'', [''name'', ''on'']), (''all'', [''on'']),
     (''next'', []), (''pause'', []), (''resume'', []), (''restart'', []),
     (''configure'', [''name'', ''options''])]"

text \<open>\<open>int(headers.get("Content-Length") or 0)\<close>, 0 when it does not parse.\<close>

definition body_length :: "string option \<Rightarrow> int" where
  "body_length h =
     (case h of
        None \<Rightarrow> 0
      | Some s \<Rightarrow> if s = [] then 0 else (case int_of_str s of None \<Rightarrow> 0 | Some n \<Rightarrow> n))"

datatype post_error =
    NoSuchPath
  | BadLength
  | BadJson
  | UnknownOp
  | Missing "string list"
  | NothingConfigurable
  | BadOptions opt_error
  | QueueFull

text \<open>\<open>Raises\<close>: the handler itself fails and no reply is sent.\<close>

datatype post_reply = Accepted | Refused nat post_error | Raises

definition pop_op :: "json option \<Rightarrow> (json \<times> dict) option" where
  "pop_op body =
     (case body of
        Some (JObj d) \<Rightarrow>
          (case dget d ''op'' of None \<Rightarrow> None | Some op \<Rightarrow> Some (op, AList.delete ''op'' d))
      | _ \<Rightarrow> None)"

text \<open>The extra checks of \<open>configure\<close>, which replace the options by the validated ones.\<close>

definition post_configure ::
  "(pyfloat \<Rightarrow> string) \<Rightarrow> (string \<Rightarrow> opt_spec list) \<Rightarrow> rotation \<Rightarrow> dict \<Rightarrow> (nat \<times> post_error) + dict" where
  "post_configure fr schemas r payload =
     (case module_of (dget_or payload ''name'' JNull) r of
        None \<Rightarrow> Inl (404, NothingConfigurable)
      | Some mdl \<Rightarrow>
          bindE (if dget_or payload ''options'' JNull = JNull then Inr payload
                 else case check fr (schemas mdl) (dget_or payload ''options'' JNull) of
                        Inl e \<Rightarrow> Inl (400, BadOptions e)
                      | Inr d \<Rightarrow> Inr (AList.update ''options'' (JObj d) payload)) (\<lambda>payload.
            Inr (AList.update ''restart''
                   (JBool (truthy (dget_or payload ''restart'' JNull))) payload)))"

definition do_POST ::
  "(pyfloat \<Rightarrow> string) \<Rightarrow> (string \<Rightarrow> opt_spec list) \<Rightarrow> string \<Rightarrow> string option \<Rightarrow> json option \<Rightarrow> 'r sched
     \<Rightarrow> post_reply \<times> 'r sched" where
  "do_POST fr schemas p clen body s =
     (if path_only p \<noteq> ''/api/command'' then (Refused 404 NoSuchPath, s)
      else if \<not> (0 < body_length clen \<and> body_length clen \<le> MAX_BODY) then (Refused 400 BadLength, s)
      else case pop_op body of
        None \<Rightarrow> (Refused 400 BadJson, s)
      | Some (op, payload) \<Rightarrow>
          if \<not> hashable op then (Raises, s)
          else
          (case op of
             JStr name \<Rightarrow>
               (case map_of OPS name of
                  None \<Rightarrow> (Refused 400 UnknownOp, s)
                | Some needs \<Rightarrow>
                    let missing = filter (\<lambda>k. dget payload k = None) needs in
                    if missing \<noteq> [] then (Refused 400 (Missing missing), s)
                    else
                      (case (if name = ''configure''
                             then post_configure fr schemas (sc_rot s) payload else Inr payload) of
                         Inl (code, e) \<Rightarrow> (Refused code e, s)
                       | Inr payload' \<Rightarrow>
                           (case submit name payload' s of
                              (False, _) \<Rightarrow> (Refused 503 QueueFull, s)
                            | (True, s') \<Rightarrow> (Accepted, s'))))
           | _ \<Rightarrow> (Refused 400 UnknownOp, s)))"

section \<open>The listen address\<close>

definition lstrip_colons :: "string \<Rightarrow> string" where
  "lstrip_colons s = dropWhile (\<lambda>c. c = CHR '':'') s"

text \<open>\<open>None\<close>: \<open>int(port)\<close> raises.\<close>

definition parse_addr :: "string \<Rightarrow> int \<Rightarrow> (string \<times> int) option" where
  "parse_addr addr default_port =
     (let s = strip addr in
      if starts_with ''['' s then
        (let (host, _, rest) = partition_at (CHR '']'') (tl s); port = lstrip_colons rest
         in if port = [] then Some (host, default_port)
            else map_option (\<lambda>n. (host, n)) (int_of_str port))
      else
        (let (host, sep, port) = rpartition_at (CHR '':'') s
         in if \<not> sep then Some (s, default_port)
            else map_option (\<lambda>n. (if host = [] then ''0.0.0.0'' else host, n))
                   (if port = [] then Some default_port else int_of_str port)))"

section \<open>Facts about preview names\<close>

lemma split_on_no_sep: "x \<in> set (split_on c s) \<Longrightarrow> c \<notin> set x"
proof (induction "length s" arbitrary: s rule: less_induct)
  case less
  let ?h = "takeWhile (\<lambda>x. x \<noteq> c) s" and ?t = "dropWhile (\<lambda>x. x \<noteq> c) s"
  have h: "c \<notin> set ?h" by (auto dest: set_takeWhileD)
  show ?case
  proof (cases "?t = []")
    case True
    then show ?thesis using less.prems h
      by (simp add: split_on.simps [of c s] partition_at_def Let_def)
  next
    case False
    then have "x = ?h \<or> x \<in> set (split_on c (tl ?t))"
      using less.prems by (simp add: split_on.simps [of c s] partition_at_def Let_def)
    moreover have "length (tl ?t) < length s"
      using False length_dropWhile_le [of "\<lambda>x. x \<noteq> c" s] by (cases ?t) auto
    ultimately show ?thesis using less.hyps h by blast
  qed
qed

definition clean_comp :: "string \<Rightarrow> bool" where
  "clean_comp c \<longleftrightarrow> c \<noteq> [] \<and> c \<noteq> ''.'' \<and> c \<noteq> ''..'' \<and> CHR ''/'' \<notin> set c"

lemma norm_step_clean:
  "CHR ''/'' \<notin> set c \<Longrightarrow> list_all clean_comp acc \<Longrightarrow> list_all clean_comp (norm_step c acc)"
  by (auto simp: norm_step_def clean_comp_def list_all_iff dest: in_set_butlastD)

lemma norm_fold_clean:
  "list_all (\<lambda>c. CHR ''/'' \<notin> set c) cs \<Longrightarrow> list_all clean_comp acc \<Longrightarrow>
     list_all clean_comp (fold norm_step cs acc)"
  by (induction cs arbitrary: acc) (simp_all add: norm_step_clean)

lemma norm_comps_clean: "c \<in> set (norm_comps name) \<Longrightarrow> clean_comp c"
  using norm_fold_clean [of "split_on (CHR ''/'') name" "[]"] split_on_no_sep
  by (auto simp: norm_comps_def list_all_iff)

lemma ext_of_nil [simp]: "ext_of [] = []"
  by (simp add: ext_of_def rpartition_at_def partition_at_def)

section \<open>Facts about commands\<close>

lemma do_POST_accepted:
  assumes "do_POST fr schemas p clen body s = (Accepted, s')"
  obtains name needs payload payload' where "pop_op body = Some (JStr name, payload)"
    and "map_of OPS name = Some needs" and "\<forall>k \<in> set needs. dget payload k \<noteq> None"
    and "(if name = ''configure'' then post_configure fr schemas (sc_rot s) payload else Inr payload)
           = Inr payload'"
    and "submit name payload' s = (True, s')"
proof -
  obtain op payload where pop: "pop_op body = Some (op, payload)"
    using assms by (auto simp: do_POST_def split: if_split_asm option.split_asm)
  then obtain name where op: "op = JStr name"
    using assms by (auto simp: do_POST_def split: if_split_asm json.split_asm)
  obtain needs where needs: "map_of OPS name = Some needs"
    using assms pop op by (auto simp: do_POST_def split: if_split_asm option.split_asm)
  have all: "filter (\<lambda>k. dget payload k = None) needs = []"
    using assms pop op needs by (auto simp: do_POST_def Let_def split: if_split_asm)
  obtain payload' where p': "(if name = ''configure'' then post_configure fr schemas (sc_rot s) payload
      else Inr payload) = Inr payload'"
    using assms pop op needs all
    by (cases "if name = ''configure'' then post_configure fr schemas (sc_rot s) payload else Inr payload")
      (auto simp: do_POST_def Let_def split: if_split_asm prod.split_asm)
  have "submit name payload' s = (True, s')"
    using assms pop op needs all p'
    by (auto simp: do_POST_def Let_def split: if_split_asm prod.split_asm bool.split_asm)
  then show thesis
    using that pop op needs all p' by (simp add: filter_empty_conv)
qed

text \<open>
  The options a payload carries, if any, are validated ones of the module behind its name.
\<close>

definition options_checked ::
  "(pyfloat \<Rightarrow> string) \<Rightarrow> (string \<Rightarrow> opt_spec list) \<Rightarrow> rotation \<Rightarrow> dict \<Rightarrow> bool" where
  "options_checked fr schemas r payload \<longleftrightarrow>
     (\<exists>name options. dget payload ''name'' = Some name \<and> dget payload ''options'' = Some options
        \<and> (options = JNull \<or> (\<exists>mdl d. module_of name r = Some mdl \<and> options = JObj d
                                    \<and> check fr (schemas mdl) (JObj d) = Inr d)))"

lemma check_again: "check fr specs v = Inr d \<Longrightarrow> check fr specs (JObj d) = Inr d"
  using check_items_sound [of fr specs _ d]
  by (auto simp: check_def check_items_fixed split: json.splits)

lemma post_configure_ok:
  assumes "post_configure fr schemas r payload = Inr payload'"
    and "dget payload ''name'' = Some name" and "dget payload ''options'' = Some options"
  shows "options_checked fr schemas r payload'"
proof -
  obtain mdl where m: "module_of name r = Some mdl"
    using assms(1,2) by (auto simp: post_configure_def dget_or_def split: option.split_asm)
  show ?thesis
  proof (cases "options = JNull")
    case True
    then show ?thesis
      using assms m by (auto simp: post_configure_def dget_or_def options_checked_def update_conv')
  next
    case False
    then obtain d where "check fr (schemas mdl) options = Inr d"
      and "payload' = AList.update ''restart'' (JBool (truthy (dget_or (AList.update ''options'' (JObj d) payload) ''restart'' JNull)))
             (AList.update ''options'' (JObj d) payload)"
      using assms m
      by (auto simp: post_configure_def dget_or_def elim!: bindE_E split: sum.split_asm)
    then show ?thesis
      using assms(2) m check_again by (fastforce simp: options_checked_def update_conv')
  qed
qed

lemma configure_applies:
  assumes "options_checked fr schemas r payload" and "\<forall>n. module_of n (sc_rot s) = module_of n r"
  shows "\<exists>s'. sched_configure fr schemas args payload t s = Inr s'"
  using assms
  by (auto simp: options_checked_def sched_configure_def require_def Let_def
      split: option.split prod.split)

lemma OPS_applies:
  assumes "map_of OPS op = Some needs" and "\<forall>k \<in> set needs. dget payload k \<noteq> None"
    and "op \<noteq> ''jump''" and "op \<noteq> ''configure''"
  shows "\<exists>s'. sched_apply fr schemas args op payload t s = Inr s'"
proof -
  consider "op = ''toggle''" "needs = [''name'', ''on'']" | "op = ''all''" "needs = [''on'']"
    | "op \<in> {''next'', ''pause'', ''resume'', ''restart''}"
    using assms(1,3,4) by (simp add: OPS_def split: if_split_asm)
  then show ?thesis
  proof cases
    case 1
    then obtain name on where "dget payload ''name'' = Some name" "dget payload ''on'' = Some on"
      using assms(2) by auto
    then show ?thesis using 1(1) by (simp add: sched_apply_def require_def split: prod.split bool.split)
  next
    case 2
    then obtain on where "dget payload ''on'' = Some on" using assms(2) by auto
    then show ?thesis using 2(1) by (simp add: sched_apply_def require_def split: prod.split bool.split)
  next
    case 3
    then show ?thesis by (elim insertE emptyE) (simp_all add: sched_apply_def)
  qed
qed

section \<open>The listen address\<close>

lemma rpartition_last:
  assumes "c \<notin> set t"
  shows "rpartition_at c (h @ c # t) = (h, True, t)"
proof -
  have "takeWhile (\<lambda>x. x \<noteq> c) (rev t @ c # rev h) = rev t"
    and "dropWhile (\<lambda>x. x \<noteq> c) (rev t @ c # rev h) = c # rev h"
    using assms by (auto simp: takeWhile_append dropWhile_append)
  then show ?thesis by (simp add: rpartition_at_def partition_at_def)
qed

section \<open>Properties\<close>

text \<open>
  C28. What the API accepts, the render loop can do: a command answered with success stands
  last in the queue with every field it needs, and applying it later does not raise, whatever
  was applied in between (the entries' names and modules never change). Only a jump can
  still fail, since its index is not looked at before.
\<close>

theorem accepted_command_applies:
  assumes "do_POST fr schemas p clen body s = (Accepted, s')"
  shows "\<exists>op payload. sc_commands s' = sc_commands s @ [(op, payload)]
    \<and> (op \<noteq> ''jump'' \<longrightarrow> (\<forall>(s2 :: 'r sched) args t. (\<forall>n. module_of n (sc_rot s2) = module_of n (sc_rot s))
          \<longrightarrow> (\<exists>s3. sched_apply fr schemas args op payload t s2 = Inr s3)))"
proof -
  obtain name needs payload payload' where ops: "map_of OPS name = Some needs"
    and all: "\<forall>k \<in> set needs. dget payload k \<noteq> None"
    and cfg: "(if name = ''configure'' then post_configure fr schemas (sc_rot s) payload else Inr payload)
           = Inr payload'"
    and sub: "submit name payload' s = (True, s')"
    using assms by (rule do_POST_accepted) blast
  have q: "sc_commands s' = sc_commands s @ [(name, payload')]"
    using sub by (auto simp: submit_def split: if_split_asm)
  have applies: "\<exists>s3. sched_apply fr schemas args name payload' t s2 = Inr s3"
    if "name \<noteq> ''jump''" "\<forall>n. module_of n (sc_rot s2) = module_of n (sc_rot s)"
    for args t and s2 :: "'r sched"
  proof (cases "name = ''configure''")
    case True
    then have "needs = [''name'', ''options'']" using ops by (simp add: OPS_def)
    then obtain nm opts where "dget payload ''name'' = Some nm" "dget payload ''options'' = Some opts"
      using all by auto
    then have "options_checked fr schemas (sc_rot s) payload'"
      using cfg True post_configure_ok by simp
    from configure_applies [OF this that(2)] show ?thesis by (simp add: True sched_apply_def)
  next
    case False
    then show ?thesis using cfg OPS_applies [OF ops all that(1) False] by simp
  qed
  show ?thesis using q applies by blast
qed

definition post_body :: json where
  "post_body = JObj [(''op'', JStr ''configure''), (''name'', JStr ''splitflap''),
     (''options'', JObj [(''min_cols'', JStr ''12'')])]"

definition one_py :: "(nat \<times> dict) sched" where
  "one_py = \<lparr>sc_rot = Rotation [Entry ''py'' ''splitflap'' 30 0 [] 0 False [] True [] True None],
      sc_b = b_start 0 (0, []) (new_builder 2), sc_show = ft_show 1 2, sc_commands = [],
      sc_dirty = False, sc_child = False, sc_child_entry = None, sc_log = []\<rparr>"

lemma module_one_py: "module_of (JStr ''splitflap'') (sc_rot one_py) = Some ''splitflap''"
  by (simp add: module_of_def one_py_def Rotation_def Entry_def)

lemma post_example:
  "do_POST (\<lambda>_. []) (\<lambda>_. example_specs) ''/api/command?x'' (Some ''80'') (Some post_body) one_py
     = (Accepted, one_py\<lparr>sc_commands := [(''configure'',
          [(''name'', JStr ''splitflap''), (''options'', JObj [(''min_cols'', JInt 12)]),
           (''restart'', JBool False)])]\<rparr>)"
proof -
  have p: "path_only ''/api/command?x'' = ''/api/command''" and n: "body_length (Some ''80'') = 80"
    and pop: "pop_op (Some post_body) = Some (JStr ''configure'',
      [(''name'', JStr ''splitflap''), (''options'', JObj [(''min_cols'', JStr ''12'')])])"
    and c: "check (\<lambda>_. []) example_specs (JObj [(''min_cols'', JStr ''12'')]) = Inr [(''min_cols'', JInt 12)]"
    by code_simp+
  show ?thesis
    unfolding do_POST_def p n pop
    using c module_one_py
    by (simp add: MAX_BODY_def OPS_def post_configure_def dget_or_def submit_def MAX_QUEUE_def one_py_def)
qed

theorem accepted_command_applies_witness:
  "\<exists>s3. sched_apply (\<lambda>_. []) (\<lambda>_. example_specs) example_args ''configure''
      [(''name'', JStr ''splitflap''), (''options'', JObj [(''min_cols'', JInt 12)]),
       (''restart'', JBool False)] 5 one_py = Inr s3"
proof -
  have "sc_commands one_py = []" by (simp add: one_py_def)
  then show ?thesis using accepted_command_applies [OF post_example] by fastforce
qed

text \<open>
  C35. A preview request can only name a file directly inside the previews directory: whatever
  the path, the name opened has no slash, is not a dot or two, and ends in a preview type.
\<close>

theorem preview_stays_inside:
  assumes "do_GET p = GetPreview name ctype"
  shows "CHR ''/'' \<notin> set name \<and> name \<notin> {[], ''.'', ''..''}
    \<and> lower (ext_of name) \<in> {''.webp'', ''.gif''}"
proof -
  have "preview_file (drop 10 (path_only p)) = Some (name, ctype)"
    using assms by (auto simp: do_GET_def Let_def split: if_split_asm option.split_asm prod.split_asm)
  then have name: "name = norm_basename (drop 10 (path_only p))"
    and ext: "lower (ext_of name) \<in> {''.webp'', ''.gif''}"
    by (auto simp: preview_file_def Let_def PREVIEW_TYPES_def split: option.split_asm if_split_asm)
  have "name \<noteq> []" using ext by (auto simp: lower_def)
  then have "name \<in> set (norm_comps (drop 10 (path_only p)))"
    using name by (auto simp: norm_basename_def Let_def split: if_split_asm)
  then show ?thesis using norm_comps_clean ext by (auto simp: clean_comp_def)
qed

theorem preview_stays_inside_witness:
  "do_GET ''/previews/../../etc/x.webp?t=1'' = GetPreview ''x.webp'' ''image/webp''
   \<and> CHR ''/'' \<notin> set ''x.webp''"
proof -
  have "do_GET ''/previews/../../etc/x.webp?t=1'' = GetPreview ''x.webp'' ''image/webp''"
    by code_simp
  then show ?thesis using preview_stays_inside by blast
qed

text \<open>
  The command queue is bounded whatever the clients do: a POST never takes it past one
  more than its limit, and a refused one leaves the scheduler as it was.
\<close>

theorem post_keeps_queue_bounded:
  assumes "length (sc_commands s) \<le> Suc MAX_QUEUE" and "do_POST fr schemas p clen body s = (reply, s')"
  shows "length (sc_commands s') \<le> Suc MAX_QUEUE \<and> (reply \<noteq> Accepted \<longrightarrow> s' = s)"
  using assms
  by (auto simp: do_POST_def Let_def submit_def
      split: if_split_asm option.split_asm prod.split_asm json.split_asm sum.split_asm)

theorem post_keeps_queue_bounded_witness:
  "length (sc_commands (one_py\<lparr>sc_commands := [(''configure'',
          [(''name'', JStr ''splitflap''), (''options'', JObj [(''min_cols'', JInt 12)]),
           (''restart'', JBool False)])]\<rparr>)) \<le> Suc MAX_QUEUE"
  by (rule post_keeps_queue_bounded [OF _ post_example, THEN conjunct1]) (simp add: one_py_def)

text \<open>
  A request whose operation is an array or an object gets no answer at all: looking it up
  in the table of operations raises outside the handler's \<open>try\<close>.
\<close>

theorem unhashable_op_raises:
  assumes "path_only p = ''/api/command''" and "0 < body_length clen" and "body_length clen \<le> MAX_BODY"
    and "dget d ''op'' = Some (JArr xs)"
  shows "do_POST fr schemas p clen (Some (JObj d)) s = (Raises, s)"
  using assms by (simp add: do_POST_def pop_op_def)

theorem unhashable_op_raises_witness:
  "do_POST (\<lambda>_. []) (\<lambda>_. []) ''/api/command'' (Some ''9'') (Some (JObj [(''op'', JArr [])])) one_py
     = (Raises, one_py)"
  by (rule unhashable_op_raises [where xs = "[]"]) code_simp+

text \<open>
  A listen address of a host and a port is read back as those two, and so is one of a
  bracketed address; a host with no port takes the default.
\<close>

theorem parse_addr_reads_back:
  assumes "host \<noteq> []" and "\<not> is_ws (hd host)" and "hd host \<noteq> CHR ''[''"
  shows "parse_addr (host @ '':'' @ nat_str port) dflt = Some (host, int port)"
proof -
  let ?s = "host @ CHR '':'' # nat_str port"
  have "strip ?s = ?s"
    by (rule strip_none) (use assms nat_str_not [of "last (nat_str port)" port] in auto)
  moreover have "\<not> starts_with ''['' ?s"
    using assms(1,3) by (cases host) (auto simp: starts_with_def)
  moreover have "rpartition_at (CHR '':'') ?s = (host, True, nat_str port)"
    by (rule rpartition_last) (use nat_str_not in blast)
  ultimately show ?thesis
    using assms(1) by (simp add: parse_addr_def int_of_nat_str Let_def)
qed

theorem parse_addr_reads_back_witness:
  "parse_addr (''::1'' @ '':'' @ nat_str 80) 8081 = Some (''::1'', 80)"
  using parse_addr_reads_back [of "''::1''" 80 8081] by (simp add: is_ws_def)

end
