(* ===== verification/FT_Control.thy ===== *)
theory FT_Control
  imports FT_Json
begin

text \<open>
  The control daemon \<open>src/demos/ftctl.py\<close>: percent and Home Assistant brightness, the
  replies of the display server's control socket (\<open>Control\<close>), the remembered state
  (\<open>Desired\<close>), the cache and reconciler (\<open>Bridge\<close>), and the HTTP handler. The display
  server and the scheduler are parameters: what they answer is a function of how many
  commands they have been sent; the commands themselves are logged.
\<close>

section \<open>Brightness\<close>

definition HA_BRIGHTNESS_SCALE :: int where "HA_BRIGHTNESS_SCALE = 255"

definition pct_to_ha :: "int \<Rightarrow> int" where
  "pct_to_ha percent =
     max 1 (min HA_BRIGHTNESS_SCALE (py_round (of_int (percent * HA_BRIGHTNESS_SCALE) / 100)))"

definition ha_to_pct :: "int \<Rightarrow> int" where
  "ha_to_pct v = max 1 (min 100 (py_round (of_int v * 100 / of_int HA_BRIGHTNESS_SCALE)))"

section \<open>The control socket\<close>

text \<open>\<open>str.splitlines\<close> for ASCII text.\<close>

definition is_break :: "char \<Rightarrow> bool" where
  "is_break c \<longleftrightarrow> of_char c \<in> {10, 11, 12, 13, 28, 29, 30 :: nat}"

fun splitlines :: "string \<Rightarrow> string \<Rightarrow> string list" where
  "splitlines acc [] = (if acc = [] then [] else [rev acc])"
| "splitlines acc (c # cs) =
     (if is_break c
      then rev acc # splitlines [] (if of_char c = (13 :: nat) \<and> cs \<noteq> [] \<and> of_char (hd cs) = (10 :: nat)
                                    then tl cs else cs)
      else splitlines (c # acc) cs)"

definition row_entry :: "string \<Rightarrow> (string \<times> json) option" where
  "row_entry row =
     (if strip row = [] then None
      else let (key, _, v) = partition_at (CHR '' '') row
           in Some (key, case int_of_str v of Some n \<Rightarrow> JInt n | None \<Rightarrow> JStr v))"

text \<open>
  \<open>Control.get\<close> of a reply (\<open>None\<close>: the server is not there); \<open>None\<close> also for a reply
  without a brightness.
\<close>

definition control_get :: "string option \<Rightarrow> dict option" where
  "control_get reply =
     (case reply of
        None \<Rightarrow> None
      | Some text \<Rightarrow>
          let state = fold (\<lambda>row d. case row_entry row of None \<Rightarrow> d | Some (k, v) \<Rightarrow> AList.update k v d)
                        (splitlines [] text) []
          in case dget state ''brightness'' of
               None \<Rightarrow> None
             | Some b \<Rightarrow> Some
                 [(''brightness'', b),
                  (''blanked'', JBool (truthy (dget_or state ''blanked'' JNull))),
                  (''dimmer'', JBool (truthy (dget_or state ''dimmer'' JNull))),
                  (''width'', dget_or state ''width'' JNull),
                  (''height'', dget_or state ''height'' JNull),
                  (''generation'', dget_or state ''generation'' JNull)])"

text \<open>\<open>Control.command\<close>: the outcome of a round trip; \<open>Inl\<close> is the text of an \<open>OSError\<close>.\<close>

definition control_command :: "string + string \<Rightarrow> bool \<times> string" where
  "control_command reply =
     (case reply of
        Inl exc \<Rightarrow> (False, ''display server unreachable: '' @ exc)
      | Inr raw \<Rightarrow>
          let r = strip raw in
          if r = ''ok'' then (True, [])
          else (False, if starts_with ''err '' r then strip (drop 4 r) else r))"

section \<open>What is wanted\<close>

record desired =
  de_brightness :: "json"
  de_blanked :: bool

definition no_desire :: desired where
  "no_desire = \<lparr>de_brightness = JNull, de_blanked = False\<rparr>"

definition is_int :: "json \<Rightarrow> bool" where
  "is_int v = (case v of JInt _ \<Rightarrow> True | JBool _ \<Rightarrow> True | _ \<Rightarrow> False)"

text \<open>
  \<open>_load\<close>: \<open>None\<close> for a file that is absent or unreadable, \<open>Some\<close> its JSON. A value that is
  no object raises out of the constructor.
\<close>

definition desired_load :: "json option \<Rightarrow> py_error + desired" where
  "desired_load saved =
     (case saved of
        None \<Rightarrow> Inr no_desire
      | Some (JObj d) \<Rightarrow>
          Inr \<lparr>de_brightness = (if is_int (dget_or d ''brightness'' JNull)
                                then dget_or d ''brightness'' JNull else JNull),
               de_blanked = truthy (dget_or d ''blanked'' JNull)\<rparr>
      | Some _ \<Rightarrow> Inl AttributeError)"

definition desired_save :: "desired \<Rightarrow> json" where
  "desired_save d = JObj [(''brightness'', de_brightness d), (''blanked'', JBool (de_blanked d))]"

section \<open>The bridge\<close>

text \<open>
  \<open>br_socket\<close> and \<open>br_ops\<close> log what was sent to the display server and to the scheduler;
  \<open>br_file\<close> is the state file as last written (a path is configured and can be written).
\<close>

record bridge =
  br_display :: "dict option"
  br_sched :: "json option"
  br_generation :: json
  br_desired :: desired
  br_pause_when_off :: bool
  br_socket :: "string list"
  br_ops :: "(string \<times> dict) list"
  br_file :: "json option"

definition new_bridge :: "desired \<Rightarrow> bool \<Rightarrow> bridge" where
  "new_bridge d pause =
     \<lparr>br_display = None, br_sched = None, br_generation = JNull, br_desired = d,
      br_pause_when_off = pause, br_socket = [], br_ops = [], br_file = None\<rparr>"

definition bridge_send ::
  "(nat \<Rightarrow> string + string) \<Rightarrow> string \<Rightarrow> bridge \<Rightarrow> (bool \<times> string) \<times> bridge" where
  "bridge_send net line b =
     (control_command (net (length (br_socket b))), b\<lparr>br_socket := br_socket b @ [line]\<rparr>)"

definition patch :: "string \<Rightarrow> json \<Rightarrow> bridge \<Rightarrow> bridge" where
  "patch key v b = b\<lparr>br_display := map_option (AList.update key v) (br_display b)\<rparr>"

definition remember :: "desired \<Rightarrow> bridge \<Rightarrow> bridge" where
  "remember d b = b\<lparr>br_desired := d, br_file := Some (desired_save d)\<rparr>"

definition brightness_line :: "int \<Rightarrow> string" where
  "brightness_line n = ''brightness '' @ int_str n"

definition blank_line :: "bool \<Rightarrow> string" where
  "blank_line on = ''blank '' @ (if on then ''on'' else ''off'')"

definition set_brightness ::
  "(nat \<Rightarrow> string + string) \<Rightarrow> int \<Rightarrow> bridge \<Rightarrow> (bool \<times> string) \<times> bridge" where
  "set_brightness net percent b =
     (let p = max 1 (min 100 percent) in
      case bridge_send net (brightness_line p) b of
        ((False, err), b1) \<Rightarrow> ((False, err), b1)
      | ((True, err), b1) \<Rightarrow>
          ((True, err), patch ''brightness'' (JInt p)
                          (remember ((br_desired b1)\<lparr>de_brightness := JInt p\<rparr>) b1)))"

definition set_blanked ::
  "(nat \<Rightarrow> string + string) \<Rightarrow> bool \<Rightarrow> bridge \<Rightarrow> (bool \<times> string) \<times> bridge" where
  "set_blanked net blanked b =
     (case bridge_send net (blank_line blanked) b of
        ((False, err), b1) \<Rightarrow> ((False, err), b1)
      | ((True, _), b1) \<Rightarrow>
          let b2 = patch ''blanked'' (JBool blanked) (remember ((br_desired b1)\<lparr>de_blanked := blanked\<rparr>) b1)
          in ((True, []),
              if br_pause_when_off b2
              then b2\<lparr>br_ops := br_ops b2 @ [(if blanked then ''pause'' else ''resume'', [])]\<rparr> else b2))"

definition bridge_wipe :: "(nat \<Rightarrow> string + string) \<Rightarrow> bridge \<Rightarrow> (bool \<times> string) \<times> bridge" where
  "bridge_wipe net b = bridge_send net ''wipe'' b"

text \<open>\<open>"brightness %d" % v\<close> of the remembered value.\<close>

definition int_value :: "json \<Rightarrow> int" where
  "int_value v = (case v of JInt n \<Rightarrow> n | JBool t \<Rightarrow> (if t then 1 else 0) | _ \<Rightarrow> 0)"

definition reconcile :: "(nat \<Rightarrow> string + string) \<Rightarrow> dict \<Rightarrow> bridge \<Rightarrow> bridge" where
  "reconcile net display b =
     (let generation = dget_or display ''generation'' JNull;
          first_sight = (br_generation b = JNull)
      in if py_eq generation (br_generation b) then b
         else
           let b1 = b\<lparr>br_generation := generation\<rparr>;
               want = de_brightness (br_desired b1) in
           if first_sight \<and> want = JNull
           then b1\<lparr>br_desired := (br_desired b1)\<lparr>de_brightness := dget_or display ''brightness'' JNull\<rparr>\<rparr>
           else
             let b2 = (if want \<noteq> JNull \<and> \<not> py_eq (dget_or display ''brightness'' JNull) want
                       then snd (bridge_send net (brightness_line (int_value want)) b1) else b1)
             in if \<not> py_eq (JBool (de_blanked (br_desired b2))) (dget_or display ''blanked'' JNull)
                then snd (bridge_send net (blank_line (de_blanked (br_desired b2))) b2) else b2)"

text \<open>One turn of the refresh loop, listeners apart.\<close>

definition poll :: "(nat \<Rightarrow> string + string) \<Rightarrow> dict option \<Rightarrow> json option \<Rightarrow> bridge \<Rightarrow> bridge" where
  "poll net display sched b =
     (let b1 = b\<lparr>br_display := display, br_sched := sched\<rparr>
      in case display of None \<Rightarrow> b1 | Some d \<Rightarrow> reconcile net d b1)"

section \<open>HTTP\<close>

definition ctl_path :: "string \<Rightarrow> string" where
  "ctl_path p = takeWhile (\<lambda>c. c \<noteq> CHR ''?'') p"

datatype ctl_reply = Reply nat "string list" | Raised_in_handler py_error

text \<open>
  \<open>do_POST\<close>: status and problems. \<open>header\<close> is the value of \<open>Content-Length\<close>, \<open>body\<close> the
  parsed JSON (\<open>None\<close>: \<open>json.loads\<close> raised \<open>ValueError\<close>).
\<close>

definition content_length :: "string option \<Rightarrow> int" where
  "content_length header =
     (case header of
        None \<Rightarrow> 0
      | Some h \<Rightarrow> if h = [] then 0 else case int_of_str h of None \<Rightarrow> 0 | Some n \<Rightarrow> n)"

definition ctl_post_fields ::
  "(nat \<Rightarrow> string + string) \<Rightarrow> dict \<Rightarrow> bridge \<Rightarrow> py_error + (string list \<times> bridge)" where
  "ctl_post_fields net payload b =
     (case (case dget payload ''brightness'' of
              None \<Rightarrow> Inr ([], b)
            | Some v \<Rightarrow>
                (case py_int v of
                   Inl OverflowError \<Rightarrow> Inl OverflowError
                 | Inl _ \<Rightarrow> Inr ([''brightness must be a number''], b)
                 | Inr n \<Rightarrow> (case set_brightness net n b of
                              ((ok, err), b1) \<Rightarrow> Inr (if ok then [] else [err], b1)))) of
        Inl e \<Rightarrow> Inl e
      | Inr (p1, b1) \<Rightarrow>
          let (p2, b2) = (case dget payload ''blanked'' of
                            None \<Rightarrow> ([], b1)
                          | Some v \<Rightarrow> (case set_blanked net (truthy v) b1 of
                                       ((ok, err), b2) \<Rightarrow> (if ok then [] else [err], b2)));
              (p3, b3) = (if truthy (dget_or payload ''wipe'' JNull)
                          then (case bridge_wipe net b2 of ((ok, err), b3) \<Rightarrow> (if ok then [] else [err], b3))
                          else ([], b2));
              ps = p1 @ p2 @ p3
          in Inr (if ps = [] \<and> payload = [] then [''nothing to do''] else ps, b3))"

definition contains :: "string \<Rightarrow> string \<Rightarrow> bool" where
  "contains needle s \<longleftrightarrow> (\<exists>i \<in> set [0..<Suc (length s)]. starts_with needle (drop i s))"

definition ctl_do_POST ::
  "(nat \<Rightarrow> string + string) \<Rightarrow> string \<Rightarrow> string option \<Rightarrow> json option \<Rightarrow> bridge \<Rightarrow> ctl_reply \<times> bridge" where
  "ctl_do_POST net p header body b =
     (if ctl_path p \<notin> {''/api/display'', ''/api/display/''} then (Reply 404 [], b)
      else if \<not> (0 < content_length header \<and> content_length header \<le> 4096) then (Reply 400 [''bad body length''], b)
      else case body of
        None \<Rightarrow> (Reply 400 [''bad JSON''], b)
      | Some (JObj payload) \<Rightarrow>
          (case ctl_post_fields net payload b of
             Inl e \<Rightarrow> (Raised_in_handler e, b)
           | Inr (problems, b1) \<Rightarrow>
               (if problems = [] then Reply 200 []
                else Reply (if contains ''unreachable'' (hd problems) then 502 else 400) problems, b1))
      | Some _ \<Rightarrow> (Reply 400 [''expected an object''], b))"

datatype ctl_get = GotSnapshot | GotThumbnail | GotHealthy | GotNothing

definition ctl_do_GET :: "string \<Rightarrow> ctl_get" where
  "ctl_do_GET p =
     (let path = ctl_path p in
      if path = ''/api/display'' \<or> path = ''/api/display/'' then GotSnapshot
      else if path = ''/api/thumbnail.png'' then GotThumbnail
      else if path = ''/healthz'' then GotHealthy
      else GotNothing)"

text \<open>
  \<open>Server.thumbnail\<close>: the last picture by name, a failed conversion included. \<open>convert\<close> is
  the first frame of the preview as a PNG, \<open>None\<close> when anything goes wrong.
\<close>

definition thumbnail ::
  "(string \<Rightarrow> 'png option) \<Rightarrow> string \<Rightarrow> string option \<times> 'png option \<Rightarrow> 'png option \<times> string option \<times> 'png option" where
  "thumbnail convert name cache =
     (if Some name = fst cache then (snd cache, cache)
      else let png = convert name in (png, Some name, png))"

text \<open>This daemon's \<open>parse_addr\<close>; \<open>None\<close>: \<open>int(port)\<close> raises.\<close>

definition ctl_parse_addr :: "string \<Rightarrow> int \<Rightarrow> (string \<times> int) option" where
  "ctl_parse_addr addr default_port =
     (let s = strip addr in
      if starts_with ''['' s then
        (let (host, _, rest) = partition_at (CHR '']'') (tl s);
             port = dropWhile (\<lambda>c. c = CHR '':'') rest
         in if port = [] then Some (host, default_port)
            else map_option (\<lambda>n. (host, n)) (int_of_str port))
      else
        (let (host, sep, port) = rpartition_at (CHR '':'') s
         in if \<not> sep then Some (s, default_port)
            else map_option (\<lambda>n. (host, n)) (int_of_str port)))"

section \<open>Facts about brightness\<close>

lemma py_round_bounds:
  assumes "of_int lo \<le> q" and "q \<le> of_int hi"
  shows "lo \<le> py_round q" and "py_round q \<le> hi"
proof -
  have "lo \<le> \<lfloor>q\<rfloor>" using assms(1) by (simp add: le_floor_iff)
  then show "lo \<le> py_round q" using py_round_cases [of q] by linarith
  show "py_round q \<le> hi"
  proof (cases "q = of_int hi")
    case True
    then show ?thesis using py_round_unique [of hi q] by simp
  next
    case False
    then have "\<lfloor>q\<rfloor> < hi" using assms(2) by (simp add: floor_less_iff)
    then show ?thesis using py_round_cases [of q] by linarith
  qed
qed

lemma pct_to_ha_value:
  assumes "1 \<le> p" and "p \<le> 100"
  shows "pct_to_ha p = py_round (of_int (p * 255) / 100)"
proof -
  let ?q = "rat_of_int (p * 255) / 100"
  have "rat_of_int 1 \<le> ?q" "?q \<le> rat_of_int 255"
    using assms by (simp_all add: le_divide_eq divide_le_eq)
  then have "1 \<le> py_round ?q" "py_round ?q \<le> 255" by (rule py_round_bounds)+
  then show ?thesis by (simp add: pct_to_ha_def HA_BRIGHTNESS_SCALE_def)
qed

lemma ha_to_pct_value:
  assumes "1 \<le> py_round (of_int v * 100 / 255)" and "py_round (of_int v * 100 / 255) \<le> 100"
  shows "ha_to_pct v = py_round (of_int v * 100 / 255)"
  using assms by (simp add: ha_to_pct_def HA_BRIGHTNESS_SCALE_def)

text \<open>
  Percent survives a trip through Home Assistant: a percentage the wall reports becomes a
  Home Assistant brightness between 1 and 255, and converting that back gives the same
  percentage, so the slider does not drift.
\<close>
theorem brightness_survives_home_assistant:
  assumes "1 \<le> p" and "p \<le> 100"
  shows "ha_to_pct (pct_to_ha p) = p \<and> 1 \<le> pct_to_ha p \<and> pct_to_ha p \<le> 255"
proof -
  let ?q = "rat_of_int (p * 255) / 100" and ?v = "pct_to_ha p"
  have v: "?v = py_round ?q" using assms by (rule pct_to_ha_value)
  have "\<bar>rat_of_int ?v - ?q\<bar> \<le> 1 / 2" unfolding v by (rule py_round_near)
  then have "\<bar>rat_of_int p - rat_of_int ?v * 100 / 255\<bar> < 1 / 2"
    by (simp only: of_int_mult of_int_numeral)
  then have rd: "py_round (rat_of_int ?v * 100 / 255) = p" by (rule py_round_unique)
  then have "ha_to_pct ?v = p" using assms by (simp add: ha_to_pct_value)
  moreover have "1 \<le> ?v" "?v \<le> 255"
    by (simp_all add: pct_to_ha_def HA_BRIGHTNESS_SCALE_def)
  ultimately show ?thesis by blast
qed

theorem brightness_survives_home_assistant_witness:
  "ha_to_pct (pct_to_ha 37) = 37 \<and> 1 \<le> pct_to_ha 37 \<and> pct_to_ha 37 \<le> 255"
  by (rule brightness_survives_home_assistant) simp_all

section \<open>Facts about writes\<close>

lemma bridge_send_log [simp]:
  "snd (bridge_send net line b) = b\<lparr>br_socket := br_socket b @ [line]\<rparr>"
  by (simp add: bridge_send_def)

lemma desired_reads_back:
  "is_int (de_brightness d) \<or> de_brightness d = JNull \<Longrightarrow> desired_load (Some (desired_save d)) = Inr d"
  by (cases d) (auto simp: desired_load_def desired_save_def dget_or_def is_int_def)

text \<open>
  A write is honest and lasting. If the display server accepts a brightness, the clamped
  value is what was sent, what the cached display shows, and what a restarted daemon reads
  back from the file, with the remembered on/off unchanged; if it refuses, nothing but the
  command log changes and the refusal is reported.
\<close>
theorem brightness_write_is_honest:
  assumes "set_brightness net percent b = ((ok, err), b')"
  shows "br_socket b' = br_socket b @ [brightness_line (max 1 (min 100 percent))] \<and>
    (if ok then
       br_display b' = map_option (AList.update ''brightness'' (JInt (max 1 (min 100 percent)))) (br_display b) \<and>
       desired_load (br_file b') =
         Inr \<lparr>de_brightness = JInt (max 1 (min 100 percent)), de_blanked = de_blanked (br_desired b)\<rparr> \<and>
       br_ops b' = br_ops b
     else b' = b\<lparr>br_socket := br_socket b'\<rparr> \<and>
       (False, err) = control_command (net (length (br_socket b))))"
proof -
  let ?p = "max 1 (min 100 percent)"
  obtain o' e where c: "control_command (net (length (br_socket b))) = (o', e)" by (cases "control_command (net (length (br_socket b)))")
  have "desired_load (Some (desired_save ((br_desired b)\<lparr>de_brightness := JInt ?p\<rparr>))) =
      Inr ((br_desired b)\<lparr>de_brightness := JInt ?p\<rparr>)"
    by (rule desired_reads_back) (simp add: is_int_def)
  then show ?thesis
    using assms c
    by (cases o') (auto simp: set_brightness_def bridge_send_def Let_def patch_def remember_def)
qed



definition literal_server :: "string \<Rightarrow> int \<times> bool \<Rightarrow> int \<times> bool" where
  "literal_server l t =
     (if starts_with ''blank '' l then (fst t, l = ''blank on'')
      else case int_of_str (drop 11 l) of Some n \<Rightarrow> (n, snd t) | None \<Rightarrow> t)"

lemma literal_server_bright [simp]: "literal_server (brightness_line n) t = (n, snd t)"
  by (simp add: literal_server_def brightness_line_def starts_with_def)

lemma literal_server_dark [simp]: "literal_server (blank_line q) t = (fst t, q)"
  by (simp add: literal_server_def blank_line_def starts_with_def)


theorem brightness_write_is_honest_witness:
  "br_socket (snd (set_brightness (\<lambda>k. Inr ''ok'') 130 (new_bridge no_desire True))) = [brightness_line 100] \<and>
   desired_load (br_file (snd (set_brightness (\<lambda>k. Inr ''ok'') 130 (new_bridge no_desire True)))) =
     Inr \<lparr>de_brightness = JInt 100, de_blanked = False\<rparr>"
proof -
  let ?net = "\<lambda>k. Inr ''ok'' :: string + string" and ?b = "new_bridge no_desire True"
  have r: "set_brightness ?net 130 ?b = ((True, snd (fst (set_brightness ?net 130 ?b))), snd (set_brightness ?net 130 ?b))"
    by (simp add: set_brightness_def bridge_send_def control_command_def strip_def lstrip_def rstrip_def
        is_ws_def Let_def)
  show ?thesis
    using brightness_write_is_honest [OF r] by (simp add: new_bridge_def no_desire_def)
qed

text \<open>
  A handler of the control API raises out of its thread exactly when a well formed
  request carries an infinite brightness, which JSON as Python reads it can; every other body
  is answered.
\<close>
theorem post_raises_exactly_on_infinity:
  "(\<exists>e. fst (ctl_do_POST net p header body b) = Raised_in_handler e) \<longleftrightarrow>
     ctl_path p \<in> {''/api/display'', ''/api/display/''} \<and>
     0 < content_length header \<and> content_length header \<le> 4096 \<and>
     (\<exists>d f. body = Some (JObj d) \<and> dget d ''brightness'' = Some (JFloat f) \<and> f \<in> {Inf, NegInf})"
proof -
  have split_brightness: "(\<exists>e. ctl_post_fields net d b = Inl e) \<longleftrightarrow>
      (\<exists>v. dget d ''brightness'' = Some v \<and> py_int v = Inl OverflowError)" for d
  proof (cases "dget d ''brightness''")
    case None
    then show ?thesis by (simp add: ctl_post_fields_def Let_def split: prod.split)
  next
    case (Some v)
    show ?thesis
    proof (cases "py_int v")
      case (Inl e)
      then show ?thesis using Some
        by (cases e) (simp_all add: ctl_post_fields_def Let_def split: prod.split)
    next
      case (Inr n)
      then show ?thesis using Some
        by (simp add: ctl_post_fields_def Let_def split: prod.split)
    qed
  qed
  have over: "py_int v = Inl OverflowError \<longleftrightarrow> (\<exists>f. v = JFloat f \<and> f \<in> {Inf, NegInf})" for v
    by (cases v rule: py_int.cases) (auto split: option.splits)
  have fields: "(\<exists>e. ctl_post_fields net d b = Inl e) \<longleftrightarrow>
      (\<exists>f. dget d ''brightness'' = Some (JFloat f) \<and> f \<in> {Inf, NegInf})" for d
    unfolding split_brightness over by blast
  let ?ok = "ctl_path p \<in> {''/api/display'', ''/api/display/''} \<and>
     0 < content_length header \<and> content_length header \<le> 4096"
  have object: "(\<exists>e. fst (ctl_do_POST net p header (Some (JObj d)) b) = Raised_in_handler e) \<longleftrightarrow>
      ?ok \<and> (\<exists>e. ctl_post_fields net d b = Inl e)" for d
    by (cases "ctl_post_fields net d b") (simp_all add: ctl_do_POST_def split: prod.split)
  have other: "\<not> (\<exists>e. fst (ctl_do_POST net p header body b) = Raised_in_handler e)"
    if "\<nexists>d. body = Some (JObj d)"
    using that by (auto simp: ctl_do_POST_def split: option.split json.split)
  show ?thesis
  proof (cases "\<exists>d. body = Some (JObj d)")
    case True
    then obtain d where d: "body = Some (JObj d)" by blast
    show ?thesis unfolding d object fields by simp
  next
    case False
    then show ?thesis using other by blast
  qed
qed

end
