(* ===== verification/FT_Mqtt.thy ===== *)
theory FT_Mqtt
  imports FT_Control
begin

text \<open>
  Home Assistant over MQTT, \<open>src/demos/ftctl_mqtt.py\<close>: the discovery payloads, the state
  messages and when they are sent, and the commands that come back; with the checker of
  \<open>src/tools/ftmqttcheck.py\<close> that replays what Home Assistant does to a payload. The broker
  is the list of what was published; \<open>str(x)\<close> of a JSON value is a parameter.
\<close>

section \<open>The state of the bridge to the broker\<close>

datatype payload = Text string | Doc dict

type_synonym message = "string \<times> payload \<times> nat \<times> bool"

record mqtt_args =
  ma_prefix :: string
  ma_node :: string
  ma_discovery_prefix :: string
  ma_friendly_name :: string
  ma_public_url :: "string option"
  ma_heartbeat :: rat

record mqtt =
  mq_connected :: bool
  mq_last_key :: "json list option"
  mq_last_options :: "json list option"
  mq_last_avail :: "string option"
  mq_last_screen :: "string option"
  mq_last_publish :: rat
  mq_log :: "message list"
  mq_subscribed :: "string list"

definition MqttBridge :: mqtt where
  "MqttBridge =
     \<lparr>mq_connected = False, mq_last_key = None, mq_last_options = None, mq_last_avail = None,
      mq_last_screen = None, mq_last_publish = 0, mq_log = [], mq_subscribed = []\<rparr>"

text \<open>What \<open>Bridge.snapshot\<close> returns: the cached display and scheduler states.\<close>

type_synonym snapshot = "dict option \<times> json option"

definition rstrip_slashes :: "string \<Rightarrow> string" where
  "rstrip_slashes s = rev (dropWhile (\<lambda>c. c = CHR ''/'') (rev s))"

definition mq_topic :: "mqtt_args \<Rightarrow> string \<Rightarrow> string" where
  "mq_topic a name = rstrip_slashes (ma_prefix a) @ ''/'' @ name"

definition publish :: "string \<Rightarrow> payload \<Rightarrow> nat \<Rightarrow> bool \<Rightarrow> mqtt \<Rightarrow> mqtt" where
  "publish topic pl qos retain s = s\<lparr>mq_log := mq_log s @ [(topic, pl, qos, retain)]\<rparr>"

definition url_of :: "mqtt_args \<Rightarrow> string option" where
  "url_of a = (case ma_public_url a of None \<Rightarrow> None | Some u \<Rightarrow> if u = [] then None else Some u)"

section \<open>Reading the scheduler's state\<close>

text \<open>\<open>(v or {})\<close> where a \<open>get\<close> follows.\<close>

definition or_object :: "json \<Rightarrow> py_error + dict" where
  "or_object v =
     (if truthy v then (case v of JObj d \<Rightarrow> Inr d | _ \<Rightarrow> Inl AttributeError) else Inr [])"

definition sched_object :: "json option \<Rightarrow> py_error + dict" where
  "sched_object sched = (case sched of None \<Rightarrow> Inr [] | Some v \<Rightarrow> or_object v)"

text \<open>\<open>(v or [])\<close> as the sequence of a \<open>for\<close>.\<close>

definition or_sequence :: "json \<Rightarrow> py_error + json list" where
  "or_sequence v =
     (if \<not> truthy v then Inr []
      else case v of
        JArr xs \<Rightarrow> Inr xs
      | JStr s \<Rightarrow> Inr (map (\<lambda>c. JStr [c]) s)
      | JObj d \<Rightarrow> Inr (map (\<lambda>kv. JStr (fst kv)) d)
      | _ \<Rightarrow> Inl TypeError)"

definition rotation_of :: "json option \<Rightarrow> py_error + json list" where
  "rotation_of sched =
     bindE (sched_object sched) (\<lambda>d. or_sequence (dget_or d ''rotation'' JNull))"

fun option_names :: "json list \<Rightarrow> py_error + json list" where
  "option_names [] = Inr []"
| "option_names (JObj e # es) =
     bindE (option_names es) (\<lambda>names.
       Inr (if truthy (dget_or e ''enabled'' (JBool True)) \<and> truthy (dget_or e ''name'' JNull)
            then dget_or e ''name'' JNull # names else names))"
| "option_names (_ # es) = Inl AttributeError"

definition mq_options :: "json option \<Rightarrow> py_error + json list" where
  "mq_options sched = bindE (rotation_of sched) option_names"

fun find_named :: "string \<Rightarrow> json list \<Rightarrow> py_error + json option" where
  "find_named name [] = Inr None"
| "find_named name (JObj e # es) =
     (if py_eq (dget_or e ''name'' JNull) (JStr name)
      then Inr (Some (dget_or e ''position'' (dget_or e ''index'' JNull)))
      else find_named name es)"
| "find_named name (_ # es) = Inl AttributeError"

definition demo_index_of :: "json option \<Rightarrow> string \<Rightarrow> py_error + json option" where
  "demo_index_of sched name = bindE (rotation_of sched) (find_named name)"

section \<open>Discovery\<close>

definition RETIRED :: "(string \<times> string) list" where
  "RETIRED = [(''restart'', ''button''), (''wipe'', ''button'')]"

definition availability_of :: "string \<Rightarrow> json" where
  "availability_of topic =
     JObj [(''topic'', JStr topic), (''payload_available'', JStr ''online''),
           (''payload_not_available'', JStr ''offline'')]"

definition base_availability :: "mqtt_args \<Rightarrow> json list" where
  "base_availability a = [availability_of (mq_topic a ''status'')]"

definition sched_availability :: "mqtt_args \<Rightarrow> json list" where
  "sched_availability a = base_availability a @ [availability_of (mq_topic a ''sched/status'')]"

definition sched_driven :: "mqtt_args \<Rightarrow> dict \<Rightarrow> json" where
  "sched_driven a d =
     JObj (d @ [(''availability'', JArr (sched_availability a)), (''availability_mode'', JStr ''all'')])"

definition components :: "mqtt_args \<Rightarrow> json list \<Rightarrow> dict" where
  "components a options =
     [(''display'', JObj
        [(''p'', JStr ''light''), (''name'', JNull), (''unique_id'', JStr (ma_node a @ ''_display'')),
         (''default_entity_id'', JStr (''light.'' @ ma_node a)),
         (''command_topic'', JStr (mq_topic a ''set/power'')),
         (''payload_on'', JStr ''ON''), (''payload_off'', JStr ''OFF''),
         (''state_value_template'', JStr ''{{ 'ON' if value_json.on else 'OFF' }}''),
         (''brightness_command_topic'', JStr (mq_topic a ''set/brightness'')),
         (''brightness_state_topic'', JStr (mq_topic a ''state'')),
         (''brightness_value_template'', JStr ''{{ value_json.bri }}''),
         (''brightness_scale'', JInt 255), (''icon'', JStr ''mdi:wall''),
         (''availability'', JArr (base_availability a))]),
      (''playing'', sched_driven a
        [(''p'', JStr ''switch''), (''name'', JStr ''Playing''), (''unique_id'', JStr (ma_node a @ ''_playing'')),
         (''command_topic'', JStr (mq_topic a ''set/playing'')),
         (''value_template'', JStr ''{{ 'ON' if value_json.playing else 'OFF' }}''),
         (''icon'', JStr ''mdi:play-pause'')]),
      (''demo'', sched_driven a
        [(''p'', JStr ''select''), (''name'', JStr ''Demo''), (''unique_id'', JStr (ma_node a @ ''_demo'')),
         (''command_topic'', JStr (mq_topic a ''set/demo'')),
         (''value_template'', JStr ''{{ value_json.demo }}''),
         (''options'', JArr (if options = [] then [JStr ''none''] else options)),
         (''icon'', JStr ''mdi:animation-play'')]),
      (''next'', sched_driven a
        [(''p'', JStr ''button''), (''name'', JStr ''Next''), (''unique_id'', JStr (ma_node a @ ''_next'')),
         (''command_topic'', JStr (mq_topic a ''set/next'')), (''payload_press'', JStr ''PRESS''),
         (''icon'', JStr ''mdi:skip-next'')]),
      (''now_playing'', sched_driven a
        [(''p'', JStr ''sensor''), (''name'', JStr ''Now playing''), (''unique_id'', JStr (ma_node a @ ''_now'')),
         (''value_template'', JStr ''{{ value_json.demo }}''), (''icon'', JStr ''mdi:movie-open'')]),
      (''fps'', sched_driven a
        [(''p'', JStr ''sensor''), (''name'', JStr ''Frame rate''), (''unique_id'', JStr (ma_node a @ ''_fps'')),
         (''value_template'', JStr ''{{ value_json.fps }}''), (''unit_of_measurement'', JStr ''fps''),
         (''state_class'', JStr ''measurement''), (''entity_category'', JStr ''diagnostic'')])] @
     (case url_of a of
        None \<Rightarrow> []
      | Some _ \<Rightarrow>
          [(''screen'', sched_driven a
             [(''p'', JStr ''image''), (''name'', JStr ''Now playing''),
              (''unique_id'', JStr (ma_node a @ ''_screen'')), (''url_topic'', JStr (mq_topic a ''screen''))])])"

text \<open>\<open>"%d" % v\<close>.\<close>

definition format_d :: "json \<Rightarrow> py_error + string" where
  "format_d v =
     (case v of
        JStr _ \<Rightarrow> Inl TypeError
      | JNull \<Rightarrow> Inl TypeError
      | JArr _ \<Rightarrow> Inl TypeError
      | JObj _ \<Rightarrow> Inl TypeError
      | _ \<Rightarrow> bindE (py_int v) (\<lambda>n. Inr (int_str n)))"

definition model_name :: "dict option \<Rightarrow> py_error + string" where
  "model_name display =
     (case display of
        None \<Rightarrow> Inr ''HUB75 video wall''
      | Some d \<Rightarrow>
          if truthy (dget_or d ''width'' JNull) then
            (case dget d ''height'' of
               None \<Rightarrow> Inl KeyError
             | Some h \<Rightarrow>
                 bindE (format_d (dget_or d ''width'' JNull)) (\<lambda>sw.
                 bindE (format_d h) (\<lambda>sh. Inr (''HUB75 video wall, '' @ sw @ ''x'' @ sh))))
          else Inr ''HUB75 video wall'')"

definition device_of :: "mqtt_args \<Rightarrow> string \<Rightarrow> dict" where
  "device_of a mdl =
     [(''ids'', JStr (ma_node a)), (''name'', JStr (ma_friendly_name a)),
      (''mf'', JStr ''FlaschenTaschen''), (''mdl'', JStr mdl)] @
     (case url_of a of None \<Rightarrow> [] | Some u \<Rightarrow> [(''cu'', JStr u)])"

definition discovery_doc :: "mqtt_args \<Rightarrow> string \<Rightarrow> dict \<Rightarrow> dict" where
  "discovery_doc a mdl cmps =
     [(''dev'', JObj (device_of a mdl)),
      (''o'', JObj [(''name'', JStr ''ftctl''), (''url'', JStr ''https://github.com/FlaschenTaschen/ft-cpp'')]),
      (''state_topic'', JStr (mq_topic a ''state'')), (''qos'', JInt 1), (''cmps'', JObj cmps)]"

definition discovery_topic :: "mqtt_args \<Rightarrow> string" where
  "discovery_topic a = rstrip_slashes (ma_discovery_prefix a) @ ''/device/'' @ ma_node a @ ''/config''"

definition tombstones :: "dict \<Rightarrow> dict" where
  "tombstones cmps = fold (\<lambda>(name, platform) d. AList.update name (JObj [(''p'', JStr platform)]) d) RETIRED cmps"

definition publish_discovery :: "mqtt_args \<Rightarrow> snapshot \<Rightarrow> mqtt \<Rightarrow> py_error + mqtt" where
  "publish_discovery a snap s =
     bindE (model_name (fst snap)) (\<lambda>mdl.
     bindE (mq_options (snd snap)) (\<lambda>options.
       let cmps = components a options;
           s1 = (if RETIRED = [] then s
                 else publish (discovery_topic a) (Doc (discovery_doc a mdl (tombstones cmps))) 1 True s)
       in Inr (publish (discovery_topic a) (Doc (discovery_doc a mdl cmps)) 1 True s1)))"

section \<open>The checker\<close>

definition SHARED_OPTIONS :: "string list" where
  "SHARED_OPTIONS =
     [''availability'', ''availability_mode'', ''availability_template'', ''availability_topic'',
      ''command_topic'', ''encoding'', ''payload_available'', ''payload_not_available'',
      ''state_topic'', ''qos'']"

definition merge_shared :: "dict \<Rightarrow> dict \<Rightarrow> dict" where
  "merge_shared shared cmp =
     fold (\<lambda>opt m. case dget shared opt of
                     Some v \<Rightarrow> if dget m opt = None then AList.update opt v m else m
                   | None \<Rightarrow> m)
       SHARED_OPTIONS cmp"

text \<open>
  The verdict on one component. The topics are only printed, but reading them can raise:
  \<open>for entry in availability\<close> needs a sequence of objects.
\<close>

fun entry_topics :: "json list \<Rightarrow> py_error + json list" where
  "entry_topics [] = Inr []"
| "entry_topics (JObj e # es) = bindE (entry_topics es) (\<lambda>ts. Inr (dget_or e ''topic'' JNull # ts))"
| "entry_topics (_ # es) = Inl AttributeError"

definition topics_printable :: "json list \<Rightarrow> bool" where
  "topics_printable ts = (\<forall>t \<in> set ts. \<not> truthy t \<or> (case t of JStr _ \<Rightarrow> True | _ \<Rightarrow> False))"

definition check_component :: "dict \<Rightarrow> json \<Rightarrow> py_error + bool" where
  "check_component shared cmp =
     (case cmp of
        JObj c \<Rightarrow>
          let merged = merge_shared shared c;
              both = dget merged ''availability'' \<noteq> None \<and> dget merged ''availability_topic'' \<noteq> None
          in bindE (case dget merged ''availability'' of
                      Some (JArr es) \<Rightarrow> entry_topics es
                    | Some _ \<Rightarrow> Inl TypeError
                    | None \<Rightarrow> Inr [dget_or merged ''availability_topic'' JNull])
               (\<lambda>topics. if topics_printable topics then Inr both else Inl AttributeError)
      | _ \<Rightarrow> Inl TypeError)"

fun count_rejected :: "dict \<Rightarrow> (string \<times> json) list \<Rightarrow> py_error + nat" where
  "count_rejected shared [] = Inr 0"
| "count_rejected shared ((name, cmp) # rest) =
     bindE (check_component shared cmp) (\<lambda>both.
     bindE (count_rejected shared rest) (\<lambda>n. Inr (if both then Suc n else n)))"

definition or_else :: "json \<Rightarrow> json \<Rightarrow> json" where
  "or_else v w = (if truthy v then v else w)"

text \<open>
  \<open>check_config\<close> of a parsed object. The components are visited in the order of their names;
  the count does not depend on it, but which error comes first does.
\<close>

definition check_config :: "dict \<Rightarrow> py_error + nat" where
  "check_config doc =
     (case or_else (dget_or doc ''cmps'' JNull) (dget_or doc ''components'' JNull) of
        JObj cmps \<Rightarrow>
          if cmps = [] then count_rejected [] [(''(itself)'', JObj doc)]
          else count_rejected doc (map (\<lambda>k. (k, dget_or cmps k JNull)) (sort (remdups (map fst cmps))))
      | v \<Rightarrow> if truthy v then Inl TypeError else count_rejected [] [(''(itself)'', JObj doc)])"

section \<open>State messages\<close>

definition SIGNIFICANT :: "string list" where
  "SIGNIFICANT = [''on'', ''bri'', ''dimmer'', ''playing'', ''demo'']"

text \<open>\<open>int(round(fps))\<close>.\<close>

definition round_json :: "json \<Rightarrow> py_error + json" where
  "round_json v =
     (case v of
        JFloat (Fin q) \<Rightarrow> Inr (JInt (py_round q))
      | JFloat NaN \<Rightarrow> Inl ValueError
      | JFloat _ \<Rightarrow> Inl OverflowError
      | JInt n \<Rightarrow> Inr (JInt n)
      | JBool b \<Rightarrow> Inr (JInt (if b then 1 else 0))
      | _ \<Rightarrow> Inl TypeError)"

definition display_field :: "dict \<Rightarrow> string \<Rightarrow> py_error + json" where
  "display_field d k = (case dget d k of None \<Rightarrow> Inl KeyError | Some v \<Rightarrow> Inr v)"

definition bri_of :: "dict option \<Rightarrow> py_error + int" where
  "bri_of display =
     (case display of
        None \<Rightarrow> Inr 0
      | Some [] \<Rightarrow> Inr 0
      | Some d \<Rightarrow> bindE (display_field d ''brightness'')
                     (\<lambda>v. if is_int v then Inr (pct_to_ha (int_value v)) else Inl TypeError))"

definition state_doc :: "snapshot \<Rightarrow> py_error + dict" where
  "state_doc snap =
     (let (display, sched) = snap in
      bindE (sched_object sched) (\<lambda>sd.
      bindE (or_object (dget_or sd ''now'' JNull)) (\<lambda>now.
      bindE (or_object (dget_or sd ''health'' JNull)) (\<lambda>health.
      bindE (case display of None \<Rightarrow> Inr False
             | Some d \<Rightarrow> bindE (display_field d ''blanked'') (\<lambda>v. Inr (\<not> truthy v))) (\<lambda>on.
      bindE (bri_of display) (\<lambda>bri.
      bindE (case display of None \<Rightarrow> Inr False | Some [] \<Rightarrow> Inr False
             | Some d \<Rightarrow> bindE (display_field d ''dimmer'') (\<lambda>v. Inr (truthy v))) (\<lambda>dimmer.
      bindE (case dget_or health ''actual_fps'' JNull of JNull \<Rightarrow> Inr JNull | v \<Rightarrow> round_json v) (\<lambda>fps.
        Inr [(''on'', JBool on), (''bri'', JInt bri), (''dimmer'', JBool dimmer),
             (''playing'', JBool (sd \<noteq> [] \<and> \<not> truthy (dget_or sd ''paused'' JNull))),
             (''demo'', dget_or now ''name'' JNull), (''fps'', fps)]))))))))"

definition key_of :: "dict \<Rightarrow> json list" where
  "key_of doc = map (\<lambda>k. dget_or doc k JNull) SIGNIFICANT"

definition same_key :: "json list option \<Rightarrow> json list \<Rightarrow> bool" where
  "same_key prev key = (case prev of None \<Rightarrow> False | Some k \<Rightarrow> list_all2 py_eq key k)"

definition screen_url :: "(json \<Rightarrow> string) \<Rightarrow> string \<Rightarrow> json \<Rightarrow> string" where
  "screen_url str base demo = rstrip_slashes base @ ''/api/thumbnail.png?demo='' @ str demo"

text \<open>
  The part of \<open>publish_state\<close> before the key is compared: a changed list of demos republishes
  the device.
\<close>

definition announce_options :: "mqtt_args \<Rightarrow> snapshot \<Rightarrow> mqtt \<Rightarrow> py_error option \<times> mqtt" where
  "announce_options a snap s =
     (case mq_options (snd snap) of
        Inl e \<Rightarrow> (Some e, s)
      | Inr options \<Rightarrow>
          if options \<noteq> [] \<and> \<not> same_key (mq_last_options s) options
          then (let s1 = s\<lparr>mq_last_options := Some options\<rparr> in
                case publish_discovery a snap s1 of
                  Inl e \<Rightarrow> (Some e, s1)
                | Inr s2 \<Rightarrow> (None, s2))
          else (None, s))"

definition publish_avail :: "mqtt_args \<Rightarrow> bool \<Rightarrow> json option \<Rightarrow> mqtt \<Rightarrow> mqtt" where
  "publish_avail a due sched s =
     (let avail = (if (case sched of None \<Rightarrow> False | Some v \<Rightarrow> truthy v) then ''online'' else ''offline'')
      in if Some avail \<noteq> mq_last_avail s \<or> due
         then publish (mq_topic a ''sched/status'') (Text avail) 1 True (s\<lparr>mq_last_avail := Some avail\<rparr>)
         else s)"

definition publish_screen :: "mqtt_args \<Rightarrow> (json \<Rightarrow> string) \<Rightarrow> bool \<Rightarrow> json \<Rightarrow> mqtt \<Rightarrow> mqtt" where
  "publish_screen a str due demo s =
     (case url_of a of
        None \<Rightarrow> s
      | Some base \<Rightarrow>
          if truthy demo then
            (let url = screen_url str base demo
             in if Some url \<noteq> mq_last_screen s \<or> due
                then publish (mq_topic a ''screen'') (Text url) 0 False (s\<lparr>mq_last_screen := Some url\<rparr>)
                else s)
          else s)"

text \<open>
  \<open>publish_state\<close> at time \<open>t\<close> (its two readings of the clock are one). An exception leaves
  what was already sent and recorded; the callers report it.
\<close>

definition publish_state ::
  "(json \<Rightarrow> string) \<Rightarrow> mqtt_args \<Rightarrow> rat \<Rightarrow> snapshot \<Rightarrow> mqtt \<Rightarrow> (py_error option) \<times> mqtt" where
  "publish_state str a t snap s =
     (if \<not> mq_connected s then (None, s)
      else case announce_options a snap s of
        (Some e, s1) \<Rightarrow> (Some e, s1)
      | (None, s1) \<Rightarrow>
          (case state_doc snap of
             Inl e \<Rightarrow> (Some e, s1)
           | Inr doc \<Rightarrow>
               let key = key_of doc; due = (ma_heartbeat a \<le> t - mq_last_publish s1) in
               if same_key (mq_last_key s1) key \<and> \<not> due then (None, s1)
               else
                 let s2 = publish (mq_topic a ''state'') (Doc doc) 0 True
                            (s1\<lparr>mq_last_key := Some key, mq_last_publish := t\<rparr>);
                     s3 = publish_avail a due (snd snap) s2
                 in (None, publish_screen a str due (dget_or doc ''demo'' JNull) s3)))"

section \<open>The connection\<close>

text \<open>\<open>_on_connect\<close> with result code \<open>rc\<close>; what is written to standard error is left out.\<close>

definition on_connect ::
  "(json \<Rightarrow> string) \<Rightarrow> mqtt_args \<Rightarrow> rat \<Rightarrow> snapshot \<Rightarrow> int \<Rightarrow> mqtt \<Rightarrow> (py_error option) \<times> mqtt" where
  "on_connect str a t snap rc s =
     (if rc \<noteq> 0 then (None, s)
      else
        let s1 = publish (mq_topic a ''status'') (Text ''online'') 1 True (s\<lparr>mq_connected := True\<rparr>)
        in case publish_discovery a snap s1 of
             Inl e \<Rightarrow> (Some e, s1)
           | Inr s2 \<Rightarrow>
               publish_state str a t snap
                 (s2\<lparr>mq_subscribed := mq_subscribed s2 @
                      map (\<lambda>n. mq_topic a (''set/'' @ n)) [''power'', ''brightness'', ''playing'', ''demo'', ''next''],
                     mq_last_key := None, mq_last_avail := None, mq_last_screen := None\<rparr>))"

definition on_disconnect :: "mqtt \<Rightarrow> mqtt" where
  "on_disconnect s = s\<lparr>mq_connected := False\<rparr>"

definition mqtt_stop :: "mqtt_args \<Rightarrow> mqtt \<Rightarrow> mqtt" where
  "mqtt_stop a s = publish (mq_topic a ''status'') (Text ''offline'') 1 True s"

section \<open>Commands from Home Assistant\<close>

definition says_on :: "string \<Rightarrow> bool" where
  "says_on pl \<longleftrightarrow> upper pl \<in> {''ON'', ''TRUE'', ''1''}"

definition sched_command :: "string \<Rightarrow> dict \<Rightarrow> bridge \<Rightarrow> bridge" where
  "sched_command opn kw b = b\<lparr>br_ops := br_ops b @ [(opn, kw)]\<rparr>"

definition handle ::
  "(nat \<Rightarrow> string + string) \<Rightarrow> string \<Rightarrow> string \<Rightarrow> bridge \<Rightarrow> py_error + bridge" where
  "handle net topic pl b =
     (if topic = ''power'' then Inr (snd (set_blanked net (\<not> says_on pl) b))
      else if topic = ''brightness'' then
        bindE (py_float (JStr pl)) (\<lambda>f.
        bindE (py_int (JFloat f)) (\<lambda>v.
          Inr (snd (set_brightness net (ha_to_pct v) b))))
      else if topic = ''playing'' then
        Inr (sched_command (if says_on pl then ''resume'' else ''pause'') [] b)
      else if topic = ''demo'' then
        bindE (demo_index_of (br_sched b) pl) (\<lambda>index.
          case index of
            None \<Rightarrow> Inr b
          | Some JNull \<Rightarrow> Inr b
          | Some i \<Rightarrow> Inr (sched_command ''jump'' [(''index'', i)] b))
      else if topic = ''next'' then Inr (sched_command ''next'' [] b)
      else Inr b)"

definition last_level :: "string \<Rightarrow> string" where
  "last_level topic = rev (takeWhile (\<lambda>c. c \<noteq> CHR ''/'') (rev topic))"

text \<open>
  \<open>_on_message\<close>: an exception of the command is reported and nothing is published; otherwise
  the new state is, at time \<open>t\<close>.
\<close>

definition on_message ::
  "(json \<Rightarrow> string) \<Rightarrow> mqtt_args \<Rightarrow> (nat \<Rightarrow> string + string) \<Rightarrow> rat \<Rightarrow> string \<Rightarrow> string \<Rightarrow>
   bridge \<Rightarrow> mqtt \<Rightarrow> bridge \<times> (py_error option) \<times> mqtt" where
  "on_message str a net t topic raw b s =
     (case handle net (last_level topic) (strip raw) b of
        Inl e \<Rightarrow> (b, None, s)
      | Inr b1 \<Rightarrow> (b1, publish_state str a t (br_display b1, br_sched b1) s))"

section \<open>Home Assistant accepts what is published\<close>

definition component_of :: "dict \<Rightarrow> string \<Rightarrow> json option" where
  "component_of doc name = (case dget doc ''cmps'' of Some (JObj c) \<Rightarrow> dget c name | _ \<Rightarrow> None)"

lemma discovery_lookup:
  "dget (discovery_doc a mdl cmps) ''cmps'' = Some (JObj cmps)"
  "dget (discovery_doc a mdl cmps) ''availability'' = None"
  "dget (discovery_doc a mdl cmps) ''availability_mode'' = None"
  "dget (discovery_doc a mdl cmps) ''availability_template'' = None"
  "dget (discovery_doc a mdl cmps) ''availability_topic'' = None"
  "dget (discovery_doc a mdl cmps) ''command_topic'' = None"
  "dget (discovery_doc a mdl cmps) ''encoding'' = None"
  "dget (discovery_doc a mdl cmps) ''payload_available'' = None"
  "dget (discovery_doc a mdl cmps) ''payload_not_available'' = None"
  by (simp_all add: discovery_doc_def)

text \<open>The shared part of a discovery payload says nothing about availability.\<close>

lemma merged_availability:
  "dget (merge_shared (discovery_doc a mdl cmps) c) ''availability'' = dget c ''availability''"
  "dget (merge_shared (discovery_doc a mdl cmps) c) ''availability_topic'' = dget c ''availability_topic''"
  by (simp_all add: merge_shared_def SHARED_OPTIONS_def discovery_lookup update_conv split: option.split)

lemma available_accepted:
  assumes "dget c ''availability'' = Some (JArr es)" and "dget c ''availability_topic'' = None"
    and "es \<in> {base_availability a', sched_availability a'}"
  shows "check_component (discovery_doc a mdl cmps) (JObj c) = Inr False"
  using assms
  by (auto simp: check_component_def merged_availability Let_def sched_availability_def
      base_availability_def availability_of_def topics_printable_def dget_or_def)

lemma sched_driven_accepted:
  "dget d ''availability'' = None \<Longrightarrow> dget d ''availability_topic'' = None \<Longrightarrow>
   check_component (discovery_doc a mdl cmps) (sched_driven a' d) = Inr False"
  unfolding sched_driven_def
  by (rule available_accepted [where a' = a' and es = "sched_availability a'"]) (simp_all add: map_add_def)

lemma component_accepted:
  assumes "(name, c) \<in> set (components a' options)"
  shows "check_component (discovery_doc a mdl cmps) c = Inr False"
  using assms
  by (auto simp: components_def split: option.splits
      intro!: sched_driven_accepted available_accepted [where a' = a' and es = "base_availability a'"])

lemma tombstone_accepted:
  "check_component (discovery_doc a mdl cmps) (JObj [(''p'', JStr platform)]) = Inr False"
  by (simp add: check_component_def merged_availability Let_def topics_printable_def)
    (simp add: merge_shared_def SHARED_OPTIONS_def discovery_lookup update_conv dget_or_def split: option.split)

lemma count_rejected_none:
  "\<forall>(name, c) \<in> set cs. check_component shared c = Inr False \<Longrightarrow> count_rejected shared cs = Inr 0"
  by (induction cs) auto

lemma check_config_accepts:
  assumes "cmps \<noteq> []"
    and "\<And>name c. dget cmps name = Some c \<Longrightarrow> check_component (discovery_doc a mdl cmps) c = Inr False"
  shows "check_config (discovery_doc a mdl cmps) = Inr 0"
proof -
  have "check_component (discovery_doc a mdl cmps) (dget_or cmps k JNull) = Inr False"
    if "k \<in> set (map fst cmps)" for k
    using assms(2) that by (cases "dget cmps k") (auto simp: dget_or_def map_of_eq_None_iff)
  then have "count_rejected (discovery_doc a mdl cmps)
      (map (\<lambda>k. (k, dget_or cmps k JNull)) (sort (remdups (map fst cmps)))) = Inr 0"
    by (intro count_rejected_none) auto
  moreover have "or_else (dget_or (discovery_doc a mdl cmps) ''cmps'' JNull)
      (dget_or (discovery_doc a mdl cmps) ''components'' JNull) = JObj cmps"
    using assms(1) by (simp add: or_else_def dget_or_def discovery_lookup)
  ultimately show ?thesis using assms(1) by (simp add: check_config_def)
qed

lemma tombstones_lookup:
  "dget (tombstones cmps) =
     (dget cmps)(''restart'' \<mapsto> JObj [(''p'', JStr ''button'')], ''wipe'' \<mapsto> JObj [(''p'', JStr ''button'')])"
  by (rule ext) (simp add: tombstones_def RETIRED_def update_conv)

lemma publish_discovery_log:
  assumes "publish_discovery a snap s = Inr s'"
  shows "\<exists>mdl options. s' = publish (discovery_topic a) (Doc (discovery_doc a mdl (components a options))) 1 True
      (publish (discovery_topic a) (Doc (discovery_doc a mdl (tombstones (components a options)))) 1 True s)"
  using assms by (auto simp: publish_discovery_def Let_def RETIRED_def elim!: bindE_E)

text \<open>
  C19. Home Assistant accepts every payload the bridge publishes. A successful discovery
  publishes two retained payloads on the device topic; the checker that replays Home
  Assistant's merge rejects no component of either, whatever the rotation, the display and
  the settings are. The first carries every retired entity as its bare platform, the second
  leaves those out, and otherwise the two describe the same components.
\<close>
theorem discovery_is_accepted:
  assumes "publish_discovery a snap s = Inr s'"
  shows "\<exists>d1 d2. mq_log s' = mq_log s @ [(discovery_topic a, Doc d1, 1, True), (discovery_topic a, Doc d2, 1, True)] \<and>
    check_config d1 = Inr 0 \<and> check_config d2 = Inr 0 \<and>
    (\<forall>(name, platform) \<in> set RETIRED.
       component_of d1 name = Some (JObj [(''p'', JStr platform)]) \<and> component_of d2 name = None) \<and>
    (\<forall>name. name \<notin> fst ` set RETIRED \<longrightarrow> component_of d1 name = component_of d2 name)"
proof -
  obtain mdl options where s': "s' = publish (discovery_topic a) (Doc (discovery_doc a mdl (components a options))) 1 True
      (publish (discovery_topic a) (Doc (discovery_doc a mdl (tombstones (components a options)))) 1 True s)"
    using publish_discovery_log [OF assms] by blast
  let ?cs = "components a options"
  have "?cs \<noteq> []" by (simp add: components_def)
  then have "check_config (discovery_doc a mdl ?cs) = Inr 0"
    by (rule check_config_accepts) (rule component_accepted, erule map_of_SomeD)
  moreover have "check_config (discovery_doc a mdl (tombstones ?cs)) = Inr 0"
  proof (rule check_config_accepts)
    show "tombstones ?cs \<noteq> []"
      using tombstones_lookup [of ?cs] by (metis fun_upd_same map_of.simps(1) option.distinct(1))
    fix name c assume "dget (tombstones ?cs) name = Some c"
    then have "c = JObj [(''p'', JStr ''button'')] \<or> dget ?cs name = Some c"
      by (auto simp: tombstones_lookup split: if_splits)
    then show "check_component (discovery_doc a mdl (tombstones ?cs)) c = Inr False"
      using tombstone_accepted component_accepted map_of_SomeD by metis
  qed
  moreover have "dget ?cs ''restart'' = None" "dget ?cs ''wipe'' = None"
    by (simp_all add: components_def split: option.split)
  ultimately show ?thesis
    unfolding s' by (simp add: publish_def component_of_def discovery_lookup tombstones_lookup RETIRED_def)
qed

definition verdicts :: "py_error + mqtt \<Rightarrow> (string \<times> (py_error + nat)) list" where
  "verdicts r =
     (case r of
        Inl _ \<Rightarrow> []
      | Inr s \<Rightarrow> map (\<lambda>(topic, pl, _, _). (topic, case pl of Doc d \<Rightarrow> check_config d | Text _ \<Rightarrow> Inl TypeError)) (mq_log s))"

theorem discovery_is_accepted_witness:
  "verdicts (publish_discovery
     \<lparr>ma_prefix = ''ft/b/'', ma_node = ''b'', ma_discovery_prefix = ''ha'', ma_friendly_name = ''B'',
      ma_public_url = Some ''http://b/'', ma_heartbeat = 60\<rparr>
     (None, Some (JObj [(''rotation'', JArr [JObj [(''name'', JStr ''fire'')]])])) MqttBridge)
   = [(''ha/device/b/config'', Inr 0), (''ha/device/b/config'', Inr 0)]"
proof -
  define a where "a = \<lparr>ma_prefix = ''ft/b/'', ma_node = ''b'', ma_discovery_prefix = ''ha'', ma_friendly_name = ''B'',
    ma_public_url = Some ''http://b/'', ma_heartbeat = 60\<rparr>"
  let ?snap = "(None, Some (JObj [(''rotation'', JArr [JObj [(''name'', JStr ''fire'')]])])) :: snapshot"
  obtain s' where s': "publish_discovery a ?snap MqttBridge = Inr s'"
    by (simp add: publish_discovery_def model_name_def mq_options_def rotation_of_def sched_object_def
        or_object_def or_sequence_def dget_or_def Let_def)
  have "discovery_topic a = ''ha/device/b/config''" by (simp add: discovery_topic_def rstrip_slashes_def a_def)
  then show ?thesis
    using discovery_is_accepted [OF s'] s' unfolding a_def [symmetric]
    by (auto simp: MqttBridge_def verdicts_def)
qed

section \<open>What the broker holds\<close>

text \<open>The state messages among what was published, oldest first.\<close>

definition state_docs :: "mqtt_args \<Rightarrow> message list \<Rightarrow> dict list" where
  "state_docs a msgs =
     concat (map (\<lambda>(topic, pl, _, _). case pl of
       Doc d \<Rightarrow> if topic = mq_topic a ''state'' then [d] else [] | Text _ \<Rightarrow> []) msgs)"

lemma state_docs_append [simp]: "state_docs a (l @ m) = state_docs a l @ state_docs a m"
  by (simp add: state_docs_def)

lemma state_docs_Nil [simp]: "state_docs a [] = []"
  by (simp add: state_docs_def)

lemma discovery_topic_not_state: "discovery_topic a \<noteq> mq_topic a ''state''"
proof
  assume "discovery_topic a = mq_topic a ''state''"
  then have "last (discovery_topic a) = last (mq_topic a ''state'')" by simp
  then show False by (simp add: discovery_topic_def mq_topic_def)
qed

lemma publish_discovery_keeps:
  "publish_discovery a snap s = Inr s' \<Longrightarrow>
   state_docs a (mq_log s') = state_docs a (mq_log s) \<and> mq_connected s' = mq_connected s \<and>
   mq_last_key s' = mq_last_key s \<and> mq_last_publish s' = mq_last_publish s"
  using discovery_topic_not_state [of a]
  by (auto dest!: publish_discovery_log simp: publish_def state_docs_def)

lemma announce_options_keeps:
  "announce_options a snap s = (e, s') \<Longrightarrow>
   state_docs a (mq_log s') = state_docs a (mq_log s) \<and> mq_connected s' = mq_connected s \<and>
   mq_last_key s' = mq_last_key s \<and> mq_last_publish s' = mq_last_publish s"
  by (auto simp: announce_options_def Let_def split: sum.splits if_splits dest!: publish_discovery_keeps)

lemma publish_avail_keeps [simp]:
  "state_docs a (mq_log (publish_avail a due sched s)) = state_docs a (mq_log s)"
  "mq_connected (publish_avail a due sched s) = mq_connected s"
  "mq_last_key (publish_avail a due sched s) = mq_last_key s"
  "mq_last_publish (publish_avail a due sched s) = mq_last_publish s"
  by (simp_all add: publish_avail_def Let_def publish_def state_docs_def)

lemma publish_screen_keeps [simp]:
  "state_docs a (mq_log (publish_screen a str due demo s)) = state_docs a (mq_log s)"
  "mq_connected (publish_screen a str due demo s) = mq_connected s"
  "mq_last_key (publish_screen a str due demo s) = mq_last_key s"
  "mq_last_publish (publish_screen a str due demo s) = mq_last_publish s"
  by (simp_all add: publish_screen_def Let_def publish_def state_docs_def split: option.split)

text \<open>One call, seen through the state messages.\<close>

lemma publish_state_effect:
  assumes "publish_state str a t snap s = (e, s')" and "mq_connected s"
  shows "mq_connected s' \<and>
    (case state_doc snap of
       Inl _ \<Rightarrow> e \<noteq> None
     | Inr doc \<Rightarrow> e = None \<longrightarrow> (same_key (mq_last_key s) (key_of doc) \<and> t - mq_last_publish s < ma_heartbeat a) =
         (state_docs a (mq_log s') = state_docs a (mq_log s))) \<and>
    (state_docs a (mq_log s') = state_docs a (mq_log s) \<and> mq_last_key s' = mq_last_key s \<and>
       mq_last_publish s' = mq_last_publish s \<or>
     (\<exists>doc. state_doc snap = Inr doc \<and> state_docs a (mq_log s') = state_docs a (mq_log s) @ [doc] \<and>
       mq_last_key s' = Some (key_of doc) \<and> mq_last_publish s' = t \<and>
       \<not> (same_key (mq_last_key s) (key_of doc) \<and> t - mq_last_publish s < ma_heartbeat a)))"
proof -
  obtain e1 s1 where ann: "announce_options a snap s = (e1, s1)" by (cases "announce_options a snap s")
  note kept = announce_options_keeps [OF ann]
  show ?thesis
  proof (cases "e1")
    case (Some x)
    then show ?thesis using assms ann kept by (auto simp: publish_state_def split: sum.split)
  next
    case None
    show ?thesis
    proof (cases "state_doc snap")
      case (Inl x)
      then show ?thesis using assms ann kept None by (auto simp: publish_state_def)
    next
      case (Inr doc)
      show ?thesis
      proof (cases "same_key (mq_last_key s) (key_of doc) \<and> \<not> ma_heartbeat a \<le> t - mq_last_publish s")
        case True
        then have "s' = s1 \<and> e = None" using assms ann kept None Inr by (simp add: publish_state_def Let_def)
        then show ?thesis using True kept Inr assms(2) by (simp add: not_le)
      next
        case False
        let ?due = "ma_heartbeat a \<le> t - mq_last_publish s1"
        have "s' = publish_screen a str ?due (dget_or doc ''demo'' JNull) (publish_avail a ?due (snd snap)
            (publish (mq_topic a ''state'') (Doc doc) 0 True
              (s1\<lparr>mq_last_key := Some (key_of doc), mq_last_publish := t\<rparr>))) \<and> e = None"
          using assms ann kept None Inr False by (auto simp: publish_state_def Let_def)
        moreover have "state_docs a (mq_log (publish (mq_topic a ''state'') (Doc doc) 0 True x)) = state_docs a (mq_log x) @ [doc]" for x
          by (simp add: publish_def) (simp add: state_docs_def)
        moreover have "mq_connected (publish tp pl q rt x) = mq_connected x"
            "mq_last_key (publish tp pl q rt x) = mq_last_key x"
            "mq_last_publish (publish tp pl q rt x) = mq_last_publish x" for tp pl q rt x
          by (simp_all add: publish_def)
        ultimately show ?thesis using False kept Inr assms(2) by (simp add: not_le)
      qed
    qed
  qed
qed


text \<open>The states the bridge to the broker goes through: polls, connections, losses, a stop.\<close>

inductive mq_reach :: "(json \<Rightarrow> string) \<Rightarrow> mqtt_args \<Rightarrow> mqtt \<Rightarrow> bool"
  for str :: "json \<Rightarrow> string" and a :: mqtt_args where
  mq_start: "mq_reach str a MqttBridge"
| mq_poll: "mq_reach str a s \<Longrightarrow> mq_reach str a (snd (publish_state str a t snap s))"
| mq_connect: "mq_reach str a s \<Longrightarrow> mq_reach str a (snd (on_connect str a t snap rc s))"
| mq_lost: "mq_reach str a s \<Longrightarrow> mq_reach str a (on_disconnect s)"
| mq_stop: "mq_reach str a s \<Longrightarrow> mq_reach str a (mqtt_stop a s)"

definition recorded :: "mqtt_args \<Rightarrow> mqtt \<Rightarrow> bool" where
  "recorded a s \<longleftrightarrow>
     (\<forall>k. mq_last_key s = Some k \<longrightarrow>
        state_docs a (mq_log s) \<noteq> [] \<and> key_of (last (state_docs a (mq_log s))) = k)"

lemma recorded_publish_state: "recorded a s \<Longrightarrow> recorded a (snd (publish_state str a t snap s))"
proof (cases "mq_connected s")
  case True
  assume "recorded a s"
  then show ?thesis
    using publish_state_effect [OF _ True, of str a t snap "fst (publish_state str a t snap s)" "snd (publish_state str a t snap s)"]
    by (auto simp: recorded_def)
qed (simp add: publish_state_def)

lemma state_docs_text [simp]: "state_docs a [(topic, Text x, q, r)] = []"
  by (simp add: state_docs_def)

lemma recorded_forgotten: "mq_last_key s = None \<Longrightarrow> recorded a s"
  by (simp add: recorded_def)

lemma mq_reach_recorded: "mq_reach str a s \<Longrightarrow> recorded a s"
proof (induction rule: mq_reach.induct)
  case (mq_connect s t snap rc)
  show ?case
  proof (cases "rc = 0")
    case True
    let ?s1 = "publish (mq_topic a ''status'') (Text ''online'') 1 True (s\<lparr>mq_connected := True\<rparr>)"
    have s1: "recorded a ?s1"
      using mq_connect.IH by (simp add: recorded_def publish_def)
    show ?thesis
    proof (cases "publish_discovery a snap ?s1")
      case (Inl e)
      then show ?thesis using True s1 by (simp add: on_connect_def Let_def)
    next
      case (Inr s2)
      then show ?thesis using True
        by (simp add: on_connect_def Let_def recorded_publish_state recorded_forgotten)
    qed
  qed (use mq_connect.IH in \<open>simp add: on_connect_def\<close>)
next
  case (mq_poll s t snap)
  from mq_poll.IH show ?case by (rule recorded_publish_state)
qed (auto simp: on_disconnect_def mqtt_stop_def publish_def recorded_def MqttBridge_def)

text \<open>
  C18. What the broker holds is current. In every state the bridge can reach, after a poll that
  succeeds while connected the last retained state message agrees with the display and the
  scheduler just polled in every significant field: on, brightness, dimmer, playing, demo.
\<close>
theorem broker_holds_the_current_state:
  assumes "mq_reach str a s" and "mq_connected s" and "publish_state str a t snap s = (None, s')"
  shows "\<exists>doc. state_doc snap = Inr doc \<and> state_docs a (mq_log s') \<noteq> [] \<and>
    list_all2 py_eq (key_of doc) (key_of (last (state_docs a (mq_log s'))))"
proof -
  note eff = publish_state_effect [OF assms(3,2)] and rec = mq_reach_recorded [OF assms(1)]
  obtain doc where doc: "state_doc snap = Inr doc"
    using eff by (cases "state_doc snap") auto
  show ?thesis
  proof (cases "state_docs a (mq_log s') = state_docs a (mq_log s)")
    case True
    then have "same_key (mq_last_key s) (key_of doc)" using eff doc by simp
    then obtain k where "mq_last_key s = Some k" "list_all2 py_eq (key_of doc) k"
      by (auto simp: same_key_def split: option.splits)
    then show ?thesis using doc rec True by (auto simp: recorded_def)
  next
    case False
    then have "state_docs a (mq_log s') = state_docs a (mq_log s) @ [doc]" using eff doc by auto
    then show ?thesis using doc by (simp add: list_all2_same)
  qed
qed

text \<open>
  A quiet wall is quiet. However many polls there are, while the significant fields stay
  what was last published the state messages sent are at most one per heartbeat of the time
  that passed.
\<close>
theorem quiet_wall_is_quiet:
  assumes "mq_connected s" and "mq_last_key s = Some k" and "mq_last_publish s \<le> T"
    and "\<forall>(t, snap) \<in> set polls. t \<le> T \<and> (\<exists>doc. state_doc snap = Inr doc \<and> key_of doc = k)"
    and "s' = fold (\<lambda>(t, snap) s. snd (publish_state str a t snap s)) polls s"
  shows "\<exists>n. length (state_docs a (mq_log s')) = length (state_docs a (mq_log s)) + n \<and>
    of_nat n * ma_heartbeat a \<le> T - mq_last_publish s"
proof -
  have "\<exists>n. length (state_docs a (mq_log s')) = length (state_docs a (mq_log s)) + n \<and>
      of_nat n * ma_heartbeat a \<le> mq_last_publish s' - mq_last_publish s \<and> mq_last_publish s' \<le> T"
    using assms
  proof (induction polls arbitrary: s)
    case Nil
    then show ?case by simp
  next
    case (Cons p polls)
    obtain t snap where p: "p = (t, snap)" by (cases p)
    let ?s1 = "snd (publish_state str a t snap s)"
    have eff: "publish_state str a t snap s = (fst (publish_state str a t snap s), ?s1)" by simp
    note eff = publish_state_effect [OF eff Cons.prems(1)]
    obtain doc where doc: "state_doc snap = Inr doc" "key_of doc = k" "t \<le> T"
      using Cons.prems(4) p by auto
    have same: "same_key (mq_last_key s) k" by (simp add: Cons.prems(2) same_key_def list_all2_same)
    have one: "(length (state_docs a (mq_log ?s1)) = length (state_docs a (mq_log s)) \<and>
          mq_last_publish ?s1 = mq_last_publish s \<or>
        length (state_docs a (mq_log ?s1)) = Suc (length (state_docs a (mq_log s))) \<and>
          mq_last_publish ?s1 = t \<and> ma_heartbeat a \<le> t - mq_last_publish s) \<and>
        mq_connected ?s1 \<and> mq_last_key ?s1 = Some k"
      using eff doc same Cons.prems(2) by (auto simp: not_less)
    then have "mq_last_publish ?s1 \<le> T" using Cons.prems(3) doc(3) by auto
    with one obtain n where n: "length (state_docs a (mq_log s')) = length (state_docs a (mq_log ?s1)) + n"
        "of_nat n * ma_heartbeat a \<le> mq_last_publish s' - mq_last_publish ?s1" "mq_last_publish s' \<le> T"
      using Cons.IH [of ?s1] Cons.prems(4,5) p by auto
    show ?case
    proof (cases "mq_last_publish ?s1 = mq_last_publish s \<and>
        length (state_docs a (mq_log ?s1)) = length (state_docs a (mq_log s))")
      case True
      then show ?thesis using n by auto
    next
      case False
      then have "length (state_docs a (mq_log ?s1)) = Suc (length (state_docs a (mq_log s)))"
          "mq_last_publish ?s1 = t" "ma_heartbeat a \<le> t - mq_last_publish s"
        using one by auto
      then show ?thesis using n by (intro exI [of _ "Suc n"]) (auto simp: algebra_simps)
    qed
  qed
  then show ?thesis by auto
qed

definition wall_args :: mqtt_args where
  "wall_args = \<lparr>ma_prefix = ''ft/b'', ma_node = ''b'', ma_discovery_prefix = ''ha'', ma_friendly_name = ''B'',
     ma_public_url = None, ma_heartbeat = 60\<rparr>"

definition lit_snapshot :: snapshot where
  "lit_snapshot =
     (Some [(''brightness'', JInt 80), (''blanked'', JBool False), (''dimmer'', JBool False)], None)"

definition lit_key :: "json list" where
  "lit_key = [JBool True, JInt (pct_to_ha 80), JBool False, JBool False, JNull]"

lemma nothing_scheduled:
  "mq_options None = Inr []"
  "model_name None = Inr ''HUB75 video wall''"
  "state_doc (None, None) = Inr [(''on'', JBool False), (''bri'', JInt 0), (''dimmer'', JBool False),
     (''playing'', JBool False), (''demo'', JNull), (''fps'', JNull)]"
  by (simp_all add: mq_options_def rotation_of_def sched_object_def or_sequence_def dget_or_def model_name_def
      state_doc_def or_object_def bri_of_def)

lemma lit_state_doc:
  "\<exists>doc. state_doc lit_snapshot = Inr doc \<and> key_of doc = lit_key"
  by (simp add: lit_snapshot_def lit_key_def state_doc_def sched_object_def or_object_def dget_or_def
      display_field_def bri_of_def is_int_def int_value_def key_of_def SIGNIFICANT_def)

lemma publish_state_succeeds:
  "mq_connected s \<Longrightarrow> state_doc (display, None) = Inr doc \<Longrightarrow>
   fst (publish_state str a t (display, None) s) = None"
  by (simp add: publish_state_def announce_options_def nothing_scheduled Let_def)

theorem broker_holds_the_current_state_witness:
  "\<exists>s. mq_reach (\<lambda>_. []) wall_args s \<and>
     list_all2 py_eq lit_key (key_of (last (state_docs wall_args
       (mq_log (snd (publish_state (\<lambda>_. []) wall_args 200 lit_snapshot s))))))"
proof -
  let ?s = "snd (on_connect (\<lambda>_. []) wall_args 100 (None, None) 0 MqttBridge)"
  let ?s1 = "publish (mq_topic wall_args ''status'') (Text ''online'') 1 True (MqttBridge\<lparr>mq_connected := True\<rparr>)"
  have reach: "mq_reach (\<lambda>_. []) wall_args ?s" by (intro mq_connect mq_start)
  obtain s2 where s2: "publish_discovery wall_args (None, None) ?s1 = Inr s2"
    by (simp add: publish_discovery_def nothing_scheduled Let_def)
  then have "mq_connected s2" using publish_discovery_keeps [OF s2] by (simp add: publish_def)
  then have con: "mq_connected ?s"
    using publish_state_effect [OF prod.collapse [symmetric]] s2 by (simp add: on_connect_def Let_def)
  obtain doc where doc: "state_doc lit_snapshot = Inr doc" "key_of doc = lit_key"
    using lit_state_doc by blast
  have "fst (publish_state (\<lambda>_. []) wall_args 200 lit_snapshot ?s) = None"
    using con doc(1) unfolding lit_snapshot_def by (rule publish_state_succeeds)
  then have "publish_state (\<lambda>_. []) wall_args 200 lit_snapshot ?s =
      (None, snd (publish_state (\<lambda>_. []) wall_args 200 lit_snapshot ?s))"
    by (metis prod.collapse)
  from broker_holds_the_current_state [OF reach con this] doc reach show ?thesis by auto
qed

theorem quiet_wall_is_quiet_witness:
  "\<exists>n. length (state_docs wall_args (mq_log (fold (\<lambda>(t, snap) s. snd (publish_state (\<lambda>_. []) wall_args t snap s))
     [(10, lit_snapshot), (50, lit_snapshot), (70, lit_snapshot)]
     (MqttBridge\<lparr>mq_connected := True, mq_last_key := Some lit_key\<rparr>)))) = n \<and> of_nat n * 60 \<le> (70 :: rat)"
proof -
  let ?s = "MqttBridge\<lparr>mq_connected := True, mq_last_key := Some lit_key\<rparr>"
  let ?polls = "[(10, lit_snapshot), (50, lit_snapshot), (70, lit_snapshot)] :: (rat \<times> snapshot) list"
  have "\<exists>n. length (state_docs wall_args (mq_log (fold (\<lambda>(t, snap) s. snd (publish_state (\<lambda>_. []) wall_args t snap s)) ?polls ?s)))
      = length (state_docs wall_args (mq_log ?s)) + n \<and> of_nat n * ma_heartbeat wall_args \<le> 70 - mq_last_publish ?s"
    by (rule quiet_wall_is_quiet [where k = lit_key and polls = ?polls and str = "\<lambda>_. []"]) (use lit_state_doc in \<open>simp_all add: MqttBridge_def\<close>)
  then show ?thesis by (simp add: MqttBridge_def wall_args_def)
qed

end
