(* ===== verification/FT_House.thy ===== *)
theory FT_House
  imports FT_Mqtt FT_Rotation
begin

text \<open>
  The house and the wall together: the demo list Home Assistant is shown is computed from the
  scheduler's published rotation (\<open>Rotation.snapshot\<close> in \<open>src/demos/ftsched.py\<close>), and a
  choice from it comes back as a jump (\<open>_index_of\<close> in \<open>src/demos/ftctl_mqtt.py\<close>,
  \<open>Rotation.jump\<close>).
\<close>

section \<open>Reading the published rotation\<close>

lemma snapshot_lookup:
  assumes "i < length (r_all r)"
  shows "dget (rot_snapshot r ! i) ''name'' = Some (JStr (e_name (r_all r ! i)))"
    and "dget_or (rot_snapshot r ! i) ''enabled'' v = JBool (e_enabled (r_all r ! i))"
    and "dget (rot_snapshot r ! i) ''position'' = Some (JInt (position_of (Some i) r))"
  using assms to_json_lookup(1,5) [of "r_all r ! i"]
  by (simp_all add: rot_snapshot_def Let_def update_conv dget_or_def)

lemma option_names_objects:
  "option_names (map JObj ds) =
     Inr (map (\<lambda>d. dget_or d ''name'' JNull)
       (filter (\<lambda>d. truthy (dget_or d ''enabled'' (JBool True)) \<and> truthy (dget_or d ''name'' JNull)) ds))"
  by (induction ds) auto

lemma find_named_first:
  assumes "i < length ds" and "py_eq (dget_or (ds ! i) ''name'' JNull) (JStr n)"
    and "\<And>j. j < i \<Longrightarrow> \<not> py_eq (dget_or (ds ! j) ''name'' JNull) (JStr n)"
  shows "find_named n (map JObj ds) = Inr (Some (dget_or (ds ! i) ''position'' (dget_or (ds ! i) ''index'' JNull)))"
  using assms
proof (induction ds arbitrary: i)
  case (Cons d ds)
  show ?case
  proof (cases i)
    case 0
    then show ?thesis using Cons.prems by simp
  next
    case (Suc k)
    then have "\<not> py_eq (dget_or d ''name'' JNull) (JStr n)" using Cons.prems(3) [of 0] by simp
    moreover have "find_named n (map JObj ds) = Inr (Some (dget_or (ds ! k) ''position'' (dget_or (ds ! k) ''index'' JNull)))"
      using Cons.prems Suc by (intro Cons.IH) force+
    ultimately show ?thesis using Suc by simp
  qed
qed simp

lemma py_eq_JStr [simp]: "py_eq (JStr a) (JStr b) \<longleftrightarrow> a = b"
  by (simp add: py_eq_def num_of_def)

text \<open>
  C6. A demo picked in the house is the demo that plays. When the names of the rotation are
  distinct, every name offered to Home Assistant comes back as the position of a live entry:
  the jump the bridge sends is accepted, and the index it lands on plays an enabled entry of
  that name.
\<close>
theorem demo_picked_at_home_plays:
  assumes "dget state ''rotation'' = Some (JArr (map JObj (rot_snapshot r)))"
    and "distinct (map e_name (r_all r))"
    and "mq_options (Some (JObj state)) = Inr names" and "JStr n \<in> set names"
  shows "\<exists>p i. demo_index_of (Some (JObj state)) n = Inr (Some (JInt p)) \<and> fst (jump p k r) \<and>
    rot_at (snd (jump p k r)) k = Some i \<and> e_name (r_all r ! i) = n \<and> e_enabled (r_all r ! i)"
proof -
  let ?ds = "rot_snapshot r"
  have len: "length ?ds = length (r_all r)" by (simp add: rot_snapshot_def)
  have state: "truthy (JObj state)" using assms(1) by auto
  have rot: "rotation_of (Some (JObj state)) = Inr (map JObj ?ds)"
    using state assms(1) by (auto simp: rotation_of_def sched_object_def or_object_def or_sequence_def dget_or_def)
  have "names = map (\<lambda>d. dget_or d ''name'' JNull)
       (filter (\<lambda>d. truthy (dget_or d ''enabled'' (JBool True)) \<and> truthy (dget_or d ''name'' JNull)) ?ds)"
    using assms(3) by (simp add: mq_options_def rot option_names_objects)
  then obtain d where d: "d \<in> set ?ds" "dget_or d ''name'' JNull = JStr n"
      "truthy (dget_or d ''enabled'' (JBool True))"
    using assms(4) by (auto simp del: truthy.simps)
  then obtain i where i: "i < length (r_all r)" "d = ?ds ! i" by (metis in_set_conv_nth len)
  have name: "dget_or (?ds ! j) ''name'' JNull = JStr (e_name (r_all r ! j))" if "j < length (r_all r)" for j
    using snapshot_lookup(1) [OF that] by (simp add: dget_or_def)
  have n: "e_name (r_all r ! i) = n" and en: "e_enabled (r_all r ! i)"
    using d(2,3) name [OF i(1)] snapshot_lookup(2) [OF i(1)] i(2) by simp_all
  have "\<not> py_eq (dget_or (?ds ! j) ''name'' JNull) (JStr n)" if "j < i" for j
    using that i(1) name [of j] n assms(2) nth_eq_iff_index_eq [of "map e_name (r_all r)" j i] by auto
  then have found: "find_named n (map JObj ?ds) = Inr (Some (JInt (position_of (Some i) r)))"
    using find_named_first [of i ?ds n] i(1) name [OF i(1)] n len snapshot_lookup(3) [OF i(1)]
    by (simp add: dget_or_def)
  have "i \<in> set (live r)" using i(1) en by (simp add: live_iff)
  then obtain m where m: "m < length (live r)" "live r ! m = i" by (metis in_set_conv_nth)
  then have pos: "position_of (Some i) r = int m" using position_of_live by metis
  have "rot_at (snd (jump (int m) k r)) k = Some i"
    using jump_at(2) [of "int m" r k 0] m by simp
  then show ?thesis
    using found rot pos n en m jump_at(1) [of "int m" r k] by (auto simp: demo_index_of_def)
qed

definition two_demos :: rotation where
  "two_demos = Rotation
     [Entry ''py'' ''fire'' 45 30 [] 10 False [] False [] True None,
      Entry ''py'' ''maze'' 45 30 [] 10 False [] True [] True None]"

theorem demo_picked_at_home_plays_witness:
  "\<exists>p i. demo_index_of (Some (JObj [(''rotation'', JArr (map JObj (rot_snapshot two_demos)))])) ''maze'' =
      Inr (Some (JInt p)) \<and> fst (jump p 7 two_demos) \<and> rot_at (snd (jump p 7 two_demos)) 7 = Some i \<and>
    e_name (r_all two_demos ! i) = ''maze'' \<and> e_enabled (r_all two_demos ! i)"
proof -
  let ?state = "[(''rotation'', JArr (map JObj (rot_snapshot two_demos)))]"
  have len: "length (rot_snapshot two_demos) = 2"
    by (simp add: rot_snapshot_def two_demos_def Rotation_def)
  then have ds: "rot_snapshot two_demos = [rot_snapshot two_demos ! 0, rot_snapshot two_demos ! 1]"
    by (intro nth_equalityI) (auto simp: less_2_cases_iff)
  have "rotation_of (Some (JObj ?state)) = Inr (map JObj (rot_snapshot two_demos))"
    using len by (auto simp: rotation_of_def sched_object_def or_object_def or_sequence_def dget_or_def)
  moreover have "option_names (map JObj (rot_snapshot two_demos)) = Inr [JStr ''maze'']"
  proof -
    have e: "length (r_all two_demos) = 2" "e_name (r_all two_demos ! 1) = ''maze''"
        "\<not> e_enabled (r_all two_demos ! 0)" "e_enabled (r_all two_demos ! 1)"
      by (simp_all add: two_demos_def Rotation_def Entry_def)
    show ?thesis
      using snapshot_lookup(1,2) [of 0 two_demos] snapshot_lookup(1,2) [of 1 two_demos] e
      by (subst ds) (simp add: dget_or_def [of _ "''name''"])
  qed
  ultimately have "mq_options (Some (JObj ?state)) = Inr [JStr ''maze'']" by (simp add: mq_options_def)
  then show ?thesis
    by (intro demo_picked_at_home_plays [of ?state two_demos "[JStr ''maze'']"])
      (simp_all add: two_demos_def Rotation_def Entry_def)
qed

end
