(* ===== verification/FT_Cache.thy ===== *)
theory FT_Cache
  imports FT_Json "HOL-Library.Product_Lexorder" "HOL-Library.Multiset"
begin

text \<open>
  The data cache of the fetch daemon, \<open>src/demos/ftdata.py\<close>: two directories (the cache and a
  tmpfs for sidecars), the records and sidecars in them, reading (\<open>load\<close>, \<open>load_blob\<close>,
  \<open>is_due\<close>), writing (\<open>_store\<close>, \<open>store_blob\<close>), cleaning (\<open>prune_blobs\<close>, \<open>sweep_blobs\<close>), and
  a pass over the registry (\<open>fetch\<close>, \<open>fetch_all\<close>). What the operating system answers (can
  the directory be made, is it writable, does an unlink succeed) and what a product's fetch
  function returns are parameters; the clock is an argument.
\<close>

section \<open>Files\<close>

text \<open>What a file holds: JSON that parses, the arrays of a sidecar, or neither.\<close>

datatype 'a content = Json json | Arrays 'a | Unreadable

record 'a stored =
  f_content :: "'a content"
  f_mtime :: rat
  f_size :: int

type_synonym 'a dir = "(string \<times> 'a stored) list"

text \<open>\<open>Blobs\<close> is \<open>BLOB_DIR\<close>, \<open>Cache\<close> the cache directory.\<close>

datatype place = Blobs | Cache

record 'a disk =
  dk_blob_exists :: bool
  dk_blobs :: "'a dir"
  dk_cache :: "'a dir"

text \<open>
  \<open>cf_blob_set\<close>: \<open>BLOB_DIR\<close> is not empty; \<open>cf_same\<close>: it is the cache directory; \<open>cf_can_make\<close>
  and \<open>cf_writable\<close>: what \<open>os.makedirs\<close> and \<open>os.access\<close> say of it.
\<close>

record config =
  cf_blob_set :: bool
  cf_same :: bool
  cf_can_make :: bool
  cf_writable :: bool

definition dir_at :: "place \<Rightarrow> 'a disk \<Rightarrow> 'a dir" where
  "dir_at p dk = (case p of Blobs \<Rightarrow> dk_blobs dk | Cache \<Rightarrow> dk_cache dk)"

definition set_dir :: "place \<Rightarrow> 'a dir \<Rightarrow> 'a disk \<Rightarrow> 'a disk" where
  "set_dir p d dk = (case p of Blobs \<Rightarrow> dk\<lparr>dk_blobs := d\<rparr> | Cache \<Rightarrow> dk\<lparr>dk_cache := d\<rparr>)"

section \<open>The registry\<close>

record product_spec =
  pr_ttl :: rat
  pr_interval :: "rat option"
  pr_volatile :: bool

type_synonym registry = "(string \<times> product_spec) list"

text \<open>\<open>product(...)\<close>: registering a name again replaces what it had.\<close>

definition product :: "string \<Rightarrow> rat \<Rightarrow> rat option \<Rightarrow> bool \<Rightarrow> registry \<Rightarrow> registry" where
  "product name ttl interval volatile reg =
     AList.update name \<lparr>pr_ttl = ttl, pr_interval = interval, pr_volatile = volatile\<rparr> reg"

definition is_volatile :: "registry \<Rightarrow> string \<Rightarrow> bool" where
  "is_volatile reg name = (case map_of reg name of None \<Rightarrow> False | Some p \<Rightarrow> pr_volatile p)"

definition ttl_for :: "registry \<Rightarrow> string \<Rightarrow> rat option" where
  "ttl_for reg name = map_option pr_ttl (map_of reg name)"

definition interval_for :: "registry \<Rightarrow> string \<Rightarrow> rat option" where
  "interval_for reg name = (case map_of reg name of None \<Rightarrow> None | Some p \<Rightarrow> pr_interval p)"

section \<open>Reading\<close>

definition blob_dirs :: "config \<Rightarrow> 'a disk \<Rightarrow> place list" where
  "blob_dirs cf dk =
     (if cf_blob_set cf \<and> dk_blob_exists dk \<and> \<not> cf_same cf then [Blobs, Cache] else [Cache])"

definition record_dirs :: "config \<Rightarrow> registry \<Rightarrow> string \<Rightarrow> 'a disk \<Rightarrow> place list" where
  "record_dirs cf reg name dk = (if is_volatile reg name then blob_dirs cf dk else [Cache])"

definition record_name :: "string \<Rightarrow> string" where
  "record_name name = name @ ''.json''"

fun record_path :: "string \<Rightarrow> 'a disk \<Rightarrow> place list \<Rightarrow> place option" where
  "record_path name dk [] = None"
| "record_path name dk (p # ps) =
     (if map_of (dir_at p dk) (record_name name) \<noteq> None then Some p else record_path name dk ps)"

text \<open>The loop of \<open>load\<close>: only an absent file goes on to the next directory.\<close>

fun read_record :: "string \<Rightarrow> 'a disk \<Rightarrow> place list \<Rightarrow> json option" where
  "read_record name dk [] = None"
| "read_record name dk (p # ps) =
     (case map_of (dir_at p dk) (record_name name) of
        None \<Rightarrow> read_record name dk ps
      | Some f \<Rightarrow> (case f_content f of Json v \<Rightarrow> Some v | _ \<Rightarrow> None))"

text \<open>\<open>max(0.0, now - f)\<close>; a comparison with NaN is false.\<close>

definition age_at :: "rat \<Rightarrow> pyfloat \<Rightarrow> pyfloat" where
  "age_at now f =
     (case f of Fin q \<Rightarrow> Fin (max 0 (now - q)) | NegInf \<Rightarrow> Inf | _ \<Rightarrow> Fin 0)"

definition load :: "config \<Rightarrow> registry \<Rightarrow> rat \<Rightarrow> string \<Rightarrow> 'a disk \<Rightarrow> (json \<times> pyfloat) option" where
  "load cf reg now name dk =
     (case read_record name dk (record_dirs cf reg name dk) of
        Some (JObj d) \<Rightarrow>
          (case (dget d ''payload'', dget d ''fetched_at'') of
             (Some payload, Some fetched_at) \<Rightarrow>
               (case py_float fetched_at of Inl _ \<Rightarrow> None | Inr f \<Rightarrow> Some (payload, age_at now f))
           | _ \<Rightarrow> None)
      | _ \<Rightarrow> None)"

definition is_basename :: "string \<Rightarrow> bool" where
  "is_basename filename \<longleftrightarrow> CHR ''/'' \<notin> set filename"

fun read_blob :: "string \<Rightarrow> 'a disk \<Rightarrow> place list \<Rightarrow> 'a option" where
  "read_blob filename dk [] = None"
| "read_blob filename dk (p # ps) =
     (case map_of (dir_at p dk) filename of
        None \<Rightarrow> read_blob filename dk ps
      | Some f \<Rightarrow> (case f_content f of Arrays a \<Rightarrow> Some a | _ \<Rightarrow> None))"

text \<open>\<open>load_blob\<close> of what a record says, which need not be a string.\<close>

definition load_blob :: "config \<Rightarrow> json \<Rightarrow> 'a disk \<Rightarrow> 'a option" where
  "load_blob cf filename dk =
     (case filename of
        JStr s \<Rightarrow> if s = [] \<or> \<not> is_basename s then None else read_blob s dk (blob_dirs cf dk)
      | _ \<Rightarrow> None)"

definition age_le :: "pyfloat \<Rightarrow> rat \<Rightarrow> bool" where
  "age_le a q = (case a of Fin x \<Rightarrow> x \<le> q | NegInf \<Rightarrow> True | _ \<Rightarrow> False)"

definition age_ge :: "pyfloat \<Rightarrow> rat \<Rightarrow> bool" where
  "age_ge a q = (case a of Fin x \<Rightarrow> q \<le> x | Inf \<Rightarrow> True | _ \<Rightarrow> False)"

definition is_fresh :: "registry \<Rightarrow> string \<Rightarrow> pyfloat \<Rightarrow> bool" where
  "is_fresh reg name age = (case ttl_for reg name of None \<Rightarrow> True | Some ttl \<Rightarrow> age_le age ttl)"

definition is_due :: "config \<Rightarrow> registry \<Rightarrow> rat \<Rightarrow> string \<Rightarrow> 'a disk \<Rightarrow> bool" where
  "is_due cf reg now name dk =
     (case interval_for reg name of
        None \<Rightarrow> True
      | Some i \<Rightarrow>
          if i = 0 then True
          else (case load cf reg now name dk of
                  None \<Rightarrow> True
                | Some (_, age) \<Rightarrow> age_ge age (i * (9 / 10))))"

text \<open>\<open>describe_age\<close> of a finite age.\<close>

definition describe_age :: "rat \<Rightarrow> string" where
  "describe_age age =
     (let whole = (\<lambda>q :: rat. int_str (if 0 \<le> q then \<lfloor>q\<rfloor> else \<lceil>q\<rceil>)) in
      if age < 90 then whole age @ ''s''
      else if age < 5400 then whole (age / 60) @ ''m''
      else if age < 172800 then whole (age / 3600) @ ''h''
      else whole (age / 86400) @ ''d'')"

section \<open>Writing\<close>

definition blob_write_dir :: "config \<Rightarrow> 'a disk \<Rightarrow> place \<times> 'a disk" where
  "blob_write_dir cf dk =
     (if cf_blob_set cf \<and> \<not> cf_same cf \<and> (dk_blob_exists dk \<or> cf_can_make cf)
      then (if cf_writable cf then (Blobs, dk\<lparr>dk_blob_exists := True\<rparr>)
            else (Cache, dk\<lparr>dk_blob_exists := True\<rparr>))
      else (Cache, dk))"

definition write_file :: "place \<Rightarrow> string \<Rightarrow> 'a stored \<Rightarrow> 'a disk \<Rightarrow> 'a disk" where
  "write_file p fn f dk = set_dir p (AList.update fn f (dir_at p dk)) dk"

definition envelope :: "registry \<Rightarrow> rat \<Rightarrow> string \<Rightarrow> json \<Rightarrow> string \<Rightarrow> json" where
  "envelope reg now name payload source =
     JObj [(''name'', JStr name), (''fetched_at'', JFloat (Fin now)), (''source'', JStr source),
           (''ttl'', case ttl_for reg name of None \<Rightarrow> JNull | Some t \<Rightarrow> JFloat (Fin t)),
           (''payload'', payload)]"

text \<open>
  \<open>_store\<close>: whether the write and the rename succeed is \<open>ok\<close>; if not it raises and the
  temporary file is removed.
\<close>

definition store ::
  "config \<Rightarrow> registry \<Rightarrow> rat \<Rightarrow> bool \<Rightarrow> string \<Rightarrow> json \<Rightarrow> string \<Rightarrow> 'a disk \<Rightarrow> bool \<times> 'a disk" where
  "store cf reg now ok name payload source dk =
     (let (p, dk1) = (if is_volatile reg name then blob_write_dir cf dk else (Cache, dk)) in
      if ok then (True, write_file p (record_name name)
                          \<lparr>f_content = Json (envelope reg now name payload source), f_mtime = now, f_size = 0\<rparr> dk1)
      else (False, dk1))"

fun hex_digits :: "nat \<Rightarrow> nat \<Rightarrow> string" where
  "hex_digits 0 n = []"
| "hex_digits (Suc k) n =
     hex_digits k (n div 16) @ [if n mod 16 < 10 then char_of (48 + n mod 16) else char_of (87 + n mod 16)]"

text \<open>\<open>"%s-%08x.npz"\<close> of the product and four random bytes.\<close>

definition blob_name :: "string \<Rightarrow> nat \<Rightarrow> string" where
  "blob_name name token = name @ ''-'' @ hex_digits 8 token @ ''.npz''"

definition store_blob ::
  "config \<Rightarrow> rat \<Rightarrow> nat \<Rightarrow> bool \<Rightarrow> string \<Rightarrow> 'a \<Rightarrow> int \<Rightarrow> 'a disk \<Rightarrow> string option \<times> 'a disk" where
  "store_blob cf now token ok name arrays nbytes dk =
     (let (p, dk1) = blob_write_dir cf dk; fn = blob_name name token in
      if ok then (Some fn, write_file p fn \<lparr>f_content = Arrays arrays, f_mtime = now, f_size = nbytes\<rparr> dk1)
      else (None, dk1))"

section \<open>Cleaning\<close>

definition delete_files :: "(string \<Rightarrow> bool) \<Rightarrow> 'a dir \<Rightarrow> 'a dir" where
  "delete_files bad d = filter (\<lambda>(fn, _). \<not> bad fn) d"

definition is_blob_of :: "string \<Rightarrow> string \<Rightarrow> bool" where
  "is_blob_of name fn \<longleftrightarrow> starts_with (name @ ''-'') fn \<and> ends_with ''.npz'' fn"

text \<open>The order in which \<open>sorted(live)\<close> offers the files: modification time, size, name.\<close>

definition oldest_first :: "'a dir \<Rightarrow> (rat \<times> int \<times> string) list" where
  "oldest_first d = sort (map (\<lambda>(fn, f). (f_mtime f, f_size f, fn)) d)"

fun evict ::
  "(string \<Rightarrow> bool) \<Rightarrow> string option \<Rightarrow> int \<Rightarrow> int \<Rightarrow> (rat \<times> int \<times> string) list \<Rightarrow> string list" where
  "evict can keep max_bytes used [] = []"
| "evict can keep max_bytes used ((_, sz, fn) # rest) =
     (if used \<le> max_bytes then []
      else if Some fn = keep then evict can keep max_bytes used rest
      else if can fn then fn # evict can keep max_bytes (used - sz) rest
      else evict can keep max_bytes used rest)"

text \<open>\<open>can fn\<close>: unlinking \<open>fn\<close> in \<open>BLOB_DIR\<close> succeeds.\<close>

definition sweep_blobs ::
  "config \<Rightarrow> rat \<Rightarrow> (string \<Rightarrow> bool) \<Rightarrow> rat \<Rightarrow> int \<Rightarrow> string option \<Rightarrow> 'a disk \<Rightarrow> 'a disk" where
  "sweep_blobs cf now can max_age max_bytes keep dk =
     (if \<not> cf_blob_set cf \<or> cf_same cf \<or> \<not> dk_blob_exists dk then dk
      else
        let npz = filter (\<lambda>(fn, _). ends_with ''.npz'' fn) (dk_blobs dk);
            old = (\<lambda>fn f. Some fn \<noteq> keep \<and> max_age < now - f_mtime f);
            expired = map fst (filter (\<lambda>(fn, f). old fn f \<and> can fn) npz);
            live = filter (\<lambda>(fn, f). \<not> old fn f) npz;
            used = sum_list (map (\<lambda>(_, f). f_size f) live);
            gone = expired @ (if used \<le> max_bytes then [] else evict can keep max_bytes used (oldest_first live))
        in dk\<lparr>dk_blobs := delete_files (\<lambda>fn. fn \<in> set gone) (dk_blobs dk)\<rparr>)"

definition prune_blobs ::
  "config \<Rightarrow> rat \<Rightarrow> (place \<Rightarrow> string \<Rightarrow> bool) \<Rightarrow> rat \<Rightarrow> int \<Rightarrow> string \<Rightarrow> string \<Rightarrow> 'a disk \<Rightarrow> 'a disk" where
  "prune_blobs cf now can max_age max_bytes name keep dk =
     sweep_blobs cf now (can Blobs) max_age max_bytes (Some keep)
       (fold (\<lambda>p dk. set_dir p
                (delete_files (\<lambda>fn. fn \<noteq> keep \<and> is_blob_of name fn \<and> can p fn) (dir_at p dk)) dk)
         (blob_dirs cf dk) dk)"

section \<open>A pass over the registry\<close>

text \<open>
  \<open>fetch\<close>: the product's own function \<open>run\<close> may fail, which is reported; \<open>_store\<close> is called
  outside the \<open>try\<close>, so its failure raises out of \<open>fetch\<close> and of \<open>fetch_all\<close>.
\<close>

datatype fetched = Fetched | FetchFailed | StoreRaised

definition fetch ::
  "config \<Rightarrow> registry \<Rightarrow> rat \<Rightarrow> bool \<Rightarrow> ('a disk \<Rightarrow> (json \<times> string) option \<times> 'a disk) \<Rightarrow> string
     \<Rightarrow> 'a disk \<Rightarrow> fetched \<times> 'a disk" where
  "fetch cf reg now ok run name dk =
     (case run dk of
        (None, dk1) \<Rightarrow> (FetchFailed, dk1)
      | (Some (payload, source), dk1) \<Rightarrow>
          (case store cf reg now ok name payload source dk1 of
             (True, dk2) \<Rightarrow> (Fetched, dk2)
           | (False, dk2) \<Rightarrow> (StoreRaised, dk2)))"

definition selected :: "registry \<Rightarrow> string list \<Rightarrow> rat option \<Rightarrow> string \<Rightarrow> bool" where
  "selected reg only max_interval name \<longleftrightarrow>
     (only = [] \<or> name \<in> set only) \<and>
     (case max_interval of
        None \<Rightarrow> True
      | Some m \<Rightarrow> (case interval_for reg name of None \<Rightarrow> False | Some i \<Rightarrow> i \<noteq> 0 \<and> i \<le> m))"

text \<open>The counts are what was fetched and what was considered; \<open>None\<close>: the pass raised.\<close>

fun fetch_names ::
  "config \<Rightarrow> registry \<Rightarrow> (string \<Rightarrow> rat) \<Rightarrow> (string \<Rightarrow> bool)
     \<Rightarrow> (string \<Rightarrow> 'a disk \<Rightarrow> (json \<times> string) option \<times> 'a disk)
     \<Rightarrow> string list \<Rightarrow> bool \<Rightarrow> rat option \<Rightarrow> string list \<Rightarrow> nat \<times> nat \<Rightarrow> 'a disk
     \<Rightarrow> (nat \<times> nat) option \<times> 'a disk" where
  "fetch_names cf reg clock ok run only due_only max_interval [] counts dk = (Some counts, dk)"
| "fetch_names cf reg clock ok run only due_only max_interval (name # names) (n, seen) dk =
     (if \<not> selected reg only max_interval name
      then fetch_names cf reg clock ok run only due_only max_interval names (n, seen) dk
      else if due_only \<and> \<not> is_due cf reg (clock name) name dk
      then fetch_names cf reg clock ok run only due_only max_interval names (n, Suc seen) dk
      else (case fetch cf reg (clock name) (ok name) (run name) name dk of
              (Fetched, dk1) \<Rightarrow>
                fetch_names cf reg clock ok run only due_only max_interval names (Suc n, Suc seen) dk1
            | (FetchFailed, dk1) \<Rightarrow>
                fetch_names cf reg clock ok run only due_only max_interval names (n, Suc seen) dk1
            | (StoreRaised, dk1) \<Rightarrow> (None, dk1)))"

definition fetch_all ::
  "config \<Rightarrow> registry \<Rightarrow> (string \<Rightarrow> rat) \<Rightarrow> (string \<Rightarrow> bool)
     \<Rightarrow> (string \<Rightarrow> 'a disk \<Rightarrow> (json \<times> string) option \<times> 'a disk)
     \<Rightarrow> string list \<Rightarrow> bool \<Rightarrow> rat option \<Rightarrow> 'a disk \<Rightarrow> (nat \<times> nat) option \<times> 'a disk" where
  "fetch_all cf reg clock ok run only due_only max_interval dk =
     fetch_names cf reg clock ok run only due_only max_interval (sort (remdups (map fst reg))) (0, 0) dk"

section \<open>Facts about the two directories\<close>

lemma dir_at_set [simp]:
  "dir_at p (set_dir p d dk) = d"
  "p \<noteq> q \<Longrightarrow> dir_at q (set_dir p d dk) = dir_at q dk"
  "dk_blob_exists (set_dir p d dk) = dk_blob_exists dk"
  by (cases p; cases q; simp add: dir_at_def set_dir_def)+

lemma dir_at_exists [simp]: "dir_at p (dk\<lparr>dk_blob_exists := b\<rparr>) = dir_at p dk"
  by (cases p) (simp_all add: dir_at_def)

lemma lookup_written:
  "map_of (dir_at q (write_file p fn f dk)) g =
     (if p = q \<and> g = fn then Some f else map_of (dir_at q dk) g)"
  by (cases "p = q") (simp_all add: write_file_def update_conv)

lemma blob_dirs_written [simp]: "blob_dirs cf (write_file p fn f dk) = blob_dirs cf dk"
  by (simp add: blob_dirs_def write_file_def)

lemma blob_write_dir_exists:
  "blob_write_dir cf dk = (p, dk1) \<Longrightarrow>
   (\<forall>q. dir_at q dk1 = dir_at q dk) \<and> (p = Blobs \<longrightarrow> dk_blob_exists dk1 \<and> blob_dirs cf dk1 = [Blobs, Cache])"
  by (auto simp: blob_write_dir_def blob_dirs_def split: if_splits)

lemma blob_dirs_end: "set (blob_dirs cf dk) \<subseteq> {Blobs, Cache} \<and> Cache \<in> set (blob_dirs cf dk)"
  by (simp add: blob_dirs_def)

text \<open>
  What a reader of the cache sees after a write: the record just written, provided it was not
  written behind an older copy in the directory searched first.
\<close>

definition unshadowed :: "config \<Rightarrow> registry \<Rightarrow> string \<Rightarrow> 'a disk \<Rightarrow> bool" where
  "unshadowed cf reg name dk \<longleftrightarrow>
     is_volatile reg name \<longrightarrow> fst (blob_write_dir cf dk) = Blobs \<or>
       map_of (dk_blobs dk) (record_name name) = None"

lemma read_record_stored:
  assumes "store cf reg now True name payload source dk = (True, dk')" and "unshadowed cf reg name dk"
  shows "read_record name dk' (record_dirs cf reg name dk') = Some (envelope reg now name payload source)"
proof -
  let ?f = "\<lparr>f_content = Json (envelope reg now name payload source), f_mtime = now, f_size = 0\<rparr>"
  show ?thesis
  proof (cases "is_volatile reg name")
    case False
    then have "dk' = write_file Cache (record_name name) ?f dk" using assms(1) by (simp add: store_def)
    then show ?thesis using False by (simp add: record_dirs_def lookup_written)
  next
    case True
    obtain p dk1 where w: "blob_write_dir cf dk = (p, dk1)" by (cases "blob_write_dir cf dk")
    then have dk': "dk' = write_file p (record_name name) ?f dk1" using assms(1) True by (simp add: store_def)
    show ?thesis
    proof (cases p)
      case Blobs
      then show ?thesis using True dk' blob_write_dir_exists [OF w]
        by (simp add: record_dirs_def lookup_written)
    next
      case Cache
      have "dir_at Blobs dk1 = dk_blobs dk" using blob_write_dir_exists [OF w] by (metis dir_at_def place.simps(3))
      then have "map_of (dir_at Blobs dk1) (record_name name) = None"
        using assms(2) True w Cache by (simp add: unshadowed_def)
      then show ?thesis using True dk' Cache
        by (simp add: record_dirs_def lookup_written blob_dirs_def)
    qed
  qed
qed

lemma envelope_lookup:
  "envelope reg now name payload source = JObj d \<Longrightarrow>
   dget d ''payload'' = Some payload \<and> dget d ''fetched_at'' = Some (JFloat (Fin now))"
  by (auto simp: envelope_def)

text \<open>
  C26. What is fetched is what is served, with its age. After a successful fetch of a
  registered product, a demo that loads it later gets exactly the payload the feed returned
  and the time that has passed; the product is due again exactly when nine tenths of its
  interval have passed (or it has none), and fresh as long as its time to live. It needs that
  the record was not written behind an older copy in tmpfs.
\<close>
theorem fetched_is_served:
  assumes "fetch cf reg now ok run name dk = (Fetched, dk')"
    and "run dk = (Some (payload, source), dk1)" and "unshadowed cf reg name dk1"
    and "map_of reg name = Some p" and "now \<le> later"
  shows "load cf reg later name dk' = Some (payload, Fin (later - now)) \<and>
    (is_due cf reg later name dk' \<longleftrightarrow>
       (case pr_interval p of None \<Rightarrow> True | Some i \<Rightarrow> i = 0 \<or> i * (9 / 10) \<le> later - now)) \<and>
    (is_fresh reg name (Fin (later - now)) \<longleftrightarrow> later \<le> now + pr_ttl p)"
proof -
  have stored: "store cf reg now True name payload source dk1 = (True, dk')"
    using assms(1,2) by (cases ok) (auto simp: fetch_def store_def Let_def split: prod.splits bool.splits)
  obtain d where d: "envelope reg now name payload source = JObj d" by (simp add: envelope_def)
  have "load cf reg later name dk' = Some (payload, Fin (later - now))"
    using read_record_stored [OF stored assms(3)] envelope_lookup [OF d] assms(5)
    by (simp add: load_def d age_at_def)
  then show ?thesis
    using assms(4) by (auto simp: is_due_def interval_for_def age_ge_def is_fresh_def ttl_for_def age_le_def split: option.split)
qed

definition tide_registry :: registry where
  "tide_registry = product ''tides'' 86400 None False (product ''adsb'' 120 (Some 60) True [])"

definition tmpfs :: config where
  "tmpfs = \<lparr>cf_blob_set = True, cf_same = False, cf_can_make = True, cf_writable = True\<rparr>"

definition empty_disk :: "'a disk" where
  "empty_disk = \<lparr>dk_blob_exists = False, dk_blobs = [], dk_cache = []\<rparr>"

theorem fetched_is_served_witness:
  "load tmpfs tide_registry 160 ''adsb''
     (snd (fetch tmpfs tide_registry 100 True (\<lambda>dk. (Some (JInt 7, ''feed''), dk)) ''adsb'' (empty_disk :: nat disk)))
   = Some (JInt 7, Fin 60) \<and>
   is_due tmpfs tide_registry 160 ''adsb''
     (snd (fetch tmpfs tide_registry 100 True (\<lambda>dk. (Some (JInt 7, ''feed''), dk)) ''adsb'' (empty_disk :: nat disk)))"
proof -
  let ?run = "\<lambda>dk :: nat disk. (Some (JInt 7, ''feed''), dk)"
  let ?r = "fetch tmpfs tide_registry 100 True ?run ''adsb'' empty_disk"
  have "?r = (Fetched, snd ?r)" by (simp add: fetch_def store_def Let_def split: prod.split)
  from fetched_is_served [OF this refl, of "\<lparr>pr_ttl = 120, pr_interval = Some 60, pr_volatile = True\<rparr>" 160]
  show ?thesis by (simp add: unshadowed_def empty_disk_def tide_registry_def product_def)
qed

text \<open>
  C27. A failing feed does not stop the pass. As long as records can be written, whatever the
  feeds do a pass over the registry ends; it has considered every product that was selected,
  each once, and fetched at most those.
\<close>
theorem failing_feeds_do_not_stop_the_pass:
  "\<exists>n. fst (fetch_all cf reg clock (\<lambda>_. True) run only due_only max_interval dk) =
      Some (n, length (filter (selected reg only max_interval) (remdups (map fst reg)))) \<and>
    n \<le> length (filter (selected reg only max_interval) (remdups (map fst reg)))"
proof -
  have step: "fetch cf reg t True r name dk \<noteq> (StoreRaised, dk')" for t name and dk dk' :: "'a disk" and r
    by (simp add: fetch_def store_def Let_def split: option.split prod.split)
  have pass: "\<exists>m \<le> length (filter (selected reg only max_interval) names).
      fst (fetch_names cf reg clock (\<lambda>_. True) run only due_only max_interval names (n, seen) dk) =
        Some (n + m, seen + length (filter (selected reg only max_interval) names))" for names n seen and dk :: "'a disk"
  proof (induction names arbitrary: n seen dk)
    case Nil
    show ?case by simp
  next
    case (Cons name names)
    obtain o' dk1 where f: "fetch cf reg (clock name) True (run name) name dk = (o', dk1)"
      by (cases "fetch cf reg (clock name) True (run name) name dk")
    have ne: "o' \<noteq> StoreRaised" using step f by metis
    show ?case
      using Cons.IH [of n "Suc seen" dk] Cons.IH [of n seen dk] Cons.IH [of "Suc n" "Suc seen" dk1]
        Cons.IH [of n "Suc seen" dk1] f ne
      by (cases o') (force intro: le_SucI)+
  qed
  have "length (filter (selected reg only max_interval) (sort (remdups (map fst reg)))) =
      length (filter (selected reg only max_interval) (remdups (map fst reg)))"
    by (metis mset_filter mset_sort size_mset)
  then show ?thesis using pass [of "sort (remdups (map fst reg))" 0 0 dk] by (auto simp: fetch_all_def)
qed

section \<open>The sweep keeps tmpfs bounded\<close>

text \<open>What the eviction loop deletes: the oldest files other than \<open>keep\<close>, until the rest fits.\<close>

lemma evict_prefix:
  "\<exists>k. evict (\<lambda>_. True) keep m used xs =
     take k (map (\<lambda>(_, _, fn). fn) (filter (\<lambda>(_, _, fn). Some fn \<noteq> keep) xs))"
proof (induction xs arbitrary: used)
  case (Cons x xs)
  obtain t sz fn where x: "x = (t, sz, fn)" by (cases x)
  show ?case
  proof (cases "used \<le> m")
    case True
    then show ?thesis using x by (intro exI [of _ 0]) simp
  next
    case False
    obtain k where k: "evict (\<lambda>_. True) keep m (used - sz) xs =
        take k (map (\<lambda>(_, _, fn). fn) (filter (\<lambda>(_, _, fn). Some fn \<noteq> keep) xs))"
      using Cons.IH by blast
    obtain k' where k': "evict (\<lambda>_. True) keep m used xs =
        take k' (map (\<lambda>(_, _, fn). fn) (filter (\<lambda>(_, _, fn). Some fn \<noteq> keep) xs))"
      using Cons.IH by blast
    show ?thesis
    proof (cases "Some fn = keep")
      case True
      then show ?thesis using x \<open>\<not> used \<le> m\<close> k' by (intro exI [of _ k']) simp
    next
      case False
      then show ?thesis using x \<open>\<not> used \<le> m\<close> k by (intro exI [of _ "Suc k"]) simp
    qed
  qed
qed simp

lemma evict_spares_keep: "keep = Some fn \<Longrightarrow> fn \<notin> set (evict can keep m used xs)"
  by (induction can keep m used xs rule: evict.induct) auto

lemma evict_subset: "set (evict can keep m used xs) \<subseteq> (\<lambda>(_, _, fn). fn) ` set xs"
  by (induction can keep m used xs rule: evict.induct) auto

lemma evict_fits:
  assumes "distinct (map (\<lambda>(_, _, fn). fn) xs)"
  shows "used - sum_list (map (\<lambda>(_, sz, fn). if fn \<in> set (evict (\<lambda>_. True) keep m used xs) then sz else 0) xs) \<le> m
    \<or> (\<forall>(_, _, fn) \<in> set xs. Some fn \<noteq> keep \<longrightarrow> fn \<in> set (evict (\<lambda>_. True) keep m used xs))"
  using assms
proof (induction xs arbitrary: used)
  case (Cons x xs)
  obtain t sz fn where x: "x = (t, sz, fn)" by (cases x)
  let ?ev = "\<lambda>u. evict (\<lambda>_. True) keep m u xs"
  have new: "fn \<notin> (\<lambda>(_, _, fn). fn) ` set xs" using Cons.prems x by simp
  then have other: "fn \<notin> set (?ev u)" for u using evict_subset [of "\<lambda>_. True" keep m u xs] by blast
  have same: "(\<Sum>(_, sz, g) \<leftarrow> xs. if g = fn \<or> g \<in> A then sz else 0) = (\<Sum>(_, sz, g) \<leftarrow> xs. if g \<in> A then sz else 0)" for A
    using new by (intro arg_cong [where f = sum_list] map_cong refl) (force split: if_splits)
  have IH: "u - sum_list (map (\<lambda>(_, sz, fn). if fn \<in> set (?ev u) then sz else 0) xs) \<le> m
    \<or> (\<forall>(_, _, fn) \<in> set xs. Some fn \<noteq> keep \<longrightarrow> fn \<in> set (?ev u))" for u
    using Cons.IH [of u] Cons.prems by simp
  show ?case
  proof (cases "used \<le> m")
    case True
    then show ?thesis using x by (simp add: case_prod_beta)
  next
    case False
    then show ?thesis
      using IH [of used] IH [of "used - sz"] other x same [of "set (?ev (used - sz))"]
      by (cases "Some fn = keep") auto
  qed
qed simp

text \<open>What is in tmpfs: names are distinct and sizes are not negative.\<close>

definition blobs_ok :: "'a disk \<Rightarrow> bool" where
  "blobs_ok dk \<longleftrightarrow> distinct (map fst (dk_blobs dk)) \<and> (\<forall>(_, f) \<in> set (dk_blobs dk). 0 \<le> f_size f)"

definition npz_size :: "'a dir \<Rightarrow> int" where
  "npz_size d = sum_list (map (\<lambda>(_, f). f_size f) (filter (\<lambda>(fn, _). ends_with ''.npz'' fn) d))"

lemma sum_oldest_first:
  "sum_list (map (\<lambda>(_, sz, fn). g sz fn) (oldest_first d)) = (\<Sum>(fn, f) \<leftarrow> d. g (f_size f) fn :: int)"
proof -
  have "mset (oldest_first d) = mset (map (\<lambda>(fn, f). (f_mtime f, f_size f, fn)) d)"
    by (simp add: oldest_first_def)
  then have "sum_mset (image_mset (\<lambda>(_, sz, fn). g sz fn) (mset (oldest_first d))) =
      sum_mset (image_mset (\<lambda>(_, sz, fn). g sz fn) (mset (map (\<lambda>(fn, f). (f_mtime f, f_size f, fn)) d)))"
    by (rule arg_cong)
  then have "sum_list (map (\<lambda>(_, sz, fn). g sz fn) (oldest_first d)) =
      sum_list (map (\<lambda>(_, sz, fn). g sz fn) (map (\<lambda>(fn, f). (f_mtime f, f_size f, fn)) d))"
    by (simp only: mset_map [symmetric] sum_mset_sum_list)
  then show ?thesis by (simp add: o_def case_prod_unfold)
qed

lemma names_oldest_first:
  "(\<lambda>(_, _, fn). fn) ` set (oldest_first d) = fst ` set d"
  "distinct (map fst d) \<Longrightarrow> distinct (map (\<lambda>(_, _, fn). fn) (oldest_first d))"
proof -
  show "(\<lambda>(_, _, fn). fn) ` set (oldest_first d) = fst ` set d"
    by (force simp: oldest_first_def)
  assume "distinct (map fst d)"
  moreover have "mset (map (\<lambda>(_, _, fn). fn) (oldest_first d)) = mset (map fst d)"
    by (simp add: oldest_first_def image_mset.compositionality o_def case_prod_beta)
  ultimately show "distinct (map (\<lambda>(_, _, fn). fn) (oldest_first d))"
    by (metis mset_eq_imp_distinct_iff)
qed

lemma map_of_delete_files:
  "map_of (delete_files bad d) fn = (if bad fn then None else map_of d fn)"
  by (induction d) (auto simp: delete_files_def)

lemma sum_filter_rest:
  "(\<Sum>(fn, f) \<leftarrow> filter (\<lambda>(fn, _). fn \<notin> S) d. h f) =
   (\<Sum>(fn, f) \<leftarrow> d. h f) - (\<Sum>(fn, f) \<leftarrow> d. if fn \<in> S then h f else (0 :: int))"
  by (induction d) auto

text \<open>What is left of the picture files: those neither too old nor evicted fit, or all are in use.\<close>

lemma evicted_fits:
  assumes "distinct (map fst live)"
    and used_def: "used = sum_list (map (\<lambda>(_, f). f_size f) live)"
    and ev_def: "ev = (if used \<le> max_bytes then [] else evict (\<lambda>_. True) keep max_bytes used (oldest_first live))"
  shows "sum_list (map (\<lambda>(_, f). f_size f) (filter (\<lambda>(fn, _). fn \<notin> set ev) live)) \<le> max_bytes \<or>
      (\<forall>(fn, f) \<in> set (filter (\<lambda>(fn, _). fn \<notin> set ev) live). Some fn = keep)"
proof (cases "used \<le> max_bytes")
  case True
  then show ?thesis by (simp add: ev_def used_def case_prod_unfold)
next
  case False
  then have ev: "ev = evict (\<lambda>_. True) keep max_bytes used (oldest_first live)" by (simp add: ev_def)
  let ?size = "sum_list (map (\<lambda>(_, f). f_size f) (filter (\<lambda>(fn, _). fn \<notin> set ev) live))"
  have "?size = used - (\<Sum>(fn, f) \<leftarrow> live. if fn \<in> set ev then f_size f else 0)"
    unfolding used_def by (rule sum_filter_rest)
  also have "\<dots> = used - (\<Sum>(_, sz, fn) \<leftarrow> oldest_first live. if fn \<in> set ev then sz else 0)"
    by (simp add: sum_oldest_first [of "\<lambda>sz fn. if fn \<in> set ev then sz else 0"])
  finally have "?size \<le> max_bytes \<or>
      (\<forall>(_, _, fn) \<in> set (oldest_first live). Some fn \<noteq> keep \<longrightarrow> fn \<in> set ev)"
    using evict_fits [OF names_oldest_first(2) [OF assms(1)], of used keep max_bytes] by (simp add: ev)
  moreover have "\<forall>(fn, f) \<in> set live. Some fn \<noteq> keep \<longrightarrow> fn \<in> set ev"
    if "\<forall>(_, _, fn) \<in> set (oldest_first live). Some fn \<noteq> keep \<longrightarrow> fn \<in> set ev"
    using that names_oldest_first(1) [of live] by (force simp: image_iff set_eq_iff)
  ultimately show ?thesis by force
qed

text \<open>
  C36. The sweep bounds tmpfs and spares what is in use. When deletions succeed, afterwards the
  sidecars in tmpfs fit in the limit unless the one to keep is alone above it; the file to
  keep, everything that is no sidecar, and the whole cache directory are as they were;
  nothing is added, and a sidecar past the age limit is gone.
\<close>
theorem sweep_bounds_tmpfs:
  assumes "blobs_ok dk" and "cf_blob_set cf" and "\<not> cf_same cf" and "dk_blob_exists dk"
    and "dk' = sweep_blobs cf now (\<lambda>_. True) max_age max_bytes keep dk"
  shows "(npz_size (dk_blobs dk') \<le> max_bytes \<or>
      (\<forall>(fn, f) \<in> set (dk_blobs dk'). ends_with ''.npz'' fn \<longrightarrow> Some fn = keep)) \<and>
    (\<forall>fn. Some fn = keep \<or> \<not> ends_with ''.npz'' fn \<longrightarrow> map_of (dk_blobs dk') fn = map_of (dk_blobs dk) fn) \<and>
    dk_cache dk' = dk_cache dk \<and> set (dk_blobs dk') \<subseteq> set (dk_blobs dk) \<and>
    (\<forall>(fn, f) \<in> set (dk_blobs dk'). ends_with ''.npz'' fn \<and> max_age < now - f_mtime f \<longrightarrow> Some fn = keep)"
proof -
  define npz where "npz = filter (\<lambda>(fn, _). ends_with ''.npz'' fn) (dk_blobs dk)"
  define old where "old = (\<lambda>fn (f :: 'a stored). Some fn \<noteq> keep \<and> max_age < now - f_mtime f)"
  define live where "live = filter (\<lambda>(fn, f). \<not> old fn f) npz"
  define used where "used = sum_list (map (\<lambda>(_, f). f_size f) live)"
  define ev where "ev = (if used \<le> max_bytes then [] else evict (\<lambda>_. True) keep max_bytes used (oldest_first live))"
  define gone where "gone = map fst (filter (\<lambda>(fn, f). old fn f) npz) @ ev"
  have dk': "dk' = dk\<lparr>dk_blobs := delete_files (\<lambda>fn. fn \<in> set gone) (dk_blobs dk)\<rparr>"
    unfolding assms(5) sweep_blobs_def gone_def ev_def used_def live_def old_def npz_def
    using assms(2-4) by (simp add: Let_def)
  have dist: "distinct (map fst (dk_blobs dk))" using assms(1) by (simp add: blobs_ok_def)
  then have dist': "distinct (map fst live)" by (simp add: live_def npz_def distinct_map_filter)
  have ev_live: "set ev \<subseteq> fst ` set live"
    using evict_subset [of "\<lambda>_. True" keep max_bytes used "oldest_first live"] names_oldest_first(1) [of live]
    by (auto simp: ev_def)
  have ev_keep: "fn \<notin> set ev" if "Some fn = keep" for fn
    using that evict_spares_keep [of keep fn] by (auto simp: ev_def)
  have gone_npz: "ends_with ''.npz'' fn \<and> Some fn \<noteq> keep" if "fn \<in> set gone" for fn
    using that ev_live ev_keep by (auto simp: gone_def npz_def old_def live_def)
  have kept: "map_of (dk_blobs dk') fn = map_of (dk_blobs dk) fn" if "fn \<notin> set gone" for fn
    using that unfolding dk' by (simp add: map_of_delete_files)
  have "fn \<notin> set gone \<longleftrightarrow> \<not> old fn f \<and> fn \<notin> set ev" if "(fn, f) \<in> set npz" for fn f
  proof -
    have "distinct (map fst npz)" using dist by (simp add: npz_def distinct_map_filter)
    then have "fn \<in> fst ` set (filter (\<lambda>(fn, f). old fn f) npz) \<longleftrightarrow> old fn f"
      using that by (auto simp: image_iff dest: eq_key_imp_eq_value)
    then show ?thesis by (simp add: gone_def)
  qed
  then have left: "filter (\<lambda>(fn, _). ends_with ''.npz'' fn) (dk_blobs dk') = filter (\<lambda>(fn, _). fn \<notin> set ev) live"
    unfolding dk' live_def npz_def delete_files_def by (auto simp: npz_def intro!: filter_cong)
  have fits: "npz_size (dk_blobs dk') \<le> max_bytes \<or>
      (\<forall>(fn, f) \<in> set (filter (\<lambda>(fn, _). fn \<notin> set ev) live). Some fn = keep)"
    using evicted_fits [OF dist' used_def ev_def] unfolding npz_size_def left .
  have inside: "(fn, f) \<in> set (filter (\<lambda>(fn, _). fn \<notin> set ev) live)"
    if "(fn, f) \<in> set (dk_blobs dk')" "ends_with ''.npz'' fn" for fn f
    unfolding left [symmetric] using that by simp
  have "\<forall>(fn, f) \<in> set (dk_blobs dk'). ends_with ''.npz'' fn \<and> max_age < now - f_mtime f \<longrightarrow> Some fn = keep"
    using inside by (force simp: live_def old_def)
  moreover have "npz_size (dk_blobs dk') \<le> max_bytes \<or>
      (\<forall>(fn, f) \<in> set (dk_blobs dk'). ends_with ''.npz'' fn \<longrightarrow> Some fn = keep)"
    using fits inside by blast
  moreover have "dk_cache dk' = dk_cache dk" "set (dk_blobs dk') \<subseteq> set (dk_blobs dk)"
    unfolding dk' by (auto simp: delete_files_def)
  moreover have "\<forall>fn. Some fn = keep \<or> \<not> ends_with ''.npz'' fn \<longrightarrow> map_of (dk_blobs dk') fn = map_of (dk_blobs dk) fn"
    using kept gone_npz by blast
  ultimately show ?thesis by blast
qed

definition full_disk :: "nat disk" where
  "full_disk =
     \<lparr>dk_blob_exists = True,
      dk_blobs = [(''goes-psw-00000001.npz'', \<lparr>f_content = Arrays 1, f_mtime = 10, f_size = 6\<rparr>),
                  (''goes-psw-00000002.npz'', \<lparr>f_content = Arrays 2, f_mtime = 20, f_size = 9\<rparr>),
                  (''adsb.json'', \<lparr>f_content = Json JNull, f_mtime = 0, f_size = 99\<rparr>)],
      dk_cache = []\<rparr>"

theorem sweep_bounds_tmpfs_witness:
  "map_of (dk_blobs (sweep_blobs tmpfs 30 (\<lambda>_. True) 100 10 (Some ''goes-psw-00000002.npz'') full_disk))
      ''goes-psw-00000002.npz'' = Some \<lparr>f_content = Arrays 2, f_mtime = 20, f_size = 9\<rparr> \<and>
   set (dk_blobs (sweep_blobs tmpfs 30 (\<lambda>_. True) 100 10 (Some ''goes-psw-00000002.npz'') full_disk))
      \<subseteq> set (dk_blobs full_disk)"
proof -
  have "blobs_ok full_disk" "cf_blob_set tmpfs" "\<not> cf_same tmpfs" "dk_blob_exists full_disk"
    by (simp_all add: blobs_ok_def full_disk_def tmpfs_def)
  from sweep_bounds_tmpfs [OF this refl, of 30 100 10 "Some ''goes-psw-00000002.npz''"]
  have "map_of (dk_blobs (sweep_blobs tmpfs 30 (\<lambda>_. True) 100 10 (Some ''goes-psw-00000002.npz'') full_disk))
      ''goes-psw-00000002.npz'' = map_of (dk_blobs full_disk) ''goes-psw-00000002.npz''"
    and "set (dk_blobs (sweep_blobs tmpfs 30 (\<lambda>_. True) 100 10 (Some ''goes-psw-00000002.npz'') full_disk))
      \<subseteq> set (dk_blobs full_disk)" by blast+
  then show ?thesis by (simp add: full_disk_def)
qed

text \<open>
  Preferring tmpfs when reading hides a fresh record when tmpfs can be read but not written:
  the record goes to the cache and the old one in tmpfs keeps being served.
\<close>

definition read_only_tmpfs :: config where
  "read_only_tmpfs = tmpfs\<lparr>cf_writable := False\<rparr>"

definition left_over :: "nat disk" where
  "left_over =
     \<lparr>dk_blob_exists = True,
      dk_blobs = [(''adsb.json'', \<lparr>f_content = Json (JObj [(''fetched_at'', JInt 0), (''payload'', JInt 1)]),
                                  f_mtime = 0, f_size = 0\<rparr>)],
      dk_cache = []\<rparr>"

lemma left_over_record_shadows:
  "load read_only_tmpfs tide_registry 100 ''adsb''
     (snd (store read_only_tmpfs tide_registry 100 True ''adsb'' (JInt 2) ''feed'' left_over)) = Some (JInt 1, Fin 100)"
proof -
  have v: "is_volatile tide_registry ''adsb''"
    by (simp add: tide_registry_def product_def is_volatile_def)
  have w: "blob_write_dir read_only_tmpfs left_over = (Cache, left_over)"
    by (simp add: blob_write_dir_def read_only_tmpfs_def tmpfs_def left_over_def)
  have d: "blob_dirs read_only_tmpfs left_over = [Blobs, Cache]"
    by (simp add: blob_dirs_def read_only_tmpfs_def tmpfs_def left_over_def)
  have r: "map_of (dir_at Blobs left_over) ''adsb.json'' =
      Some \<lparr>f_content = Json (JObj [(''fetched_at'', JInt 0), (''payload'', JInt 1)]), f_mtime = 0, f_size = 0\<rparr>"
    by (simp add: left_over_def dir_at_def)
  have n: "\<not> FLOAT_OVERFLOW \<le> \<bar>0\<bar>" by (simp add: FLOAT_OVERFLOW_def)
  show ?thesis
    using v w d r n by (simp add: load_def store_def record_dirs_def lookup_written record_name_def age_at_def)
qed

end
