(* ===== verification/FT_Goes.thy ===== *)
theory FT_Goes
  imports FT_Cache
begin

text \<open>
  The one product whose payload is pixels: the satellite time lapse of \<open>src/demos/ftdata.py\<close>
  (\<open>goes_slots\<close>, \<open>_goes_payload\<close>). A pass keeps the frames it has, downloads the slots that are
  missing, writes a new sidecar, prunes the others and returns the record that names it. The
  download of a slot is a parameter; a frame is any value. The sidecar holds the stamps with
  their frames.
\<close>

section \<open>The window\<close>

definition GOES_CADENCE :: int where "GOES_CADENCE = 300"
definition GOES_PHASE :: int where "GOES_PHASE = 60"
definition GOES_FRAMES :: nat where "GOES_FRAMES = 72"
definition GOES_MAX_FETCH :: nat where "GOES_MAX_FETCH = 96"

definition GOES_PRODUCT :: string where "GOES_PRODUCT = ''goes-psw''"

definition goes_slots :: "rat \<Rightarrow> nat \<Rightarrow> int list" where
  "goes_slots now cnt =
     (let newest = \<lfloor>(now - of_int GOES_PHASE) / of_int GOES_CADENCE\<rfloor> * GOES_CADENCE + GOES_PHASE
      in map (\<lambda>i. newest - int i * GOES_CADENCE) (rev [0..<cnt]))"

section \<open>One pass\<close>

text \<open>
  The frames of the last pass that are still in the window, by their stamps; \<open>None\<close>: the
  record's payload is neither an object nor empty, and \<open>get\<close> raises.
\<close>

definition goes_window :: "int list \<Rightarrow> (int \<times> 'f) list \<Rightarrow> (int \<times> 'f) list" where
  "goes_window wanted frames =
     fold (\<lambda>(t, f) got. if t \<in> set wanted then AList.update t f got else got) frames []"

definition goes_have ::
  "config \<Rightarrow> registry \<Rightarrow> rat \<Rightarrow> int list \<Rightarrow> (int \<times> 'f) list disk \<Rightarrow> (int \<times> 'f) list option" where
  "goes_have cf reg now wanted dk =
     (case load cf reg now GOES_PRODUCT dk of
        None \<Rightarrow> Some []
      | Some (payload, _) \<Rightarrow>
          if \<not> truthy payload then Some []
          else (case payload of
            JObj d \<Rightarrow>
              (case load_blob cf (dget_or d ''blob'' JNull) dk of
                 None \<Rightarrow> Some []
               | Some frames \<Rightarrow> Some (goes_window wanted frames))
          | _ \<Rightarrow> None))"

definition goes_todo :: "int list \<Rightarrow> (int \<times> 'f) list \<Rightarrow> int list" where
  "goes_todo wanted got =
     take GOES_MAX_FETCH (filter (\<lambda>t. map_of got t = None) (rev wanted))"

fun goes_download ::
  "(int \<Rightarrow> 'f option) \<Rightarrow> int list \<Rightarrow> (int \<times> 'f) list \<times> nat \<times> nat \<Rightarrow> (int \<times> 'f) list \<times> nat \<times> nat" where
  "goes_download tile [] acc = acc"
| "goes_download tile (t # ts) (got, fetched, failed) =
     (case tile t of
        Some f \<Rightarrow> goes_download tile ts (AList.update t f got, Suc fetched, failed)
      | None \<Rightarrow> goes_download tile ts (got, fetched, Suc failed))"

text \<open>
  \<open>_goes_payload\<close>: \<open>rest\<close> are the fields that describe the product (satellite, sector, crop
  and the like), \<open>ok\<close> whether the sidecar can be written, \<open>can\<close> which deletions succeed.
\<close>

definition goes_payload ::
  "config \<Rightarrow> registry \<Rightarrow> rat \<Rightarrow> nat \<Rightarrow> bool \<Rightarrow> (place \<Rightarrow> string \<Rightarrow> bool) \<Rightarrow> rat \<Rightarrow> int
     \<Rightarrow> (int \<Rightarrow> 'f option) \<Rightarrow> int \<Rightarrow> dict \<Rightarrow> string
     \<Rightarrow> (int \<times> 'f) list disk \<Rightarrow> (json \<times> string) option \<times> (int \<times> 'f) list disk" where
  "goes_payload cf reg now token ok can max_age max_bytes tile nbytes rest source dk =
     (let wanted = goes_slots now GOES_FRAMES in
      case goes_have cf reg now wanted dk of None \<Rightarrow> (None, dk) | Some got \<Rightarrow>
      let (got1, fetched, failed) = goes_download tile (goes_todo wanted got) (got, 0, 0);
          stamps = sort (map fst got1)
      in if stamps = [] then (None, dk)
         else case store_blob cf now token ok GOES_PRODUCT
                     (map (\<lambda>t. (t, the (map_of got1 t))) stamps) nbytes dk of
           (None, dk1) \<Rightarrow> (None, dk1)
         | (Some filename, dk1) \<Rightarrow>
             (Some (JObj ([(''blob'', JStr filename), (''count'', JInt (int (length stamps))),
                           (''stamps'', JArr (map (\<lambda>t. JFloat (Fin (of_int t))) stamps)),
                           (''oldest'', JFloat (Fin (of_int (hd stamps)))),
                           (''newest'', JFloat (Fin (of_int (last stamps)))),
                           (''cadence'', JInt GOES_CADENCE), (''want'', JInt (int (length wanted)))] @ rest @
                          [(''fetched'', JInt (int fetched)), (''missing'', JInt (int failed))]), source),
              prune_blobs cf now can max_age max_bytes GOES_PRODUCT filename dk1))"

section \<open>The window is what it should be\<close>

lemma goes_slots_sorted: "sorted_wrt (<) (goes_slots now cnt)"
  by (simp add: goes_slots_def Let_def sorted_wrt_map sorted_wrt_rev GOES_CADENCE_def)

lemma length_goes_slots [simp]: "length (goes_slots now cnt) = cnt"
  by (simp add: goes_slots_def Let_def)

lemma goes_slots_bound: "t \<in> set (goes_slots now cnt) \<Longrightarrow> of_int t \<le> now"
proof -
  let ?q = "(now - of_int GOES_PHASE) / of_int GOES_CADENCE"
  assume "t \<in> set (goes_slots now cnt)"
  then have "t \<le> \<lfloor>?q\<rfloor> * GOES_CADENCE + GOES_PHASE"
    by (auto simp: goes_slots_def Let_def GOES_CADENCE_def)
  then have "rat_of_int t \<le> rat_of_int (\<lfloor>?q\<rfloor> * GOES_CADENCE + GOES_PHASE)" by (simp only: of_int_le_iff)
  also have "\<dots> \<le> ?q * of_int GOES_CADENCE + of_int GOES_PHASE"
    using of_int_floor_le [of ?q] by (simp add: GOES_CADENCE_def)
  also have "\<dots> = now" by (simp add: GOES_CADENCE_def field_simps)
  finally show ?thesis .
qed

lemma map_of_window_fold:
  "map_of (fold (\<lambda>(t, f) got. if t \<in> W then AList.update t f got else got) frames acc) t =
     (if t \<in> W \<and> map_of (rev frames) t \<noteq> None then map_of (rev frames) t else map_of acc t)"
proof (induction frames arbitrary: acc)
  case (Cons p frames)
  obtain u f where p: "p = (u, f)" by (cases p)
  show ?case
    using Cons.IH [of "if u \<in> W then AList.update u f acc else acc"]
    by (auto simp: p update_conv map_add_def split: option.splits if_splits)
qed simp

lemma goes_download_have:
  "goes_download tile ts (got, n, m) = (got1, n1, m1) \<Longrightarrow>
   map_of got1 t = (if t \<in> set ts \<and> tile t \<noteq> None then tile t else map_of got t)"
proof (induction ts arbitrary: got n m)
  case (Cons u ts)
  then show ?case by (cases "tile u") (auto simp: update_conv split: if_splits)
qed simp

lemma goes_download_distinct:
  "goes_download tile ts (got, n, m) = (got1, n1, m1) \<Longrightarrow> distinct (map fst got) \<Longrightarrow> distinct (map fst got1)"
proof (induction ts arbitrary: got n m)
  case (Cons u ts)
  then show ?case by (cases "tile u") (auto simp: distinct_update)
qed simp

lemma map_of_window:
  "map_of (goes_window wanted frames) t = (if t \<in> set wanted then map_of (rev frames) t else None)"
  by (auto simp: goes_window_def map_of_window_fold)

section \<open>What the cleaning leaves\<close>

lemma sweep_exists [simp]: "dk_blob_exists (sweep_blobs cf now can a b keep dk) = dk_blob_exists dk"
  by (simp add: sweep_blobs_def Let_def)

lemma sweep_cache [simp]: "dir_at Cache (sweep_blobs cf now can a b keep dk) = dir_at Cache dk"
  by (simp add: sweep_blobs_def Let_def dir_at_def)

lemma sweep_lookup:
  "map_of (dir_at p (sweep_blobs cf now can a b keep dk)) fn \<in> {None, map_of (dir_at p dk) fn}"
  by (cases p) (simp_all add: sweep_blobs_def Let_def dir_at_def map_of_delete_files)

lemma sweep_spares:
  assumes "Some fn = keep"
  shows "map_of (dir_at p (sweep_blobs cf now can a b keep dk)) fn = map_of (dir_at p dk) fn"
  using assms evict_spares_keep [of keep fn]
  by (cases p) (auto simp: sweep_blobs_def Let_def dir_at_def map_of_delete_files split: if_splits)

lemma fold_delete_lookup:
  "distinct ps \<Longrightarrow>
   map_of (dir_at p (fold (\<lambda>p dk. set_dir p (delete_files (bad p) (dir_at p dk)) dk) ps dk)) fn =
     (if p \<in> set ps \<and> bad p fn then None else map_of (dir_at p dk) fn)"
proof (induction ps arbitrary: dk)
  case (Cons q ps)
  then show ?case by (cases "p = q") (auto simp: map_of_delete_files)
qed simp

lemma fold_delete_exists:
  "dk_blob_exists (fold (\<lambda>p dk. set_dir p (delete_files (bad p) (dir_at p dk)) dk) ps dk) = dk_blob_exists dk"
  by (induction ps arbitrary: dk) simp_all

lemma prune_lookup:
  shows "fn \<noteq> keep \<Longrightarrow> is_blob_of name fn \<Longrightarrow> can p fn \<Longrightarrow> p \<in> set (blob_dirs cf dk) \<Longrightarrow>
      map_of (dir_at p (prune_blobs cf now can a b name keep dk)) fn = None"
    and "map_of (dir_at p (prune_blobs cf now can a b name keep dk)) keep = map_of (dir_at p dk) keep"
    and "\<not> ends_with ''.npz'' fn \<Longrightarrow>
      map_of (dir_at Cache (prune_blobs cf now can a b name keep dk)) fn = map_of (dir_at Cache dk) fn"
    and "blob_dirs cf (prune_blobs cf now can a b name keep dk) = blob_dirs cf dk"
proof -
  have d: "distinct (blob_dirs cf dk)" by (simp add: blob_dirs_def)
  note f = fold_delete_lookup [OF d, of _ "\<lambda>p fn. fn \<noteq> keep \<and> is_blob_of name fn \<and> can p fn" dk]
  show "map_of (dir_at p (prune_blobs cf now can a b name keep dk)) fn = None"
    if "fn \<noteq> keep" "is_blob_of name fn" "can p fn" "p \<in> set (blob_dirs cf dk)"
    using that f [of p fn] sweep_lookup [of p cf now "can Blobs" a b "Some keep"] unfolding prune_blobs_def
    by (metis (no_types, lifting) empty_iff insert_iff)
  show "map_of (dir_at p (prune_blobs cf now can a b name keep dk)) keep = map_of (dir_at p dk) keep"
    using f [of p keep] unfolding prune_blobs_def by (simp add: sweep_spares)
  show "map_of (dir_at Cache (prune_blobs cf now can a b name keep dk)) fn = map_of (dir_at Cache dk) fn"
    if "\<not> ends_with ''.npz'' fn"
    using that f [of Cache fn] unfolding prune_blobs_def by (simp add: is_blob_of_def)
  show "blob_dirs cf (prune_blobs cf now can a b name keep dk) = blob_dirs cf dk"
    unfolding prune_blobs_def by (simp add: blob_dirs_def fold_delete_exists)
qed

text \<open>The name of a sidecar is a plain file name of its product and never that of a record.\<close>

lemma hex_digits_plain: "c \<in> set (hex_digits k n) \<Longrightarrow> c \<noteq> CHR ''/''"
proof (induction k arbitrary: n)
  case (Suc k)
  have "of_char (char_of (48 + n mod 16) :: char) = (48 + n mod 16 :: nat)" if "n mod 16 < 10"
    using that by (simp add: of_char_of)
  then have "char_of (48 + n mod 16) \<noteq> CHR ''/''" if "n mod 16 < 10"
    using that by fastforce
  moreover have "of_char (char_of (87 + n mod 16) :: char) = (87 + n mod 16 :: nat)"
    by (simp add: of_char_of)
  then have "char_of (87 + n mod 16) \<noteq> CHR ''/''" by fastforce
  ultimately show ?case using Suc by (auto split: if_splits)
qed simp

lemma blob_name_facts:
  "blob_name GOES_PRODUCT token \<noteq> []"
  "is_basename (blob_name GOES_PRODUCT token)"
  "blob_name GOES_PRODUCT token \<noteq> record_name name"
proof -
  show "blob_name GOES_PRODUCT token \<noteq> []" by (simp add: blob_name_def)
  show "is_basename (blob_name GOES_PRODUCT token)"
    using hex_digits_plain by (auto simp: is_basename_def blob_name_def GOES_PRODUCT_def)
  show "blob_name GOES_PRODUCT token \<noteq> record_name name"
  proof
    assume "blob_name GOES_PRODUCT token = record_name name"
    then have "last (blob_name GOES_PRODUCT token) = last (record_name name)" by simp
    then show False by (simp add: blob_name_def record_name_def)
  qed
qed

lemma ends_withD: "ends_with q s \<Longrightarrow> \<exists>p. s = p @ q"
  unfolding ends_with_def by (metis append_take_drop_id)

lemma record_not_npz: "\<not> ends_with ''.npz'' (record_name name)"
proof
  assume "ends_with ''.npz'' (record_name name)"
  then obtain p where "record_name name = p @ ''.npz''" using ends_withD by blast
  then have "last (record_name name) = CHR ''z''" by simp
  then show False by (simp add: record_name_def)
qed

section \<open>A pass of the time lapse\<close>

lemma goes_payload_effect:
  assumes "goes_payload cf reg now token ok can a b tile nbytes rest source dk = (Some (payload, src), dk')"
  shows "\<exists>got got1 n m p dk1.
    goes_have cf reg now (goes_slots now GOES_FRAMES) dk = Some got \<and>
    goes_download tile (goes_todo (goes_slots now GOES_FRAMES) got) (got, 0, 0) = (got1, n, m) \<and>
    map fst got1 \<noteq> [] \<and> blob_write_dir cf dk = (p, dk1) \<and>
    dk' = prune_blobs cf now can a b GOES_PRODUCT (blob_name GOES_PRODUCT token)
      (write_file p (blob_name GOES_PRODUCT token)
        \<lparr>f_content = Arrays (map (\<lambda>t. (t, the (map_of got1 t))) (sort (map fst got1))), f_mtime = now, f_size = nbytes\<rparr> dk1) \<and>
    (\<exists>d. payload = JObj ((''blob'', JStr (blob_name GOES_PRODUCT token)) # d))"
  using assms
  by (auto simp: goes_payload_def Let_def store_blob_def split: option.splits prod.splits if_splits)

lemma goes_window_distinct:
  fixes frames :: "(int \<times> 'b) list"
  shows "distinct (map fst (goes_window wanted frames))"
proof -
  have "distinct (map fst acc) \<Longrightarrow>
      distinct (map fst (fold (\<lambda>(t, f) got. if t \<in> W then AList.update t f got else got) frames acc))"
    for acc frames :: "(int \<times> 'b) list" and W
  proof (induction frames arbitrary: acc)
    case (Cons x frames)
    obtain u f where x: "x = (u, f)" by (cases x)
    show ?case
      using Cons.IH [of "if u \<in> W then AList.update u f acc else acc"] Cons.prems
      by (simp add: x distinct_update)
  qed simp
  from this [of "[]"] show ?thesis by (simp add: goes_window_def)
qed

lemma goes_have_distinct:
  assumes "goes_have cf reg now wanted dk = Some got"
  shows "distinct (map fst got)" and "fst ` set got \<subseteq> set wanted"
proof -
  have "got = [] \<or> (\<exists>frames. got = goes_window wanted frames)"
    using assms by (auto simp: goes_have_def split: option.splits if_splits json.splits prod.splits)
  then show "distinct (map fst got)" using goes_window_distinct by auto
  have "map_of got t = None" if "t \<notin> set wanted" for t
    using that \<open>got = [] \<or> (\<exists>frames. got = goes_window wanted frames)\<close> by (auto simp: map_of_window)
  then show "fst ` set got \<subseteq> set wanted" by (auto simp: map_of_eq_None_iff)
qed

text \<open>The frames of the window after the download, in order of their stamps.\<close>

lemma window_downloaded:
  assumes "goes_have cf reg now (goes_slots now GOES_FRAMES) dk = Some got"
    and dl: "goes_download tile (goes_todo (goes_slots now GOES_FRAMES) got) (got, 0, 0) = (got1, n, m)"
    and frames_def: "frames = map (\<lambda>t. (t, the (map_of got1 t))) (sort (map fst got1))"
  shows "map fst frames = filter (\<lambda>t. map_of got t \<noteq> None \<or> tile t \<noteq> None) (goes_slots now GOES_FRAMES)"
    and "\<forall>t \<in> set (map fst frames). map_of frames t = (case map_of got t of Some f \<Rightarrow> Some f | None \<Rightarrow> tile t)"
proof -
  let ?W = "goes_slots now GOES_FRAMES"
  have W: "distinct ?W" "sorted ?W"
    using goes_slots_sorted [of now GOES_FRAMES] by (simp_all add: strict_sorted_iff)
  have got: "distinct (map fst got)" "fst ` set got \<subseteq> set ?W"
    by (rule goes_have_distinct [OF assms(1)])+
  have "length (filter (\<lambda>t. map_of got t = None) (rev ?W)) \<le> length (rev ?W)" by (rule length_filter_le)
  then have todo: "goes_todo ?W got = filter (\<lambda>t. map_of got t = None) (rev ?W)"
    by (simp add: goes_todo_def GOES_MAX_FETCH_def GOES_FRAMES_def)
  have got1: "map_of got1 t = (if t \<in> set ?W \<and> map_of got t = None \<and> tile t \<noteq> None then tile t else map_of got t)" for t
    using goes_download_have [OF dl, of t] by (simp add: todo)
  have in_W: "t \<in> set ?W" if "map_of got t \<noteq> None" for t
    using that got(2) by (auto simp: map_of_eq_None_iff)
  have "set (map fst got1) = {t. map_of got1 t \<noteq> None}" by (auto simp: map_of_eq_None_iff)
  also have "\<dots> = set (filter (\<lambda>t. map_of got t \<noteq> None \<or> tile t \<noteq> None) ?W)"
    using in_W by (auto simp: got1)
  finally have "sort (map fst got1) = filter (\<lambda>t. map_of got t \<noteq> None \<or> tile t \<noteq> None) ?W"
    using goes_download_distinct [OF dl got(1)] W
    by (intro sorted_distinct_set_unique) (simp_all add: sorted_wrt_filter)
  then show stamps: "map fst frames = filter (\<lambda>t. map_of got t \<noteq> None \<or> tile t \<noteq> None) ?W"
    by (simp add: frames_def o_def)
  show "\<forall>t \<in> set (map fst frames). map_of frames t = (case map_of got t of Some f \<Rightarrow> Some f | None \<Rightarrow> tile t)"
  proof
    fix t assume t: "t \<in> set (map fst frames)"
    then have "map_of frames t = Some (the (map_of got1 t))"
      unfolding frames_def by (simp add: o_def map_of_map_restrict image_image)
    moreover have "map_of got1 t = (case map_of got t of Some f \<Rightarrow> Some f | None \<Rightarrow> tile t)"
      "map_of got1 t \<noteq> None"
      using t unfolding stamps by (auto simp: got1 split: option.split)
    ultimately show "map_of frames t = (case map_of got t of Some f \<Rightarrow> Some f | None \<Rightarrow> tile t)" by simp
  qed
qed

text \<open>
  C13. The time lapse is what a full download would have given. After a pass that succeeds, the
  sidecar its record names can be read and holds, in the order of the window, exactly the
  slots that were held or could be downloaded: a slot that was held keeps its frame and is
  not downloaded again, and any other has the frame the download gave. It needs that no file
  of the new random name exists yet.
\<close>
theorem goes_window_is_complete:
  assumes "goes_payload cf reg now token ok can a b tile nbytes rest source dk = (Some (payload, src), dk')"
    and "goes_have cf reg now (goes_slots now GOES_FRAMES) dk = Some got"
    and "map_of (dk_blobs dk) (blob_name GOES_PRODUCT token) = None"
  shows "\<exists>d frames. payload = JObj d \<and> load_blob cf (dget_or d ''blob'' JNull) dk' = Some frames \<and>
    map fst frames = filter (\<lambda>t. map_of got t \<noteq> None \<or> tile t \<noteq> None) (goes_slots now GOES_FRAMES) \<and>
    (\<forall>t \<in> set (map fst frames). map_of frames t = (case map_of got t of Some f \<Rightarrow> Some f | None \<Rightarrow> tile t))"
proof -
  let ?W = "goes_slots now GOES_FRAMES" and ?fn = "blob_name GOES_PRODUCT token"
  obtain got1 n m p dk1 d where dl: "goes_download tile (goes_todo ?W got) (got, 0, 0) = (got1, n, m)"
    and w: "blob_write_dir cf dk = (p, dk1)"
    and dk': "dk' = prune_blobs cf now can a b GOES_PRODUCT ?fn (write_file p ?fn
        \<lparr>f_content = Arrays (map (\<lambda>t. (t, the (map_of got1 t))) (sort (map fst got1))), f_mtime = now, f_size = nbytes\<rparr> dk1)"
    and payload: "payload = JObj ((''blob'', JStr ?fn) # d)"
    using goes_payload_effect [OF assms(1)] assms(2) by auto
  define frames where "frames = map (\<lambda>t. (t, the (map_of got1 t))) (sort (map fst got1))"
  note window = window_downloaded [OF assms(2) dl frames_def]
  have "load_blob cf (JStr ?fn) dk' = Some frames"
  proof (cases p)
    case Blobs
    then show ?thesis using blob_name_facts(1,2) [of token] blob_write_dir_exists [OF w]
      unfolding dk' by (simp add: load_blob_def prune_lookup lookup_written frames_def)
  next
    case Cache
    have "map_of (dir_at Blobs dk1) ?fn = None"
      using assms(3) blob_write_dir_exists [OF w] by (metis dir_at_def place.simps(3))
    then show ?thesis using blob_name_facts(1,2) [of token] Cache
      unfolding dk' by (simp add: load_blob_def prune_lookup lookup_written frames_def blob_dirs_def)
  qed
  then have "load_blob cf (dget_or ((''blob'', JStr ?fn) # d) ''blob'' JNull) dk' = Some frames"
    by (simp add: dget_or_def)
  then show ?thesis using payload window by blast
qed

lemma read_blob_none:
  "\<forall>p \<in> set ps. map_of (dir_at p dk) fn = None \<Longrightarrow> read_blob fn dk ps = None"
  by (induction ps) auto

text \<open>
  A pass that cannot write its record destroys the picture of the last one. The sidecars
  are pruned before the record that names the new one is written: if that write fails (or
  for a reader in between) the old record is still served unchanged, at any later time, but
  the sidecar it names is gone.
\<close>
theorem failed_record_orphans_the_picture:
  assumes "load cf reg now GOES_PRODUCT dk = Some (JObj d, age)" and "dget d ''blob'' = Some (JStr old)"
    and "is_blob_of GOES_PRODUCT old" and "old \<noteq> blob_name GOES_PRODUCT token"
    and "\<not> is_volatile reg GOES_PRODUCT"
    and "fetch cf reg now False (goes_payload cf reg now token ok (\<lambda>_ _. True) a b tile nbytes rest source)
      GOES_PRODUCT dk = (StoreRaised, dk')"
  shows "load cf reg later GOES_PRODUCT dk' = load cf reg later GOES_PRODUCT dk \<and>
    load cf reg now GOES_PRODUCT dk' = Some (JObj d, age) \<and> load_blob cf (dget_or d ''blob'' JNull) dk' = None"
proof -
  let ?run = "goes_payload cf reg now token ok (\<lambda>_ _. True) a b tile nbytes rest source"
  let ?fn = "blob_name GOES_PRODUCT token"
  obtain payload src where run: "?run dk = (Some (payload, src), dk')"
    using assms(5,6) by (auto simp: fetch_def store_def split: prod.splits option.splits)
  obtain f p dk1 where w: "blob_write_dir cf dk = (p, dk1)"
    and dk': "dk' = prune_blobs cf now (\<lambda>_ _. True) a b GOES_PRODUCT ?fn (write_file p ?fn f dk1)"
    using goes_payload_effect [OF run] by blast
  have "map_of (dir_at Cache dk') (record_name GOES_PRODUCT) = map_of (dir_at Cache dk) (record_name GOES_PRODUCT)"
    unfolding dk' using blob_name_facts(3) [of token GOES_PRODUCT] blob_write_dir_exists [OF w]
    by (simp add: prune_lookup record_not_npz lookup_written)
  then have "read_record GOES_PRODUCT dk' [Cache] = read_record GOES_PRODUCT dk [Cache]"
    by (simp split: option.split)
  then have same: "load cf reg t GOES_PRODUCT dk' = load cf reg t GOES_PRODUCT dk" for t
    using assms(5) by (simp add: load_def record_dirs_def)
  have "map_of (dir_at q dk') old = None" if "q \<in> set (blob_dirs cf dk')" for q
    using that assms(3,4) unfolding dk' by (simp add: prune_lookup)
  then have "load_blob cf (JStr old) dk' = None"
    by (simp add: load_blob_def read_blob_none)
  then show ?thesis using same [of later] same [of now] assms(1,2) by (simp add: dget_or_def)
qed

lemma goes_payload_succeeds:
  assumes "goes_have cf reg now (goes_slots now GOES_FRAMES) dk = Some got" and "\<And>t. tile t \<noteq> None"
  shows "\<exists>payload src dk'. goes_payload cf reg now token True can a b tile nbytes rest source dk = (Some (payload, src), dk')"
proof -
  let ?W = "goes_slots now GOES_FRAMES"
  obtain got1 n m where dl: "goes_download tile (goes_todo ?W got) (got, 0, 0) = (got1, n, m)"
    by (cases "goes_download tile (goes_todo ?W got) (got, 0, 0)") auto
  have "?W \<noteq> []" using length_goes_slots [of now GOES_FRAMES] unfolding GOES_FRAMES_def by force
  then obtain t where t: "t \<in> set ?W" by (meson list.set_sel(1))
  have "filter (\<lambda>t. map_of got t = None) (rev ?W) = [] \<Longrightarrow> map_of got t \<noteq> None"
    using t by (auto simp: filter_empty_conv)
  moreover have "map_of got1 (hd (goes_todo ?W got)) \<noteq> None" if "goes_todo ?W got \<noteq> []"
    using goes_download_have [OF dl, of "hd (goes_todo ?W got)"] that assms(2) by simp
  moreover have "filter (\<lambda>t. map_of got t = None) (rev ?W) \<noteq> [] \<Longrightarrow> goes_todo ?W got \<noteq> []"
    by (simp add: goes_todo_def GOES_MAX_FETCH_def)
  ultimately have "got1 \<noteq> []"
    using goes_download_have [OF dl, of t] by (metis map_of.simps(1))
  then have "sort (map fst got1) \<noteq> []" by (metis length_0_conv length_map length_sort)
  then show ?thesis
    using assms(1) dl
    by (auto simp: goes_payload_def Let_def store_blob_def split: prod.split)
qed

definition goes_registry :: registry where
  "goes_registry = product GOES_PRODUCT 1800 None False []"

definition last_pass :: "(int \<times> nat) list disk" where
  "last_pass =
     \<lparr>dk_blob_exists = True,
      dk_blobs = [(''goes-psw-0000002a.npz'', \<lparr>f_content = Arrays [(60, 5)], f_mtime = 100, f_size = 9\<rparr>)],
      dk_cache = [(''goes-psw.json'', \<lparr>f_content = Json (JObj [(''fetched_at'', JInt 100),
          (''payload'', JObj [(''blob'', JStr ''goes-psw-0000002a.npz'')])]), f_mtime = 100, f_size = 9\<rparr>)]\<rparr>"

lemma blob_name_7: "blob_name GOES_PRODUCT 7 = ''goes-psw-00000007.npz''"
  by code_simp

lemma last_pass_loads:
  "load tmpfs goes_registry 400 GOES_PRODUCT last_pass =
     Some (JObj [(''blob'', JStr ''goes-psw-0000002a.npz'')], Fin 300)"
  "load_blob tmpfs (JStr ''goes-psw-0000002a.npz'') last_pass = Some [(60, 5)]"
  by (simp_all add: load_def record_dirs_def is_volatile_def goes_registry_def product_def record_name_def
      GOES_PRODUCT_def dir_at_def last_pass_def age_at_def FLOAT_OVERFLOW_def load_blob_def is_basename_def
      blob_dirs_def tmpfs_def)

lemma last_pass_have:
  "goes_have tmpfs goes_registry 400 wanted last_pass = Some (goes_window wanted [(60, 5)])"
  by (simp add: goes_have_def last_pass_loads dget_or_def)

definition plain_pass :: "(int \<times> nat) list disk \<Rightarrow> (json \<times> string) option \<times> (int \<times> nat) list disk" where
  "plain_pass = goes_payload tmpfs goes_registry 400 7 True (\<lambda>_ _. True) 86400 67108864 (\<lambda>t. Some 1) 9 [] ''cdn''"

theorem goes_window_is_complete_witness:
  "\<exists>payload src dk' d frames. plain_pass last_pass = (Some (payload, src), dk') \<and> payload = JObj d \<and>
     load_blob tmpfs (dget_or d ''blob'' JNull) dk' = Some frames \<and> length frames = 72"
proof -
  obtain payload src dk' where r: "plain_pass last_pass = (Some (payload, src), dk')"
    using goes_payload_succeeds [OF last_pass_have, of "\<lambda>_. Some 1"] unfolding plain_pass_def by blast
  have fresh: "map_of (dk_blobs last_pass) (blob_name GOES_PRODUCT 7) = None"
    by (simp add: last_pass_def blob_name_7)
  note w = goes_window_is_complete [OF r [unfolded plain_pass_def] last_pass_have fresh]
  obtain d frames where d: "payload = JObj d" "load_blob tmpfs (dget_or d ''blob'' JNull) dk' = Some frames"
    and stamps: "map fst frames = filter (\<lambda>t. map_of (goes_window (goes_slots 400 GOES_FRAMES) [(60, 5 :: nat)]) t \<noteq> None \<or> Some (1 :: nat) \<noteq> None)
        (goes_slots 400 GOES_FRAMES)"
    using w by blast
  have "length (map fst frames) = 72" unfolding stamps by (simp add: GOES_FRAMES_def)
  with d show ?thesis using r by (intro exI conjI) simp_all
qed

theorem failed_record_orphans_the_picture_witness:
  "load_blob tmpfs (JStr ''goes-psw-0000002a.npz'') last_pass = Some [(60, 5)] \<and>
   (\<exists>dk'. fetch tmpfs goes_registry 400 False plain_pass GOES_PRODUCT last_pass = (StoreRaised, dk') \<and>
     load tmpfs goes_registry 500 GOES_PRODUCT dk' = load tmpfs goes_registry 500 GOES_PRODUCT last_pass \<and>
     load_blob tmpfs (JStr ''goes-psw-0000002a.npz'') dk' = None)"
proof -
  obtain payload src dk1 where r: "plain_pass last_pass = (Some (payload, src), dk1)"
    using goes_payload_succeeds [OF last_pass_have, of "\<lambda>_. Some 1"] unfolding plain_pass_def by blast
  have v: "\<not> is_volatile goes_registry GOES_PRODUCT"
    by (simp add: is_volatile_def goes_registry_def product_def)
  then obtain dk' where f: "fetch tmpfs goes_registry 400 False plain_pass GOES_PRODUCT last_pass = (StoreRaised, dk')"
    using r by (simp add: fetch_def store_def)
  have "dget [(''blob'', JStr ''goes-psw-0000002a.npz'')] ''blob'' = Some (JStr ''goes-psw-0000002a.npz'')" by simp
  moreover have "is_blob_of GOES_PRODUCT ''goes-psw-0000002a.npz''"
    by (simp add: is_blob_of_def GOES_PRODUCT_def starts_with_def ends_with_def)
  moreover have "''goes-psw-0000002a.npz'' \<noteq> blob_name GOES_PRODUCT 7"
    by (simp add: blob_name_7)
  ultimately show ?thesis
    using failed_record_orphans_the_picture [OF last_pass_loads(1) _ _ _ v f [unfolded plain_pass_def], of "''goes-psw-0000002a.npz''" 500]
      f last_pass_loads(2) by (simp add: dget_or_def)
qed

end
