(* ===== verification/FT_Protobuf.thy ===== *)
theory FT_Protobuf
  imports FT_Json
begin

unbundle bit_operations_syntax

text \<open>
  The protobuf reader of \<open>src/demos/ftdata.py\<close> (\<open>_pb_varint\<close>, \<open>_pb_fields\<close>, \<open>_pb_get\<close>,
  \<open>_pb_signed\<close>) and what is built on it: the parse of the train feed (\<open>_bart_parse\<close>) and the
  choice of a line and direction for a trip (\<open>_bart_line_of\<close>). Reading past the end of the
  buffer raises \<open>IndexError\<close>; a slice past it is shorter. The station table is a parameter.
\<close>

section \<open>The wire format\<close>

datatype pb_error = IndexError | BadWireType nat nat | Wrong py_error

text \<open>A varint at \<open>i\<close>: \<open>r\<close> and \<open>s\<close> are the loop's accumulator and shift.\<close>

function pb_varint_from :: "byte list \<Rightarrow> nat \<Rightarrow> nat \<Rightarrow> nat \<Rightarrow> pb_error + (nat \<times> nat)" where
  "pb_varint_from buf i r s =
     (if length buf \<le> i then Inl IndexError
      else
        let c = unat (buf ! i);
            r' = r OR push_bit s (c AND 127)
        in if c AND 128 = 0 then Inr (r', i + 1)
           else pb_varint_from buf (i + 1) r' (s + 7))"
  by pat_completeness auto
termination
  by (relation "measure (\<lambda>(buf, i, _, _). length buf - i)") auto

declare pb_varint_from.simps [simp del]

definition pb_varint :: "byte list \<Rightarrow> nat \<Rightarrow> pb_error + (nat \<times> nat)" where
  "pb_varint buf i = pb_varint_from buf i 0 0"

datatype pb_value = VInt nat | VBytes "byte list"

type_synonym pb_field = "nat \<times> nat \<times> pb_value"

text \<open>\<open>buf[i:i + n]\<close>.\<close>

definition cut :: "byte list \<Rightarrow> nat \<Rightarrow> nat \<Rightarrow> byte list" where
  "cut buf i n = take n (drop i buf)"

definition pb_value_at :: "byte list \<Rightarrow> nat \<Rightarrow> nat \<Rightarrow> pb_error + (pb_value \<times> nat)" where
  "pb_value_at buf wt i =
     (if wt = 0 then bindE (pb_varint buf i) (\<lambda>(v, j). Inr (VInt v, j))
      else if wt = 2 then bindE (pb_varint buf i) (\<lambda>(ln, j). Inr (VBytes (cut buf j ln), j + ln))
      else if wt = 5 then Inr (VBytes (cut buf i 4), i + 4)
      else if wt = 1 then Inr (VBytes (cut buf i 8), i + 8)
      else Inl (BadWireType wt i))"

lemma pb_varint_from_moves: "pb_varint_from buf i r s = Inr (v, j) \<Longrightarrow> i < j \<and> j \<le> length buf"
proof (induction buf i r s rule: pb_varint_from.induct)
  case (1 buf i r s)
  let ?c = "unat (buf ! i)"
  have more: "i < length buf" using "1.prems" by (subst (asm) pb_varint_from.simps) (simp split: if_splits)
  show ?case
  proof (cases "?c AND 128 = 0")
    case True
    then show ?thesis using "1.prems" more by (subst (asm) pb_varint_from.simps) (simp add: Let_def)
  next
    case False
    then have "pb_varint_from buf (i + 1) (r OR push_bit s (?c AND 127)) (s + 7) = Inr (v, j)"
      using "1.prems" more by (subst (asm) pb_varint_from.simps) (simp add: Let_def)
    then show ?thesis using "1.IH" [OF _ refl refl False] more by simp
  qed
qed

lemma pb_varint_moves: "pb_varint buf i = Inr (v, j) \<Longrightarrow> i < j \<and> j \<le> length buf"
  unfolding pb_varint_def by (rule pb_varint_from_moves)

lemma pb_value_at_moves: "pb_value_at buf wt i = Inr (v, j) \<Longrightarrow> i \<le> j"
  by (auto simp: pb_value_at_def split: if_splits elim!: bindE_E dest!: pb_varint_moves)

text \<open>The loop of \<open>_pb_fields\<close>, from \<open>i\<close>.\<close>

function pb_fields_from :: "byte list \<Rightarrow> nat \<Rightarrow> pb_error + pb_field list" where
  "pb_fields_from buf i =
     (if \<not> i < length buf then Inr []
      else case pb_varint buf i of
        Inl e \<Rightarrow> Inl e
      | Inr (key, j) \<Rightarrow>
          (case pb_value_at buf (key AND 7) j of
             Inl e \<Rightarrow> Inl e
           | Inr (v, k) \<Rightarrow>
               (case pb_fields_from buf k of
                  Inl e \<Rightarrow> Inl e
                | Inr rest \<Rightarrow> Inr ((drop_bit 3 key, key AND 7, v) # rest))))"
  by pat_completeness auto
termination
  by (relation "measure (\<lambda>(buf, i). length buf - i)")
    (auto dest!: pb_varint_moves pb_value_at_moves)

declare pb_fields_from.simps [simp del]

definition pb_fields :: "byte list \<Rightarrow> pb_error + pb_field list" where
  "pb_fields buf = pb_fields_from buf 0"

definition pb_get :: "pb_field list \<Rightarrow> nat \<Rightarrow> pb_value list" where
  "pb_get fields num = map (\<lambda>(_, _, v). v) (filter (\<lambda>(f, _, _). f = num) fields)"

definition pb_signed :: "nat \<Rightarrow> int" where
  "pb_signed v = (if 2 ^ 63 \<le> v then int v - 2 ^ 64 else int v)"

section \<open>The train feed\<close>

text \<open>Code points of \<open>decode("ascii", "replace")\<close>.\<close>

definition ascii_replace :: "byte list \<Rightarrow> nat list" where
  "ascii_replace bs = map (\<lambda>b. if unat b < 128 then unat b else 65533) bs"

definition as_message :: "pb_value \<Rightarrow> pb_error + pb_field list" where
  "as_message v = (case v of VBytes bs \<Rightarrow> pb_fields bs | VInt _ \<Rightarrow> Inl (Wrong TypeError))"

definition as_text :: "pb_value \<Rightarrow> pb_error + nat list" where
  "as_text v = (case v of VBytes bs \<Rightarrow> Inr (ascii_replace bs) | VInt _ \<Rightarrow> Inl (Wrong AttributeError))"

definition as_signed :: "pb_value \<Rightarrow> pb_error + int" where
  "as_signed v = (case v of VInt n \<Rightarrow> Inr (pb_signed n) | VBytes _ \<Rightarrow> Inl (Wrong TypeError))"

text \<open>\<open>float(v)\<close>: of an integer, or of bytes that spell a number.\<close>

definition as_float :: "pb_value \<Rightarrow> pb_error + pyfloat" where
  "as_float v =
     (case v of
        VInt n \<Rightarrow> (case py_float (JInt (int n)) of Inl e \<Rightarrow> Inl (Wrong e) | Inr f \<Rightarrow> Inr f)
      | VBytes bs \<Rightarrow>
          (case float_of_str (map (\<lambda>b. char_of (unat b)) bs) of None \<Rightarrow> Inl (Wrong ValueError) | Some f \<Rightarrow> Inr f))"

type_synonym stop_time = "string \<times> pyfloat"

text \<open>
  One stop time update: \<open>None\<close> when it is skipped, the delay it leaves with otherwise.
\<close>

definition stop_update ::
  "(nat list \<Rightarrow> string option) \<Rightarrow> int option \<Rightarrow> pb_value \<Rightarrow> pb_error + (stop_time option \<times> int option)" where
  "stop_update stop_of delay stu =
     bindE (as_message stu) (\<lambda>sf.
     if pb_get sf 5 \<noteq> [] \<and> hd (pb_get sf 5) = VInt 1 then Inr (None, delay)
     else if pb_get sf 4 = [] then Inr (None, delay)
     else bindE (as_text (hd (pb_get sf 4))) (\<lambda>sid.
       case stop_of sid of
         None \<Rightarrow> Inr (None, delay)
       | Some code \<Rightarrow>
           let ev = (if pb_get sf 2 \<noteq> [] then pb_get sf 2 else pb_get sf 3) in
           if ev = [] then Inr (None, delay)
           else bindE (as_message (hd ev)) (\<lambda>evf.
             if pb_get evf 2 = [] then Inr (None, delay)
             else bindE (if delay = None \<and> pb_get evf 1 \<noteq> []
                         then bindE (as_signed (hd (pb_get evf 1))) (\<lambda>d. Inr (Some d)) else Inr delay) (\<lambda>delay'.
                  bindE (as_float (hd (pb_get evf 2))) (\<lambda>t. Inr (Some (code, t), delay'))))))"

fun stop_updates ::
  "(nat list \<Rightarrow> string option) \<Rightarrow> int option \<Rightarrow> pb_value list \<Rightarrow> pb_error + (stop_time list \<times> int option)" where
  "stop_updates stop_of delay [] = Inr ([], delay)"
| "stop_updates stop_of delay (u # us) =
     bindE (stop_update stop_of delay u) (\<lambda>(st, delay').
     bindE (stop_updates stop_of delay' us) (\<lambda>(sts, delay'').
       Inr (case st of None \<Rightarrow> sts | Some x \<Rightarrow> x # sts, delay'')))"

type_synonym trip = "nat list \<times> stop_time list \<times> int"

definition parse_entity :: "(nat list \<Rightarrow> string option) \<Rightarrow> pb_value \<Rightarrow> pb_error + trip option" where
  "parse_entity stop_of ent =
     bindE (as_message ent) (\<lambda>ef.
     if pb_get ef 3 = [] then Inr None
     else bindE (as_message (hd (pb_get ef 3))) (\<lambda>tuf.
     if pb_get tuf 1 = [] then Inr None
     else bindE (as_message (hd (pb_get tuf 1))) (\<lambda>desc.
     if pb_get desc 1 = [] then Inr None
     else bindE (if pb_get tuf 5 = [] then Inr None
                 else bindE (as_signed (hd (pb_get tuf 5))) (\<lambda>d. Inr (Some d))) (\<lambda>delay.
     bindE (stop_updates stop_of delay (pb_get tuf 2)) (\<lambda>(stops, delay').
       if stops = [] then Inr None
       else bindE (as_text (hd (pb_get desc 1))) (\<lambda>tid.
         Inr (Some (tid, stops, case delay' of None \<Rightarrow> 0 | Some d \<Rightarrow> d))))))))"

fun parse_entities :: "(nat list \<Rightarrow> string option) \<Rightarrow> pb_value list \<Rightarrow> pb_error + trip list" where
  "parse_entities stop_of [] = Inr []"
| "parse_entities stop_of (e # es) =
     bindE (parse_entity stop_of e) (\<lambda>t.
     bindE (parse_entities stop_of es) (\<lambda>ts. Inr (case t of None \<Rightarrow> ts | Some x \<Rightarrow> x # ts)))"

definition bart_parse ::
  "byte list \<Rightarrow> (nat list \<Rightarrow> string option) \<Rightarrow> pb_error + (pyfloat \<times> trip list)" where
  "bart_parse blob stop_of =
     bindE (pb_fields blob) (\<lambda>top.
     bindE (if pb_get top 1 = [] then Inr (Fin 0)
            else bindE (as_message (hd (pb_get top 1))) (\<lambda>head.
              if pb_get head 3 = [] then Inr (Fin 0) else as_float (hd (pb_get head 3)))) (\<lambda>feed_t.
     bindE (parse_entities stop_of (pb_get top 2)) (\<lambda>trips. Inr (feed_t, trips))))"

section \<open>The line of a trip\<close>

text \<open>Each line is the positions of its stations; \<open>ends\<close> the first and last position.\<close>

type_synonym line_index = "(string \<times> nat) list"

definition on_line :: "line_index \<Rightarrow> string list \<Rightarrow> bool" where
  "on_line ix codes = list_all (\<lambda>c. map_of ix c \<noteq> None) codes"

definition pos_on :: "line_index \<Rightarrow> string \<Rightarrow> nat" where
  "pos_on ix c = the (map_of ix c)"

definition runs :: "nat \<Rightarrow> nat list \<Rightarrow> bool" where
  "runs dr seq = list_all (\<lambda>(x, y). if dr = 0 then x < y else y < x) (zip seq (tl seq))"

definition by_hint :: "string list \<Rightarrow> line_index list \<Rightarrow> nat \<times> nat \<times> nat \<Rightarrow> (nat \<times> nat) option" where
  "by_hint codes index hint =
     (let (li, dr, stop) = hint; ix = index ! li; seq = map (pos_on ix) codes in
      if on_line ix codes \<and> runs dr seq \<and> (if dr = 0 then last seq \<le> stop else stop \<le> last seq)
      then Some (li, dr) else None)"

definition candidates :: "string list \<Rightarrow> line_index list \<Rightarrow> (nat \<times> nat) list \<Rightarrow> nat list" where
  "candidates codes index ends =
     (let cand = filter (\<lambda>li. on_line (index ! li) codes) [0..<length index]
      in if 1 < length cand
         then filter (\<lambda>li. pos_on (index ! li) (last codes) \<in> {fst (ends ! li), snd (ends ! li)}) cand
         else cand)"

definition bart_line_of ::
  "nat list \<Rightarrow> string list \<Rightarrow> line_index list \<Rightarrow> (nat \<times> nat) list \<Rightarrow> (nat list \<Rightarrow> (nat \<times> nat \<times> nat) option)
     \<Rightarrow> (nat \<times> nat) option" where
  "bart_line_of tid codes index ends hints =
     (case (case hints tid of None \<Rightarrow> None | Some h \<Rightarrow> by_hint codes index h) of
        Some r \<Rightarrow> Some r
      | None \<Rightarrow>
          (case candidates codes index ends of
             [li] \<Rightarrow>
               let a = pos_on (index ! li) (hd codes); b = pos_on (index ! li) (last codes)
               in if a = b then None else Some (li, if a < b then 0 else 1)
           | _ \<Rightarrow> None))"

section \<open>Reading back what was written\<close>

text \<open>The writer of the format: a varint in groups of seven bits, lowest first.\<close>

fun varint_bytes :: "nat \<Rightarrow> byte list" where
  "varint_bytes n =
     (if n < 128 then [of_nat n] else of_nat (128 + n mod 128) # varint_bytes (n div 128))"

declare varint_bytes.simps [simp del]

definition field_bytes :: "pb_field \<Rightarrow> byte list" where
  "field_bytes fld =
     (case fld of (num, wt, v) \<Rightarrow> varint_bytes (num * 8 + wt) @
        (case v of
           VInt n \<Rightarrow> varint_bytes n
         | VBytes bs \<Rightarrow> if wt = 2 then varint_bytes (length bs) @ bs else bs))"

definition field_ok :: "pb_field \<Rightarrow> bool" where
  "field_ok fld =
     (case fld of (_, wt, v) \<Rightarrow>
        (case v of VInt _ \<Rightarrow> wt = 0
         | VBytes bs \<Rightarrow> wt = 2 \<or> (wt = 5 \<and> length bs = 4) \<or> (wt = 1 \<and> length bs = 8)))"

lemma unat_byte: "n < 256 \<Longrightarrow> unat (of_nat n :: byte) = n"
  by (simp add: unat_of_nat take_bit_eq_mod)

lemma and_127: "n AND 127 = n mod (128 :: nat)"
proof -
  have "(127 :: nat) = mask 7" by (simp add: mask_eq_exp_minus_1)
  then have "n AND 127 = take_bit 7 n" by (simp add: take_bit_eq_mask)
  then show ?thesis by (simp add: take_bit_eq_mod)
qed

lemma and_128: "n AND 128 = (0 :: nat) \<longleftrightarrow> even (n div 128)"
  using and_exp_eq_0_iff_not_bit [of n 7] by (simp add: bit_iff_odd)

lemma or_push: "r < 2 ^ s \<Longrightarrow> r OR push_bit s x = r + 2 ^ s * (x :: nat)"
proof -
  assume "r < 2 ^ s"
  then have "take_bit s r = r" by (simp add: take_bit_nat_eq_self)
  then have "r AND push_bit s x = take_bit s r AND push_bit s x" by simp
  also have "\<dots> = 0" by (auto simp: bit_eq_iff bit_simps)
  finally show ?thesis by (simp add: push_bit_eq_mult mult.commute flip: disjunctive_add_eq_or)
qed

lemma varint_step:
  assumes "i < length buf" and "buf ! i = of_nat c" and "c < 256" and "r < 2 ^ s"
  shows "pb_varint_from buf i r s =
     (if c < 128 then Inr (r + 2 ^ s * (c mod 128), i + 1)
      else pb_varint_from buf (i + 1) (r + 2 ^ s * (c mod 128)) (s + 7))"
proof -
  have "c div 128 < 2" using assms(3) by (simp add: div_less_iff_less_mult)
  then have "even (c div 128) \<longleftrightarrow> c < 128" by (auto simp: less_2_cases_iff div_eq_0_iff)
  then have and': "c AND 128 = 0 \<longleftrightarrow> c < 128" by (simp only: and_128)
  have val: "r OR push_bit s (c AND 127) = r + 2 ^ s * (c mod 128)"
    using assms(4) by (simp only: and_127 or_push)
  show ?thesis
    using assms(1) by (subst pb_varint_from.simps) (simp only: Let_def assms(2) unat_byte [OF assms(3)] and' val not_le [symmetric] if_False simp_thms)
qed

lemma varint_reads_back:
  assumes "drop i buf = varint_bytes n @ rest" and "r < 2 ^ s"
  shows "pb_varint_from buf i r s = Inr (r + 2 ^ s * n, i + length (varint_bytes n))"
  using assms
proof (induction n arbitrary: i r s rule: varint_bytes.induct)
  case (1 n)
  let ?c = "if n < 128 then n else 128 + n mod 128"
  have ne: "varint_bytes n = of_nat ?c # (if n < 128 then [] else varint_bytes (n div 128))"
    by (subst varint_bytes.simps) simp
  have more: "i < length buf"
    using "1.prems"(1) by (cases "i < length buf") (simp_all add: ne)
  have b: "buf ! i = of_nat ?c" and tl: "drop (i + 1) buf = (if n < 128 then [] else varint_bytes (n div 128)) @ rest"
    using "1.prems"(1) more by (simp_all only: ne Cons_nth_drop_Suc [symmetric] append_Cons list.inject Suc_eq_plus1)
  have "?c < 256" by (auto intro: le_less_trans [of _ "128 + 127"])
  note step = varint_step [OF more b this "1.prems"(2)]
  show ?case
  proof (cases "n < 128")
    case True
    then show ?thesis using step by (simp add: ne)
  next
    case False
    let ?m = "n mod 128" and ?q = "n div 128"
    have "r + 2 ^ s * ?m < 2 ^ s + 2 ^ s * 127"
      using "1.prems"(2) by (intro add_less_le_mono mult_le_mono2) auto
    then have small: "r + 2 ^ s * ?m < 2 ^ (s + 7)" by (simp add: power_add)
    have "pb_varint_from buf i r s = pb_varint_from buf (i + 1) (r + 2 ^ s * ?m) (s + 7)"
      using step False by simp
    also have "\<dots> = Inr (r + 2 ^ s * ?m + 2 ^ (s + 7) * ?q, i + 1 + length (varint_bytes ?q))"
      using tl False small by (intro "1.IH") simp_all
    also have "r + 2 ^ s * ?m + 2 ^ (s + 7) * ?q = r + 2 ^ s * n"
    proof -
      have "2 ^ s * ?m + 2 ^ (s + 7) * ?q = 2 ^ s * (?m + 128 * ?q)"
        by (simp only: power_add distrib_left mult.assoc) simp
      then show ?thesis by simp
    qed
    finally show ?thesis using False by (simp add: ne)
  qed
qed

lemma varint_reads_back0:
  "drop i buf = varint_bytes n @ rest \<Longrightarrow> pb_varint buf i = Inr (n, i + length (varint_bytes n))"
  using varint_reads_back [of i buf n rest 0 0] by (simp add: pb_varint_def)

lemma varint_bytes_nonempty: "varint_bytes n \<noteq> []"
  by (subst varint_bytes.simps) simp

lemma and_7: "k < 8 \<Longrightarrow> (n * 8 + k) AND 7 = (k :: nat)" and drop_3: "k < 8 \<Longrightarrow> drop_bit 3 (n * 8 + k) = (n :: nat)"
proof -
  have "(7 :: nat) = mask 3" by (simp add: mask_eq_exp_minus_1)
  then have "(n * 8 + k) AND 7 = take_bit 3 (n * 8 + k)" by (simp add: take_bit_eq_mask)
  then show "(n * 8 + k) AND 7 = k" if "k < 8" using that by (simp add: take_bit_eq_mod)
  show "drop_bit 3 (n * 8 + k) = n" if "k < 8" using that by (simp add: drop_bit_eq_div)
qed

lemma drop_past: "drop i buf = xs @ ys \<Longrightarrow> drop (i + length xs) buf = ys"
  by (simp add: add.commute [of i] flip: drop_drop)

lemma value_reads_back:
  assumes "field_ok (num, wt, v)"
    and "drop i buf = (case v of VInt n \<Rightarrow> varint_bytes n
         | VBytes bs \<Rightarrow> if wt = 2 then varint_bytes (length bs) @ bs else bs) @ rest"
  shows "\<exists>k. pb_value_at buf wt i = Inr (v, k) \<and> drop k buf = rest"
proof (cases v)
  case (VInt n)
  then have d: "drop i buf = varint_bytes n @ rest" using assms(2) by simp
  have "drop (i + length (varint_bytes n)) buf = rest"
    using d by (rule drop_past)
  then show ?thesis using VInt assms(1) varint_reads_back0 [OF d] by (simp add: pb_value_at_def field_ok_def)
next
  case (VBytes bs)
  show ?thesis
  proof (cases "wt = 2")
    case True
    then have d: "drop i buf = varint_bytes (length bs) @ bs @ rest" using assms(2) VBytes by simp
    let ?j = "i + length (varint_bytes (length bs))"
    have j: "drop ?j buf = bs @ rest"
      using d by (rule drop_past)
    then have "cut buf ?j (length bs) = bs" "drop (?j + length bs) buf = rest"
      by (simp_all add: cut_def add.commute [of _ "length bs"] flip: drop_drop)
    then show ?thesis using VBytes True varint_reads_back0 [OF d] by (simp add: pb_value_at_def)
  next
    case False
    then have "drop i buf = bs @ rest" "wt = 5 \<and> length bs = 4 \<or> wt = 1 \<and> length bs = 8"
      using assms VBytes by (simp_all add: field_ok_def)
    then have "cut buf i (length bs) = bs" "drop (i + length bs) buf = rest"
      by (simp_all add: cut_def add.commute [of i] flip: drop_drop)
    then show ?thesis
      using VBytes \<open>wt = 5 \<and> length bs = 4 \<or> wt = 1 \<and> length bs = 8\<close> by (auto simp: pb_value_at_def)
  qed
qed

lemma fields_read_back:
  assumes "list_all field_ok fs" and "drop i buf = concat (map field_bytes fs)"
  shows "pb_fields_from buf i = Inr fs"
  using assms
proof (induction fs arbitrary: i)
  case Nil
  then show ?case by (subst pb_fields_from.simps) simp
next
  case (Cons fld fs)
  obtain num wt v where fld: "fld = (num, wt, v)" by (cases fld)
  let ?key = "num * 8 + wt"
  let ?val = "case v of VInt n \<Rightarrow> varint_bytes n
         | VBytes bs \<Rightarrow> if wt = 2 then varint_bytes (length bs) @ bs else bs"
  have ok: "field_ok (num, wt, v)" "wt < 8"
    using Cons.prems(1) fld by (auto simp: field_ok_def split: pb_value.splits)
  have d: "drop i buf = varint_bytes ?key @ ?val @ concat (map field_bytes fs)"
    using Cons.prems(2) by (simp add: fld field_bytes_def [of "(num, wt, v)"])
  then have more: "i < length buf"
    using varint_bytes_nonempty [of ?key] by (cases "i < length buf") simp_all
  have "drop (i + length (varint_bytes ?key)) buf = ?val @ concat (map field_bytes fs)"
    using d by (rule drop_past)
  then obtain k where k: "pb_value_at buf wt (i + length (varint_bytes ?key)) = Inr (v, k)"
      "drop k buf = concat (map field_bytes fs)"
    using value_reads_back [OF ok(1)] by blast
  have "pb_fields_from buf k = Inr fs" using Cons.IH [OF _ k(2)] Cons.prems(1) by simp
  then show ?case
    using more varint_reads_back0 [OF d] k(1) ok(2)
    by (subst pb_fields_from.simps) (simp add: and_7 drop_3 fld)
qed

text \<open>
  C24. The protobuf reader reads back what the format writes. For every sequence of fields with
  the four wire types the format has, of any numbers and lengths, the fields decoded from
  their encoding are those fields in order; fields with numbers nobody asks for change
  nothing in what \<open>_pb_get\<close> finds.
\<close>
theorem protobuf_reads_back:
  assumes "list_all field_ok (fs @ more)"
  shows "pb_fields (concat (map field_bytes (fs @ more))) = Inr (fs @ more) \<and>
    (\<forall>num. num \<notin> fst ` set more \<longrightarrow> pb_get (fs @ more) num = pb_get fs num)"
proof -
  have "pb_get more num = []" if "num \<notin> fst ` set more" for num
    using that by (force simp: pb_get_def filter_empty_conv)
  then show ?thesis
    using fields_read_back [OF assms, of 0] by (simp add: pb_fields_def pb_get_def)
qed

theorem protobuf_reads_back_witness:
  "pb_fields (concat (map field_bytes [(4, 2, VBytes [65, 66]), (2, 0, VInt 300), (9, 5, VBytes [1, 2, 3, 4])]))
     = Inr [(4, 2, VBytes [65, 66]), (2, 0, VInt 300), (9, 5, VBytes [1, 2, 3, 4])]"
  using protobuf_reads_back [of "[(4, 2, VBytes [65, 66]), (2, 0, VInt 300)]" "[(9, 5, VBytes [1, 2, 3, 4])]"]
  by (simp add: field_ok_def)

text \<open>The smallest example of the format's documentation.\<close>

lemma varint_300: "pb_varint [172, 2] 0 = Inr (300, 2)"
  using varint_reads_back0 [of 0 "[172, 2]" 300 "[]"] by (simp add: varint_bytes.simps)

section \<open>The direction of a trip\<close>

lemma zip_tl_successively: "list_all (\<lambda>(x, y). P x y) (zip xs (tl xs)) \<longleftrightarrow> successively P xs"
proof (induction xs)
  case (Cons x xs)
  then show ?case by (cases xs) auto
qed simp

lemma runs_sorted:
  "runs 0 seq \<longleftrightarrow> sorted_wrt (<) seq"
  "dr \<noteq> 0 \<Longrightarrow> runs dr seq \<longleftrightarrow> sorted_wrt (>) seq"
  by (simp_all add: runs_def zip_tl_successively successively_conv_sorted_wrt transp_def)

lemma sorted_wrt_ends: "sorted_wrt P xs \<Longrightarrow> 1 < length xs \<Longrightarrow> P (hd xs) (last xs)"
  by (cases xs) (auto split: if_splits)

text \<open>
  A train is drawn on a line it runs on, the way it runs. Whatever line and direction a
  trip is given, all its remaining stations are on that line, and if it has more than one it
  goes towards the end of the line exactly when the direction is 0, whether the answer came
  from the timetable or from the stations alone.
\<close>
theorem train_runs_on_its_line:
  assumes "bart_line_of tid codes index ends hints = Some (li, dr)"
    and "1 < length codes" and "\<forall>t l d s. hints t = Some (l, d, s) \<longrightarrow> d \<le> 1"
  shows "on_line (index ! li) codes \<and>
    (dr = 0 \<and> pos_on (index ! li) (hd codes) < pos_on (index ! li) (last codes) \<or>
     dr = 1 \<and> pos_on (index ! li) (last codes) < pos_on (index ! li) (hd codes))"
proof -
  have ends: "hd (map f codes) = f (hd codes)" "last (map f codes) = f (last codes)" for f :: "string \<Rightarrow> nat"
    using assms(2) by (cases codes; simp add: last_map)+
  show ?thesis
  proof (cases "case hints tid of None \<Rightarrow> None | Some h \<Rightarrow> by_hint codes index h")
    case (Some r)
    then obtain stop where h: "hints tid = Some (li, dr, stop)" and
        ok: "on_line (index ! li) codes" "runs dr (map (pos_on (index ! li)) codes)"
      using assms(1) by (auto simp: bart_line_of_def by_hint_def Let_def split: option.splits prod.splits if_splits)
    have "dr = 0 \<or> dr = 1" using assms(3) h by force
    then show ?thesis
      using ok sorted_wrt_ends [of "(<)" "map (pos_on (index ! li)) codes"]
        sorted_wrt_ends [of "(>)" "map (pos_on (index ! li)) codes"] assms(2) ends
      by (auto simp: runs_sorted)
  next
    case None
    then obtain c where c: "candidates codes index ends = [c]" and
        r: "pos_on (index ! c) (hd codes) \<noteq> pos_on (index ! c) (last codes)"
        "(li, dr) = (c, if pos_on (index ! c) (hd codes) < pos_on (index ! c) (last codes) then 0 else 1)"
      using assms(1) by (auto simp: bart_line_of_def Let_def split: list.splits if_splits)
    have "c \<in> set (candidates codes index ends)" using c by simp
    then have "on_line (index ! c) codes" by (auto simp: candidates_def Let_def split: if_splits)
    then show ?thesis using r by (auto split: if_splits)
  qed
qed

theorem train_runs_on_its_line_witness:
  "on_line ([[(''A'', 0), (''B'', 1), (''C'', 2)]] ! 0) [''C'', ''A''] \<and>
   bart_line_of [] [''C'', ''A''] [[(''A'', 0), (''B'', 1), (''C'', 2)]] [(0, 2)] (\<lambda>_. None) = Some (0, 1)"
proof -
  have r: "bart_line_of [] [''C'', ''A''] [[(''A'', 0), (''B'', 1), (''C'', 2)]] [(0, 2)] (\<lambda>_. None) = Some (0, 1)"
    by (simp add: bart_line_of_def candidates_def on_line_def pos_on_def Let_def)
  then show ?thesis using train_runs_on_its_line [OF r] by simp
qed

end
