(* ===== verification/FT_Seismo.thy ===== *)
theory FT_Seismo
  imports FT_Prelude
begin

unbundle bit_operations_syntax

text \<open>
  The seismogram reader of \<open>src/demos/ftdata.py\<close>: Steim1 and Steim2 decompression
  (\<open>_steim_decode\<close>) and the walk over miniSEED records (\<open>_mseed_series\<close>). Words are 32 bits,
  differences and samples integers; the source's array operations over all words of a packing
  at once are one function of a word here.
\<close>

section \<open>Big-endian fields\<close>

definition be16 :: "byte list \<Rightarrow> nat \<Rightarrow> nat" where
  "be16 data i = unat (data ! i) * 256 + unat (data ! (i + 1))"

definition be16s :: "byte list \<Rightarrow> nat \<Rightarrow> int" where
  "be16s data i = (let v = be16 data i in if v < 32768 then int v else int v - 65536)"

definition be32 :: "byte \<Rightarrow> byte \<Rightarrow> byte \<Rightarrow> byte \<Rightarrow> 32 word" where
  "be32 a b c d = push_bit 24 (ucast a) OR push_bit 16 (ucast b) OR push_bit 8 (ucast c) OR ucast d"

text \<open>\<open>np.frombuffer(payload, ">u4")\<close>: a length that is no multiple of four raises.\<close>

fun be_words :: "byte list \<Rightarrow> 32 word list option" where
  "be_words [] = Some []"
| "be_words (a # b # c # d # rest) = map_option (\<lambda>ws. be32 a b c d # ws) (be_words rest)"
| "be_words _ = None"

section \<open>Steim packings\<close>

text \<open>From (nibble, dnib) to the number of differences in the word and the bits of each.\<close>

definition STEIM2_PACK :: "(nat \<times> nat) \<Rightarrow> (nat \<times> nat) option" where
  "STEIM2_PACK = map_of
     [((1, 0), (4, 8)), ((1, 1), (4, 8)), ((1, 2), (4, 8)), ((1, 3), (4, 8)),
      ((2, 1), (1, 30)), ((2, 2), (2, 15)), ((2, 3), (3, 10)),
      ((3, 0), (5, 6)), ((3, 1), (6, 5)), ((3, 2), (7, 4))]"

definition STEIM1_PACK :: "(nat \<times> nat) \<Rightarrow> (nat \<times> nat) option" where
  "STEIM1_PACK = map_of
     ([((1, d), (4, 8)). d \<leftarrow> [0..<4]] @ [((2, d), (2, 16)). d \<leftarrow> [0..<4]] @ [((3, d), (1, 32)). d \<leftarrow> [0..<4]])"

definition sign_extend :: "nat \<Rightarrow> nat \<Rightarrow> int" where
  "sign_extend bits v = (if 2 ^ (bits - 1) \<le> v then int v - 2 ^ bits else int v)"

text \<open>The \<open>k\<close>-th of \<open>n\<close> fields of \<open>bits\<close> bits, counted down from bit \<open>n * bits\<close>.\<close>

definition word_field :: "nat \<Rightarrow> nat \<Rightarrow> nat \<Rightarrow> 32 word \<Rightarrow> nat" where
  "word_field n bits k w = unat (drop_bit (bits * (n - 1 - k)) w AND mask bits)"

definition word_diffs :: "nat \<Rightarrow> nat \<Rightarrow> 32 word \<Rightarrow> int list" where
  "word_diffs order nib w =
     (case (if order = 2 then STEIM2_PACK else STEIM1_PACK) (nib, unat (drop_bit 30 w AND 3)) of
        None \<Rightarrow> []
      | Some (n, bits) \<Rightarrow> map (\<lambda>k. sign_extend bits (word_field n bits k w)) [0..<n])"

text \<open>The differences of a frame of sixteen words; word 0 is the map of two bits per word.\<close>

definition nibble :: "32 word \<Rightarrow> nat \<Rightarrow> nat" where
  "nibble w0 k = unat (drop_bit (30 - 2 * k) w0 AND 3)"

definition frame_diffs :: "nat \<Rightarrow> 32 word list \<Rightarrow> int list" where
  "frame_diffs order frame =
     concat (map (\<lambda>k. word_diffs order (nibble (frame ! 0) k) (frame ! k)) [1..<16])"

definition frames_of :: "32 word list \<Rightarrow> 32 word list list" where
  "frames_of w = map (\<lambda>i. take 16 (drop (16 * i) w)) [0..<length w div 16]"

definition signed32 :: "32 word \<Rightarrow> int" where
  "signed32 w = int (unat w) - (if bit w 31 then 2 ^ 32 else 0)"

datatype seed_error = BadBuffer | TooFewDifferences nat nat | NoBlockette1000 | BadEncoding nat
  | BadDate | NoRate | EndMismatch nat | EmptyRecord | NothingDecoded

text \<open>\<open>np.cumsum\<close>.\<close>

fun running :: "int \<Rightarrow> int list \<Rightarrow> int list" where
  "running acc [] = []"
| "running acc (d # ds) = (acc + d) # running (acc + d) ds"

definition steim_decode :: "byte list \<Rightarrow> nat \<Rightarrow> nat \<Rightarrow> seed_error + (int list \<times> int \<times> int)" where
  "steim_decode payload nsamples order =
     (case be_words payload of
        None \<Rightarrow> Inl BadBuffer
      | Some w \<Rightarrow>
          if length w div 16 < 1 \<or> nsamples = 0 then Inr ([], 0, 0)
          else
            let frames = frames_of w;
                d = concat (map (frame_diffs order) frames);
                x0 = signed32 (w ! 1); xn = signed32 (w ! 2)
            in if 1 < nsamples \<and> length d < nsamples then Inl (TooFewDifferences (length d) nsamples)
               else Inr (x0 # running x0 (take (nsamples - 1) (drop 1 d)), x0, xn))"

section \<open>miniSEED records\<close>

text \<open>The start of a year in seconds since 1970; \<open>datetime\<close> takes the years 1 to 9999.\<close>

definition jan1 :: "nat \<Rightarrow> int option" where
  "jan1 year =
     (if 1 \<le> year \<and> year \<le> 9999
      then let y = int year - 1 in Some (86400 * (365 * y + y div 4 - y div 100 + y div 400 - 719162))
      else None)"

text \<open>
  The chain of blockettes from offset \<open>p\<close>: record length and encoding of the first blockette
  1000 among at most \<open>nblk\<close>.
\<close>

fun find_1000 :: "byte list \<Rightarrow> nat \<Rightarrow> nat \<Rightarrow> nat \<Rightarrow> (nat \<times> nat) option" where
  "find_1000 data off 0 p = None"
| "find_1000 data off (Suc k) p =
     (if p = 0 \<or> length data < off + p + 8 then None
      else if be16 data (off + p) = 1000
      then Some (2 ^ unat (data ! (off + p + 6)), unat (data ! (off + p + 4)))
      else find_1000 data off k (be16 data (off + p + 2)))"

definition sample_rate :: "int \<Rightarrow> int \<Rightarrow> rat" where
  "sample_rate factor mult =
     (if 0 < factor then (if 0 < mult then of_int (factor * mult) else - of_int factor / of_int mult)
      else if factor < 0 then (if 0 < mult then - of_int mult / of_int factor else 1 / of_int (factor * mult))
      else 0)"

text \<open>
  A division by a zero multiplier raises; \<open>rate_raises\<close> says when.
\<close>

definition rate_raises :: "int \<Rightarrow> int \<Rightarrow> bool" where
  "rate_raises factor mult \<longleftrightarrow> factor \<noteq> 0 \<and> mult = 0"

definition record_start :: "byte list \<Rightarrow> nat \<Rightarrow> seed_error + rat" where
  "record_start data off =
     (case jan1 (be16 data (off + 20)) of
        None \<Rightarrow> Inl BadDate
      | Some j \<Rightarrow> Inr (of_int (j + (int (be16 data (off + 22)) - 1) * 86400
            + int (unat (data ! (off + 24))) * 3600 + int (unat (data ! (off + 25))) * 60
            + int (unat (data ! (off + 26)))) + of_nat (be16 data (off + 28)) / 10000))"

definition as_int32 :: "int \<Rightarrow> int" where
  "as_int32 v = sint (word_of_int v :: 32 word)"

type_synonym segment = "rat \<times> int list"

text \<open>One record at \<open>off\<close>: its segment if it has samples, its rate, and its length.\<close>

definition mseed_record ::
  "byte list \<Rightarrow> nat \<Rightarrow> seed_error + (segment option \<times> rat \<times> nat)" where
  "mseed_record data off =
     (let nsamp = be16 data (off + 30);
          factor = be16s data (off + 32); mult = be16s data (off + 34);
          nblk = unat (data ! (off + 39));
          data_off = be16 data (off + 44)
      in case find_1000 data off nblk (be16 data (off + 46)) of
           None \<Rightarrow> Inl NoBlockette1000
         | Some (reclen, enc) \<Rightarrow>
             if enc \<noteq> 10 \<and> enc \<noteq> 11 then Inl (BadEncoding enc)
             else bindE (record_start data off) (\<lambda>start.
               if rate_raises factor mult then Inl NoRate
               else if nsamp = 0 then Inr (None, sample_rate factor mult, reclen)
               else bindE (steim_decode (take (reclen - data_off) (drop (off + data_off) data)) nsamp
                             (if enc = 11 then 2 else 1)) (\<lambda>(s, _, xn).
                 if s = [] then Inl EmptyRecord
                 else if last s \<noteq> xn then Inl (EndMismatch off)
                 else Inr (Some (start, map as_int32 s), sample_rate factor mult, reclen))))"

lemma find_1000_positive: "find_1000 data off k p = Some (reclen, enc) \<Longrightarrow> 0 < reclen"
  by (induction data off k p rule: find_1000.induct) (auto split: if_splits)

lemma mseed_record_moves: "mseed_record data off = Inr (seg, r, reclen) \<Longrightarrow> 0 < reclen"
  by (auto simp: mseed_record_def Let_def split: option.splits if_splits prod.splits
      elim!: bindE_E dest!: find_1000_positive)

function mseed_from ::
  "byte list \<Rightarrow> nat \<Rightarrow> segment list \<Rightarrow> rat option \<Rightarrow> seed_error + (segment list \<times> rat option)" where
  "mseed_from data off segs rate =
     (if \<not> off + 64 \<le> length data then Inr (segs, rate)
      else case mseed_record data off of
        Inl e \<Rightarrow> Inl e
      | Inr (seg, r, reclen) \<Rightarrow>
          mseed_from data (off + reclen) (segs @ (case seg of None \<Rightarrow> [] | Some x \<Rightarrow> [x]))
            (if 0 < r then Some r else rate))"
  by pat_completeness auto
termination
  by (relation "measure (\<lambda>(data, off, _, _). length data - off)") (auto dest!: mseed_record_moves)

declare mseed_from.simps [simp del]

definition mseed_series :: "byte list \<Rightarrow> seed_error + (segment list \<times> rat)" where
  "mseed_series data =
     bindE (mseed_from data 0 [] None) (\<lambda>(segs, rate).
       case rate of
         Some r \<Rightarrow> if segs = [] \<or> r = 0 then Inl NothingDecoded else Inr (segs, r)
       | None \<Rightarrow> Inl NothingDecoded)"

section \<open>Packing differences into a word\<close>

definition horner :: "nat \<Rightarrow> nat list \<Rightarrow> nat" where
  "horner b vs = foldl (\<lambda>acc v. acc * 2 ^ b + v) 0 vs"

definition pack_word :: "nat \<Rightarrow> nat \<Rightarrow> int list \<Rightarrow> 32 word" where
  "pack_word bits dnib ds = of_nat (dnib * 2 ^ 30 + horner bits (map (\<lambda>d. nat (d mod 2 ^ bits)) ds))"

definition fits :: "nat \<Rightarrow> int \<Rightarrow> bool" where
  "fits bits d \<longleftrightarrow> - (2 ^ (bits - 1)) \<le> d \<and> d < 2 ^ (bits - 1)"

lemma horner_snoc [simp]: "horner b (vs @ [v]) = horner b vs * 2 ^ b + v"
  by (simp add: horner_def)

lemma horner_bound: "\<forall>v \<in> set vs. v < 2 ^ b \<Longrightarrow> horner b vs < 2 ^ (b * length vs)"
proof (induction vs rule: rev_induct)
  case (snoc v vs)
  then have "horner b vs + 1 \<le> 2 ^ (b * length vs)" "v < 2 ^ b" by simp_all
  then have "horner b vs * 2 ^ b + v < (horner b vs + 1) * 2 ^ b" by simp
  also have "\<dots> \<le> 2 ^ (b * length vs) * 2 ^ b" using \<open>horner b vs + 1 \<le> _\<close> by (rule mult_le_mono1)
  finally show ?case by (simp add: power_add ac_simps)
qed (simp add: horner_def)

lemma horner_digit:
  "\<forall>v \<in> set vs. v < 2 ^ b \<Longrightarrow> k < length vs \<Longrightarrow>
   take_bit b (drop_bit (b * (length vs - 1 - k)) (horner b vs)) = vs ! k"
proof (induction vs arbitrary: k rule: rev_induct)
  case (snoc v vs)
  have v: "v < 2 ^ b" using snoc.prems(1) by simp
  show ?case
  proof (cases "k = length vs")
    case True
    then show ?thesis using v by (simp add: take_bit_eq_mod)
  next
    case False
    then have k: "k < length vs" using snoc.prems(2) by simp
    have e: "b * (length vs - k) = b + b * (length vs - 1 - k)"
    proof -
      have "length vs - k = Suc (length vs - 1 - k)" using k by simp
      then show ?thesis by simp
    qed
    have "drop_bit (b * (length (vs @ [v]) - 1 - k)) (horner b (vs @ [v])) =
        drop_bit (b * (length vs - 1 - k)) (drop_bit b (horner b vs * 2 ^ b + v))"
      by (simp add: e add.commute [of b])
    also have "drop_bit b (horner b vs * 2 ^ b + v) = horner b vs"
      using v by (simp add: drop_bit_eq_div)
    finally show ?thesis using snoc.IH [OF _ k] snoc.prems(1) k by (simp add: nth_append)
  qed
qed simp

lemma digit_of_low:
  fixes m :: nat
  assumes "s + b \<le> t"
  shows "take_bit b (drop_bit s m) = take_bit b (drop_bit s (take_bit t m))"
  using assms by (auto simp: bit_eq_iff bit_simps)

lemma sign_extend_mod: "0 < bits \<Longrightarrow> fits bits d \<Longrightarrow> sign_extend bits (nat (d mod 2 ^ bits)) = d"
proof -
  assume b: "0 < bits" and f: "fits bits d"
  obtain c where c: "bits = Suc c" using b by (cases bits) auto
  show ?thesis
  proof (cases "0 \<le> d")
    case True
    then have "d mod 2 ^ bits = d" using f c by (intro mod_pos_pos_trivial) (auto simp: fits_def)
    then show ?thesis using True f c by (auto simp: sign_extend_def fits_def nat_le_eq_zle)
  next
    case False
    then have "d mod 2 ^ bits = d + 2 ^ bits"
      using f c by (subst mod_add_self2 [symmetric], intro mod_pos_pos_trivial) (auto simp: fits_def)
    moreover have "2 ^ (bits - 1) \<le> nat (d + 2 ^ bits)" using f c by (simp add: fits_def le_nat_iff)
    moreover have "0 \<le> d + 2 ^ bits" using f c by (simp add: fits_def)
    ultimately show ?thesis using c by (simp add: sign_extend_def)
  qed
qed

lemma pack_word_field:
  assumes "k < length ds" and "\<forall>d \<in> set ds. fits bits d" and "0 < bits"
    and "dnib = 0 \<and> bits * length ds \<le> 32 \<or> dnib < 4 \<and> bits * length ds \<le> 30"
  shows "sign_extend bits (word_field (length ds) bits k (pack_word bits dnib ds)) = ds ! k"
proof -
  let ?vs = "map (\<lambda>d. nat (d mod 2 ^ bits)) ds" and ?n = "length ds"
  let ?h = "horner bits ?vs" and ?m = "dnib * 2 ^ 30 + horner bits ?vs"
  have small: "\<forall>v \<in> set ?vs. v < 2 ^ bits" by (auto simp: nat_less_iff)
  have h: "?h < 2 ^ (bits * ?n)" using horner_bound [OF small] by simp
  have big: "?m < 2 ^ 32"
  proof -
    consider "dnib = 0" "bits * ?n \<le> 32" | "dnib < 4" "bits * ?n \<le> 30" using assms(4) by blast
    then show ?thesis
    proof cases
      case 1
      then have "(2 :: nat) ^ (bits * ?n) \<le> 2 ^ 32" by (intro power_increasing) auto
      then show ?thesis using h 1 by simp
    next
      case 2
      then have "(2 :: nat) ^ (bits * ?n) \<le> 2 ^ 30" by (intro power_increasing) auto
      then have "?h < 2 ^ 30" using h by simp
      then show ?thesis using 2 by simp
    qed
  qed
  from big have u: "unat (pack_word bits dnib ds) = ?m"
    by (simp add: pack_word_def unat_of_nat take_bit_nat_eq_self del: of_nat_add)
  have low: "take_bit (bits * ?n) ?m = ?h"
  proof (cases "dnib = 0")
    case True
    then show ?thesis using h by (simp add: take_bit_nat_eq_self)
  next
    case False
    then have "bits * ?n \<le> 30" using assms(4) by blast
    then have "2 ^ (bits * ?n) dvd (2 ^ 30 :: nat)" by (rule le_imp_power_dvd)
    then have "2 ^ (bits * ?n) dvd dnib * 2 ^ 30" by simp
    then show ?thesis using h by (simp only: take_bit_eq_mod mod_add_left_eq [symmetric, of "dnib * 2 ^ 30"] dvd_eq_mod_eq_0) simp
  qed
  let ?s = "bits * (?n - 1 - k)"
  have "bits * (?n - 1 - k + 1) \<le> bits * ?n" using assms(1) by (intro mult_le_mono2) simp
  then have s: "?s + bits \<le> bits * ?n" by (simp add: algebra_simps)
  have "word_field ?n bits k (pack_word bits dnib ds) = take_bit bits (drop_bit ?s ?m)"
  proof -
    have "take_bit LENGTH(32) ?m = ?m" using big by (simp add: take_bit_nat_eq_self)
    then show ?thesis
      by (simp only: word_field_def take_bit_eq_mask [symmetric] unsigned_take_bit_eq unsigned_drop_bit_eq u)
  qed
  also have "\<dots> = take_bit bits (drop_bit ?s ?h)" by (subst digit_of_low [OF s]) (simp only: low)
  also have "\<dots> = ?vs ! k" using horner_digit [OF small, of k] assms(1) by simp
  also have "\<dots> = nat ((ds ! k) mod 2 ^ bits)" using assms(1) by simp
  finally have "word_field ?n bits k (pack_word bits dnib ds) = nat ((ds ! k) mod 2 ^ bits)" .
  moreover have "fits bits (ds ! k)" using assms(1,2) by simp
  ultimately show ?thesis by (simp only: sign_extend_mod [OF assms(3)])
qed

section \<open>Writing a record\<close>

text \<open>
  A word of a frame: a constant (map nibble 0), or differences with the nibble, the dnib and
  the width they are packed with.
\<close>

datatype seed_group = Raw "32 word" | Packed nat nat nat "int list"

fun g_nib :: "seed_group \<Rightarrow> nat" where
  "g_nib (Raw w) = 0" | "g_nib (Packed nib dnib bits ds) = nib"

fun g_diffs :: "seed_group \<Rightarrow> int list" where
  "g_diffs (Raw w) = []" | "g_diffs (Packed nib dnib bits ds) = ds"

fun g_word :: "seed_group \<Rightarrow> 32 word" where
  "g_word (Raw w) = w" | "g_word (Packed nib dnib bits ds) = pack_word bits dnib ds"

definition packing :: "nat \<Rightarrow> nat \<times> nat \<Rightarrow> (nat \<times> nat) option" where
  "packing order = (if order = 2 then STEIM2_PACK else STEIM1_PACK)"

fun g_ok :: "nat \<Rightarrow> seed_group \<Rightarrow> bool" where
  "g_ok order (Raw w) = True"
| "g_ok order (Packed nib dnib bits ds) =
     (nib < 4 \<and> dnib < 4 \<and> packing order (nib, dnib) = Some (length ds, bits) \<and>
      list_all (fits bits) ds \<and> (bits * length ds = 32 \<longrightarrow> dnib = 0))"

definition frame_words :: "seed_group list \<Rightarrow> 32 word list" where
  "frame_words gs = of_nat (horner 2 (map g_nib gs)) # map g_word gs"

definition word_bytes :: "32 word \<Rightarrow> byte list" where
  "word_bytes w = [ucast (drop_bit 24 w), ucast (drop_bit 16 w), ucast (drop_bit 8 w), ucast w]"

definition record_bytes :: "seed_group list list \<Rightarrow> byte list" where
  "record_bytes frames = concat (map word_bytes (concat (map frame_words frames)))"

lemma packing_facts:
  assumes "packing order (nib, dnib) = Some (n, bits)" and "dnib < 4"
  shows "0 < bits \<and> (bits * n = 32 \<or> bits * n \<le> 30) \<and>
    (bits * n = 32 \<longrightarrow> (\<forall>d < 4. packing order (nib, d) = Some (n, bits))) \<and> nib \<noteq> 0"
proof -
  have d: "d \<in> {0, 1, 2, 3}" if "d < 4" for d :: nat using that by auto
  have s2: "STEIM2_PACK (nib, dnib) = Some (n, bits) \<Longrightarrow>
      0 < bits \<and> (bits * n = 32 \<or> bits * n \<le> 30) \<and>
      (bits * n = 32 \<longrightarrow> (\<forall>d \<in> {0, 1, 2, 3}. STEIM2_PACK (nib, d) = Some (n, bits))) \<and> nib \<noteq> 0"
    by (auto simp: STEIM2_PACK_def split: if_splits)
  have s1: "STEIM1_PACK (nib, dnib) = Some (n, bits) \<Longrightarrow>
      0 < bits \<and> (bits * n = 32 \<or> bits * n \<le> 30) \<and>
      (bits * n = 32 \<longrightarrow> (\<forall>d \<in> {0, 1, 2, 3}. STEIM1_PACK (nib, d) = Some (n, bits))) \<and> nib \<noteq> 0"
    by (auto simp: STEIM1_PACK_def upt_rec split: if_splits)
  show ?thesis using assms s1 s2 d by (auto simp: packing_def split: if_splits)
qed

lemma packing_none: "packing order (0, d) = None"
  by (simp add: packing_def STEIM2_PACK_def STEIM1_PACK_def upt_rec)

lemma pack_word_dnib:
  assumes "\<forall>d \<in> set ds. fits bits d" and "dnib < 4" and "bits * length ds \<le> 30"
  shows "unat (drop_bit 30 (pack_word bits dnib ds) AND 3) = dnib"
proof -
  let ?h = "horner bits (map (\<lambda>d. nat (d mod 2 ^ bits)) ds)"
  have "?h < 2 ^ (bits * length ds)"
    using horner_bound [of "map (\<lambda>d. nat (d mod 2 ^ bits)) ds" bits] by (auto simp: nat_less_iff)
  also have "(2 :: nat) ^ (bits * length ds) \<le> 2 ^ 30" using assms(3) by (intro power_increasing) auto
  finally have h: "?h < 2 ^ 30" .
  then have big: "dnib * 2 ^ 30 + ?h < 2 ^ 32" using assms(2) by simp
  then have u: "unat (pack_word bits dnib ds) = dnib * 2 ^ 30 + ?h"
    by (simp add: pack_word_def unat_of_nat take_bit_nat_eq_self del: of_nat_add)
  have m: "(3 :: 32 word) = mask 2" by (simp add: mask_eq_exp_minus_1)
  have "take_bit LENGTH(32) (dnib * 2 ^ 30 + ?h) = dnib * 2 ^ 30 + ?h" using big by (simp add: take_bit_nat_eq_self)
  then have "unat (drop_bit 30 (pack_word bits dnib ds) AND 3) = take_bit 2 (drop_bit 30 (dnib * 2 ^ 30 + ?h))"
    by (simp only: m take_bit_eq_mask [symmetric] unsigned_take_bit_eq unsigned_drop_bit_eq u)
  also have "drop_bit 30 (dnib * 2 ^ 30 + ?h) = dnib" using h by (simp add: drop_bit_eq_div)
  also have "take_bit 2 dnib = dnib" using assms(2) by (simp add: take_bit_nat_eq_self)
  finally show ?thesis .
qed

lemma group_reads_back:
  assumes "g_ok order g"
  shows "word_diffs order (g_nib g) (g_word g) = g_diffs g"
proof (cases g)
  case (Raw w)
  then show ?thesis using packing_none [of order] by (simp add: word_diffs_def packing_def split: option.split)
next
  case (Packed nib dnib bits ds)
  have ok: "packing order (nib, dnib) = Some (length ds, bits)" "dnib < 4" "\<forall>d \<in> set ds. fits bits d"
      "bits * length ds = 32 \<longrightarrow> dnib = 0"
    using assms Packed by (simp_all add: list_all_iff)
  note f = packing_facts [OF ok(1,2)]
  let ?d = "unat (drop_bit 30 (pack_word bits dnib ds) AND 3)"
  have "(3 :: 32 word) = mask 2" by (simp add: mask_eq_exp_minus_1)
  then have "?d < 4" by (simp only: take_bit_eq_mask [symmetric] unsigned_take_bit_eq)
      (rule less_le_trans [OF take_bit_nat_less_exp], simp)
  then have "packing order (nib, ?d) = Some (length ds, bits)"
    using f ok pack_word_dnib [OF ok(3,2)] by (cases "bits * length ds = 32") auto
  moreover have "map (\<lambda>k. sign_extend bits (word_field (length ds) bits k (pack_word bits dnib ds))) [0..<length ds] = ds"
    using ok(2,3,4) f by (intro nth_equalityI) (auto intro!: pack_word_field)
  ultimately show ?thesis using Packed by (simp add: word_diffs_def packing_def)
qed

section \<open>Reading a record\<close>

lemma nibble_reads_back:
  assumes "length gs = 15" and "\<forall>g \<in> set gs. g_nib g < 4" and "1 \<le> k" and "k < 16"
  shows "nibble (of_nat (horner 2 (map g_nib gs))) k = g_nib (gs ! (k - 1))"
proof -
  let ?h = "horner 2 (map g_nib gs)"
  have small: "\<forall>v \<in> set (map g_nib gs). v < 2 ^ 2" using assms(2) by auto
  have "?h < 2 ^ 32" using horner_bound [OF small] assms(1) by simp
  then have u: "unat (of_nat ?h :: 32 word) = ?h" "take_bit LENGTH(32) ?h = ?h"
    by (simp_all add: unat_of_nat take_bit_nat_eq_self)
  have m: "(3 :: 32 word) = mask 2" by (simp add: mask_eq_exp_minus_1)
  have "nibble (of_nat ?h) k = take_bit 2 (drop_bit (30 - 2 * k) ?h)"
    by (simp only: nibble_def m take_bit_eq_mask [symmetric] unsigned_take_bit_eq unsigned_drop_bit_eq u)
  also have "30 - 2 * k = 2 * (length (map g_nib gs) - 1 - (k - 1))" using assms(1,3,4) by simp
  also have "take_bit 2 (drop_bit \<dots> ?h) = map g_nib gs ! (k - 1)"
    using assms(1,3,4) by (intro horner_digit [OF small]) simp
  finally show ?thesis using assms(1,3,4) by simp
qed

lemma g_ok_nib: "g_ok order g \<Longrightarrow> g_nib g < 4"
  by (cases g) auto

lemma frame_reads_back:
  assumes "length gs = 15" and "\<forall>g \<in> set gs. g_ok order g"
  shows "frame_diffs order (frame_words gs) = concat (map g_diffs gs)"
proof -
  have "map (\<lambda>k. word_diffs order (nibble (frame_words gs ! 0) k) (frame_words gs ! k)) [1..<16] = map g_diffs gs"
  proof (rule nth_equalityI)
    fix i assume "i < length (map (\<lambda>k. word_diffs order (nibble (frame_words gs ! 0) k) (frame_words gs ! k)) [1..<16])"
    then have i: "i < 15" by simp
    then have "nibble (frame_words gs ! 0) (Suc i) = g_nib (gs ! i)"
      using nibble_reads_back [of gs "Suc i"] assms g_ok_nib by (simp add: frame_words_def) blast
    moreover have "frame_words gs ! Suc i = g_word (gs ! i)" using i assms(1) by (simp add: frame_words_def)
    moreover have "g_ok order (gs ! i)" using i assms by simp
    ultimately show "map (\<lambda>k. word_diffs order (nibble (frame_words gs ! 0) k) (frame_words gs ! k)) [1..<16] ! i
        = map g_diffs gs ! i"
      using i assms(1) group_reads_back by simp
  qed (simp add: assms(1))
  then show ?thesis by (simp add: frame_diffs_def)
qed

lemma word_bytes_read_back [simp]:
  "be32 (ucast (drop_bit 24 w)) (ucast (drop_bit 16 w)) (ucast (drop_bit 8 w)) (ucast w) = (w :: 32 word)"
proof (rule bit_word_eqI)
  fix n assume "n < LENGTH(32)"
  then have n: "n < 32" by simp
  consider "n < 8" | "8 \<le> n" "n < 16" | "16 \<le> n" "n < 24" | "24 \<le> n" by linarith
  then show "bit (be32 (ucast (drop_bit 24 w)) (ucast (drop_bit 16 w)) (ucast (drop_bit 8 w)) (ucast w)) n = bit w n"
    using n by cases (auto simp: be32_def bit_simps)
qed

lemma be_words_read_back: "be_words (concat (map word_bytes ws)) = Some ws"
  by (induction ws) (simp_all add: word_bytes_def)

lemma frames_read_back:
  "\<forall>f \<in> set fs. length f = 16 \<Longrightarrow> frames_of (concat fs) = fs"
proof (induction fs)
  case (Cons f fs)
  have len: "length (concat fs) = 16 * length fs"
    using Cons.prems by (induction fs) auto
  have "frames_of (concat (f # fs)) = take 16 (concat (f # fs)) # frames_of (concat fs)"
    using Cons.prems len
    by (simp add: frames_of_def upt_conv_Cons map_Suc_upt [symmetric] del: upt_Suc)
  then show ?case using Cons by simp
qed (simp add: frames_of_def)

lemma signed32_reads_back:
  assumes "fits 32 x"
  shows "signed32 (word_of_int x) = x"
proof -
  have u: "int (unat (word_of_int x :: 32 word)) = x mod 2 ^ 32"
    by (simp add: unsigned_of_int take_bit_eq_mod)
  have b: "bit (word_of_int x :: 32 word) 31 \<longleftrightarrow> odd (x div 2 ^ 31)"
    by (subst bit_word_of_int_iff) (simp add: bit_iff_odd)
  have r: "- (2 ^ 31) \<le> x" "x < 2 ^ 31" using assms by (simp_all add: fits_def)
  show ?thesis
  proof (cases "0 \<le> x")
    case True
    then show ?thesis using r u b by (simp add: signed32_def)
  next
    case False
    then have "x div 2 ^ 31 = -1" using False r int_div_pos_eq [of x "2 ^ 31" "-1" "x + 2 ^ 31"] by simp
    moreover have "x mod 2 ^ 32 = x + 2 ^ 32"
      using False r by (subst mod_add_self2 [symmetric], intro mod_pos_pos_trivial) simp_all
    ultimately show ?thesis using u b by (simp add: signed32_def)
  qed
qed

lemma running_differences: "running a (map2 (-) xs (a # xs)) = xs"
  by (induction xs arbitrary: a) simp_all

text \<open>
  C12. A seismogram record reads back. However the differences of consecutive samples are
  packed (any mixture of the packings of Steim1 or Steim2 that has room for each, padding
  words included, a meaningless first difference, more differences than needed), the decoder
  returns exactly the samples, the first of them, and the last one the header repeats.
\<close>
theorem seismogram_reads_back:
  assumes "\<forall>gs \<in> set frames. length gs = 15 \<and> (\<forall>g \<in> set gs. g_ok order g)"
    and "frames = (Raw (word_of_int x) # Raw (word_of_int xn) # gs1) # more"
    and "concat (map (\<lambda>gs. concat (map g_diffs gs)) frames) = dfirst # map2 (-) xs (x # xs) @ extra"
    and "fits 32 x" and "fits 32 xn"
  shows "steim_decode (record_bytes frames) (length (x # xs)) order = Inr (x # xs, x, xn)"
proof -
  let ?w = "concat (map frame_words frames)"
  have len: "\<forall>f \<in> set (map frame_words frames). length f = 16"
    using assms(1) by (auto simp: frame_words_def)
  have w: "?w = of_nat (horner 2 (map g_nib (Raw (word_of_int x) # Raw (word_of_int xn) # gs1))) #
      word_of_int x # word_of_int xn # map g_word gs1 @ concat (map frame_words more)"
    by (simp add: assms(2) frame_words_def)
  have "16 \<le> length ?w"
    using len by (simp add: assms(2))
  then have enough: "\<not> length ?w div 16 < 1" by simp
  have "concat (map (frame_diffs order) (map frame_words frames)) = concat (map (\<lambda>gs. concat (map g_diffs gs)) frames)"
    using assms(1) frame_reads_back by (simp add: o_def cong: map_cong)
  then have d: "concat (map (frame_diffs order) (frames_of ?w)) = dfirst # map2 (-) xs (x # xs) @ extra"
    by (simp only: frames_read_back [OF len] assms(3))
  have x0: "signed32 (?w ! 1) = x" "signed32 (?w ! 2) = xn"
    by (simp_all only: w) (simp_all add: signed32_reads_back assms(4,5))
  have "take (length xs) (map2 (-) xs (x # xs) @ extra) = map2 (-) xs (x # xs)" by simp
  then show ?thesis
    using enough d x0
    by (simp add: steim_decode_def record_bytes_def be_words_read_back Let_def running_differences)
qed

theorem seismogram_reads_back_witness:
  "steim_decode (record_bytes [[Raw (word_of_int 100), Raw (word_of_int 97), Packed 3 2 4 [7, 5, -8, 0, 0, 1, 2],
      Raw 0, Raw 0, Raw 0, Raw 0, Raw 0, Raw 0, Raw 0, Raw 0, Raw 0, Raw 0, Raw 0, Raw 0]]) 3 2
   = Inr ([100, 105, 97], 100, 97)"
proof -
  let ?f = "[[Raw (word_of_int 100), Raw (word_of_int 97), Packed 3 2 4 [7, 5, -8, 0, 0, 1, 2],
      Raw 0, Raw 0, Raw 0, Raw 0, Raw 0, Raw 0, Raw 0, Raw 0, Raw 0, Raw 0, Raw 0, Raw 0]]"
  have "steim_decode (record_bytes ?f) (length [100 :: int, 105, 97]) 2 = Inr ([100, 105, 97], 100, 97)"
    by (rule seismogram_reads_back [where dfirst = 7 and extra = "[0, 0, 1, 2]"])
      (simp_all add: fits_def packing_def STEIM2_PACK_def)
  then show ?thesis by (simp add: numeral_3_eq_3)
qed

end
