(* ===== verification/FT_Trace.thy ===== *)
theory FT_Trace
  imports FT_Prelude "HOL-Library.Multiset"
begin

text \<open>
  How \<open>src/demos/sort.py\<close> records an algorithm: the class \<open>Trace\<close> with its three operations,
  the shuffle, and the playback that brings the picture up to any step. The sorting algorithms
  themselves are in \<open>FT_Sort\<close>, \<open>FT_Quick\<close>, \<open>FT_Heap\<close> and \<open>FT_Radix\<close>; what each of them owes
  the playback is the locale \<open>recorded_sort\<close> at the end.
\<close>

section \<open>Traces\<close>

text \<open>A write is \<open>(p0, v0, p1, v1)\<close>, a highlight \<open>(ca, cb, lo, hi)\<close>; minus one is absent.\<close>

type_synonym move = "int \<times> int \<times> int \<times> int"
type_synonym view = "int \<times> int \<times> int \<times> int"

record trace =
  tr_a :: "int list"
  tr_wr :: "move list"
  tr_hl :: "view list"

definition new_trace :: "int list \<Rightarrow> trace" where
  "new_trace values = \<lparr>tr_a = values, tr_wr = [], tr_hl = []\<rparr>"

definition mark :: "view \<Rightarrow> trace \<Rightarrow> trace" where
  "mark h t = t\<lparr>tr_wr := tr_wr t @ [(-1, -1, -1, -1)], tr_hl := tr_hl t @ [h]\<rparr>"

text \<open>The cursors left out of a call are minus one, and then the positions written.\<close>

definition overwrite :: "nat \<Rightarrow> int \<Rightarrow> view \<Rightarrow> trace \<Rightarrow> trace" where
  "overwrite i v = (\<lambda>(ca, cb, lo, hi) t.
     t\<lparr>tr_a := (tr_a t)[i := v],
       tr_wr := tr_wr t @ [(int i, v, -1, -1)],
       tr_hl := tr_hl t @ [(if ca < 0 then int i else ca, cb, lo, hi)]\<rparr>)"

definition swap :: "nat \<Rightarrow> nat \<Rightarrow> view \<Rightarrow> trace \<Rightarrow> trace" where
  "swap i j = (\<lambda>(ca, cb, lo, hi) t.
     let a = (tr_a t)[i := tr_a t ! j, j := tr_a t ! i]
     in t\<lparr>tr_a := a,
          tr_wr := tr_wr t @ [(int i, a ! i, int j, a ! j)],
          tr_hl := tr_hl t @ [(if ca < 0 then int i else ca, if cb < 0 then int j else cb, lo, hi)]\<rparr>)"

lemma trace_array [simp]:
  "tr_a (new_trace values) = values"
  "tr_a (mark h t) = tr_a t"
  "tr_a (overwrite i v h t) = (tr_a t)[i := v]"
  "tr_a (swap i j h t) = (tr_a t)[i := tr_a t ! j, j := tr_a t ! i]"
  by (auto simp: new_trace_def mark_def overwrite_def swap_def Let_def split: prod.split)

text \<open>
  The shuffle: \<open>d i\<close> is what the generator draws for position \<open>i\<close>, which numpy promises to be at
  most \<open>i\<close>.
\<close>

fun shuffle_from :: "(nat \<Rightarrow> nat) \<Rightarrow> nat \<Rightarrow> trace \<Rightarrow> trace" where
  "shuffle_from d 0 t = t"
| "shuffle_from d (Suc i) t =
     shuffle_from d i
       (let j = d (Suc i)
        in if Suc i \<noteq> j then swap (Suc i) j (-1, -1, -1, -1) t
           else mark (int (Suc i), -1, -1, -1) t)"

definition shuffle :: "(nat \<Rightarrow> nat) \<Rightarrow> trace \<Rightarrow> trace" where
  "shuffle d t = shuffle_from d (length (tr_a t) - 1) t"

section \<open>Playback\<close>

definition play_move :: "move \<Rightarrow> int list \<Rightarrow> int list" where
  "play_move = (\<lambda>(p, v, q, w) live.
     if p \<ge> 0
     then (let live = live[nat p := v] in if q \<ge> 0 then live[nat q := w] else live)
     else live)"

definition play :: "move list \<Rightarrow> int list \<Rightarrow> int list" where
  "play ws live = fold play_move ws live"

lemma play_simps [simp]:
  "play [] live = live"
  "play (w # ws) live = play ws (play_move w live)"
  "play (us @ ws) live = play ws (play us live)"
  by (simp_all add: play_def)

lemma length_play [simp]: "length (play ws live) = length live"
proof (induction ws arbitrary: live)
  case (Cons w ws)
  then show ?case by (simp add: play_move_def Let_def split: prod.split)
qed simp

section \<open>Runs\<close>

text \<open>
  A step records something inside the array and writes values of \<open>V\<close> only. \<open>stir lo hi\<close> are the steps of the
  algorithms that move elements by swaps inside \<open>lo \<le> p < hi\<close> only.
\<close>

definition view_fits :: "nat \<Rightarrow> view \<Rightarrow> bool" where
  "view_fits n = (\<lambda>(ca, cb, lo, hi).
     -1 \<le> ca \<and> ca < int n \<and> -1 \<le> cb \<and> cb < int n \<and> -1 \<le> lo \<and> lo < int n \<and> -1 \<le> hi \<and> hi < int n)"

definition move_fits :: "nat \<Rightarrow> move \<Rightarrow> bool" where
  "move_fits n = (\<lambda>(p, v, q, w). -1 \<le> p \<and> p < int n \<and> -1 \<le> q \<and> q < int n)"

definition move_values :: "int set \<Rightarrow> move \<Rightarrow> bool" where
  "move_values V = (\<lambda>(p, v, q, w). (0 \<le> p \<longrightarrow> v \<in> V) \<and> (0 \<le> q \<longrightarrow> w \<in> V))"

lemma move_values_simp [simp]:
  "move_values V (p, v, q, w) \<longleftrightarrow> (0 \<le> p \<longrightarrow> v \<in> V) \<and> (0 \<le> q \<longrightarrow> w \<in> V)"
  by (simp add: move_values_def)

lemma view_fits_simp [simp]:
  "view_fits n (ca, cb, lo, hi) \<longleftrightarrow>
     -1 \<le> ca \<and> ca < int n \<and> -1 \<le> cb \<and> cb < int n \<and> -1 \<le> lo \<and> lo < int n \<and> -1 \<le> hi \<and> hi < int n"
  by (simp add: view_fits_def)

lemma move_fits_simp [simp]:
  "move_fits n (p, v, q, w) \<longleftrightarrow> -1 \<le> p \<and> p < int n \<and> -1 \<le> q \<and> q < int n"
  by (simp add: move_fits_def)

inductive trace_step :: "int set \<Rightarrow> trace \<Rightarrow> trace \<Rightarrow> bool" for V where
  step_mark: "view_fits (length (tr_a t)) h \<Longrightarrow> trace_step V t (mark h t)"
| step_write: "i < length (tr_a t) \<Longrightarrow> v \<in> V \<Longrightarrow> view_fits (length (tr_a t)) h
              \<Longrightarrow> trace_step V t (overwrite i v h t)"
| step_swap: "i < length (tr_a t) \<Longrightarrow> j < length (tr_a t) \<Longrightarrow> view_fits (length (tr_a t)) h
              \<Longrightarrow> trace_step V t (swap i j h t)"

inductive stir :: "nat \<Rightarrow> nat \<Rightarrow> trace \<Rightarrow> trace \<Rightarrow> bool" for lo hi where
  stir_refl: "stir lo hi t t"
| stir_mark: "stir lo hi t u \<Longrightarrow> view_fits (length (tr_a u)) h \<Longrightarrow> stir lo hi t (mark h u)"
| stir_swap: "stir lo hi t u \<Longrightarrow> lo \<le> i \<Longrightarrow> i < hi \<Longrightarrow> lo \<le> j \<Longrightarrow> j < hi \<Longrightarrow> hi \<le> length (tr_a u)
              \<Longrightarrow> view_fits (length (tr_a u)) h \<Longrightarrow> stir lo hi t (swap i j h u)"

abbreviation runs :: "int set \<Rightarrow> trace \<Rightarrow> trace \<Rightarrow> bool" where
  "runs V \<equiv> (trace_step V)\<^sup>*\<^sup>*"

inductive_cases trace_stepE: "trace_step V t t'"

lemma runs_length: "runs V t t' \<Longrightarrow> length (tr_a t') = length (tr_a t)"
  by (induction rule: rtranclp_induct) (auto elim: trace_stepE)

lemma stir_trans:
  assumes "stir lo hi u v" "stir lo hi t u"
  shows "stir lo hi t v"
  using assms by (induction rule: stir.induct) (auto intro: stir.intros)

lemma stir_mono:
  assumes "stir lo hi t u" "lo' \<le> lo" "hi \<le> hi'" "hi' \<le> length (tr_a t)"
  shows "stir lo' hi' t u \<and> length (tr_a u) = length (tr_a t)"
  using assms by (induction rule: stir.induct) (auto intro!: stir.intros)

lemma stir_runs: "stir lo hi t u \<Longrightarrow> runs V t u"
proof (induction rule: stir.induct)
  case (stir_swap t u i j h)
  then have "trace_step V u (swap i j h u)"
    by (intro trace_step.step_swap) auto
  with stir_swap.IH show ?case by (rule rtranclp.rtrancl_into_rtrancl)
qed (auto intro: rtranclp.rtrancl_into_rtrancl trace_step.intros)

lemma stir_mset: "stir lo hi t u \<Longrightarrow> mset (tr_a u) = mset (tr_a t)"
  by (induction rule: stir.induct) (auto simp: mset_swap)

lemma stir_length: "stir lo hi t u \<Longrightarrow> length (tr_a u) = length (tr_a t)"
  using mset_eq_length stir_mset by blast

text \<open>Swaps inside a range leave the rest alone, and every element in it comes from inside it.\<close>

lemma stir_outside: "stir lo hi t u \<Longrightarrow> p < lo \<or> hi \<le> p \<Longrightarrow> tr_a u ! p = tr_a t ! p"
  by (induction rule: stir.induct) auto

lemma stir_inside:
  "stir lo hi t u \<Longrightarrow> lo \<le> p \<Longrightarrow> p < hi \<Longrightarrow> \<exists>q. lo \<le> q \<and> q < hi \<and> tr_a u ! p = tr_a t ! q"
proof (induction arbitrary: p rule: stir.induct)
  case (stir_swap t u i j h)
  have "\<exists>q. lo \<le> q \<and> q < hi \<and> tr_a (swap i j h u) ! p = tr_a u ! q"
    using stir_swap by (auto simp: nth_list_update)
  then show ?case using stir_swap.IH by metis
qed auto

section \<open>What a run leaves for the playback\<close>

lemma play_mark: "play_move (-1, v, q, w) live = live"
  by (simp add: play_move_def)

lemma play_write: "play_move (int i, v, -1, w) live = live[i := v]"
  by (simp add: play_move_def)

lemma play_swap:
  assumes "i < length a" "j < length a"
  shows "play_move (int i, a[i := a ! j, j := a ! i] ! i, int j, a ! i) a
         = a[i := a ! j, j := a ! i]"
  using assms by (cases "i = j") (auto simp: play_move_def nth_list_update)

lemma trace_step_records:
  assumes "trace_step V t u" "set (tr_a t) \<subseteq> V"
  shows "\<exists>w h. tr_wr u = tr_wr t @ [w] \<and> tr_hl u = tr_hl t @ [h] \<and> play_move w (tr_a t) = tr_a u
           \<and> move_fits (length (tr_a t)) w \<and> view_fits (length (tr_a t)) h
           \<and> move_values V w \<and> set (tr_a u) \<subseteq> V"
  using assms(1)
proof (cases rule: trace_step.cases)
  case (step_mark h)
  then show ?thesis using assms(2) by (simp add: mark_def play_mark)
next
  case (step_write i v h)
  then have "set (tr_a u) \<subseteq> V" using assms(2) set_update_subset_insert [of "tr_a t" i v] by auto
  with step_write show ?thesis by (auto simp: overwrite_def play_write split: prod.splits)
next
  case (step_swap i j h)
  then have at: "tr_a t ! i \<in> V" "tr_a t ! j \<in> V" using assms(2) nth_mem by blast+
  have "mset (tr_a u) = mset (tr_a t)" using step_swap by (simp add: mset_swap)
  then have "set (tr_a u) \<subseteq> V" using assms(2) by (auto dest: mset_eq_setD)
  moreover have "tr_a u ! i \<in> V" using at step_swap by (auto simp: nth_list_update)
  ultimately show ?thesis
    using at step_swap by (auto simp: swap_def Let_def play_swap split: prod.splits)
qed

lemma runs_record:
  assumes "runs V t u" "set (tr_a t) \<subseteq> V"
  shows "\<exists>ws hs. tr_wr u = tr_wr t @ ws \<and> tr_hl u = tr_hl t @ hs \<and> length hs = length ws
           \<and> play ws (tr_a t) = tr_a u
           \<and> list_all (move_fits (length (tr_a t))) ws \<and> list_all (view_fits (length (tr_a t))) hs
           \<and> list_all (move_values V) ws \<and> set (tr_a u) \<subseteq> V"
  using assms(1)
proof (induction rule: rtranclp_induct)
  case base
  then show ?case using assms(2) by simp
next
  case (step u v)
  then obtain ws hs where "tr_wr u = tr_wr t @ ws" "tr_hl u = tr_hl t @ hs" "length hs = length ws"
    "play ws (tr_a t) = tr_a u" "list_all (move_fits (length (tr_a t))) ws"
    "list_all (view_fits (length (tr_a t))) hs" "list_all (move_values V) ws" and V: "set (tr_a u) \<subseteq> V" by blast
  moreover obtain w h where "tr_wr v = tr_wr u @ [w]" "tr_hl v = tr_hl u @ [h]"
    "play_move w (tr_a u) = tr_a v" "move_fits (length (tr_a t)) w" "view_fits (length (tr_a t)) h"
    "move_values V w" "set (tr_a v) \<subseteq> V"
    using trace_step_records [OF step.hyps(2) V] runs_length [OF step.hyps(1)] by auto
  ultimately show ?case
    by (intro exI [of _ "ws @ [w]"] exI [of _ "hs @ [h]"]) simp
qed

lemma shuffle_from_stirs:
  "(\<And>k. d k \<le> k) \<Longrightarrow> i < length (tr_a t) \<Longrightarrow> stir 0 (length (tr_a t)) t (shuffle_from d i t)"
proof (induction i arbitrary: t)
  case (Suc i)
  define u where "u = (let j = d (Suc i)
        in if Suc i \<noteq> j then swap (Suc i) j (-1, -1, -1, -1) t
           else mark (int (Suc i), -1, -1, -1) t)"
  have "d (Suc i) < length (tr_a t)"
    using Suc.prems by (meson le_less_trans)
  then have u: "stir 0 (length (tr_a t)) t u"
    using Suc.prems by (auto simp: u_def Let_def intro!: stir.intros)
  moreover have "stir 0 (length (tr_a t)) u (shuffle_from d i u)"
    using Suc.IH [of u] Suc.prems stir_length [OF u] by simp
  ultimately show ?case by (auto simp: u_def intro: stir_trans)
qed (auto intro: stir.intros)

lemma shuffle_stirs:
  assumes "\<And>k. d k \<le> k"
  shows "stir 0 (length (tr_a t)) t (shuffle d t)"
proof (cases "tr_a t = []")
  case True
  then show ?thesis by (simp add: shuffle_def stir.intros)
next
  case False
  then show ?thesis using assms by (auto simp: shuffle_def intro!: shuffle_from_stirs)
qed

section \<open>The contract of a recorded algorithm\<close>

text \<open>
  What the race needs of an algorithm: on the arrays it accepts it returns, having used only the
  operations of \<open>Trace\<close> inside the array and on its values, and it leaves the array sorted. \<open>None\<close> is an exception.
\<close>

locale recorded_sort =
  fixes alg :: "trace \<Rightarrow> trace option" and accepts :: "int list \<Rightarrow> bool"
  assumes alg_sorts: "accepts (tr_a t) \<Longrightarrow> \<exists>u. alg t = Some u \<and> runs (set (tr_a t)) t u \<and> tr_a u = sort (tr_a t)"
begin

text \<open>The recorded moves, played over the array the algorithm started from, sort it.\<close>

lemma recording_sorts:
  assumes "accepts a"
  shows "\<exists>u. alg (new_trace a) = Some u \<and> tr_a u = sort a \<and> play (tr_wr u) a = sort a
     \<and> length (tr_hl u) = length (tr_wr u)
     \<and> list_all (move_fits (length a)) (tr_wr u) \<and> list_all (view_fits (length a)) (tr_hl u)
     \<and> list_all (move_values (set a)) (tr_wr u)"
proof -
  obtain u where u: "alg (new_trace a) = Some u" "runs (set a) (new_trace a) u" "tr_a u = sort a"
    using alg_sorts [of "new_trace a"] assms by auto
  then show ?thesis
    using runs_record [OF u(2)] by (auto simp: new_trace_def)
qed

end

end
