(* ===== verification/FT_Sort.thy ===== *)
theory FT_Sort
  imports FT_Trace
begin

text \<open>
  Bubble sort, insertion sort and bottom-up merge sort of \<open>src/demos/sort.py\<close>, as recorded runs.
\<close>

lemma sorts_by:
  assumes "mset b = mset a" and "\<And>p q. p < q \<Longrightarrow> q < length b \<Longrightarrow> (b :: int list) ! p \<le> b ! q"
  shows "b = sort a"
proof -
  have "sorted b"
    using assms(2) by (auto simp: sorted_iff_nth_mono le_less)
  then show ?thesis
    using assms(1) properties_for_sort by metis
qed

section \<open>Bubble sort\<close>

definition bubble_step :: "nat \<Rightarrow> nat \<Rightarrow> trace \<times> bool \<Rightarrow> trace \<times> bool" where
  "bubble_step e i = (\<lambda>(t, swapped).
     if tr_a t ! i > tr_a t ! (i + 1)
     then (swap i (i + 1) (-1, -1, 0, int e) t, True)
     else (mark (int i, int (i + 1), 0, int e) t, swapped))"

definition bubble_pass :: "nat \<Rightarrow> trace \<Rightarrow> trace \<times> bool" where
  "bubble_pass e t = fold (bubble_step e) [0..<e] (t, False)"

fun bubble_from :: "nat \<Rightarrow> trace \<Rightarrow> trace" where
  "bubble_from 0 t = t"
| "bubble_from (Suc e) t =
     (let (u, swapped) = bubble_pass (Suc e) t in if swapped then bubble_from e u else u)"

definition bubble :: "trace \<Rightarrow> trace" where
  "bubble t = bubble_from (length (tr_a t) - 1) t"

text \<open>
  After the first \<open>k\<close> comparisons of a pass the largest of the first \<open>k + 1\<close> elements is at
  \<open>k\<close>; a pass without a swap has seen them in order.
\<close>

lemma bubble_scan:
  assumes "e < length (tr_a t)" "k \<le> e"
  shows "case fold (bubble_step e) [0..<k] (t, False) of (u, swapped) \<Rightarrow>
           stir 0 (Suc e) t u \<and> (\<forall>p<k. tr_a u ! p \<le> tr_a u ! k) \<and>
           (\<not> swapped \<longrightarrow> (\<forall>p q. p < q \<and> q \<le> k \<longrightarrow> tr_a u ! p \<le> tr_a u ! q))"
  using assms(2)
proof (induction k)
  case 0
  then show ?case by (simp add: stir.intros)
next
  case (Suc k)
  obtain u s where us: "fold (bubble_step e) [0..<k] (t, False) = (u, s)" by fastforce
  with Suc have ih: "stir 0 (Suc e) t u" "\<And>p. p < k \<Longrightarrow> tr_a u ! p \<le> tr_a u ! k"
    "\<And>p q. \<not> s \<Longrightarrow> p < q \<Longrightarrow> q \<le> k \<Longrightarrow> tr_a u ! p \<le> tr_a u ! q" by auto
  have len: "length (tr_a u) = length (tr_a t)" using ih(1) by (rule stir_length)
  have next_step: "fold (bubble_step e) [0..<Suc k] (t, False) = bubble_step e k (u, s)"
    by (simp add: us)
  show ?case
  proof (cases "tr_a u ! k > tr_a u ! (k + 1)")
    case True
    then have "bubble_step e k (u, s) = (swap k (k + 1) (-1, -1, 0, int e) u, True)"
      by (simp add: bubble_step_def)
    moreover have "stir 0 (Suc e) t (swap k (k + 1) (-1, -1, 0, int e) u)"
      using ih(1) len Suc.prems assms(1) by (intro stir.stir_swap) auto
    moreover have "tr_a u ! p \<le> tr_a u ! k" if "p < k" for p
      using that by (rule ih(2))
    ultimately show ?thesis
      using True len Suc.prems assms(1)
      by (auto simp only: next_step) (auto simp: nth_list_update less_Suc_eq)
  next
    case False
    then have "bubble_step e k (u, s) = (mark (int k, int (k + 1), 0, int e) u, s)"
      by (simp add: bubble_step_def)
    moreover have "stir 0 (Suc e) t (mark (int k, int (k + 1), 0, int e) u)"
      using ih(1) len Suc.prems assms(1) by (intro stir.stir_mark) auto
    moreover have "tr_a u ! p \<le> tr_a u ! Suc k" if "p < Suc k" for p
      using that False ih(2) [of p] by (cases "p = k") auto
    ultimately show ?thesis
      using ih(3) by (auto simp: next_step le_Suc_eq simp del: fold_simps upt_Suc)
  qed
qed

lemma bubble_from_sorts:
  assumes "e < length (tr_a t)"
    and "\<And>p q. p < q \<Longrightarrow> e < q \<Longrightarrow> q < length (tr_a t) \<Longrightarrow> tr_a t ! p \<le> tr_a t ! q"
  shows "stir 0 (length (tr_a t)) t (bubble_from e t) \<and>
         (\<forall>p q. p < q \<and> q < length (tr_a t) \<longrightarrow> tr_a (bubble_from e t) ! p \<le> tr_a (bubble_from e t) ! q)"
  using assms
proof (induction e arbitrary: t)
  case 0
  then show ?case by (auto intro: stir.intros)
next
  case (Suc e)
  obtain u s where us: "bubble_pass (Suc e) t = (u, s)" by fastforce
  then have scan: "stir 0 (Suc (Suc e)) t u" "\<And>p. p < Suc e \<Longrightarrow> tr_a u ! p \<le> tr_a u ! Suc e"
    "\<And>p q. \<not> s \<Longrightarrow> p < q \<Longrightarrow> q \<le> Suc e \<Longrightarrow> tr_a u ! p \<le> tr_a u ! q"
    using bubble_scan [of "Suc e" t "Suc e"] Suc.prems(1) by (auto simp: bubble_pass_def)
  have len: "length (tr_a u) = length (tr_a t)" using scan(1) by (rule stir_length)
  have all: "stir 0 (length (tr_a t)) t u"
    using stir_mono [OF scan(1)] Suc.prems(1) by auto
  have tail: "tr_a u ! p \<le> tr_a u ! q" if pq: "p < q" "Suc e < q" "q < length (tr_a t)" for p q
  proof (cases "p < Suc (Suc e)")
    case True
    then obtain r where "r < Suc (Suc e)" "tr_a u ! p = tr_a t ! r"
      using stir_inside [OF scan(1), of p] by auto
    moreover have "tr_a u ! q = tr_a t ! q"
      using stir_outside [OF scan(1), of q] pq by simp
    ultimately show ?thesis using Suc.prems(2) [of r q] pq by simp
  next
    case False
    then show ?thesis
      using stir_outside [OF scan(1)] Suc.prems(2) [of p q] pq by simp
  qed
  have tail': "tr_a u ! p \<le> tr_a u ! q" if "p < q" "e < q" "q < length (tr_a u)" for p q
    using that scan(2) [of p] tail [of p q] len by (cases "q = Suc e") auto
  have "stir 0 (length (tr_a t)) u (bubble_from e u) \<and>
        (\<forall>p q. p < q \<and> q < length (tr_a t) \<longrightarrow> tr_a (bubble_from e u) ! p \<le> tr_a (bubble_from e u) ! q)"
    using Suc.IH [of u] Suc.prems(1) tail' by (simp add: len)
  moreover have "tr_a u ! p \<le> tr_a u ! q" if "\<not> s" "p < q" "q < length (tr_a t)" for p q
    using that scan(3) tail [of p q] by (cases "q \<le> Suc e") auto
  ultimately show ?case
    using all stir_trans by (auto simp: us)
qed

lemma bubble_correct: "stir 0 (length (tr_a t)) t (bubble t) \<and> tr_a (bubble t) = sort (tr_a t)"
proof (cases "tr_a t = []")
  case True
  then show ?thesis by (simp add: bubble_def stir.intros)
next
  case False
  then have "stir 0 (length (tr_a t)) t (bubble t) \<and>
      (\<forall>p q. p < q \<and> q < length (tr_a t) \<longrightarrow> tr_a (bubble t) ! p \<le> tr_a (bubble t) ! q)"
    unfolding bubble_def by (intro bubble_from_sorts) auto
  then show ?thesis
    using stir_mset stir_length by (metis sorts_by)
qed

interpretation bubble: recorded_sort "\<lambda>t. Some (bubble t)" "\<lambda>_. True"
  by unfold_locales (use bubble_correct stir_runs in blast)

section \<open>Insertion sort\<close>

text \<open>The inner loop, with the source's \<open>j\<close> one less than the third argument.\<close>

fun insert_shift :: "nat \<Rightarrow> int \<Rightarrow> nat \<Rightarrow> trace \<Rightarrow> nat \<times> trace" where
  "insert_shift i v 0 t = (0, t)"
| "insert_shift i v (Suc j) t =
     (if tr_a t ! j > v
      then insert_shift i v j (overwrite (Suc j) (tr_a t ! j) (int (Suc j), int i, 0, int i) t)
      else (Suc j, t))"

definition insert_at :: "nat \<Rightarrow> trace \<Rightarrow> trace" where
  "insert_at i t =
     (let v = tr_a t ! i; (p, u) = insert_shift i v i t in overwrite p v (int p, int i, 0, int i) u)"

definition insertion :: "trace \<Rightarrow> trace" where
  "insertion t = fold insert_at [1..<length (tr_a t)] t"

lemma insert_shift_effect:
  assumes "j \<le> i" "i < length (tr_a t)" "insert_shift i v j t = (p, u)" "set (tr_a t) \<subseteq> V"
  shows "p \<le> j \<and> runs V t u \<and> (p = 0 \<or> tr_a t ! (p - 1) \<le> v) \<and> (\<forall>q. p \<le> q \<and> q < j \<longrightarrow> v < tr_a t ! q)
    \<and> (\<forall>q. tr_a u ! q = (if p < q \<and> q \<le> j then tr_a t ! (q - 1) else tr_a t ! q))"
  using assms
proof (induction j arbitrary: t)
  case (Suc j)
  define w where "w = overwrite (Suc j) (tr_a t ! j) (int (Suc j), int i, 0, int i) t"
  show ?case
  proof (cases "tr_a t ! j > v")
    case True
    have "tr_a t ! j \<in> V" using Suc.prems nth_mem [of j "tr_a t"] by auto
    then have step: "trace_step V t w" and V: "set (tr_a w) \<subseteq> V"
      using Suc.prems set_update_subset_insert [of "tr_a t" "Suc j" "tr_a t ! j"]
      by (auto simp: w_def intro!: trace_step.intros)
    have at: "tr_a w ! q = (if q = Suc j then tr_a t ! j else tr_a t ! q)" for q
      using Suc.prems by (simp add: w_def nth_list_update)
    have ih: "p \<le> j" "runs V w u" "p = 0 \<or> tr_a w ! (p - 1) \<le> v" "\<And>q. p \<le> q \<Longrightarrow> q < j \<Longrightarrow> v < tr_a w ! q"
      "\<And>q. tr_a u ! q = (if p < q \<and> q \<le> j then tr_a w ! (q - 1) else tr_a w ! q)"
      using Suc.IH [of w] Suc.prems True V by (auto simp: w_def)
    have "runs V t u" using step ih(2) by (rule converse_rtranclp_into_rtranclp)
    moreover have "p = 0 \<or> tr_a t ! (p - 1) \<le> v"
      using ih(1,3) by (auto simp: at split: if_splits)
    moreover have "v < tr_a t ! q" if "p \<le> q" "q < Suc j" for q
      using that ih(4) [of q] True by (cases "q = j") (auto simp: at)
    moreover have "tr_a u ! q = (if p < q \<and> q \<le> Suc j then tr_a t ! (q - 1) else tr_a t ! q)" for q
      using ih(1) by (cases "q = Suc j") (auto simp: ih(5) at)
    ultimately show ?thesis using ih(1) by auto
  next
    case False
    then show ?thesis using Suc.prems by auto
  qed
qed auto

lemma insert_at_effect:
  assumes "i < length (tr_a t)" "\<And>p q. p < q \<Longrightarrow> q < i \<Longrightarrow> tr_a t ! p \<le> tr_a t ! q"
  shows "runs (set (tr_a t)) t (insert_at i t) \<and> mset (tr_a (insert_at i t)) = mset (tr_a t)
    \<and> (\<forall>p q. p < q \<and> q < Suc i \<longrightarrow> tr_a (insert_at i t) ! p \<le> tr_a (insert_at i t) ! q)"
proof -
  let ?a = "tr_a t"
  obtain p u where pu: "insert_shift i (?a ! i) i t = (p, u)" by fastforce
  then have sh: "p \<le> i" "runs (set ?a) t u" "p = 0 \<or> ?a ! (p - 1) \<le> ?a ! i" "\<And>q. p \<le> q \<Longrightarrow> q < i \<Longrightarrow> ?a ! i < ?a ! q"
    "\<And>q. tr_a u ! q = (if p < q \<and> q \<le> i then ?a ! (q - 1) else ?a ! q)"
    using insert_shift_effect [of i i t "?a ! i" p u "set ?a"] assms(1) by auto
  have len: "length (tr_a u) = length ?a" using sh(2) by (rule runs_length)
  have out: "tr_a (insert_at i t) = (tr_a u)[p := ?a ! i]"
    by (simp add: insert_at_def pu)
  have "trace_step (set ?a) u (insert_at i t)"
    using assms(1) sh(1) len by (auto simp: insert_at_def pu intro!: trace_step.intros)
  with sh(2) have r: "runs (set ?a) t (insert_at i t)" by (rule rtranclp.rtrancl_into_rtrancl)
  have at: "tr_a (insert_at i t) ! q = (if q = p then ?a ! i else if p < q \<and> q \<le> i then ?a ! (q - 1) else ?a ! q)" for q
    using assms(1) sh(1) len by (auto simp: out sh(5) nth_list_update)
  have cut: "?a = take p ?a @ drop p (take i ?a) @ ?a ! i # drop (Suc i) ?a"
  proof -
    have "take p ?a @ drop p (take i ?a) = take i ?a"
      using append_take_drop_id [of p "take i ?a"] sh(1) by (simp add: min_def)
    then show ?thesis
      using id_take_nth_drop [OF assms(1)] by (metis append_assoc)
  qed
  have "tr_a (insert_at i t) = take p ?a @ ?a ! i # drop p (take i ?a) @ drop (Suc i) ?a"
  proof (rule nth_equalityI)
    show "length (tr_a (insert_at i t)) = length (take p ?a @ ?a ! i # drop p (take i ?a) @ drop (Suc i) ?a)"
      using assms(1) sh(1) len by (simp add: out)
    fix q assume "q < length (tr_a (insert_at i t))"
    then have q: "q < length ?a" by (simp add: out len)
    consider "q < p" | "q = p" | "p < q" "q \<le> i" | "i < q" by linarith
    then show "tr_a (insert_at i t) ! q = (take p ?a @ ?a ! i # drop p (take i ?a) @ drop (Suc i) ?a) ! q"
      using q assms(1) sh(1) by cases (auto simp: at nth_append nth_Cons')
  qed
  then have "mset (tr_a (insert_at i t)) = mset (take p ?a @ drop p (take i ?a) @ ?a ! i # drop (Suc i) ?a)"
    by simp
  then have "mset (tr_a (insert_at i t)) = mset ?a"
    by (simp only: cut [symmetric])
  moreover have "tr_a (insert_at i t) ! x \<le> tr_a (insert_at i t) ! y" if xy: "x < y" "y < Suc i" for x y
  proof -
    have low: "?a ! x \<le> ?a ! i" if "x < p" for x
    proof (cases "x = p - 1")
      case True
      then show ?thesis using that sh(3) by auto
    next
      case False
      then have "?a ! x \<le> ?a ! (p - 1)" using that sh(1) assms(2) by simp
      then show ?thesis using that sh(3) by auto
    qed
    have high: "?a ! i \<le> ?a ! z" if "p \<le> z" "z < i" for z
      using that sh(4) [of z] by simp
    consider "y < p" | "y = p" | "x < p" "p < y" | "x = p" | "p < x" using xy by linarith
    then show ?thesis
    proof cases
      case 3
      have "?a ! x \<le> ?a ! (y - 1)" using assms(2) [of x "y - 1"] 3 xy by simp
      then show ?thesis using 3 xy by (simp add: at)
    next
      case 4
      then show ?thesis using high [of "y - 1"] xy by (simp add: at)
    next
      case 5
      then have "?a ! (x - 1) \<le> ?a ! (y - 1)" using assms(2) [of "x - 1" "y - 1"] xy by simp
      then show ?thesis using 5 xy by (simp add: at)
    qed (use xy low sh(1) assms(2) in \<open>simp_all add: at\<close>)
  qed
  ultimately show ?thesis using r by blast
qed

lemma insertion_prefix:
  assumes "k < length (tr_a t)"
  shows "runs (set (tr_a t)) t (fold insert_at [1..<Suc k] t) \<and> mset (tr_a (fold insert_at [1..<Suc k] t)) = mset (tr_a t)
    \<and> (\<forall>p q. p < q \<and> q < Suc k \<longrightarrow> tr_a (fold insert_at [1..<Suc k] t) ! p \<le> tr_a (fold insert_at [1..<Suc k] t) ! q)"
  using assms
proof (induction k)
  case (Suc k)
  define u where "u = fold insert_at [1..<Suc k] t"
  have ih: "runs (set (tr_a t)) t u" "mset (tr_a u) = mset (tr_a t)" "\<And>p q. p < q \<Longrightarrow> q < Suc k \<Longrightarrow> tr_a u ! p \<le> tr_a u ! q"
    using Suc by (auto simp: u_def)
  have "fold insert_at [1..<Suc (Suc k)] t = insert_at (Suc k) u"
    by (simp add: u_def)
  with mset_eq_setD [OF ih(2)] insert_at_effect [of "Suc k" u] ih runs_length [OF ih(1)] Suc.prems show ?case by auto
qed auto

lemma insertion_correct: "runs (set (tr_a t)) t (insertion t) \<and> tr_a (insertion t) = sort (tr_a t)"
proof (cases "tr_a t = []")
  case True
  then show ?thesis by (simp add: insertion_def)
next
  case False
  then obtain k where k: "length (tr_a t) = Suc k" by (cases "tr_a t") auto
  then show ?thesis
    using insertion_prefix [of k t] by (auto simp: insertion_def dest: mset_eq_length intro!: sorts_by)
qed

interpretation insertion: recorded_sort "\<lambda>t. Some (insertion t)" "\<lambda>_. True"
  by unfold_locales (use insertion_correct in blast)

end
