(* ===== verification/FT_Quick.thy ===== *)
theory FT_Quick
  imports FT_Sort
begin

text \<open>
  Quicksort of \<open>src/demos/sort.py\<close>: median-of-three, Lomuto partitioning, an explicit stack.
\<close>

section \<open>Partitioning\<close>

definition order_pair :: "nat \<Rightarrow> nat \<Rightarrow> view \<Rightarrow> trace \<Rightarrow> trace" where
  "order_pair x y h t = (if tr_a t ! y < tr_a t ! x then swap x y h t else t)"

definition median_of_three :: "nat \<Rightarrow> nat \<Rightarrow> trace \<Rightarrow> trace" where
  "median_of_three lo hi t =
     (let mid = (lo + hi) div 2; h = (-1, -1, int lo, int hi)
      in order_pair mid hi h (order_pair lo hi h (order_pair lo mid h t)))"

definition part_step :: "nat \<Rightarrow> nat \<Rightarrow> int \<Rightarrow> nat \<Rightarrow> nat \<times> trace \<Rightarrow> nat \<times> trace" where
  "part_step lo hi pivot j = (\<lambda>(i, t).
     let h = (int hi, int j, int lo, int hi); t = mark h t
     in if tr_a t ! j \<le> pivot then (i + 1, if i \<noteq> j then swap i j h t else t) else (i, t))"

definition partition_at :: "nat \<Rightarrow> nat \<Rightarrow> trace \<Rightarrow> nat \<times> trace" where
  "partition_at lo hi t =
     (let t = median_of_three lo hi t;
          (i, t) = fold (part_step lo hi (tr_a t ! hi)) [lo..<hi] (lo, t)
      in (i, swap i hi (int i, int hi, int lo, int hi) t))"

lemma order_pair_stir:
  assumes "lo \<le> x" "x \<le> hi" "lo \<le> y" "y \<le> hi" "hi < length (tr_a t)" "view_fits (length (tr_a t)) h"
  shows "stir lo (Suc hi) t (order_pair x y h t)"
  using assms by (auto simp: order_pair_def intro!: stir.intros)

lemma median_stir:
  assumes "lo \<le> hi" "hi < length (tr_a t)"
  shows "stir lo (Suc hi) t (median_of_three lo hi t)"
proof -
  define h where "h = (-1 :: int, -1 :: int, int lo, int hi)"
  define mid where "mid = (lo + hi) div 2"
  have m: "lo \<le> mid" "mid \<le> hi" using assms by (auto simp: mid_def)
  have step: "stir lo (Suc hi) u (order_pair x y h u)"
    if "x \<in> {lo, mid, hi}" "y \<in> {lo, mid, hi}" "length (tr_a u) = length (tr_a t)" for x y u
    using that m assms by (intro order_pair_stir) (auto simp: h_def)
  define u where "u = order_pair lo mid h t"
  define v where "v = order_pair lo hi h u"
  have u: "stir lo (Suc hi) t u" unfolding u_def by (rule step) auto
  have v: "stir lo (Suc hi) u v" unfolding v_def by (rule step) (use stir_length [OF u] in auto)
  have "stir lo (Suc hi) v (order_pair mid hi h v)"
    by (rule step) (use stir_length [OF u] stir_length [OF v] in auto)
  then have "stir lo (Suc hi) t (order_pair mid hi h v)"
    using u v by (meson stir_trans)
  then show ?thesis
    by (simp add: median_of_three_def Let_def u_def v_def h_def mid_def)
qed

text \<open>The scan: elements up to \<open>i\<close> are at most the pivot, those from \<open>i\<close> to the cursor above it.\<close>

lemma part_scan:
  assumes "lo \<le> k" "k \<le> hi"
  shows "case fold (part_step lo hi pivot) [lo..<k] (lo, t) of (i, u) \<Rightarrow> lo \<le> i \<and> i \<le> k \<and>
    (hi < length (tr_a t) \<longrightarrow> stir lo hi t u \<and> (\<forall>p. lo \<le> p \<and> p < i \<longrightarrow> tr_a u ! p \<le> pivot)
       \<and> (\<forall>p. i \<le> p \<and> p < k \<longrightarrow> pivot < tr_a u ! p))"
  using assms
proof (induction k rule: dec_induct)
  case base
  then show ?case by (simp add: stir.intros)
next
  case (step k)
  obtain i u where iu: "fold (part_step lo hi pivot) [lo..<k] (lo, t) = (i, u)" by fastforce
  with step have ih: "lo \<le> i" "i \<le> k" by auto
  have next_step: "fold (part_step lo hi pivot) [lo..<Suc k] (lo, t) = part_step lo hi pivot k (i, u)"
    using step.hyps by (simp add: iu)
  define h where "h = (int hi, int k, int lo, int hi)"
  show ?case
  proof (cases "hi < length (tr_a t)")
    case False
    then show ?thesis
      unfolding next_step using ih by (simp add: part_step_def Let_def)
  next
    case True
    with iu step have ih2: "stir lo hi t u" "\<And>p. lo \<le> p \<Longrightarrow> p < i \<Longrightarrow> tr_a u ! p \<le> pivot"
      "\<And>p. i \<le> p \<Longrightarrow> p < k \<Longrightarrow> pivot < tr_a u ! p" by auto
    have len: "length (tr_a u) = length (tr_a t)" using ih2(1) by (rule stir_length)
    have fits: "view_fits (length (tr_a u)) h"
      using True step.prems step.hyps by (simp add: h_def len)
    have m: "stir lo hi t (mark h u)" using ih2(1) fits by (rule stir_mark)
    show ?thesis
    proof (cases "tr_a u ! k \<le> pivot")
      case le: True
      define w where "w = (if i \<noteq> k then swap i k h (mark h u) else mark h u)"
      have e: "part_step lo hi pivot k (i, u) = (i + 1, w)"
        using le by (simp add: part_step_def Let_def w_def h_def)
      have "stir lo hi t w"
        using m fits ih step.hyps step.prems True len by (auto simp: w_def intro!: stir_swap)
      moreover have "tr_a w ! p \<le> pivot" if "lo \<le> p" "p < i + 1" for p
        using that ih2(2) [of p] le ih step.prems True len
        by (auto simp: w_def nth_list_update less_Suc_eq)
      moreover have "pivot < tr_a w ! p" if "i + 1 \<le> p" "p < Suc k" for p
        using that ih2(3) [of p] ih2(3) [of i] ih step.prems True len
        by (auto simp: w_def nth_list_update less_Suc_eq)
      ultimately show ?thesis unfolding next_step e using ih by simp
    next
      case gt: False
      then have e: "part_step lo hi pivot k (i, u) = (i, mark h u)"
        by (simp add: part_step_def Let_def h_def)
      show ?thesis
        unfolding next_step e using m ih ih2 gt by (auto simp: less_Suc_eq)
    qed
  qed
qed

lemma partition_bounds:
  assumes "lo \<le> hi" "partition_at lo hi t = (i, u)"
  shows "lo \<le> i \<and> i \<le> hi"
  using part_scan [of lo hi hi "median_of_three lo hi t" "tr_a (median_of_three lo hi t) ! hi"] assms
  by (auto simp: partition_at_def Let_def split: prod.splits)

lemma partition_effect:
  assumes "lo \<le> hi" "hi < length (tr_a t)" "partition_at lo hi t = (i, u)"
  shows "stir lo (Suc hi) t u" "lo \<le> i" "i \<le> hi"
    "\<And>p. lo \<le> p \<Longrightarrow> p < i \<Longrightarrow> tr_a u ! p \<le> tr_a u ! i"
    "\<And>p. i < p \<Longrightarrow> p \<le> hi \<Longrightarrow> tr_a u ! i \<le> tr_a u ! p"
proof -
  define m where "m = median_of_three lo hi t"
  have m: "stir lo (Suc hi) t m" unfolding m_def using assms by (intro median_stir)
  have len: "length (tr_a m) = length (tr_a t)" using m by (rule stir_length)
  obtain v where v: "fold (part_step lo hi (tr_a m ! hi)) [lo..<hi] (lo, m) = (i, v)"
    and u: "u = swap i hi (int i, int hi, int lo, int hi) v"
    using assms(3) by (auto simp: partition_at_def Let_def m_def split: prod.splits)
  have sc: "lo \<le> i" "i \<le> hi" "stir lo hi m v" "\<And>p. lo \<le> p \<Longrightarrow> p < i \<Longrightarrow> tr_a v ! p \<le> tr_a m ! hi"
    "\<And>p. i \<le> p \<Longrightarrow> p < hi \<Longrightarrow> tr_a m ! hi < tr_a v ! p"
    using part_scan [of lo hi hi m "tr_a m ! hi"] v assms len by auto
  have at: "tr_a v ! hi = tr_a m ! hi" using stir_outside [OF sc(3)] by simp
  have lv: "length (tr_a v) = length (tr_a t)" using stir_length [OF sc(3)] len by simp
  have "stir lo (Suc hi) m v"
    using stir_mono [OF sc(3)] assms(2) len by auto
  then have "stir lo (Suc hi) t v" using m by (rule stir_trans)
  then show "stir lo (Suc hi) t u"
    unfolding u using sc(1,2) assms lv by (intro stir_swap) auto
  show "lo \<le> i" "i \<le> hi" by (rule sc)+
  show "tr_a u ! p \<le> tr_a u ! i" if "lo \<le> p" "p < i" for p
    using that sc at lv assms by (auto simp: u nth_list_update)
  show "tr_a u ! i \<le> tr_a u ! p" if "i < p" "p \<le> hi" for p
    using that sc(1,2) sc(5) [of p] sc(5) [of i] at lv assms by (auto simp: u nth_list_update)
qed

section \<open>The stack\<close>

text \<open>The top of the stack is the head of the list; \<open>hi\<close> may be one below \<open>lo\<close>, and then minus one.\<close>

function (sequential) quick_loop :: "(nat \<times> int) list \<Rightarrow> trace \<Rightarrow> trace" where
  "quick_loop [] t = t"
| "quick_loop ((lo, hi) # stack) t =
     (if int lo \<ge> hi then quick_loop stack t
      else (let (i, u) = partition_at lo (nat hi) t
            in quick_loop ((i + 1, hi) # (lo, int i - 1) # stack) u))"
  by pat_completeness auto
termination
proof (relation "measure (\<lambda>(stack, t). \<Sum>(lo, hi)\<leftarrow>stack. 2 * nat (hi - int lo + 1) + 1)", goal_cases)
  case (3 lo hi stack t x i u)
  then have "lo \<le> i" "i \<le> nat hi" "int lo < hi"
    using partition_bounds [of lo "nat hi" t i u] by auto
  then show ?case by auto
qed auto

definition quicksort :: "trace \<Rightarrow> trace" where
  "quicksort t = quick_loop [(0, int (length (tr_a t)) - 1)] t"

declare quick_loop.simps [simp del]

text \<open>
  Pending ranges are disjoint; two positions that are in no pending range together are in order.
\<close>

definition apart :: "nat \<times> int \<Rightarrow> nat \<times> int \<Rightarrow> bool" where
  "apart = (\<lambda>(lo, hi) (lo', hi'). hi < int lo' \<or> hi' < int lo)"

definition covers :: "nat \<Rightarrow> nat \<Rightarrow> nat \<times> int \<Rightarrow> bool" where
  "covers p q = (\<lambda>(lo, hi). lo \<le> p \<and> int q \<le> hi)"

definition pending :: "(nat \<times> int) list \<Rightarrow> int list \<Rightarrow> bool" where
  "pending stack a \<longleftrightarrow> sorted_wrt apart stack \<and> (\<forall>(lo, hi) \<in> set stack. hi < int (length a)) \<and>
     (\<forall>p q. p < q \<and> q < length a \<and> (\<forall>r \<in> set stack. \<not> covers p q r) \<longrightarrow> a ! p \<le> a ! q)"

lemma pendingD:
  "pending stack a \<Longrightarrow> p < q \<Longrightarrow> q < length a \<Longrightarrow> (\<And>r. r \<in> set stack \<Longrightarrow> \<not> covers p q r) \<Longrightarrow> a ! p \<le> a ! q"
  by (auto simp: pending_def)

lemma pending_drop:
  assumes "pending ((lo, hi) # stack) a" "int lo \<ge> hi"
  shows "pending stack a"
  using assms by (auto simp: pending_def covers_def)

text \<open>One of two positions outside the range that is partitioned: nothing pending covers both.\<close>

lemma uncovered:
  assumes "pending ((lo, hi) # stack) a" "lo \<le> p \<and> int p \<le> hi \<or> lo \<le> q \<and> int q \<le> hi"
    "p < q" "\<not> (lo \<le> p \<and> int q \<le> hi)" "q < length a"
  shows "a ! p \<le> a ! q"
proof (rule pendingD [OF assms(1,3,5)])
  fix r assume "r \<in> set ((lo, hi) # stack)"
  then consider "r = (lo, hi)" | "apart (lo, hi) r"
    using assms(1) by (auto simp: pending_def)
  then show "\<not> covers p q r"
    using assms by cases (auto simp: covers_def apart_def split: prod.splits)
qed

lemma pending_partition:
  assumes "pending ((lo, hi) # stack) (tr_a t)" "int lo < hi" "partition_at lo (nat hi) t = (i, u)"
  shows "pending ((i + 1, hi) # (lo, int i - 1) # stack) (tr_a u)"
proof -
  have hi: "hi < int (length (tr_a t))" using assms(1) by (simp add: pending_def)
  then have pe: "stir lo (Suc (nat hi)) t u" "lo \<le> i" "i \<le> nat hi"
    "\<And>p. lo \<le> p \<Longrightarrow> p < i \<Longrightarrow> tr_a u ! p \<le> tr_a u ! i"
    "\<And>p. i < p \<Longrightarrow> p \<le> nat hi \<Longrightarrow> tr_a u ! i \<le> tr_a u ! p"
    using partition_effect [OF _ _ assms(3)] assms(2) by auto
  have len: "length (tr_a u) = length (tr_a t)" using pe(1) by (rule stir_length)
  have "sorted_wrt apart ((i + 1, hi) # (lo, int i - 1) # stack)"
    using assms(1,2) pe(2,3) by (auto simp: pending_def apart_def)
  moreover have "\<forall>(l, h) \<in> set ((i + 1, hi) # (lo, int i - 1) # stack). h < int (length (tr_a u))"
    using assms(1) pe(3) hi by (auto simp: pending_def len)
  moreover have "tr_a u ! p \<le> tr_a u ! q"
    if pq: "p < q" "q < length (tr_a u)" "\<And>r. r \<in> set ((i + 1, hi) # (lo, int i - 1) # stack) \<Longrightarrow> \<not> covers p q r"
    for p q
  proof -
    let ?in = "\<lambda>x. lo \<le> x \<and> x < Suc (nat hi)"
    have src: "\<exists>y. ?in y \<and> tr_a u ! x = tr_a t ! y" if "?in x" for x
      using stir_inside [OF pe(1), of x] that by auto
    have same: "tr_a u ! x = tr_a t ! x" if "\<not> ?in x" for x
      using stir_outside [OF pe(1), of x] that by auto
    consider "?in p" "?in q" | "?in p" "\<not> ?in q" | "\<not> ?in p" "?in q" | "\<not> ?in p" "\<not> ?in q" by blast
    then show ?thesis
    proof cases
      case 1
      have "\<not> (i + 1 \<le> p)" "\<not> (q < i)"
        using pq(3) [of "(i + 1, hi)"] pq(3) [of "(lo, int i - 1)"] 1 by (auto simp: covers_def)
      then have "p \<le> i" "i \<le> q" by auto
      then have "tr_a u ! p \<le> tr_a u ! i" "tr_a u ! i \<le> tr_a u ! q"
        using pe(4) [of p] pe(5) [of q] 1 by (cases "p = i"; cases "q = i"; simp)+
      then show ?thesis by (rule order_trans)
    next
      case 2
      then obtain y where y: "?in y" "tr_a u ! p = tr_a t ! y" using src by blast
      have "tr_a t ! y \<le> tr_a t ! q"
        using y(1) 2 pq len assms(2) by (intro uncovered [OF assms(1)]) auto
      then show ?thesis using y(2) same [of q] 2 by simp
    next
      case 3
      then obtain y where y: "?in y" "tr_a u ! q = tr_a t ! y" using src by blast
      have "tr_a t ! p \<le> tr_a t ! y"
        using y(1) 3 pq len assms(2) hi by (intro uncovered [OF assms(1)]) auto
      then show ?thesis using y(2) same [of p] 3 by simp
    next
      case 4
      have "tr_a t ! p \<le> tr_a t ! q"
      proof (rule pendingD [OF assms(1) pq(1)])
        fix r assume "r \<in> set ((lo, hi) # stack)"
        then show "\<not> covers p q r"
          using pq(1) pq(3) [of r] 4 by (auto simp: covers_def)
      qed (use pq(2) len in simp)
      then show ?thesis using same 4 by simp
    qed
  qed
  ultimately show ?thesis unfolding pending_def by blast
qed

lemma quick_loop_sorts:
  assumes "pending stack (tr_a t)"
  shows "stir 0 (length (tr_a t)) t (quick_loop stack t) \<and> pending [] (tr_a (quick_loop stack t))"
  using assms
proof (induction stack t rule: quick_loop.induct)
  case (1 t)
  then show ?case by (simp add: quick_loop.simps(1) stir.intros)
next
  case (2 lo hi stack t)
  show ?case
  proof (cases "int lo \<ge> hi")
    case True
    then show ?thesis
      using "2.IH"(1) [OF True pending_drop [OF "2.prems" True]] by (simp add: quick_loop.simps(2))
  next
    case False
    obtain i u where iu: "partition_at lo (nat hi) t = (i, u)" by fastforce
    have hi: "hi < int (length (tr_a t))" using 2 by (simp add: pending_def)
    have "stir lo (Suc (nat hi)) t u" using partition_effect(1) [OF _ _ iu] False hi by auto
    then have u: "stir 0 (length (tr_a t)) t u" "length (tr_a u) = length (tr_a t)"
      using stir_mono [of lo "Suc (nat hi)" t u 0 "length (tr_a t)"] hi False by auto
    have "pending ((i + 1, hi) # (lo, int i - 1) # stack) (tr_a u)"
      using pending_partition [OF "2.prems" _ iu] False by simp
    then have "stir 0 (length (tr_a u)) u (quick_loop ((i + 1, hi) # (lo, int i - 1) # stack) u)
        \<and> pending [] (tr_a (quick_loop ((i + 1, hi) # (lo, int i - 1) # stack) u))"
      using "2.IH"(2) [OF False iu [symmetric] refl] by simp
    then show ?thesis
      using False iu u by (auto simp: quick_loop.simps(2) intro: stir_trans)
  qed
qed

lemma quicksort_correct:
  "stir 0 (length (tr_a t)) t (quicksort t) \<and> tr_a (quicksort t) = sort (tr_a t)"
proof -
  have "pending [(0, int (length (tr_a t)) - 1)] (tr_a t)"
    by (auto simp: pending_def covers_def)
  then have "stir 0 (length (tr_a t)) t (quicksort t)" "pending [] (tr_a (quicksort t))"
    unfolding quicksort_def using quick_loop_sorts by blast+
  then show ?thesis
    using stir_mset by (auto simp: pending_def intro!: sorts_by)
qed

interpretation quicksort: recorded_sort "\<lambda>t. Some (quicksort t)" "\<lambda>_. True"
  by unfold_locales (use quicksort_correct stir_runs in blast)

end
