(* ===== verification/FT_Heap.thy ===== *)
theory FT_Heap
  imports FT_Sort
begin

text \<open>Heapsort of \<open>src/demos/sort.py\<close>, with the sift as a loop that walks down the array.\<close>

section \<open>The sift\<close>

definition larger_child :: "nat \<Rightarrow> nat \<Rightarrow> trace \<Rightarrow> nat \<times> trace" where
  "larger_child child e t =
     (if child + 1 \<le> e
      then (if tr_a t ! (child + 1) > tr_a t ! child then child + 1 else child,
            mark (int child, int (child + 1), 0, int e) t)
      else (child, t))"

lemma larger_child_cases:
  assumes "larger_child child e t = (c, u)"
  shows "child \<le> c" "child \<le> e \<Longrightarrow> c \<le> e" "c \<le> Suc child" "tr_a u = tr_a t"
    "c = child \<or> c = Suc child \<and> c \<le> e"
    "child \<le> d \<Longrightarrow> d \<le> Suc child \<Longrightarrow> d \<le> e \<Longrightarrow> tr_a t ! d \<le> tr_a t ! c"
  using assms by (auto simp: larger_child_def le_Suc_eq dest: order.antisym split: if_splits)

function sift :: "nat \<Rightarrow> nat \<Rightarrow> trace \<Rightarrow> trace" where
  "sift r e t =
     (if 2 * r + 1 > e then t
      else (let (child, u) = larger_child (2 * r + 1) e t;
                v = mark (int r, int child, 0, int e) u
            in if tr_a v ! r \<ge> tr_a v ! child then v
               else sift child e (swap r child (-1, -1, 0, int e) v)))"
  by pat_completeness auto
termination
proof (relation "measure (\<lambda>(r, e, t). Suc e - r)", goal_cases)
  case (2 r e t x child u v)
  then have "2 * r + 1 \<le> child" "child \<le> e"
    using larger_child_cases [of "2 * r + 1" e t child u] by auto
  then show ?case by simp
qed simp

declare sift.simps [simp del]

definition heapify :: "nat \<Rightarrow> nat \<Rightarrow> trace \<Rightarrow> trace" where
  "heapify e k t = fold (\<lambda>start t. sift start e t) (rev [0..<k]) t"

definition peel :: "nat \<Rightarrow> trace \<Rightarrow> trace" where
  "peel n t = fold (\<lambda>e t. sift 0 (e - 1) (swap 0 e (-1, -1, 0, int e) t)) (rev [1..<n]) t"

definition heapsort :: "trace \<Rightarrow> trace" where
  "heapsort t = (let n = length (tr_a t) in peel n (heapify (n - 1) (n div 2) t))"

lemma heapify_Suc: "heapify e (Suc k) t = heapify e k (sift k e t)"
  by (simp add: heapify_def)

lemma peel_Suc: "0 < n \<Longrightarrow> peel (Suc n) t = peel n (sift 0 (n - 1) (swap 0 n (-1, -1, 0, int n) t))"
  by (simp add: peel_def)

section \<open>Heaps\<close>

definition parent :: "nat \<Rightarrow> nat" where
  "parent c = (c - 1) div 2"

text \<open>
  \<open>heap_from s e\<close>: every element up to \<open>e\<close> whose parent is at \<open>s\<close> or later is at most its parent.
  \<open>sift_ready r s e\<close>: the same except below \<open>r\<close>, whose children are at most their grandparent.
\<close>

definition heap_from :: "nat \<Rightarrow> nat \<Rightarrow> int list \<Rightarrow> bool" where
  "heap_from s e a \<longleftrightarrow> (\<forall>c. 0 < c \<and> c \<le> e \<and> s \<le> parent c \<longrightarrow> a ! c \<le> a ! parent c)"

definition sift_ready :: "nat \<Rightarrow> nat \<Rightarrow> nat \<Rightarrow> int list \<Rightarrow> bool" where
  "sift_ready r s e a \<longleftrightarrow>
     (\<forall>c. 0 < c \<and> c \<le> e \<and> s \<le> parent c \<and> parent c \<noteq> r \<longrightarrow> a ! c \<le> a ! parent c) \<and>
     (\<forall>c. 0 < c \<and> c \<le> e \<and> parent c = r \<and> 0 < r \<and> s \<le> parent r \<longrightarrow> a ! c \<le> a ! parent r)"

lemma parent_less: "0 < c \<Longrightarrow> parent c < c"
  by (simp add: parent_def less_mult_imp_div_less)

lemma parent_eq_iff: "0 < c \<Longrightarrow> parent c = r \<longleftrightarrow> c = 2 * r + 1 \<or> c = 2 * r + 2"
  by (auto simp: parent_def)

lemma sift_ready_leaf:
  assumes "sift_ready r s e a" "\<And>c. c \<le> e \<Longrightarrow> c = 2 * r + 1 \<or> c = 2 * r + 2 \<Longrightarrow> a ! c \<le> a ! r"
  shows "heap_from s e a"
  unfolding heap_from_def
proof (intro allI impI)
  fix c assume c: "0 < c \<and> c \<le> e \<and> s \<le> parent c"
  show "a ! c \<le> a ! parent c"
  proof (cases "parent c = r")
    case True
    then show ?thesis using assms(2) [of c] c parent_eq_iff [of c r] by auto
  next
    case False
    then show ?thesis using assms(1) c by (simp add: sift_ready_def)
  qed
qed

lemma sift_ready_swap:
  assumes ready: "sift_ready r s e a" and r: "s \<le> r"
    and c: "c = 2 * r + 1 \<or> c = 2 * r + 2" "c \<le> e" "e < length a" "a ! r < a ! c"
    and larger: "\<And>d. d \<le> e \<Longrightarrow> d = 2 * r + 1 \<or> d = 2 * r + 2 \<Longrightarrow> a ! d \<le> a ! c"
  shows "sift_ready c s e (a[r := a ! c, c := a ! r])"
proof -
  let ?b = "a[r := a ! c, c := a ! r]"
  have rc: "r < c" "parent c = r" "r < length a" using c by (auto simp: parent_eq_iff)
  have at: "?b ! d = (if d = c then a ! r else if d = r then a ! c else a ! d)" if "d \<le> e" for d
    using that c rc by (auto simp: nth_list_update)
  have up: "parent d \<le> e" if "0 < d" "d \<le> e" for d
    using that parent_less [of d] by simp
  have "?b ! d \<le> ?b ! parent d" if d: "0 < d" "d \<le> e" "s \<le> parent d" "parent d \<noteq> c" for d
  proof (cases "parent d = r")
    case True
    then have "a ! d \<le> a ! c" "d \<noteq> r"
      using larger [of d] d parent_eq_iff [of d r] by auto
    then show ?thesis
      using True c(4) rc d up [of d] by (auto simp: at)
  next
    case False
    then have le: "a ! d \<le> a ! parent d" using ready d by (auto simp: sift_ready_def)
    show ?thesis
    proof (cases "d = r")
      case True
      then have "a ! c \<le> a ! parent r"
        using ready d c(2) rc by (auto simp: sift_ready_def)
      then show ?thesis using True d False rc up [of d] by (auto simp: at)
    next
      case False
      then show ?thesis
        using le d \<open>parent d \<noteq> r\<close> rc up [of d] by (auto simp: at)
    qed
  qed
  moreover have "?b ! d \<le> ?b ! parent c" if d: "0 < d" "d \<le> e" "parent d = c" for d
  proof -
    have "c < d" using parent_less [of d] d by simp
    moreover have "a ! d \<le> a ! c"
      using ready d rc r by (auto simp: sift_ready_def)
    ultimately show ?thesis using d rc c(2) by (simp add: at)
  qed
  ultimately show ?thesis by (auto simp: sift_ready_def)
qed

lemma sift_heaps:
  assumes "sift_ready r s e (tr_a t)" "s \<le> r" "r \<le> e" "e < length (tr_a t)"
  shows "stir 0 (Suc e) t (sift r e t) \<and> heap_from s e (tr_a (sift r e t))"
  using assms
proof (induction r e t rule: sift.induct)
  case (1 r e t)
  show ?case
  proof (cases "2 * r + 1 > e")
    case True
    then show ?thesis
      using sift_ready_leaf [OF "1.prems"(1)] by (simp add: sift.simps [of r e t] stir.intros)
  next
    case False
    obtain c u where cu: "larger_child (2 * r + 1) e t = (c, u)" by fastforce
    note lc = larger_child_cases [OF cu]
    have c: "c = 2 * r + 1 \<or> c = 2 * r + 2" "c \<le> e" using lc False by auto
    define v where "v = mark (int r, int c, 0, int e) u"
    have va: "tr_a v = tr_a t" by (simp add: v_def lc(4))
    have "stir 0 (Suc e) t u"
      using cu "1.prems" False by (auto simp: larger_child_def split: if_splits intro!: stir.intros)
    then have v: "stir 0 (Suc e) t v"
      unfolding v_def using "1.prems" c lc(4) by (intro stir_mark) auto
    have larger: "tr_a t ! d \<le> tr_a t ! c" if "d \<le> e" "d = 2 * r + 1 \<or> d = 2 * r + 2" for d
      using that lc(6) [of d] by auto
    show ?thesis
    proof (cases "tr_a v ! r \<ge> tr_a v ! c")
      case True
      have "heap_from s e (tr_a t)"
        using sift_ready_leaf [OF "1.prems"(1)] larger True order_trans by (metis va)
      moreover have "sift r e t = v"
        using False cu True by (simp add: sift.simps [of r e t] v_def)
      ultimately show ?thesis using v va by simp
    next
      case swap: False
      define w where "w = swap r c (-1, -1, 0, int e) v"
      have "sift_ready c s e (tr_a w)"
        unfolding w_def trace_array va
        using "1.prems" c larger swap by (intro sift_ready_swap) (auto simp: va)
      moreover have w: "stir 0 (Suc e) t w"
        unfolding w_def using v "1.prems" c va by (intro stir_swap) auto
      ultimately have "stir 0 (Suc e) w (sift c e w) \<and> heap_from s e (tr_a (sift c e w))"
        using "1.IH" [OF False cu [symmetric] refl v_def] swap "1.prems" c stir_length [OF w]
        by (auto simp: w_def [symmetric])
      moreover have "sift r e t = sift c e w"
        using False cu swap by (simp add: sift.simps [of r e t] v_def w_def)
      ultimately show ?thesis using w stir_trans by auto
    qed
  qed
qed

lemma heap_root:
  assumes "heap_from 0 e a" "p \<le> e"
  shows "a ! p \<le> a ! 0"
  using assms(2)
proof (induction p rule: less_induct)
  case (less p)
  show ?case
  proof (cases "p = 0")
    case False
    then have "a ! p \<le> a ! parent p" "a ! parent p \<le> a ! 0"
      using assms(1) less parent_less [of p] by (auto simp: heap_from_def)
    then show ?thesis by (rule order_trans)
  qed simp
qed

section \<open>The two phases\<close>

lemma heapify_heaps:
  assumes "k \<le> Suc e" "e < length (tr_a t)" "heap_from k e (tr_a t)"
  shows "stir 0 (Suc e) t (heapify e k t) \<and> heap_from 0 e (tr_a (heapify e k t))"
  using assms
proof (induction k arbitrary: t)
  case 0
  then show ?case by (simp add: heapify_def stir.intros)
next
  case (Suc k)
  have "sift_ready k k e (tr_a t)"
    using Suc.prems(3) parent_less [of k] by (auto simp: sift_ready_def heap_from_def)
  then have s: "stir 0 (Suc e) t (sift k e t)" "heap_from k e (tr_a (sift k e t))"
    using sift_heaps [of k k e t] Suc.prems by auto
  then show ?case
    using Suc.IH [of "sift k e t"] Suc.prems stir_length [OF s(1)]
    by (auto simp: heapify_Suc intro: stir_trans)
qed

lemma peel_sorts:
  assumes "n \<le> length (tr_a t)" "heap_from 0 (n - 1) (tr_a t)"
    "\<And>p q. p < q \<Longrightarrow> n \<le> q \<Longrightarrow> q < length (tr_a t) \<Longrightarrow> tr_a t ! p \<le> tr_a t ! q"
  shows "stir 0 (length (tr_a t)) t (peel n t)
    \<and> (\<forall>p q. p < q \<and> q < length (tr_a t) \<longrightarrow> tr_a (peel n t) ! p \<le> tr_a (peel n t) ! q)"
  using assms
proof (induction n arbitrary: t)
  case 0
  then show ?case by (simp add: peel_def stir.intros)
next
  case (Suc n)
  show ?case
  proof (cases "n = 0")
    case True
    then show ?thesis using Suc.prems by (auto simp: peel_def intro: stir.intros)
  next
    case False
    let ?a = "tr_a t"
    define u where "u = swap 0 n (-1, -1, 0, int n) t"
    define v where "v = sift 0 (n - 1) u"
    have n: "n < length ?a" "0 < n" using Suc.prems False by auto
    have u: "stir 0 (Suc n) t u"
      unfolding u_def using n by (intro stir_swap stir_refl) auto
    have at: "tr_a u ! p = (if p = n then ?a ! 0 else if p = 0 then ?a ! n else ?a ! p)" if "p < length ?a" for p
      using that n by (auto simp: u_def nth_list_update)
    have lu: "length (tr_a u) = length ?a" using u by (rule stir_length)
    have "sift_ready 0 0 (n - 1) (tr_a u)"
      unfolding sift_ready_def
    proof (intro conjI allI impI)
      fix c assume c: "0 < c \<and> c \<le> n - 1 \<and> 0 \<le> parent c \<and> parent c \<noteq> 0"
      then have "parent c < n" "c < n" using parent_less [of c] n by auto
      then show "tr_a u ! c \<le> tr_a u ! parent c"
        using Suc.prems(2) c n by (simp add: heap_from_def at)
    qed simp
    then have v: "stir 0 n u v" "heap_from 0 (n - 1) (tr_a v)"
      using sift_heaps [of 0 0 "n - 1" u] n lu by (auto simp: v_def)
    have lv: "length (tr_a v) = length ?a" using stir_length [OF v(1)] lu by simp
    have "stir 0 (Suc n) u v" using stir_mono [OF v(1)] n lu by auto
    then have tv: "stir 0 (Suc n) t v" using u by (rule stir_trans)
    then have tv': "stir 0 (length ?a) t v" using stir_mono [OF tv] n by auto
    have "tr_a v ! p \<le> tr_a v ! q" if pq: "p < q" "n \<le> q" "q < length (tr_a v)" for p q
    proof (cases "q = n")
      case True
      obtain r where "r < n" "tr_a v ! p = tr_a u ! r"
        using stir_inside [OF v(1), of p] pq True by auto
      moreover have "tr_a v ! q = ?a ! 0"
        using stir_outside [OF v(1), of q] True at [of n] n by simp
      ultimately show ?thesis
        using heap_root [of n ?a n] heap_root [of n ?a r] Suc.prems(2) n by (auto simp: at)
    next
      case False
      then have q: "tr_a v ! q = ?a ! q"
        using stir_outside [OF tv, of q] pq by simp
      show ?thesis
      proof (cases "p < Suc n")
        case True
        then obtain r where "r < Suc n" "tr_a v ! p = ?a ! r"
          using stir_inside [OF tv, of p] by auto
        then show ?thesis using q Suc.prems(3) [of r q] pq False lv by simp
      next
        case below: False
        then show ?thesis
          using stir_outside [OF tv, of p] q Suc.prems(3) [of p q] pq lv by simp
      qed
    qed
    then have "stir 0 (length ?a) v (peel n v)
      \<and> (\<forall>p q. p < q \<and> q < length ?a \<longrightarrow> tr_a (peel n v) ! p \<le> tr_a (peel n v) ! q)"
      using Suc.IH [of v] v(2) n lv by simp
    moreover have "peel (Suc n) t = peel n v"
      using n by (simp add: peel_Suc v_def u_def)
    ultimately show ?thesis using tv' stir_trans by auto
  qed
qed

lemma heapsort_correct:
  "stir 0 (length (tr_a t)) t (heapsort t) \<and> tr_a (heapsort t) = sort (tr_a t)"
proof (cases "tr_a t = []")
  case True
  then show ?thesis by (simp add: heapsort_def heapify_def peel_def stir.intros)
next
  case False
  define n where "n = length (tr_a t)"
  define u where "u = heapify (n - 1) (n div 2) t"
  have n: "0 < n" using False by (simp add: n_def)
  have "heap_from (n div 2) (n - 1) (tr_a t)"
    using n by (auto simp: heap_from_def parent_def)
  then have u: "stir 0 n t u" "heap_from 0 (n - 1) (tr_a u)"
    using heapify_heaps [of "n div 2" "n - 1" t] n by (auto simp: u_def n_def)
  have h: "heapsort t = peel n u"
    by (simp add: heapsort_def Let_def u_def n_def)
  have lu: "length (tr_a u) = n"
    using stir_length [OF u(1)] by (simp add: n_def)
  have p: "stir 0 n u (heapsort t)" "\<And>p q. p < q \<Longrightarrow> q < n \<Longrightarrow> tr_a (heapsort t) ! p \<le> tr_a (heapsort t) ! q"
    using peel_sorts [of n u] u(2) by (auto simp: h lu)
  have s: "stir 0 n t (heapsort t)"
    using p(1) u(1) by (rule stir_trans)
  have "tr_a (heapsort t) = sort (tr_a t)"
    using stir_mset [OF s] stir_length [OF s] p(2) by (intro sorts_by) (auto simp: n_def)
  with s show ?thesis by (simp add: n_def)
qed

interpretation heapsort: recorded_sort "\<lambda>t. Some (heapsort t)" "\<lambda>_. True"
  by unfold_locales (use heapsort_correct stir_runs in blast)

end
