(* ===== verification/FT_Merge.thy ===== *)
theory FT_Merge
  imports FT_Sort
begin

text \<open>
  Bottom-up merge sort of \<open>src/demos/sort.py\<close>, which overwrites the array from copies of
  the two runs it merges.
\<close>

section \<open>Merge sort\<close>

definition merge_step ::
  "int list \<Rightarrow> int list \<Rightarrow> nat \<Rightarrow> nat \<Rightarrow> nat \<Rightarrow> nat \<Rightarrow> nat \<times> nat \<times> trace \<Rightarrow> nat \<times> nat \<times> trace" where
  "merge_step left right lo mid hi k = (\<lambda>(i, j, t).
     if j \<ge> length right \<or> i < length left \<and> left ! i \<le> right ! j
     then (i + 1, j, overwrite k (left ! i) (int k, int (lo + i), int lo, int hi - 1) t)
     else (i, j + 1, overwrite k (right ! j) (int k, int (mid + j), int lo, int hi - 1) t))"

definition merge_at :: "nat \<Rightarrow> nat \<Rightarrow> trace \<Rightarrow> trace" where
  "merge_at width lo t =
     (let n = length (tr_a t); mid = min (lo + width) n; hi = min (lo + 2 * width) n
      in if mid \<ge> hi then t
         else (let left = take (mid - lo) (drop lo (tr_a t)); right = take (hi - mid) (drop mid (tr_a t))
               in snd (snd (fold (merge_step left right lo mid hi) [lo..<hi] (0, 0, t)))))"

definition merge_pass :: "nat \<Rightarrow> trace \<Rightarrow> trace" where
  "merge_pass width t =
     fold (\<lambda>m. merge_at width (m * (2 * width)))
       [0..<(length (tr_a t) + 2 * width - 1) div (2 * width)] t"

text \<open>The loop doubles \<open>width\<close> from one; a width of nought never arises.\<close>

function merge_from :: "nat \<Rightarrow> nat \<Rightarrow> trace \<Rightarrow> trace" where
  "merge_from n width t =
     (if 0 < width \<and> width < n then merge_from n (2 * width) (merge_pass width t) else t)"
  by pat_completeness auto
termination
  by (relation "measure (\<lambda>(n, width, t). n - width)") auto

declare merge_from.simps [simp del]

definition mergesort :: "trace \<Rightarrow> trace" where
  "mergesort t = merge_from (length (tr_a t)) 1 t"

text \<open>The merge of two lists, for reference.\<close>

fun merged :: "int list \<Rightarrow> int list \<Rightarrow> int list" where
  "merged [] ys = ys"
| "merged xs [] = xs"
| "merged (x # xs) (y # ys) = (if x \<le> y then x # merged xs (y # ys) else y # merged (x # xs) ys)"

lemma mset_merged: "mset (merged xs ys) = mset xs + mset ys"
  by (induction xs ys rule: merged.induct) auto

lemma sorted_merged: "sorted xs \<Longrightarrow> sorted ys \<Longrightarrow> sorted (merged xs ys)"
proof (induction xs ys rule: merged.induct)
  case (3 x xs y ys)
  have "set (merged us vs) = set us \<union> set vs" for us vs
    using mset_merged [of us vs] by (metis set_mset_mset set_mset_union)
  then show ?case using 3 by fastforce
qed auto

lemma merged_nil2 [simp]: "merged xs [] = xs"
  by (cases xs) auto

lemma merge_writes:
  assumes "i \<le> length left" "j \<le> length right" "k = lo + i + j" "mid = lo + length left"
    "hi = mid + length right" "hi \<le> length (tr_a t)"
    "fold (merge_step left right lo mid hi) [k..<hi] (i, j, t) = (i', j', u)"
    "set left \<subseteq> V" "set right \<subseteq> V"
  shows "runs V t u \<and> tr_a u = take k (tr_a t) @ merged (drop i left) (drop j right) @ drop hi (tr_a t)"
  using assms
proof (induction "hi - k" arbitrary: i j k t)
  case 0
  then have "i = length left" "j = length right" "k = hi" by auto
  with 0 show ?case by simp
next
  case (Suc d)
  then have k: "k < hi" by simp
  then have upt: "[k..<hi] = k # [Suc k..<hi]" by (rule upt_conv_Cons)
  show ?case
  proof (cases "j \<ge> length right \<or> i < length left \<and> left ! i \<le> right ! j")
    case True
    then have i: "i < length left" using Suc.prems k by auto
    define w where "w = overwrite k (left ! i) (int k, int (lo + i), int lo, int hi - 1) t"
    have "runs V w u \<and> tr_a u = take (Suc k) (tr_a w) @ merged (drop (Suc i) left) (drop j right) @ drop hi (tr_a w)"
      using Suc.prems i True Suc.hyps(2) unfolding upt
      by (intro Suc.hyps(1)) (auto simp: w_def merge_step_def)
    moreover have "trace_step V t w"
      unfolding w_def using Suc.prems k i nth_mem [OF i] by (intro step_write) auto
    moreover have "merged (drop i left) (drop j right) = left ! i # merged (drop (Suc i) left) (drop j right)"
      using i True by (cases "j < length right") (auto simp: Cons_nth_drop_Suc [symmetric])
    ultimately show ?thesis
      using k Suc.prems by (auto simp: w_def take_Suc_conv_app_nth intro: converse_rtranclp_into_rtranclp)
  next
    case False
    then have j: "j < length right" by simp
    define w where "w = overwrite k (right ! j) (int k, int (mid + j), int lo, int hi - 1) t"
    have "runs V w u \<and> tr_a u = take (Suc k) (tr_a w) @ merged (drop i left) (drop (Suc j) right) @ drop hi (tr_a w)"
      using Suc.prems j False Suc.hyps(2) unfolding upt
      by (intro Suc.hyps(1)) (auto simp: w_def merge_step_def)
    moreover have "trace_step V t w"
      unfolding w_def using Suc.prems k j nth_mem [OF j] by (intro step_write) auto
    moreover have "merged (drop i left) (drop j right) = right ! j # merged (drop i left) (drop (Suc j) right)"
      using j False by (cases "i < length left") (auto simp: Cons_nth_drop_Suc [symmetric])
    ultimately show ?thesis
      using k Suc.prems by (auto simp: w_def take_Suc_conv_app_nth intro: converse_rtranclp_into_rtranclp)
  qed
qed

text \<open>Runs of \<open>width\<close> elements are sorted.\<close>

definition runs_sorted :: "nat \<Rightarrow> int list \<Rightarrow> bool" where
  "runs_sorted w a \<longleftrightarrow> (\<forall>p q. p < q \<and> q < length a \<and> p div w = q div w \<longrightarrow> a ! p \<le> a ! q)"

lemma block_iff: "0 < (w :: nat) \<Longrightarrow> p div w = m \<longleftrightarrow> m * w \<le> p \<and> p < m * w + w"
  using div_nat_eqI [of w m p] dividend_less_times_div [of w p] times_div_less_eq_dividend [of w p]
  by (auto simp: mult.commute)

lemma merge_at_effect:
  assumes w: "0 < w"
    and halves: "\<And>p q. p < q \<Longrightarrow> q < length (tr_a t) \<Longrightarrow> p div w = q div w \<Longrightarrow> p div (2 * w) = m
          \<Longrightarrow> tr_a t ! p \<le> tr_a t ! q"
  defines "u \<equiv> merge_at w (m * (2 * w)) t"
  shows "runs (set (tr_a t)) t u \<and> mset (tr_a u) = mset (tr_a t)
    \<and> (\<forall>p. p div (2 * w) \<noteq> m \<longrightarrow> tr_a u ! p = tr_a t ! p)
    \<and> (\<forall>p q. p < q \<and> q < length (tr_a t) \<and> p div (2 * w) = m \<and> q div (2 * w) = m \<longrightarrow> tr_a u ! p \<le> tr_a u ! q)"
proof -
  let ?a = "tr_a t" and ?n = "length (tr_a t)"
  define lo where "lo = m * (2 * w)"
  define mid where "mid = min (lo + w) ?n"
  define hi where "hi = min (lo + 2 * w) ?n"
  have block: "p div (2 * w) = m \<longleftrightarrow> lo \<le> p \<and> p < lo + 2 * w" for p
    using block_iff [of "2 * w" p m] w by (simp add: lo_def)
  have same_half: "p div w = q div w" if "lo \<le> p \<and> q < lo + w \<or> lo + w \<le> p \<and> q < lo + 2 * w" "p < q" for p q
    using that block_iff [of w p "2 * m"] block_iff [of w q "2 * m"] block_iff [of w p "2 * m + 1"]
      block_iff [of w q "2 * m + 1"] w by (auto simp: lo_def algebra_simps)
  have half: "?a ! p \<le> ?a ! q"
    if "lo \<le> p \<and> q < lo + w \<or> lo + w \<le> p \<and> q < lo + 2 * w" "p < q" "q < ?n" for p q
    using halves [of p q] same_half [OF that(1,2)] block [of p] that by auto
  show ?thesis
  proof (cases "mid \<ge> hi")
    case True
    then have u: "u = t" by (simp add: u_def merge_at_def Let_def lo_def mid_def hi_def)
    have "?n \<le> lo + w \<or> w = 0" using True by (auto simp: mid_def hi_def)
    then show ?thesis using half w by (auto simp: u block)
  next
    case False
    then have m: "mid = lo + w" "lo + w < ?n" "mid < hi" "hi \<le> ?n" by (auto simp: mid_def hi_def)
    define left where "left = take (mid - lo) (drop lo ?a)"
    define right where "right = take (hi - mid) (drop mid ?a)"
    have len: "length left = w" "length right = hi - mid"
      using m by (auto simp: left_def right_def)
    have "sorted left"
      using half m by (auto simp: sorted_iff_nth_mono_less left_def)
    moreover have "sorted right"
      using half m by (auto simp: sorted_iff_nth_mono_less right_def hi_def)
    ultimately have mg: "sorted (merged left right)" by (rule sorted_merged)
    have "length (merged left right) = length left + length right"
      using mset_merged [of left right] by (metis size_mset size_union)
    then have lm: "length (merged left right) = hi - lo" using len m by simp
    obtain i j v where v: "fold (merge_step left right lo mid hi) [lo..<hi] (0, 0, t) = (i, j, v)"
      by (metis prod_cases3)
    have "u = v"
      using False v unfolding u_def merge_at_def Let_def lo_def [symmetric]
      unfolding mid_def [symmetric] hi_def [symmetric]
      unfolding left_def [symmetric] right_def [symmetric]
      by simp
    moreover have sub: "set left \<subseteq> set ?a" "set right \<subseteq> set ?a"
      using set_take_subset set_drop_subset by (fastforce simp: left_def right_def)+
    have "runs (set ?a) t v \<and> tr_a v = take lo ?a @ merged (drop 0 left) (drop 0 right) @ drop hi ?a"
      by (rule merge_writes [OF _ _ _ _ _ _ v sub]) (use len m in auto)
    ultimately have u: "runs (set ?a) t u" "tr_a u = take lo ?a @ merged left right @ drop hi ?a"
      by simp_all
    have cut: "?a = take lo ?a @ left @ right @ drop hi ?a"
    proof -
      have "left @ right = take (hi - lo) (drop lo ?a)"
        using m take_add [of w "hi - mid" "drop lo ?a"] by (simp add: left_def right_def add.commute)
      then have "left @ right @ drop hi ?a = drop lo ?a"
        using append_take_drop_id [of "hi - lo" "drop lo ?a"] m by (simp flip: append_assoc)
      then show ?thesis by simp
    qed
    have "mset (tr_a u) = mset (take lo ?a @ left @ right @ drop hi ?a)"
      by (simp add: u(2) mset_merged)
    then have "mset (tr_a u) = mset ?a" by (simp only: cut [symmetric])
    moreover have "tr_a u ! p = ?a ! p" if ne: "p div (2 * w) \<noteq> m" for p
    proof -
      consider "p < lo" | "lo + 2 * w \<le> p" using ne block [of p] by linarith
      then show ?thesis
        using m lm by cases (auto simp: u(2) nth_append hi_def min_def)
    qed
    moreover have "tr_a u ! p \<le> tr_a u ! q"
      if "p < q" "q < ?n" "p div (2 * w) = m" "q div (2 * w) = m" for p q
    proof -
      have "lo \<le> p" "q < hi" using that block by (auto simp: hi_def)
      then show ?thesis
        using that m lm mg by (auto simp: u(2) nth_append sorted_iff_nth_mono_less)
    qed
    ultimately show ?thesis using u(1) by blast
  qed
qed

lemma merge_pass_prefix:
  assumes "0 < w" "runs_sorted w (tr_a t)"
  defines "u \<equiv> \<lambda>k. fold (\<lambda>m. merge_at w (m * (2 * w))) [0..<k] t"
  shows "runs (set (tr_a t)) t (u k) \<and> mset (tr_a (u k)) = mset (tr_a t)
    \<and> (\<forall>p. k \<le> p div (2 * w) \<longrightarrow> tr_a (u k) ! p = tr_a t ! p)
    \<and> (\<forall>p q. p < q \<and> q < length (tr_a t) \<and> p div (2 * w) = q div (2 * w) \<and> p div (2 * w) < k
         \<longrightarrow> tr_a (u k) ! p \<le> tr_a (u k) ! q)"
proof (induction k)
  case 0
  then show ?case by (simp add: u_def)
next
  case (Suc k)
  then have len: "length (tr_a (u k)) = length (tr_a t)" by (metis runs_length)
  have e: "u (Suc k) = merge_at w (k * (2 * w)) (u k)" by (simp add: u_def)
  have sorted: "tr_a (u k) ! p \<le> tr_a (u k) ! q"
    if "p < q" "q < length (tr_a (u k))" "p div w = q div w" "p div (2 * w) = k" for p q
  proof -
    have "p div (2 * w) = p div w div 2" "q div (2 * w) = q div w div 2"
      by (simp_all add: div_mult2_eq mult.commute)
    then have "tr_a (u k) ! p = tr_a t ! p" "tr_a (u k) ! q = tr_a t ! q"
      using Suc that by auto
    then show ?thesis using assms(2) that len by (simp add: runs_sorted_def)
  qed
  have step: "runs (set (tr_a (u k))) (u k) (u (Suc k))" "mset (tr_a (u (Suc k))) = mset (tr_a (u k))"
    "\<And>p. p div (2 * w) \<noteq> k \<Longrightarrow> tr_a (u (Suc k)) ! p = tr_a (u k) ! p"
    "\<And>p q. p < q \<Longrightarrow> q < length (tr_a (u k)) \<Longrightarrow> p div (2 * w) = k \<Longrightarrow> q div (2 * w) = k
       \<Longrightarrow> tr_a (u (Suc k)) ! p \<le> tr_a (u (Suc k)) ! q"
    using merge_at_effect [OF assms(1) sorted, of k] unfolding e by blast+
  have ih: "runs (set (tr_a t)) t (u k)" "mset (tr_a (u k)) = mset (tr_a t)"
    "\<And>p. k \<le> p div (2 * w) \<Longrightarrow> tr_a (u k) ! p = tr_a t ! p"
    "\<And>p q. p < q \<Longrightarrow> q < length (tr_a t) \<Longrightarrow> p div (2 * w) = q div (2 * w) \<Longrightarrow> p div (2 * w) < k
       \<Longrightarrow> tr_a (u k) ! p \<le> tr_a (u k) ! q"
    using Suc by auto
  have "runs (set (tr_a t)) t (u (Suc k))"
    using ih(1) step(1) unfolding mset_eq_setD [OF ih(2)] by (rule rtranclp_trans)
  moreover have "tr_a (u (Suc k)) ! p \<le> tr_a (u (Suc k)) ! q"
    if "p < q" "q < length (tr_a t)" "p div (2 * w) = q div (2 * w)" "p div (2 * w) < Suc k" for p q
  proof (cases "p div (2 * w) = k")
    case True
    then have q: "q div (2 * w) = k" using that(3) by simp
    show ?thesis by (rule step(4) [OF that(1) _ True q]) (simp only: len that(2))
  next
    case False
    then have "q div (2 * w) \<noteq> k" "p div (2 * w) < k" using that(3,4) by simp_all
    then show ?thesis
      using step(3) [OF False] step(3) [of q] ih(4) [OF that(1-3)] by presburger
  qed
  ultimately show ?case using step(2,3) ih(2,3) by simp
qed

lemma merge_pass_effect:
  assumes "0 < w" "runs_sorted w (tr_a t)"
  shows "runs (set (tr_a t)) t (merge_pass w t) \<and> mset (tr_a (merge_pass w t)) = mset (tr_a t)
    \<and> runs_sorted (2 * w) (tr_a (merge_pass w t))"
proof -
  let ?k = "(length (tr_a t) + 2 * w - 1) div (2 * w)"
  have "p div (2 * w) < ?k" if "p < length (tr_a t)" for p
  proof -
    have "p div (2 * w) < (p + 2 * w) div (2 * w)" using assms(1) by simp
    also have "\<dots> \<le> ?k" using that by (intro div_le_mono) simp
    finally show ?thesis .
  qed
  then show ?thesis
    using merge_pass_prefix [OF assms, of ?k]
    by (auto simp: merge_pass_def runs_sorted_def dest: mset_eq_length) 
qed

lemma merge_from_sorts:
  assumes "n = length (tr_a t)" "0 < w" "runs_sorted w (tr_a t)"
  shows "runs (set (tr_a t)) t (merge_from n w t) \<and> mset (tr_a (merge_from n w t)) = mset (tr_a t)
    \<and> (\<forall>p q. p < q \<and> q < n \<longrightarrow> tr_a (merge_from n w t) ! p \<le> tr_a (merge_from n w t) ! q)"
  using assms
proof (induction n w t rule: merge_from.induct)
  case (1 n w t)
  show ?case
  proof (cases "w < n")
    case True
    have "runs (set (tr_a t)) t (merge_pass w t)" "mset (tr_a (merge_pass w t)) = mset (tr_a t)"
      "runs_sorted (2 * w) (tr_a (merge_pass w t))"
      using merge_pass_effect [of w t] "1.prems" by auto
    moreover from this(2) have "n = length (tr_a (merge_pass w t))"
      using "1.prems" by (metis mset_eq_length)
    moreover have "set (tr_a (merge_pass w t)) = set (tr_a t)"
      using merge_pass_effect [of w t] "1.prems" mset_eq_setD by blast
    moreover have e: "merge_from n w t = merge_from n (2 * w) (merge_pass w t)"
      using True "1.prems"(2) by (subst merge_from.simps) simp
    ultimately show ?thesis
      unfolding e using "1.IH" "1.prems" True by (metis mult_pos_pos pos2 rtranclp_trans)
  next
    case False
    then have "p div w = q div w" if "p < q" "q < n" for p q
      using that by simp
    moreover have "merge_from n w t = t"
      using False by (subst merge_from.simps) simp
    ultimately show ?thesis
      using "1.prems" by (simp add: runs_sorted_def)
  qed
qed

lemma mergesort_correct: "runs (set (tr_a t)) t (mergesort t) \<and> tr_a (mergesort t) = sort (tr_a t)"
proof -
  have "runs_sorted 1 (tr_a t)" by (simp add: runs_sorted_def)
  then have m: "runs (set (tr_a t)) t (mergesort t)" "mset (tr_a (mergesort t)) = mset (tr_a t)"
    "\<And>p q. p < q \<Longrightarrow> q < length (tr_a t) \<Longrightarrow> tr_a (mergesort t) ! p \<le> tr_a (mergesort t) ! q"
    unfolding mergesort_def using merge_from_sorts [OF refl, of 1 t] by auto
  then show ?thesis
    using runs_length [OF m(1)] by (auto intro!: sorts_by)
qed

interpretation mergesort: recorded_sort "\<lambda>t. Some (mergesort t)" "\<lambda>_. True"
  by unfold_locales (use mergesort_correct in blast)

end
