(* ===== verification/FT_Radix.thy ===== *)
theory FT_Radix
  imports FT_Sort
begin

text \<open>
  LSD radix sort of \<open>src/demos/sort.py\<close>: one counting sort per four-bit digit, written back over
  the array from the left.
\<close>

section \<open>The counting pass\<close>

definition digit :: "nat \<Rightarrow> nat \<Rightarrow> int \<Rightarrow> nat" where
  "digit bits shift v = nat (take_bit bits (drop_bit shift v))"

definition digit_counts :: "(int \<Rightarrow> nat) \<Rightarrow> nat \<Rightarrow> int list \<Rightarrow> nat list" where
  "digit_counts dg base snapshot =
     fold (\<lambda>v count. count[dg v := count ! dg v + 1]) snapshot (replicate base 0)"

definition digit_starts :: "nat \<Rightarrow> nat list \<Rightarrow> nat list" where
  "digit_starts base cnt =
     fst (fold (\<lambda>d (start, total). (start[d := total], total + cnt ! d)) [0..<base] (replicate base 0, 0))"

definition place_digit :: "(int \<Rightarrow> nat) \<Rightarrow> int \<Rightarrow> nat list \<times> int list \<Rightarrow> nat list \<times> int list" where
  "place_digit dg v = (\<lambda>(start, out). (start[dg v := start ! dg v + 1], out[start ! dg v := v]))"

definition counting_sort :: "(int \<Rightarrow> nat) \<Rightarrow> nat \<Rightarrow> int list \<Rightarrow> int list" where
  "counting_sort dg base snapshot =
     snd (fold (place_digit dg) snapshot
       (digit_starts base (digit_counts dg base snapshot), replicate (length snapshot) 0))"

definition write_back :: "int list \<Rightarrow> trace \<Rightarrow> trace" where
  "write_back out t = fold (\<lambda>k. overwrite k (out ! k) (int k, -1, 0, int k)) [0..<length (tr_a t)] t"

definition radix_pass :: "nat \<Rightarrow> nat \<Rightarrow> trace \<Rightarrow> trace" where
  "radix_pass bits shift t = write_back (counting_sort (digit bits shift) (2 ^ bits) (tr_a t)) t"

section \<open>A counting sort puts the buckets one after the other\<close>

definition bucket :: "(int \<Rightarrow> nat) \<Rightarrow> int list \<Rightarrow> nat \<Rightarrow> int list" where
  "bucket dg xs d = filter (\<lambda>v. dg v = d) xs"

definition bucket_start :: "(int \<Rightarrow> nat) \<Rightarrow> int list \<Rightarrow> nat \<Rightarrow> nat" where
  "bucket_start dg xs d = length (concat (map (bucket dg xs) [0..<d]))"

lemma digit_counts_nth:
  assumes "d < base" "\<And>v. v \<in> set xs \<Longrightarrow> dg v < base"
  shows "digit_counts dg base xs ! d = length (bucket dg xs d)"
proof -
  have "fold (\<lambda>v count. count[dg v := count ! dg v + 1]) xs c ! d = c ! d + length (bucket dg xs d)"
    if "length c = base" for c
    using that assms(2)
  proof (induction xs arbitrary: c)
    case (Cons v xs)
    then show ?case using assms(1) by (simp add: bucket_def nth_list_update)
  qed (simp add: bucket_def)
  then show ?thesis using assms(1) by (simp add: digit_counts_def)
qed

lemma digit_starts_fold:
  assumes "k \<le> base"
  shows "fold (\<lambda>d (start, total). (start[d := total], total + cnt ! d)) [0..<k] (replicate base 0, 0)
    = (map (\<lambda>d. if d < k then sum_list (map ((!) cnt) [0..<d]) else 0) [0..<base],
       sum_list (map ((!) cnt) [0..<k]))"
  using assms
proof (induction k)
  case 0
  then show ?case by (simp add: map_replicate_trivial)
next
  case (Suc k)
  then show ?case by (auto intro!: nth_equalityI simp: nth_list_update less_Suc_eq)
qed

lemma digit_starts_nth:
  assumes "d < base" "\<And>v. v \<in> set xs \<Longrightarrow> dg v < base"
  shows "digit_starts base (digit_counts dg base xs) ! d = bucket_start dg xs d"
proof -
  have "sum_list (map ((!) (digit_counts dg base xs)) [0..<d]) = sum_list (map (\<lambda>e. length (bucket dg xs e)) [0..<d])"
    using assms by (intro arg_cong [where f = sum_list] map_cong refl) (auto simp: digit_counts_nth)
  then show ?thesis
    using digit_starts_fold [of base base "digit_counts dg base xs"] assms(1)
    by (simp add: digit_starts_def bucket_start_def length_concat comp_def)
qed

lemma bucket_start_Suc: "bucket_start dg xs (Suc d) = bucket_start dg xs d + length (bucket dg xs d)"
  by (simp add: bucket_start_def)

lemma bucket_start_mono: "d \<le> e \<Longrightarrow> bucket_start dg xs d \<le> bucket_start dg xs e"
  by (induction e rule: dec_induct) (auto simp: bucket_start_Suc)

lemma mset_buckets:
  assumes "\<And>v. v \<in> set xs \<Longrightarrow> dg v < base"
  shows "mset (concat (map (bucket dg xs) [0..<base])) = mset xs"
proof -
  have "mset (concat (map (bucket dg xs) [0..<b])) = mset (filter (\<lambda>v. dg v < b) xs)" for b
  proof (induction b)
    case (Suc b)
    have "mset (filter (\<lambda>v. dg v < Suc b) xs) = mset (filter (\<lambda>v. dg v < b) xs) + mset (bucket dg xs b)"
      by (induction xs) (auto simp: bucket_def)
    with Suc show ?case by simp
  qed simp
  moreover have "filter (\<lambda>v. dg v < base) xs = xs" using assms by simp
  ultimately show ?thesis by metis
qed

text \<open>The elements before \<open>xs ! k\<close> with its digit, and where it goes.\<close>

lemma place_fold:
  assumes "\<And>v. v \<in> set (xs @ ys) \<Longrightarrow> dg v < base"
    and "fold (place_digit dg) xs (start, out) = (start', out')"
    and "length start = base" "\<And>d. d < base \<Longrightarrow> start ! d = bucket_start dg (xs @ ys) d"
    and "length out = length (xs @ ys)"
  shows "length start' = base \<and> length out' = length out
    \<and> (\<forall>d < base. start' ! d = bucket_start dg (xs @ ys) d + length (bucket dg xs d))
    \<and> (\<forall>d < base. \<forall>r < length (bucket dg xs d). out' ! (bucket_start dg (xs @ ys) d + r) = bucket dg xs d ! r)"
  using assms
proof (induction xs arbitrary: ys start' out' rule: rev_induct)
  case Nil
  then show ?case by (simp add: bucket_def)
next
  case (snoc v xs)
  obtain s u where su: "fold (place_digit dg) xs (start, out) = (s, u)" by fastforce
  let ?zs = "xs @ v # ys"
  have ih: "length s = base" "length u = length out"
    "\<And>d. d < base \<Longrightarrow> s ! d = bucket_start dg ?zs d + length (bucket dg xs d)"
    "\<And>d r. d < base \<Longrightarrow> r < length (bucket dg xs d) \<Longrightarrow> u ! (bucket_start dg ?zs d + r) = bucket dg xs d ! r"
    using snoc.IH [of "v # ys" s u] snoc.prems su by auto
  have v: "dg v < base" using snoc.prems(1) by simp
  have out: "start' = s[dg v := s ! dg v + 1]" "out' = u[s ! dg v := v]"
  proof -
    have "place_digit dg v (s, u) = (start', out')" using snoc.prems(2) su by simp
    then show "start' = s[dg v := s ! dg v + 1]" "out' = u[s ! dg v := v]"
      by (auto simp: place_digit_def)
  qed
  have room: "length (bucket dg xs d) < length (bucket dg ?zs d)" if "dg v = d" for d
    using that by (simp add: bucket_def)
  have le: "length (bucket dg xs d) \<le> length (bucket dg ?zs d)" for d
    by (simp add: bucket_def)
  have total: "length ?zs = bucket_start dg ?zs base"
    using mset_buckets [of ?zs dg base] snoc.prems(1) unfolding bucket_start_def by (metis append.assoc append_Cons append_Nil size_mset)
  have slot: "s ! dg v < length u"
    using ih(2,3) v room [OF refl] total bucket_start_mono [of "Suc (dg v)" base dg ?zs] snoc.prems(5)
    by (simp add: bucket_start_Suc)
  have other: "bucket_start dg ?zs d + r \<noteq> s ! dg v"
    if "d < base" "r < length (bucket dg xs d)" for d r
  proof (cases "d = dg v")
    case True
    then show ?thesis using that ih(3) [OF v] by simp
  next
    case False
    then consider "d < dg v" | "dg v < d" by linarith
    then show ?thesis
    proof cases
      case 1
      then show ?thesis
        using that le [of d] ih(3) [OF v] bucket_start_mono [of "Suc d" "dg v" dg ?zs]
        by (simp add: bucket_start_Suc)
    next
      case 2
      then show ?thesis
        using that room [OF refl] ih(3) [OF v] bucket_start_mono [of "Suc (dg v)" d dg ?zs]
        by (simp add: bucket_start_Suc)
    qed
  qed
  have b: "bucket dg (xs @ [v]) d = (if dg v = d then bucket dg xs d @ [v] else bucket dg xs d)" for d
    by (simp add: bucket_def)
  have "out' ! (bucket_start dg ?zs d + r) = bucket dg (xs @ [v]) d ! r"
    if "d < base" "r < length (bucket dg (xs @ [v]) d)" for d r
  proof (cases "r < length (bucket dg xs d)")
    case True
    have "u[s ! dg v := v] ! (bucket_start dg ?zs d + r) = u ! (bucket_start dg ?zs d + r)"
      using other [OF that(1) True] by (intro nth_list_update_neq) simp
    then show ?thesis
      using ih(4) [OF that(1) True] True by (simp add: out b nth_append)
  next
    case False
    then have "dg v = d" "r = length (bucket dg xs d)" using that by (auto simp: b split: if_splits)
    then show ?thesis using ih(3) that slot by (auto simp: out b)
  qed
  moreover have "start' ! d = bucket_start dg ?zs d + length (bucket dg (xs @ [v]) d)" if "d < base" for d
    using that ih(1,3) v by (auto simp: out b nth_list_update)
  ultimately show ?case using ih(1,2) by (simp add: out)
qed

lemma bucket_position:
  assumes "p < bucket_start dg xs base"
  shows "\<exists>d r. d < base \<and> r < length (bucket dg xs d) \<and> p = bucket_start dg xs d + r"
  using assms
proof (induction base)
  case 0
  then show ?case by (simp add: bucket_start_def)
next
  case (Suc base)
  show ?case
  proof (cases "p < bucket_start dg xs base")
    case True
    then show ?thesis using Suc.IH less_SucI by blast
  next
    case False
    then show ?thesis
      using Suc.prems by (intro exI [of _ base] exI [of _ "p - bucket_start dg xs base"]) (simp add: bucket_start_Suc)
  qed
qed

lemma concat_bucket_nth:
  assumes "d < base" "r < length (bucket dg xs d)"
  shows "concat (map (bucket dg xs) [0..<base]) ! (bucket_start dg xs d + r) = bucket dg xs d ! r"
proof -
  have "[0..<base] = [0..<d] @ d # [Suc d..<base]"
    using assms(1) by (metis le_add1 less_imp_add_positive upt_add_eq_append upt_conv_Cons add_0)
  then have "concat (map (bucket dg xs) [0..<base])
      = concat (map (bucket dg xs) [0..<d]) @ bucket dg xs d @ concat (map (bucket dg xs) [Suc d..<base])"
    by simp
  then show ?thesis using assms(2) by (simp add: bucket_start_def nth_append)
qed

lemma counting_sort_buckets:
  assumes "\<And>v. v \<in> set xs \<Longrightarrow> dg v < base"
  shows "counting_sort dg base xs = concat (map (bucket dg xs) [0..<base])"
proof -
  let ?s = "digit_starts base (digit_counts dg base xs)"
  obtain s out where so: "fold (place_digit dg) xs (?s, replicate (length xs) 0) = (s, out)" by fastforce
  have "length ?s = base"
    using digit_starts_fold [of base base "digit_counts dg base xs"] by (simp add: digit_starts_def)
  then have pf: "length out = length xs"
    "\<And>d r. d < base \<Longrightarrow> r < length (bucket dg xs d) \<Longrightarrow> out ! (bucket_start dg xs d + r) = bucket dg xs d ! r"
  proof -
    have "length s = base \<and> length out = length (replicate (length xs) (0 :: int))
    \<and> (\<forall>d < base. s ! d = bucket_start dg (xs @ []) d + length (bucket dg xs d))
    \<and> (\<forall>d < base. \<forall>r < length (bucket dg xs d). out ! (bucket_start dg (xs @ []) d + r) = bucket dg xs d ! r)"
      by (rule place_fold [OF _ so \<open>length ?s = base\<close>]) (use assms digit_starts_nth in simp_all)
    then show "length out = length xs"
      "\<And>d r. d < base \<Longrightarrow> r < length (bucket dg xs d) \<Longrightarrow> out ! (bucket_start dg xs d + r) = bucket dg xs d ! r"
      by simp_all
  qed
  have len: "length (concat (map (bucket dg xs) [0..<base])) = length xs"
    by (rule mset_eq_length [OF mset_buckets [OF assms]])
  have "out = concat (map (bucket dg xs) [0..<base])"
  proof (rule nth_equalityI)
    show "length out = length (concat (map (bucket dg xs) [0..<base]))" by (simp only: len pf(1))
    fix p assume "p < length out"
    then have "p < bucket_start dg xs base" using pf(1) len by (simp add: bucket_start_def)
    then obtain d r where "d < base" "r < length (bucket dg xs d)" "p = bucket_start dg xs d + r"
      using bucket_position by blast
    then show "out ! p = concat (map (bucket dg xs) [0..<base]) ! p"
      using pf(2) concat_bucket_nth by simp
  qed
  then show ?thesis using so by (simp add: counting_sort_def)
qed

section \<open>The loop over the digits\<close>

text \<open>\<open>max(a)\<close> of an empty array raises, here \<open>None\<close>. The digits are of four bits.\<close>

lemma digit_less: "digit bits shift v < 2 ^ bits"
  by (simp add: digit_def nat_less_iff)

lemma write_back_prefix:
  assumes "k \<le> length (tr_a t)" "length out = length (tr_a t)"
  shows "runs (set out) t (fold (\<lambda>k. overwrite k (out ! k) (int k, -1, 0, int k)) [0..<k] t)
    \<and> tr_a (fold (\<lambda>k. overwrite k (out ! k) (int k, -1, 0, int k)) [0..<k] t) = take k out @ drop k (tr_a t)"
  using assms(1)
proof (induction k)
  case (Suc k)
  let ?u = "fold (\<lambda>k. overwrite k (out ! k) (int k, -1, 0, int k)) [0..<k] t"
  have ih: "runs (set out) t ?u" "tr_a ?u = take k out @ drop k (tr_a t)" using Suc by auto
  have "trace_step (set out) ?u (overwrite k (out ! k) (int k, -1, 0, int k) ?u)"
    using Suc.prems ih(2) assms(2) by (intro step_write) auto
  then have "runs (set out) t (overwrite k (out ! k) (int k, -1, 0, int k) ?u)"
    using ih(1) by (rule rtranclp.rtrancl_into_rtrancl [rotated])
  moreover have "tr_a (overwrite k (out ! k) (int k, -1, 0, int k) ?u) = take (Suc k) out @ drop (Suc k) (tr_a t)"
    using Suc.prems assms(2)
    by (simp add: ih(2) list_update_append take_Suc_conv_app_nth Cons_nth_drop_Suc [symmetric])
  ultimately show ?case by simp
qed simp

lemma radix_pass_effect:
  "runs (set (tr_a t)) t (radix_pass bits shift t) \<and> mset (tr_a (radix_pass bits shift t)) = mset (tr_a t)
   \<and> tr_a (radix_pass bits shift t) = concat (map (bucket (digit bits shift) (tr_a t)) [0..<2 ^ bits])"
proof -
  let ?out = "counting_sort (digit bits shift) (2 ^ bits) (tr_a t)"
  have out: "?out = concat (map (bucket (digit bits shift) (tr_a t)) [0..<2 ^ bits])"
    by (rule counting_sort_buckets) (rule digit_less)
  moreover have ms: "mset ?out = mset (tr_a t)"
    unfolding out by (rule mset_buckets) (rule digit_less)
  moreover have "runs (set ?out) t (radix_pass bits shift t) \<and> tr_a (radix_pass bits shift t) = ?out"
    using write_back_prefix [of "length (tr_a t)" t ?out] mset_eq_length [OF ms]
    by (simp add: radix_pass_def write_back_def)
  ultimately show ?thesis using mset_eq_setD [OF ms] by simp
qed

function radix_loop :: "nat \<Rightarrow> trace \<Rightarrow> trace option" where
  "radix_loop shift t =
     (if tr_a t = [] then None
      else if drop_bit shift (Max (set (tr_a t))) > 0 then radix_loop (shift + 4) (radix_pass 4 shift t)
      else Some t)"
  by pat_completeness auto
termination
proof (relation "measure (\<lambda>(shift, t). nat (drop_bit shift (Max (set (tr_a t)))))", goal_cases)
  case (2 shift t)
  have "set (tr_a (radix_pass 4 shift t)) = set (tr_a t)"
    using radix_pass_effect [of t 4 shift] by (metis set_mset_mset)
  moreover have "drop_bit (shift + 4) m < drop_bit shift m" if "drop_bit shift m > 0" for m :: int
    using that by (simp add: drop_bit_eq_div power_add div_mult2_eq zdiv_zmult2_eq)
  ultimately show ?case using 2 by simp
qed simp

declare radix_loop.simps [simp del]

definition radix :: "trace \<Rightarrow> trace option" where
  "radix t = radix_loop 0 t"

lemma sorted_wrt_buckets:
  assumes "\<And>d. sorted_wrt R (bucket dg xs d)" "\<And>v w. v \<in> set xs \<Longrightarrow> w \<in> set xs \<Longrightarrow> dg v < dg w \<Longrightarrow> R v w"
  shows "sorted_wrt R (concat (map (bucket dg xs) [0..<b]))"
  using assms by (induction b) (auto simp: sorted_wrt_append bucket_def)

lemma take_bit_digit:
  fixes v :: int
  shows "take_bit (shift + 4) v = take_bit shift v + 2 ^ shift * int (digit 4 shift v)"
  by (simp add: digit_def take_bit_eq_mod drop_bit_eq_div power_add zmod_zmult2_eq)

lemma radix_pass_sorts:
  assumes "sorted (map (take_bit shift) (tr_a t))"
  shows "sorted (map (take_bit (shift + 4)) (tr_a (radix_pass 4 shift t)))"
proof -
  let ?R = "\<lambda>v w :: int. take_bit (shift + 4) v \<le> take_bit (shift + 4) w"
  have "sorted_wrt ?R (bucket (digit 4 shift) (tr_a t) d)" for d
  proof -
    have "sorted_wrt (\<lambda>v w. take_bit shift v \<le> take_bit shift w) (bucket (digit 4 shift) (tr_a t) d)"
      unfolding bucket_def using assms by (intro sorted_wrt_filter) (simp add: sorted_wrt_map)
    then show ?thesis
      by (rule sorted_wrt_mono_rel [rotated]) (auto simp: bucket_def take_bit_digit)
  qed
  moreover have "?R v w" if "digit 4 shift v < digit 4 shift w" for v w
  proof -
    have "take_bit shift v < 2 ^ shift" "0 \<le> take_bit shift w" by simp_all
    moreover have "(2 :: int) ^ shift * int (digit 4 shift v) + 2 ^ shift \<le> 2 ^ shift * int (digit 4 shift w)"
      using mult_left_mono [of "int (digit 4 shift v) + 1" "int (digit 4 shift w)" "2 ^ shift"] that
      by (simp add: algebra_simps)
    ultimately show ?thesis unfolding take_bit_digit by linarith
  qed
  ultimately have "sorted_wrt ?R (concat (map (bucket (digit 4 shift) (tr_a t)) [0..<2 ^ 4]))"
    by (intro sorted_wrt_buckets)
  moreover have "tr_a (radix_pass 4 shift t) = concat (map (bucket (digit 4 shift) (tr_a t)) [0..<2 ^ 4])"
    using radix_pass_effect [of t 4 shift] by blast
  ultimately show ?thesis by (simp add: sorted_wrt_map)
qed

lemma radix_loop_sorts:
  assumes "tr_a t \<noteq> []" "\<And>v. v \<in> set (tr_a t) \<Longrightarrow> 0 \<le> v" "sorted (map (take_bit shift) (tr_a t))"
  shows "\<exists>u. radix_loop shift t = Some u \<and> runs (set (tr_a t)) t u \<and> mset (tr_a u) = mset (tr_a t) \<and> sorted (tr_a u)"
  using assms
proof (induction shift t rule: radix_loop.induct)
  case (1 shift t)
  show ?case
  proof (cases "drop_bit shift (Max (set (tr_a t))) > 0")
    case True
    define v where "v = radix_pass 4 shift t"
    have v: "runs (set (tr_a t)) t v" "mset (tr_a v) = mset (tr_a t)"
      using radix_pass_effect [of t 4 shift] unfolding v_def by blast+
    from v(2) have v3: "set (tr_a v) = set (tr_a t)" by (rule mset_eq_setD)
    have "tr_a v \<noteq> []" using v(2) "1.prems"(1) by auto
    then obtain u where "radix_loop (shift + 4) v = Some u" "runs (set (tr_a t)) v u" "mset (tr_a u) = mset (tr_a v)" "sorted (tr_a u)"
      using "1.IH" True "1.prems" radix_pass_sorts [OF "1.prems"(3)] v3 by (auto simp: v_def [symmetric])
    moreover have "radix_loop shift t = radix_loop (shift + 4) v"
      using True "1.prems"(1) by (subst radix_loop.simps) (simp add: v_def)
    ultimately show ?thesis using v by (auto intro: rtranclp_trans)
  next
    case False
    have "take_bit shift v = v" if "v \<in> set (tr_a t)" for v
    proof -
      have "v \<le> Max (set (tr_a t))" "0 \<le> v" using that "1.prems"(2) by auto
      moreover have "Max (set (tr_a t)) < 2 ^ shift"
        using False pos_imp_zdiv_pos_iff [of "2 ^ shift :: int" "Max (set (tr_a t))"]
        by (simp add: drop_bit_eq_div)
      ultimately show ?thesis by (simp add: take_bit_int_eq_self)
    qed
    then have "map (take_bit shift) (tr_a t) = tr_a t" by (simp add: map_idI)
    then have "sorted (tr_a t)" using "1.prems"(3) by simp
    moreover have "radix_loop shift t = Some t"
      using False "1.prems"(1) by (subst radix_loop.simps) simp
    ultimately show ?thesis by auto
  qed
qed

lemma radix_correct:
  assumes "tr_a t \<noteq> []" "\<And>v. v \<in> set (tr_a t) \<Longrightarrow> 0 \<le> v"
  shows "\<exists>u. radix t = Some u \<and> runs (set (tr_a t)) t u \<and> tr_a u = sort (tr_a t)"
proof -
  have "sorted (map (take_bit 0) (tr_a t))" by (simp add: sorted_iff_nth_mono)
  then obtain u where u: "radix t = Some u" "runs (set (tr_a t)) t u" "mset (tr_a u) = mset (tr_a t)" "sorted (tr_a u)"
    using radix_loop_sorts [OF assms] unfolding radix_def by blast
  moreover have "tr_a u = sort (tr_a t)"
    using u(3,4) by (metis properties_for_sort)
  ultimately show ?thesis by blast
qed

interpretation radix: recorded_sort radix "\<lambda>a. a \<noteq> [] \<and> (\<forall>v \<in> set a. 0 \<le> v)"
  by unfold_locales (use radix_correct in blast)

end
