(* ===== verification/FT_Timeline.thy ===== *)
theory FT_Timeline
  imports Complex_Main
begin

text \<open>
  Timelines as several demos of \<open>src/demos\<close> keep them: segments appended one after the other at
  a running clock, the time of a frame wrapped round the total, and the segment looked up with
  \<open>bisect\<close>. Seconds are rationals. The locale states what appending promises; its lemmas are what
  a lookup can then rely on.
\<close>

text \<open>What every frame keeps, any sequence of frames keeps.\<close>

lemma fold_keeps: "(\<And>x s. P s \<Longrightarrow> P (f x s)) \<Longrightarrow> P s \<Longrightarrow> P (fold f xs s)"
  by (induction xs arbitrary: s) simp_all

section \<open>Wrapped time and lookup\<close>

text \<open>Python's \<open>u % m\<close> on floats of which \<open>m\<close> is positive, without rounding.\<close>

definition fmod :: "rat \<Rightarrow> rat \<Rightarrow> rat" where
  "fmod u m = u - m * of_int \<lfloor>u / m\<rfloor>"

lemma fmod_range:
  assumes "0 < m"
  shows "0 \<le> fmod u m" and "fmod u m < m"
proof -
  define f where "f = \<lfloor>u / m\<rfloor>"
  have "of_int f \<le> u / m" "u / m < of_int f + 1"
    by (auto simp: f_def) linarith
  then show "0 \<le> fmod u m" "fmod u m < m"
    using assms by (auto simp: fmod_def f_def [symmetric] field_simps)
qed

lemma fmod_id: "0 \<le> u \<Longrightarrow> u < m \<Longrightarrow> fmod u m = u"
proof -
  assume "0 \<le> u" "u < m"
  then have "\<lfloor>u / m\<rfloor> = 0" by (simp add: floor_eq_iff divide_less_eq)
  then show ?thesis by (simp add: fmod_def)
qed

lemma fmod_shift: "0 < m \<Longrightarrow> fmod (u + m * of_int k) m = fmod u m"
proof -
  assume m: "0 < m"
  have "(u + m * of_int k) / m = u / m + of_int k" using m by (simp add: field_simps)
  then have "\<lfloor>(u + m * of_int k) / m\<rfloor> = \<lfloor>u / m\<rfloor> + k" by simp
  then show ?thesis by (simp add: fmod_def algebra_simps)
qed

text \<open>\<open>bisect.bisect_right\<close> on a sorted list: how many entries are at most \<open>x\<close>.\<close>

definition bisect_right :: "rat list \<Rightarrow> rat \<Rightarrow> nat" where
  "bisect_right xs x = length (takeWhile (\<lambda>s. s \<le> x) xs)"

section \<open>Segments end to end\<close>

fun tiled :: "('s \<Rightarrow> rat) \<Rightarrow> ('s \<Rightarrow> rat) \<Rightarrow> rat \<Rightarrow> 's list \<Rightarrow> rat \<Rightarrow> bool" where
  "tiled t0 dur start [] stop \<longleftrightarrow> start = stop"
| "tiled t0 dur start (sg # sgs) stop \<longleftrightarrow>
     t0 sg = start \<and> 0 < dur sg \<and> tiled t0 dur (start + dur sg) sgs stop"

lemma tiled_snoc: "tiled t0 dur start (sgs @ [sg]) stop \<longleftrightarrow>
    tiled t0 dur start sgs (t0 sg) \<and> 0 < dur sg \<and> stop = t0 sg + dur sg"
  by (induction sgs arbitrary: start) auto

lemma tiled_le: "tiled t0 dur start sgs stop \<Longrightarrow> start \<le> stop"
  by (induction sgs arbitrary: start) fastforce+

lemma tiled_positive: "tiled t0 dur start sgs stop \<Longrightarrow> sgs \<noteq> [] \<Longrightarrow> start < stop"
  by (cases sgs) (use tiled_le in fastforce)+

lemma bisect_finds:
  assumes "tiled t0 dur start sgs stop" "start \<le> x" "x < stop"
  shows "\<exists>sg \<in> set sgs. sgs ! (bisect_right (map t0 sgs) x - 1) = sg \<and> t0 sg \<le> x \<and> x < t0 sg + dur sg"
  using assms
proof (induction sgs arbitrary: start)
  case (Cons sg sgs)
  show ?case
  proof (cases "x < start + dur sg")
    case True
    have "takeWhile (\<lambda>s. s \<le> x) (map t0 sgs) = []"
      using Cons.prems True by (cases sgs) auto
    then show ?thesis
      using Cons.prems True by (simp add: bisect_right_def)
  next
    case False
    then obtain s where s: "s \<in> set sgs" "sgs ! (bisect_right (map t0 sgs) x - 1) = s"
      "t0 s \<le> x" "x < t0 s + dur s"
      using Cons.IH [of "start + dur sg"] Cons.prems by auto
    have "0 < bisect_right (map t0 sgs) x"
      using Cons.prems False s(1) by (cases sgs) (auto simp: bisect_right_def)
    then show ?thesis
      using s Cons.prems by (auto simp: bisect_right_def nth_Cons')
  qed
qed simp

text \<open>
  A builder of a timeline: \<open>add\<close> files one segment at the clock and moves the clock to its end,
  for the requests \<open>ok\<close> admits.
\<close>

locale timeline =
  fixes t0 dur :: "'s \<Rightarrow> rat" and segs :: "'st \<Rightarrow> 's list" and clock :: "'st \<Rightarrow> rat"
    and add :: "'x \<Rightarrow> 'st \<Rightarrow> 'st" and ok :: "'x \<Rightarrow> bool"
  assumes add_files: "ok x \<Longrightarrow> \<exists>s. segs (add x st) = segs st @ [s] \<and> t0 s = clock st \<and> 0 < dur s
      \<and> clock (add x st) = clock st + dur s"
begin

definition laid :: "'st \<Rightarrow> bool" where
  "laid st \<longleftrightarrow> tiled t0 dur 0 (segs st) (clock st)"

definition shown :: "'st \<Rightarrow> rat \<Rightarrow> 's" where
  "shown st t = segs st ! (bisect_right (map t0 (segs st)) (fmod t (clock st)) - 1)"

lemma laid_empty: "segs st = [] \<Longrightarrow> clock st = 0 \<Longrightarrow> laid st"
  by (simp add: laid_def)

lemma laid_add: "laid st \<Longrightarrow> ok x \<Longrightarrow> laid (add x st)"
  using add_files [of x st] by (auto simp: laid_def tiled_snoc)

lemma add_not_empty: "ok x \<Longrightarrow> segs (add x st) \<noteq> []"
  using add_files [of x st] by auto

lemma laid_fold: "laid st \<Longrightarrow> list_all ok xs \<Longrightarrow> laid (fold add xs st)"
  by (induction xs arbitrary: st) (simp_all add: laid_add)

lemma shown_at:
  assumes "laid st" "segs st \<noteq> []"
  shows "shown st t \<in> set (segs st) \<and> t0 (shown st t) \<le> fmod t (clock st)
    \<and> fmod t (clock st) < t0 (shown st t) + dur (shown st t)"
proof -
  have "0 < clock st" using assms tiled_positive unfolding laid_def by blast
  then show ?thesis
    using bisect_finds [of t0 dur 0 "segs st" "clock st" "fmod t (clock st)"] fmod_range [of "clock st" t] assms(1)
    by (auto simp: shown_def laid_def)
qed

end

section \<open>Stepped simulations\<close>

text \<open>
  A simulation that only ever steps forward from a fresh state: what two fresh states show after a
  step is the same, and what is shown after a step depends on what was shown before it. Then what is
  shown depends on the number of the step alone.
\<close>

locale replay =
  fixes number :: "'a \<Rightarrow> int" and adv :: "'a \<Rightarrow> 'a" and view :: "'a \<Rightarrow> 'b" and fresh :: "'a \<Rightarrow> bool"
  assumes number_adv: "number (adv a) = number a + 1"
    and number_fresh: "fresh a \<Longrightarrow> number a = -1"
    and adv_fresh: "fresh a \<Longrightarrow> fresh b \<Longrightarrow> view (adv a) = view (adv b)"
    and adv_view: "number a = number b \<Longrightarrow> view a = view b \<Longrightarrow> view (adv a) = view (adv b)"
begin

definition stepped :: "'a \<Rightarrow> bool" where
  "stepped a \<longleftrightarrow> (\<exists>f n. fresh f \<and> a = (adv ^^ n) f)"

lemma number_steps: "number ((adv ^^ n) a) = number a + int n"
  by (induction n) (simp_all add: number_adv)

lemma stepped_fresh: "fresh a \<Longrightarrow> stepped a"
  unfolding stepped_def by (metis funpow_0)

lemma stepped_adv: "stepped a \<Longrightarrow> stepped (adv a)"
  unfolding stepped_def by (metis comp_apply funpow.simps(2))

lemma view_steps: "fresh f \<Longrightarrow> fresh g \<Longrightarrow> view ((adv ^^ Suc n) f) = view ((adv ^^ Suc n) g)"
proof (induction n)
  case 0
  then show ?case using adv_fresh [of f g] by simp
next
  case (Suc n)
  then have "view (adv ((adv ^^ Suc n) f)) = view (adv ((adv ^^ Suc n) g))"
    by (intro adv_view) (simp_all only: number_steps number_fresh)
  then show ?case by simp
qed

lemma view_of_number:
  assumes "stepped a" "fresh f" "0 \<le> number a"
  shows "view a = view ((adv ^^ Suc (nat (number a))) f)"
proof -
  obtain g n where g: "fresh g" "a = (adv ^^ n) g" using assms(1) by (auto simp: stepped_def)
  then have "n = Suc (nat (number a))" using assms(3) number_steps [of n g] number_fresh [of g] by simp
  then show ?thesis using view_steps [OF g(1) assms(2)] g(2) by metis
qed

end

end
