(* ===== verification/FT_Race.thy ===== *)
theory FT_Race
  imports FT_Quick FT_Heap FT_Merge FT_Radix FT_Timeline
begin

text \<open>
  The race of \<open>src/demos/sort.py\<close> (\<open>build\<close> and its \<open>render\<close>): every algorithm is run once, its
  steps are filed on one timeline of segments, and a frame plays the timeline up to the step its
  clock says. Seconds are rationals; the colour table is reduced to its index.
\<close>

section \<open>Building the timeline\<close>

definition ALGORITHMS :: "(string \<times> (trace \<Rightarrow> trace option) \<times> string) list" where
  "ALGORITHMS =
     [(''quicksort'', \<lambda>t. Some (quicksort t), ''QUICKSORT''),
      (''merge'', \<lambda>t. Some (mergesort t), ''MERGE SORT''),
      (''heap'', \<lambda>t. Some (heapsort t), ''HEAPSORT''),
      (''radix'', radix, ''RADIX LSD''),
      (''bubble'', \<lambda>t. Some (bubble t), ''BUBBLE SORT''),
      (''insertion'', \<lambda>t. Some (insertion t), ''INSERTION'')]"

definition DEFAULT_ALGORITHMS :: "string list" where
  "DEFAULT_ALGORITHMS = [''quicksort'', ''radix'', ''bubble'', ''heap'']"

datatype seg_kind = Shuffling | Sorting | Sweeping

record segment =
  sg_t0 :: rat
  sg_dur :: rat
  sg_kind :: seg_kind
  sg_label :: string
  sg_step0 :: nat
  sg_step1 :: nat
  sg_state0 :: "int list"

record race =
  rc_wr :: "move list"
  rc_hl :: "view list"
  rc_segments :: "segment list"
  rc_clock :: rat

definition add_segment :: "seg_kind \<Rightarrow> string \<Rightarrow> trace option \<Rightarrow> rat \<Rightarrow> int list \<Rightarrow> race \<Rightarrow> race" where
  "add_segment kind label tr seconds state0 rc =
     (let step0 = length (rc_wr rc);
          wr = rc_wr rc @ (case tr of None \<Rightarrow> [] | Some t \<Rightarrow> tr_wr t);
          hl = rc_hl rc @ (case tr of None \<Rightarrow> [] | Some t \<Rightarrow> tr_hl t)
      in \<lparr>rc_wr = wr, rc_hl = hl,
          rc_segments = rc_segments rc @
            [\<lparr>sg_t0 = rc_clock rc, sg_dur = max seconds (1 / 20), sg_kind = kind, sg_label = label,
              sg_step0 = step0, sg_step1 = length wr, sg_state0 = state0\<rparr>],
          rc_clock = rc_clock rc + max seconds (1 / 20)\<rparr>)"

datatype race_error = Unknown_algorithms "string list" | Algorithm_raised | Not_preserved string | Not_sorted string

text \<open>
  \<open>draws k\<close> are the random numbers of the shuffle that has \<open>k\<close> slots after it. Every slot starts
  from the array its predecessor left.
\<close>

fun race_slots ::
  "int list \<Rightarrow> rat \<Rightarrow> rat \<Rightarrow> rat \<Rightarrow> (nat \<Rightarrow> nat \<Rightarrow> nat) \<Rightarrow> string list \<Rightarrow> int list \<Rightarrow> race \<Rightarrow> race_error + race" where
  "race_slots ordered slot shuffle_s sweep_s draws [] state rc = Inr rc"
| "race_slots ordered slot shuffle_s sweep_s draws (name # names) state rc =
     (case map_of ALGORITHMS name of
        None \<Rightarrow> Inl (Unknown_algorithms [name])
      | Some (alg, label) \<Rightarrow>
          (let tr = shuffle (draws (length names)) (new_trace state);
               rc = add_segment Shuffling ''SHUFFLE'' (Some tr) shuffle_s state rc;
               shuffled = tr_a tr
           in case alg (new_trace shuffled) of
                None \<Rightarrow> Inl Algorithm_raised
              | Some u \<Rightarrow>
                  if tr_a u \<noteq> ordered
                  then if sort (tr_a u) \<noteq> ordered then Inl (Not_preserved name) else Inl (Not_sorted name)
                  else race_slots ordered slot shuffle_s sweep_s draws names (tr_a u)
                         (add_segment Sweeping ''SORTED!'' None sweep_s (tr_a u)
                           (add_segment Sorting label (Some u) (slot - shuffle_s - sweep_s) shuffled rc))))"

definition race_size :: "nat \<Rightarrow> nat \<Rightarrow> nat" where
  "race_size W element_px = max 8 (W div max 1 element_px)"

definition race_build ::
  "nat \<Rightarrow> rat \<Rightarrow> rat \<Rightarrow> rat \<Rightarrow> (nat \<Rightarrow> nat \<Rightarrow> nat) \<Rightarrow> string list \<Rightarrow> race_error + race" where
  "race_build n cycle shuffle_s sweep_s draws names =
     (let bad = filter (\<lambda>s. map_of ALGORITHMS s = None) names
      in if bad \<noteq> [] then Inl (Unknown_algorithms bad)
         else (let names = (if names = [] then DEFAULT_ALGORITHMS else names);
                   ordered = map int [0..<n];
                   slot = max (cycle / of_nat (length names)) 3
               in race_slots ordered slot shuffle_s sweep_s draws names ordered
                    \<lparr>rc_wr = [], rc_hl = [], rc_segments = [], rc_clock = 0\<rparr>))"

section \<open>Playing it back\<close>

definition segment_at :: "race \<Rightarrow> rat \<Rightarrow> segment" where
  "segment_at rc tt = rc_segments rc ! (bisect_right (map sg_t0 (rc_segments rc)) tt - 1)"

definition race_time :: "race \<Rightarrow> rat \<Rightarrow> rat" where
  "race_time rc t = fmod t (rc_clock rc)"

definition seg_progress :: "segment \<Rightarrow> rat \<Rightarrow> rat" where
  "seg_progress sg tt = min (max ((tt - sg_t0 sg) / sg_dur sg) 0) 1"

definition seg_step :: "segment \<Rightarrow> rat \<Rightarrow> nat" where
  "seg_step sg p = sg_step0 sg + nat \<lfloor>p * of_int (int (sg_step1 sg) - int (sg_step0 sg))\<rfloor>"

text \<open>What \<open>render\<close> keeps between frames: the steps applied (minus one at first) and the array.\<close>

type_synonym live = "int \<times> int list"

definition seek :: "race \<Rightarrow> segment \<Rightarrow> nat \<Rightarrow> live \<Rightarrow> live" where
  "seek rc sg k = (\<lambda>(cur, live).
     let (cur, live) = (if cur < int (sg_step0 sg) \<or> cur > int k then (int (sg_step0 sg), sg_state0 sg) else (cur, live))
     in if int k > cur then (int k, play (take (k - nat cur) (drop (nat cur) (rc_wr rc))) live)
        else (cur, live))"

definition race_render :: "race \<Rightarrow> rat \<Rightarrow> live \<Rightarrow> live" where
  "race_render rc t st =
     (let tt = race_time rc t; sg = segment_at rc tt
      in seek rc sg (seg_step sg (seg_progress sg tt)) st)"

text \<open>The class of every column: 0 at rest, 1 in the active region, 2 under a cursor.\<close>

definition set_slice :: "nat \<Rightarrow> nat \<Rightarrow> 'a \<Rightarrow> 'a list \<Rightarrow> 'a list" where
  "set_slice lo hi v xs = map (\<lambda>i. if lo \<le> i \<and> i < hi then v else xs ! i) [0..<length xs]"

definition sweep_classes :: "nat \<Rightarrow> rat \<Rightarrow> nat list" where
  "sweep_classes n p =
     (let front = \<lfloor>p * of_nat (n + 6)\<rfloor> - 3;
          hcls = replicate n 0;
          hcls = (if front > 0 then set_slice 0 (nat (min front (int n))) 1 hcls else hcls);
          lo = min (max (front - 2) 0) (int n);
          hi = min (max (front + 1) 0) (int n)
      in if hi > lo then set_slice (nat lo) (nat hi) 2 hcls else hcls)"

definition view_classes :: "nat \<Rightarrow> view \<Rightarrow> nat list" where
  "view_classes n = (\<lambda>(ca, cb, lo, hi).
     let hcls = replicate n 0;
         hcls = (if 0 \<le> lo \<and> lo \<le> hi \<and> hi < int n then set_slice (nat lo) (nat hi + 1) 1 hcls else hcls);
         hcls = (if 0 \<le> ca \<and> ca < int n then hcls[nat ca := 2] else hcls)
     in if 0 \<le> cb \<and> cb < int n then hcls[nat cb := 2] else hcls)"

definition column_classes :: "nat \<Rightarrow> race \<Rightarrow> segment \<Rightarrow> rat \<Rightarrow> nat list" where
  "column_classes n rc sg p =
     (let k = seg_step sg p
      in if sg_kind sg = Sweeping then sweep_classes n p
         else if k > sg_step0 sg then view_classes n (rc_hl rc ! (k - 1))
         else replicate n 0)"

definition pal_of :: "nat \<Rightarrow> int \<Rightarrow> int" where
  "pal_of n v = v * 255 div max (int n - 1) 1"

definition top_of :: "bool \<Rightarrow> nat \<Rightarrow> nat \<Rightarrow> int \<Rightarrow> int" where
  "top_of band H n v = (if band then 0 else int H - (1 + v * (int H - 1) div max (int n - 1) 1))"

definition col_of :: "nat \<Rightarrow> nat \<Rightarrow> nat \<Rightarrow> nat" where
  "col_of n epx x = min (x div epx) (n - 1)"

text \<open>The entry of the table of six times 256 colours that the pixel \<open>(x, y)\<close> takes.\<close>

definition colour_index :: "bool \<Rightarrow> nat \<Rightarrow> nat \<Rightarrow> nat \<Rightarrow> nat list \<Rightarrow> int list \<Rightarrow> nat \<Rightarrow> nat \<Rightarrow> int" where
  "colour_index band H n epx hcls live x y =
     (let c = col_of n epx x; v = live ! c
      in (if int y \<ge> top_of band H n v then 256 else 0) + (int (hcls ! c) * 512 + pal_of n v))"

section \<open>The timeline is right\<close>

text \<open>Every algorithm of the table keeps the contract on permutations of \<open>0 \<dots> n - 1\<close>.\<close>

lemma algorithms_record:
  assumes "map_of ALGORITHMS name = Some (alg, label)" "a \<noteq> []" "\<forall>v \<in> set a. 0 \<le> v"
  shows "\<exists>u. alg (new_trace a) = Some u \<and> tr_a u = sort a \<and> play (tr_wr u) a = sort a
     \<and> length (tr_hl u) = length (tr_wr u)
     \<and> list_all (move_fits (length a)) (tr_wr u) \<and> list_all (view_fits (length a)) (tr_hl u)
     \<and> list_all (move_values (set a)) (tr_wr u)"
proof -
  have "alg \<in> {\<lambda>t. Some (quicksort t), \<lambda>t. Some (mergesort t), \<lambda>t. Some (heapsort t), radix,
      \<lambda>t. Some (bubble t), \<lambda>t. Some (insertion t)}"
    using assms(1) by (auto simp: ALGORITHMS_def split: if_splits)
  then show ?thesis
    using quicksort.recording_sorts [of a] mergesort.recording_sorts [of a] heapsort.recording_sorts [of a]
      radix.recording_sorts [of a] bubble.recording_sorts [of a] insertion.recording_sorts [of a] assms(2,3)
    by blast
qed

lemma shuffle_records:
  fixes a :: "int list" and d :: "nat \<Rightarrow> nat"
  assumes "\<And>k. d k \<le> k"
  defines "u \<equiv> shuffle d (new_trace a)"
  shows "mset (tr_a u) = mset a \<and> play (tr_wr u) a = tr_a u \<and> length (tr_hl u) = length (tr_wr u)
    \<and> list_all (view_fits (length a)) (tr_hl u) \<and> list_all (move_values (set a)) (tr_wr u)"
  using runs_record [OF stir_runs [OF shuffle_stirs [OF assms(1), of "new_trace a"]], of "set a"]
    stir_mset [OF shuffle_stirs [OF assms(1), of "new_trace a"]]
  by (auto simp: new_trace_def u_def)

text \<open>Filing a segment is what a timeline asks for; the request is the five arguments.\<close>

interpretation race_line: timeline sg_t0 sg_dur rc_segments rc_clock
  "\<lambda>(kind, label, tr, seconds, state0). add_segment kind label tr seconds state0" "\<lambda>_. True"
  by unfold_locales (auto simp: add_segment_def Let_def less_max_iff_disj)

text \<open>Segments tile the timeline, and each starts from the array all moves before it produce.\<close>

definition race_ok :: "int list \<Rightarrow> race \<Rightarrow> bool" where
  "race_ok ordered rc \<longleftrightarrow>
     length (rc_hl rc) = length (rc_wr rc) \<and> list_all (view_fits (length ordered)) (rc_hl rc) \<and>
     list_all (move_values (set ordered)) (rc_wr rc) \<and> race_line.laid rc \<and>
     (\<forall>sg \<in> set (rc_segments rc). sg_step0 sg \<le> sg_step1 sg \<and> sg_step1 sg \<le> length (rc_wr rc)
        \<and> sg_state0 sg = play (take (sg_step0 sg) (rc_wr rc)) ordered)"

lemma add_segment_fields [simp]:
  "rc_wr (add_segment kind label tr seconds state rc) = rc_wr rc @ (case tr of None \<Rightarrow> [] | Some t \<Rightarrow> tr_wr t)"
  "rc_segments (add_segment kind label tr seconds state rc) \<noteq> []"
  by (simp_all add: add_segment_def Let_def)

lemma race_ok_add:
  assumes "race_ok ordered rc" "play (rc_wr rc) ordered = state"
    "case tr of None \<Rightarrow> True | Some t \<Rightarrow> length (tr_hl t) = length (tr_wr t)
        \<and> list_all (view_fits (length ordered)) (tr_hl t) \<and> list_all (move_values (set ordered)) (tr_wr t)"
  shows "race_ok ordered (add_segment kind label tr seconds state rc)"
proof -
  have "race_line.laid (add_segment kind label tr seconds state rc)"
    using race_line.laid_add [of rc "(kind, label, tr, seconds, state)"] assms(1) by (simp add: race_ok_def)
  then show ?thesis
    using assms by (auto simp: race_ok_def add_segment_def Let_def split: option.splits)
qed

lemma race_slots_ok:
  assumes draws: "\<forall>s k. draws s k \<le> k"
    and ordered: "ordered \<noteq> []" "sorted ordered" "\<forall>v \<in> set ordered. 0 \<le> v"
    and "\<forall>name \<in> set names. map_of ALGORITHMS name \<noteq> None"
    and "race_ok ordered rc" "play (rc_wr rc) ordered = ordered"
  shows "\<exists>rc'. race_slots ordered slot shuffle_s sweep_s draws names ordered rc = Inr rc'
    \<and> race_ok ordered rc' \<and> play (rc_wr rc') ordered = ordered
    \<and> (names \<noteq> [] \<or> rc_segments rc \<noteq> [] \<longrightarrow> rc_segments rc' \<noteq> [])"
  using assms(5-7)
proof (induction names arbitrary: rc)
  case (Cons name names)
  obtain alg label where al: "map_of ALGORITHMS name = Some (alg, label)" using Cons.prems(1) by auto
  define tr where "tr = shuffle (draws (length names)) (new_trace ordered)"
  have "draws (length names) k \<le> k" for k using draws by simp
  note tr = shuffle_records [OF this, of ordered, folded tr_def]
  then have same: "set (tr_a tr) = set ordered" "length (tr_a tr) = length ordered" "sort (tr_a tr) = ordered"
    using mset_eq_setD mset_eq_length ordered(2) properties_for_sort by metis+
  then have "tr_a tr \<noteq> []" using ordered(1) by auto
  then obtain u where u: "alg (new_trace (tr_a tr)) = Some u" "tr_a u = ordered" "play (tr_wr u) (tr_a tr) = ordered"
    "length (tr_hl u) = length (tr_wr u)" "list_all (view_fits (length ordered)) (tr_hl u)"
    "list_all (move_values (set ordered)) (tr_wr u)"
    using algorithms_record [OF al, of "tr_a tr"] ordered(3) by (auto simp: same)
  define rc1 where "rc1 = add_segment Shuffling ''SHUFFLE'' (Some tr) shuffle_s ordered rc"
  define rc2 where "rc2 = add_segment Sorting label (Some u) (slot - shuffle_s - sweep_s) (tr_a tr) rc1"
  define rc3 where "rc3 = add_segment Sweeping ''SORTED!'' None sweep_s ordered rc2"
  have 1: "race_ok ordered rc1" "play (rc_wr rc1) ordered = tr_a tr"
    using Cons.prems tr unfolding rc1_def by (auto intro: race_ok_add)
  have 2: "race_ok ordered rc2" "play (rc_wr rc2) ordered = ordered"
    using 1 u unfolding rc2_def by (auto intro: race_ok_add)
  have 3: "race_ok ordered rc3" "play (rc_wr rc3) ordered = ordered"
    using 2 unfolding rc3_def by (auto intro: race_ok_add)
  have "race_slots ordered slot shuffle_s sweep_s draws (name # names) ordered rc
      = race_slots ordered slot shuffle_s sweep_s draws names ordered rc3"
    using al u(1,2) by (simp add: Let_def tr_def [symmetric] rc1_def [symmetric] rc2_def [symmetric] rc3_def [symmetric])
  moreover have "rc_segments rc3 \<noteq> []" by (simp add: rc3_def)
  ultimately show ?case using Cons.IH [of rc3] Cons.prems(1) 3 by auto
qed simp

lemma ordered_facts:
  "0 < n \<Longrightarrow> map int [0..<n] \<noteq> []" "sorted (map int [0..<n])" "\<forall>v \<in> set (map int [0..<n]). 0 \<le> v"
  by (auto simp: sorted_iff_nth_mono)

lemma race_build_ok:
  assumes "\<forall>s k. draws s k \<le> k" "0 < n" "\<forall>name \<in> set names. map_of ALGORITHMS name \<noteq> None"
  shows "\<exists>rc. race_build n cycle shuffle_s sweep_s draws names = Inr rc \<and> race_ok (map int [0..<n]) rc
    \<and> play (rc_wr rc) (map int [0..<n]) = map int [0..<n] \<and> rc_segments rc \<noteq> []"
proof -
  let ?names = "if names = [] then DEFAULT_ALGORITHMS else names"
  have "\<forall>name \<in> set DEFAULT_ALGORITHMS. map_of ALGORITHMS name \<noteq> None"
    by (simp add: DEFAULT_ALGORITHMS_def ALGORITHMS_def)
  then have "\<forall>name \<in> set ?names. map_of ALGORITHMS name \<noteq> None" "?names \<noteq> []"
    using assms(3) by (auto simp: DEFAULT_ALGORITHMS_def)
  moreover have "race_ok (map int [0..<n]) \<lparr>rc_wr = [], rc_hl = [], rc_segments = [], rc_clock = 0\<rparr>"
    by (simp add: race_ok_def race_line.laid_empty)
  moreover have "filter (\<lambda>s. map_of ALGORITHMS s = None) names = []"
    using assms(3) by (simp add: filter_empty_conv)
  ultimately show ?thesis
    using race_slots_ok [OF assms(1) ordered_facts(1) [OF assms(2)] ordered_facts(2,3), of ?names]
    unfolding race_build_def Let_def by auto
qed



section \<open>The picture is a function of the time\<close>

definition live_ok :: "int list \<Rightarrow> race \<Rightarrow> live \<Rightarrow> bool" where
  "live_ok ordered rc = (\<lambda>(cur, live). cur \<le> int (length (rc_wr rc)) \<and>
     (0 \<le> cur \<longrightarrow> live = play (take (nat cur) (rc_wr rc)) ordered))"

lemma seek_exact:
  assumes "race_ok ordered rc" "sg \<in> set (rc_segments rc)" "sg_step0 sg \<le> k" "k \<le> sg_step1 sg" "live_ok ordered rc st"
  shows "seek rc sg k st = (int k, play (take k (rc_wr rc)) ordered)"
proof -
  obtain cur live where st: "st = (cur, live)" by fastforce
  have sg: "sg_state0 sg = play (take (sg_step0 sg) (rc_wr rc)) ordered" "k \<le> length (rc_wr rc)"
    using assms by (auto simp: race_ok_def)
  have join: "play (take (k - c) (drop c ws)) (play (take c ws) a) = play (take k ws) a" if "c \<le> k" for c ws a
    using that take_add [of c "k - c" ws] by (metis le_add_diff_inverse play_simps(3))
  show ?thesis
  proof (cases "cur < int (sg_step0 sg) \<or> cur > int k")
    case True
    then have "seek rc sg k st =
        (if int k > int (sg_step0 sg)
         then (int k, play (take (k - sg_step0 sg) (drop (sg_step0 sg) (rc_wr rc))) (sg_state0 sg))
         else (int (sg_step0 sg), sg_state0 sg))"
      by (simp add: seek_def st)
    then show ?thesis using assms(3) sg(1) join [OF assms(3)] by simp
  next
    case False
    define c where "c = nat cur"
    then have "cur = int c" "sg_step0 sg \<le> c" "c \<le> k" using False by auto
    then show ?thesis using assms(5) join [of c] by (simp add: seek_def st live_ok_def)
  qed
qed

lemma seg_step_bounds:
  assumes "sg_step0 sg \<le> sg_step1 sg"
  shows "sg_step0 sg \<le> seg_step sg (seg_progress sg tt) \<and> seg_step sg (seg_progress sg tt) \<le> sg_step1 sg"
proof -
  let ?p = "seg_progress sg tt" and ?w = "of_int (int (sg_step1 sg) - int (sg_step0 sg)) :: rat"
  have "0 \<le> ?p" "?p \<le> 1" by (auto simp: seg_progress_def)
  moreover have "0 \<le> ?w" using assms by simp
  ultimately have "0 \<le> ?p * ?w" "?p * ?w \<le> ?w"
    using mult_right_mono [of ?p 1 ?w] by auto
  then have "0 \<le> \<lfloor>?p * ?w\<rfloor>" "\<lfloor>?p * ?w\<rfloor> \<le> int (sg_step1 sg) - int (sg_step0 sg)"
    by (auto simp: floor_le_iff)
  then show ?thesis using assms by (simp add: seg_step_def)
qed

lemma segment_found:
  fixes t :: rat
  assumes "race_ok ordered rc" "rc_segments rc \<noteq> []"
  defines "sg \<equiv> segment_at rc (race_time rc t)"
  shows "sg \<in> set (rc_segments rc) \<and> sg_t0 sg \<le> race_time rc t \<and> race_time rc t < sg_t0 sg + sg_dur sg"
  using race_line.shown_at [of rc t] assms
  by (simp add: race_ok_def race_line.shown_def segment_at_def race_time_def)

lemma race_render_exact:
  fixes t :: rat
  assumes "race_ok ordered rc" "rc_segments rc \<noteq> []" "live_ok ordered rc st"
  defines "sg \<equiv> segment_at rc (race_time rc t)"
  defines "k \<equiv> seg_step sg (seg_progress sg (race_time rc t))"
  shows "race_render rc t st = (int k, play (take k (rc_wr rc)) ordered) \<and> live_ok ordered rc (race_render rc t st)
    \<and> sg_step0 sg \<le> k \<and> k \<le> sg_step1 sg"
proof -
  have sg: "sg \<in> set (rc_segments rc)" using segment_found assms unfolding sg_def by blast
  then have b: "sg_step0 sg \<le> sg_step1 sg" "sg_step1 sg \<le> length (rc_wr rc)" using assms(1) by (auto simp: race_ok_def)
  then have k: "sg_step0 sg \<le> k" "k \<le> sg_step1 sg"
    using seg_step_bounds [OF b(1)] by (auto simp: k_def)
  then have "race_render rc t st = (int k, play (take k (rc_wr rc)) ordered)"
    using seek_exact [OF assms(1) sg k assms(3)] by (simp add: race_render_def Let_def sg_def k_def)
  then show ?thesis using k b by (simp add: live_ok_def)
qed

lemma race_history_exact:
  fixes t :: rat
  assumes "\<forall>s k. draws s k \<le> k" "0 < n" "race_build n cycle shuffle_s sweep_s draws names = Inr rc"
  defines "sg \<equiv> segment_at rc (race_time rc t)"
  defines "k \<equiv> seg_step sg (seg_progress sg (race_time rc t))"
  shows "race_ok (map int [0..<n]) rc"
    and "race_render rc t (fold (race_render rc) history (-1, map int [0..<n]))
       = (int k, play (take k (rc_wr rc)) (map int [0..<n]))
     \<and> sg_t0 sg \<le> race_time rc t \<and> race_time rc t < sg_t0 sg + sg_dur sg"
proof -
  have "\<forall>name \<in> set names. map_of ALGORITHMS name \<noteq> None"
    using assms(3) by (auto simp: race_build_def Let_def filter_empty_conv split: if_splits)
  then have rc: "race_ok (map int [0..<n]) rc" "rc_segments rc \<noteq> []"
    using race_build_ok [OF assms(1,2), of names cycle shuffle_s sweep_s] assms(3) by auto
  have "live_ok (map int [0..<n]) rc (fold (race_render rc) history st)" if "live_ok (map int [0..<n]) rc st" for st
    using fold_keeps [of "live_ok (map int [0..<n]) rc" "race_render rc"] race_render_exact [OF rc] that by blast
  then have h: "live_ok (map int [0..<n]) rc (fold (race_render rc) history (-1, map int [0..<n]))"
    by (simp add: live_ok_def)
  show "race_ok (map int [0..<n]) rc" by (rule rc)
  show "race_render rc t (fold (race_render rc) history (-1, map int [0..<n]))
       = (int k, play (take k (rc_wr rc)) (map int [0..<n]))
     \<and> sg_t0 sg \<le> race_time rc t \<and> race_time rc t < sg_t0 sg + sg_dur sg"
    using race_render_exact [OF rc h, of t] segment_found [OF rc, of t] unfolding sg_def k_def by blast
qed

text \<open>
  Seeking: after any sequence of frames at any times, forwards or backwards, the array shown at
  \<open>t\<close> is the recorded moves up to the step of \<open>t\<close> played over the ordered array, and that step
  lies in the segment whose time \<open>t\<close> is.
\<close>

theorem picture_depends_on_time_only:
  fixes t :: rat
  assumes "\<forall>s k. draws s k \<le> k" "0 < n" "race_build n cycle shuffle_s sweep_s draws names = Inr rc"
  defines "sg \<equiv> segment_at rc (race_time rc t)"
  defines "k \<equiv> seg_step sg (seg_progress sg (race_time rc t))"
  shows "race_render rc t (fold (race_render rc) history (-1, map int [0..<n]))
       = (int k, play (take k (rc_wr rc)) (map int [0..<n]))
     \<and> sg_t0 sg \<le> race_time rc t \<and> race_time rc t < sg_t0 sg + sg_dur sg"
  unfolding k_def sg_def by (rule race_history_exact(2) [OF assms(1-3)])

theorem picture_depends_on_time_only_witness:
  "\<exists>rc. race_build 8 45 1 1 (\<lambda>s k. k div 2) [''heap''] = Inr rc
    \<and> race_render rc 7 (fold (race_render rc) [20, 3] (-1, map int [0..<8]))
      = (let sg = segment_at rc (race_time rc 7); k = seg_step sg (seg_progress sg (race_time rc 7))
         in (int k, play (take k (rc_wr rc)) (map int [0..<8])))"
proof -
  have d: "\<forall>(s :: nat) k. k div 2 \<le> (k :: nat)" by simp
  obtain rc where rc: "race_build 8 45 1 1 (\<lambda>s k. k div 2) [''heap''] = Inr rc"
    using race_build_ok [of "\<lambda>s k. k div 2" 8 "[''heap'']", where cycle = 45 and shuffle_s = 1 and sweep_s = 1] d by (auto simp: ALGORITHMS_def)
  show ?thesis
    using picture_depends_on_time_only [OF d _ rc, of 7 "[20, 3]"] rc by (auto simp: Let_def)
qed

section \<open>Every pixel finds a colour\<close>

lemma play_values: "set a \<subseteq> V \<Longrightarrow> list_all (move_values V) ws \<Longrightarrow> set (play ws a) \<subseteq> V"
proof (induction ws arbitrary: a)
  case (Cons w ws)
  obtain p v q x where w: "w = (p, v, q, x)" by (rule prod_cases4)
  have "set (a[nat p := v]) \<subseteq> V" if "0 \<le> p"
    using Cons.prems that w by (intro set_update_subsetI) auto
  moreover from this have "set (a[nat p := v, nat q := x]) \<subseteq> V" if "0 \<le> p" "0 \<le> q"
    using Cons.prems that w by (intro set_update_subsetI) auto
  ultimately have "set (play_move w a) \<subseteq> V"
    using Cons.prems(1) w by (simp add: play_move_def Let_def)
  then show ?case using Cons by simp
qed simp

lemma set_slice_simps [simp]:
  "length (set_slice lo hi v xs) = length xs"
  "set (set_slice lo hi v xs) \<subseteq> insert v (set xs)"
  by (auto simp: set_slice_def)

lemma set_slice_subset: "v \<in> A \<Longrightarrow> set xs \<subseteq> A \<Longrightarrow> set (set_slice lo hi v xs) \<subseteq> A"
  using set_slice_simps(2) [of lo hi v xs] by blast

lemma if_subset: "set xs \<subseteq> A \<Longrightarrow> set ys \<subseteq> A \<Longrightarrow> set (if c then xs else ys) \<subseteq> A"
  by simp

lemma column_classes_bounds:
  "length (column_classes n rc sg p) = n \<and> set (column_classes n rc sg p) \<subseteq> {0, 1, 2}"
proof -
  have z: "set (replicate n (0 :: nat)) \<subseteq> {0, 1, 2}" by auto
  have "set (sweep_classes n p) \<subseteq> {0, 1, 2}"
    unfolding sweep_classes_def Let_def by (intro if_subset set_slice_subset z) auto
  moreover have "set (view_classes n h) \<subseteq> {0, 1, 2}" for h
  proof -
    obtain ca cb lo hi where h: "h = (ca, cb, lo, hi)" by (rule prod_cases4)
    show ?thesis
      unfolding h view_classes_def Let_def prod.case
      by (intro if_subset set_update_subsetI set_slice_subset z) auto
  qed
  moreover have "length (sweep_classes n p) = n" "length (view_classes n h) = n" for h
    by (auto simp: sweep_classes_def view_classes_def Let_def split: prod.split)
  ultimately show ?thesis using z by (simp add: column_classes_def Let_def)
qed

lemma pal_of_bounds: "0 \<le> v \<Longrightarrow> v < int n \<Longrightarrow> 0 \<le> pal_of n v \<and> pal_of n v \<le> 255"
proof -
  assume v: "0 \<le> v" "v < int n"
  let ?m = "max (int n - 1) 1"
  have "v * 255 \<le> 255 * ?m" using v by (simp add: max_def)
  then have "v * 255 div ?m \<le> 255" using zdiv_mono1 [of "v * 255" "255 * ?m" ?m] by simp
  then show ?thesis using v by (simp add: pal_of_def pos_imp_zdiv_nonneg_iff)
qed

text \<open>
  Whatever was shown before, the index of every pixel at every time is one of the 1536 entries of
  the colour table.
\<close>

theorem every_pixel_has_a_colour:
  assumes "\<forall>s k. draws s k \<le> k" "race_build (race_size W px) cycle shuffle_s sweep_s draws names = Inr rc"
    "race_render rc t (fold (race_render rc) history (-1, map int [0..<race_size W px])) = (cur, live)"
  shows "let sg = segment_at rc (race_time rc t);
             hcls = column_classes (race_size W px) rc sg (seg_progress sg (race_time rc t));
             i = colour_index band H (race_size W px) epx hcls live x y
         in 0 \<le> i \<and> i < 6 * 256"
proof -
  let ?n = "race_size W px"
  have n: "0 < ?n" by (simp add: race_size_def)
  note rc = race_history_exact(1) [OF assms(1) n assms(2)]
  obtain k where "live = play (take k (rc_wr rc)) (map int [0..<?n])"
    using race_history_exact(2) [OF assms(1) n assms(2), of t history] assms(3) by auto
  moreover have "list_all (move_values (set (map int [0..<?n]))) (take k (rc_wr rc))"
    using rc by (auto simp: race_ok_def list_all_iff dest: in_set_takeD)
  ultimately have live: "set live \<subseteq> set (map int [0..<?n])" "length live = ?n"
    using play_values by auto
  define c where "c = col_of ?n epx x"
  have "c < ?n" using n by (simp add: c_def col_of_def min_less_iff_disj)
  then have "live ! c \<in> set (map int [0..<?n])"
    using live nth_mem [of c live] by auto
  then have "0 \<le> live ! c" "live ! c < int ?n" by auto
  then have pal: "0 \<le> pal_of ?n (live ! c) \<and> pal_of ?n (live ! c) \<le> 255" by (rule pal_of_bounds)
  have "column_classes ?n rc sg p ! c \<le> 2" for sg p
    using column_classes_bounds [of ?n rc sg p] \<open>c < ?n\<close> nth_mem [of c "column_classes ?n rc sg p"] by fastforce
  then have "int (column_classes ?n rc sg p ! c) * 512 \<le> 1024" for sg p
  proof -
    have "int (column_classes ?n rc sg p ! c) \<le> 2"
      using \<open>\<And>sg p. column_classes ?n rc sg p ! c \<le> 2\<close> [of sg p] by linarith
    then show ?thesis by linarith
  qed
  from this [of "segment_at rc (race_time rc t)" "seg_progress (segment_at rc (race_time rc t)) (race_time rc t)"]
  show ?thesis
    using pal by (auto simp: Let_def colour_index_def c_def [symmetric])
qed

theorem every_pixel_has_a_colour_witness:
  "\<exists>rc cur live. race_build (race_size 8 1) 45 1 1 (\<lambda>s k. k div 2) [''heap''] = Inr rc
    \<and> race_render rc 7 (fold (race_render rc) [20, 3] (-1, map int [0..<race_size 8 1])) = (cur, live)
    \<and> (let sg = segment_at rc (race_time rc 7);
           hcls = column_classes (race_size 8 1) rc sg (seg_progress sg (race_time rc 7));
           i = colour_index False 64 (race_size 8 1) 1 hcls live 3 60
       in 0 \<le> i \<and> i < 6 * 256)"
proof -
  have d: "\<forall>(s :: nat) k. k div 2 \<le> (k :: nat)" by simp
  have "0 < race_size 8 1" by (simp add: race_size_def)
  then obtain rc where rc: "race_build (race_size 8 1) 45 1 1 (\<lambda>s k. k div 2) [''heap''] = Inr rc"
    using race_build_ok [of "\<lambda>s k. k div 2" "race_size 8 1" "[''heap'']", where cycle = 45 and shuffle_s = 1 and sweep_s = 1] d by (auto simp: ALGORITHMS_def)
  obtain cur live where "race_render rc 7 (fold (race_render rc) [20, 3] (-1, map int [0..<race_size 8 1])) = (cur, live)"
    by fastforce
  then show ?thesis
    using every_pixel_has_a_colour [OF d rc, of 7 "[20, 3]" cur live False 64 1 3 60] rc by blast
qed

end
