(* ===== verification/FT_Grid.thy ===== *)
theory FT_Grid
  imports FT_Prelude
begin

text \<open>
  Places on a grid by row and column, shared by the two demos of \<open>src/demos\<close> that compute on
  grids, \<open>maze.py\<close> and \<open>wireworld.py\<close>.
\<close>

type_synonym cell = "int \<times> int"

definition shift_cell :: "cell \<Rightarrow> cell \<Rightarrow> cell" where
  "shift_cell c d = (fst c + fst d, snd c + snd d)"

definition inside :: "nat \<Rightarrow> nat \<Rightarrow> cell \<Rightarrow> bool" where
  "inside h w = (\<lambda>(y, x). 0 \<le> y \<and> y < int h \<and> 0 \<le> x \<and> x < int w)"

lemma finite_inside: "finite {c. inside h w c}"
proof -
  have "{c. inside h w c} \<subseteq> {0..<int h} \<times> {0..<int w}"
    by (auto simp: inside_def)
  then show ?thesis by (rule finite_subset) simp
qed

lemma card_inside: "card {c. inside h w c} = h * w"
proof -
  have "{c. inside h w c} = {0..<int h} \<times> {0..<int w}"
    by (auto simp: inside_def)
  then show ?thesis by (simp add: card_cartesian_product)
qed

definition grid_cells :: "nat \<Rightarrow> nat \<Rightarrow> cell list" where
  "grid_cells gh gw = concat (map (\<lambda>y. map (\<lambda>x. (int y, int x)) [0..<gw]) [0..<gh])"

lemma set_grid_cells: "c \<in> set (grid_cells gh gw) \<longleftrightarrow> inside gh gw c"
proof -
  obtain y x where c: "c = (y, x)" by fastforce
  have "c \<in> set (grid_cells gh gw) \<longleftrightarrow> (\<exists>i < gh. \<exists>j < gw. y = int i \<and> x = int j)"
    by (auto simp: grid_cells_def c image_iff)
  also have "\<dots> \<longleftrightarrow> inside gh gw c"
  proof
    assume "inside gh gw c"
    then have "nat y < gh" "nat x < gw" "y = int (nat y)" "x = int (nat x)" by (auto simp: inside_def c)
    then show "\<exists>i < gh. \<exists>j < gw. y = int i \<and> x = int j" by blast
  qed (auto simp: inside_def c)
  finally show ?thesis .
qed

end
