(* ===== verification/FT_Maze.thy ===== *)
theory FT_Maze
  imports FT_Grid
begin

text \<open>
  The maze of \<open>src/demos/maze.py\<close>: the depth-first \<open>carve\<close>, the breadth-first \<open>flood\<close> and the
  route that \<open>new_maze\<close> reads off the flood's parents. Grids are indexed by row and column; a
  boolean grid is the set of its true places, a grid with minus one for absent is a map.
\<close>

definition DIRS :: "cell list" where
  "DIRS = [(-1, 0), (1, 0), (0, -1), (0, 1)]"

definition adjacent :: "cell \<Rightarrow> cell \<Rightarrow> bool" where
  "adjacent p q \<longleftrightarrow> q \<in> set (map (shift_cell p) DIRS)"

lemma adjacent_sym: "adjacent p q \<Longrightarrow> adjacent q p"
  by (cases p; cases q) (auto simp: adjacent_def DIRS_def shift_cell_def)

section \<open>Carving\<close>

text \<open>
  \<open>rng i m\<close> is what the generator's \<open>i\<close>-th call of \<open>integers(m)\<close> returns, which numpy promises
  to be below \<open>m\<close>; an index past the options would raise, here \<open>None\<close>.
\<close>

definition room :: "cell \<Rightarrow> cell" where
  "room c = (2 * fst c + 1, 2 * snd c + 1)"

definition carve_options :: "nat \<Rightarrow> nat \<Rightarrow> cell set \<Rightarrow> cell \<Rightarrow> cell list" where
  "carve_options rows cols seen c =
     filter (\<lambda>d. inside rows cols (shift_cell c d) \<and> shift_cell c d \<notin> seen) DIRS"

function (sequential) carve_loop ::
  "(nat \<Rightarrow> nat \<Rightarrow> nat) \<Rightarrow> nat \<Rightarrow> nat \<Rightarrow> nat \<Rightarrow> cell set \<Rightarrow> cell set \<Rightarrow> cell list \<Rightarrow> cell list
   \<Rightarrow> (cell set \<times> cell list) option" where
  "carve_loop rng rows cols i seen opened order [] = Some (opened, order)"
| "carve_loop rng rows cols i seen opened order (c # stack) =
     (let options = carve_options rows cols seen c; j = rng i (length options)
      in if options = [] then carve_loop rng rows cols i seen opened order stack
         else if j < length options
         then (let d = options ! j; n = shift_cell c d; wall = shift_cell (room c) d
               in carve_loop rng rows cols (i + 1) (insert n seen) (insert (room n) (insert wall opened))
                    (order @ [wall, room n]) (n # c # stack))
         else None)"
  by pat_completeness auto
termination
proof (relation "measure (\<lambda>(rng, rows, cols, i, seen, opened, order, stack).
          2 * card ({c. inside rows cols c} - seen) + length stack)", goal_cases)
  case (3 rng rows cols i seen opened order c stack options j d n wall)
  have "d \<in> set options" using 3 by simp
  then have n: "inside rows cols n" "n \<notin> seen" using 3 by (auto simp: carve_options_def)
  have "{c. inside rows cols c} - insert n seen \<subset> {c. inside rows cols c} - seen" using n by auto
  then have "card ({c. inside rows cols c} - insert n seen) < card ({c. inside rows cols c} - seen)"
    using finite_inside by (intro psubset_card_mono) auto
  then show ?case by simp
qed auto

definition carve :: "(nat \<Rightarrow> nat \<Rightarrow> nat) \<Rightarrow> nat \<Rightarrow> nat \<Rightarrow> (cell set \<times> cell list) option" where
  "carve rng cols rows =
     (let c = (int (rng 0 rows), int (rng 1 cols))
      in carve_loop rng rows cols 2 {c} {room c} [room c] [c])"

declare carve_loop.simps [simp del]

subsection \<open>The maze is a spanning tree\<close>

abbreviation linked :: "cell set \<Rightarrow> cell \<Rightarrow> cell \<Rightarrow> bool" where
  "linked opened \<equiv> (\<lambda>p q. q \<in> opened \<and> adjacent p q)\<^sup>*\<^sup>*"

lemma linked_mono: "linked A p q \<Longrightarrow> A \<subseteq> B \<Longrightarrow> linked B p q"
  by (erule rtranclp_mono [THEN predicate2D, rotated]) auto

lemma linked_sym:
  assumes "linked A p q" "p \<in> A"
  shows "linked A q p"
  using assms
proof (induction rule: converse_rtranclp_induct)
  case (step p r)
  then have "linked A q r" by simp
  moreover have "p \<in> A" "adjacent r p" using step adjacent_sym by auto
  ultimately show ?case by (auto intro: rtranclp.rtrancl_into_rtrancl)
qed simp

text \<open>What is open are the rooms of the cells seen and walls between two of them.\<close>

definition wall_between :: "cell set \<Rightarrow> cell \<Rightarrow> bool" where
  "wall_between seen p \<longleftrightarrow> (\<exists>c \<in> seen. \<exists>d \<in> set DIRS. shift_cell c d \<in> seen \<and> p = shift_cell (room c) d)"

definition carve_inv :: "nat \<Rightarrow> nat \<Rightarrow> cell \<Rightarrow> cell set \<Rightarrow> cell set \<Rightarrow> cell list \<Rightarrow> cell list \<Rightarrow> bool" where
  "carve_inv rows cols first seen opened order stack \<longleftrightarrow>
     first \<in> seen \<and> (\<forall>c \<in> seen. inside rows cols c) \<and> set stack \<subseteq> seen \<and>
     (\<forall>c \<in> seen. c \<in> set stack \<or> (\<forall>n. adjacent c n \<and> inside rows cols n \<longrightarrow> n \<in> seen)) \<and>
     opened = set order \<and> distinct order \<and> length order + 1 = 2 * card seen \<and>
     room ` seen \<subseteq> opened \<and> (\<forall>p \<in> opened. p \<in> room ` seen \<or> wall_between seen p) \<and>
     (\<forall>p \<in> opened. linked opened (room first) p)"

lemma room_eq [simp]: "room c = room n \<longleftrightarrow> c = n"
  by (cases c; cases n) (auto simp: room_def)

lemma wall_not_room: "d \<in> set DIRS \<Longrightarrow> shift_cell (room c) d \<noteq> room n"
  by (cases c; cases n) (auto simp: room_def shift_cell_def DIRS_def, presburger+)

lemma wall_fresh:
  assumes "d \<in> set DIRS" "e \<in> set DIRS" "shift_cell (room c) d = shift_cell (room b) e"
  shows "shift_cell c d = b \<or> shift_cell c d = shift_cell b e"
  using assms by (cases c; cases b) (auto simp: room_def shift_cell_def DIRS_def)

lemma carve_push:
  assumes inv: "carve_inv rows cols first seen opened order (c # stack)"
    and d: "d \<in> set (carve_options rows cols seen c)"
  defines "n \<equiv> shift_cell c d" and "wall \<equiv> shift_cell (room c) d"
  shows "carve_inv rows cols first (insert n seen) (insert (room n) (insert wall opened))
           (order @ [wall, room n]) (n # c # stack)"
proof -
  have n: "d \<in> set DIRS" "inside rows cols n" "n \<notin> seen"
    using d by (auto simp: carve_options_def n_def)
  have first: "first \<in> seen" and ins: "\<And>b. b \<in> seen \<Longrightarrow> inside rows cols b"
    and c: "c \<in> seen" and stk: "set stack \<subseteq> seen"
    and closed: "\<And>b m. b \<in> seen \<Longrightarrow> b \<notin> set (c # stack) \<Longrightarrow> adjacent b m \<Longrightarrow> inside rows cols m \<Longrightarrow> m \<in> seen"
    and ord: "opened = set order" "distinct order" "length order + 1 = 2 * card seen"
    and rooms: "room ` seen \<subseteq> opened" and open_is: "\<And>p. p \<in> opened \<Longrightarrow> p \<in> room ` seen \<or> wall_between seen p"
    and linked_old: "\<And>p. p \<in> opened \<Longrightarrow> linked opened (room first) p"
    using inv unfolding carve_inv_def by auto
  have wall_new: "wall \<notin> opened"
  proof
    assume "wall \<in> opened"
    then consider "wall \<in> room ` seen" | "wall_between seen wall" using open_is by blast
    then show False
    proof cases
      case 1
      then obtain b where "wall = room b" by blast
      then show False using wall_not_room [OF n(1), of c b] by (simp add: wall_def)
    next
      case 2
      then obtain b e where "b \<in> seen" "e \<in> set DIRS" "shift_cell b e \<in> seen" "wall = shift_cell (room b) e"
        by (auto simp: wall_between_def)
      then show False using wall_fresh [of d e c b] n by (auto simp: wall_def n_def)
    qed
  qed
  have room_new: "room n \<notin> opened"
  proof
    assume "room n \<in> opened"
    then consider "room n \<in> room ` seen" | "wall_between seen (room n)" using open_is by blast
    then show False
    proof cases
      case 1
      then show False using n(3) by auto
    next
      case 2
      then obtain b e where "e \<in> set DIRS" "room n = shift_cell (room b) e" by (auto simp: wall_between_def)
      then show False using wall_not_room [of e b n] by simp
    qed
  qed
  have differ: "wall \<noteq> room n" using wall_not_room [OF n(1)] by (simp add: wall_def)
  let ?o = "insert (room n) (insert wall opened)"
  have a: "adjacent (room c) wall" "adjacent wall (room n)"
    using n(1) by (auto simp: wall_def n_def adjacent_def DIRS_def shift_cell_def room_def)
  have link: "linked ?o (room first) p" if "p \<in> opened" for p
    using linked_mono [OF linked_old [OF that], of ?o] by blast
  have lw: "linked ?o (room first) wall"
  proof (rule rtranclp.rtrancl_into_rtrancl)
    show "linked ?o (room first) (room c)" using link rooms c by blast
  qed (use a(1) in simp)
  then have lr: "linked ?o (room first) (room n)"
    by (rule rtranclp.rtrancl_into_rtrancl) (use a(2) in simp)
  have fin: "finite seen" using ins finite_inside [of rows cols] by (meson finite_subset mem_Collect_eq subsetI)
  have wb: "wall_between (insert n seen) p" if "wall_between seen p" for p
    using that by (auto simp: wall_between_def)
  have ww: "wall_between (insert n seen) wall"
    using c n(1) by (auto simp: wall_between_def wall_def n_def)
  show ?thesis
    unfolding carve_inv_def
  proof (intro conjI ballI)
    show "m \<in> set (n # c # stack) \<or> (\<forall>k. adjacent m k \<and> inside rows cols k \<longrightarrow> k \<in> insert n seen)"
      if "m \<in> insert n seen" for m
      using that closed [of m] by auto
    show "length (order @ [wall, room n]) + 1 = 2 * card (insert n seen)"
      using ord(3) n(3) fin by simp
    show "distinct (order @ [wall, room n])" "?o = set (order @ [wall, room n])"
      using ord wall_new room_new differ by auto
    show "room ` insert n seen \<subseteq> ?o" using rooms by auto
    show "q \<in> room ` insert n seen \<or> wall_between (insert n seen) q" if "q \<in> ?o" for q
      using that open_is wb ww by blast
    show "linked ?o (room first) q" if "q \<in> ?o" for q
      using that link lw lr by blast
  qed (use first ins c stk n(2) in auto)
qed

lemma carve_pop:
  assumes "carve_inv rows cols first seen opened order (c # stack)" "carve_options rows cols seen c = []"
  shows "carve_inv rows cols first seen opened order stack"
proof -
  have "n \<in> seen" if n: "adjacent c n" "inside rows cols n" for n
  proof -
    obtain d where "d \<in> set DIRS" "n = shift_cell c d"
      using n(1) unfolding adjacent_def set_map by blast
    then show ?thesis using n(2) assms(2) unfolding carve_options_def filter_empty_conv by blast
  qed
  moreover have "set (c # stack) \<subseteq> seen"
    and "\<forall>b \<in> seen. b \<in> set (c # stack) \<or> (\<forall>m. adjacent b m \<and> inside rows cols m \<longrightarrow> m \<in> seen)"
    using assms(1) unfolding carve_inv_def by blast+
  ultimately have "set stack \<subseteq> seen"
    and "\<forall>b \<in> seen. b \<in> set stack \<or> (\<forall>m. adjacent b m \<and> inside rows cols m \<longrightarrow> m \<in> seen)"
    by auto
  then show ?thesis
    using assms(1) unfolding carve_inv_def by meson
qed

lemma carve_loop_inv:
  assumes "carve_inv rows cols first seen opened order stack" "\<forall>i m. 0 < m \<longrightarrow> rng i m < m"
  shows "\<exists>opened' order' seen'. carve_loop rng rows cols i seen opened order stack = Some (opened', order')
     \<and> carve_inv rows cols first seen' opened' order' []"
  using assms
proof (induction rng rows cols i seen opened order stack rule: carve_loop.induct)
  case (1 rng rows cols i seen opened order)
  then show ?case by (auto simp: carve_loop.simps)
next
  case (2 rng rows cols i seen opened order c stack)
  let ?os = "carve_options rows cols seen c"
  show ?case
  proof (cases "?os = []")
    case True
    then show ?thesis
      using "2.IH"(1) [OF refl refl True carve_pop [OF "2.prems"(1) True] "2.prems"(2)]
      by (simp add: carve_loop.simps(2))
  next
    case False
    then have j: "rng i (length ?os) < length ?os" using "2.prems"(2) by simp
    then have "?os ! rng i (length ?os) \<in> set ?os" by simp
    from "2.IH"(2) [OF refl refl False j refl refl refl carve_push [OF "2.prems"(1) this] "2.prems"(2)]
    show ?thesis using False j by (simp add: carve_loop.simps(2) Let_def)
  qed
qed

text \<open>A set of cells closed under neighbours on the board is the whole board.\<close>

lemma board_connected:
  assumes "first \<in> A" "inside rows cols first" "\<And>c n. c \<in> A \<Longrightarrow> adjacent c n \<Longrightarrow> inside rows cols n \<Longrightarrow> n \<in> A"
    "\<And>c. c \<in> A \<Longrightarrow> inside rows cols c" "inside rows cols c"
  shows "c \<in> A"
proof -
  have along: "shift_cell (y, x) (int k * dy, int k * dx) \<in> A"
    if "(y, x) \<in> A" "(dy, dx) \<in> set DIRS" "\<And>j. j \<le> k \<Longrightarrow> inside rows cols (shift_cell (y, x) (int j * dy, int j * dx))"
    for y x dy dx k
    using that(3)
  proof (induction k)
    case 0
    then show ?case using that(1) by (simp add: shift_cell_def)
  next
    case (Suc k)
    have "adjacent (shift_cell (y, x) (int k * dy, int k * dx)) (shift_cell (y, x) (int (Suc k) * dy, int (Suc k) * dx))"
      using that(2) by (auto simp: adjacent_def DIRS_def shift_cell_def algebra_simps)
    then show ?case using Suc assms(3) by (meson le_SucI order_refl)
  qed
  obtain y x where first: "first = (y, x)" by fastforce
  obtain y' x' where c: "c = (y', x')" by fastforce
  have b: "0 \<le> y" "y < int rows" "0 \<le> x" "x < int cols" "0 \<le> y'" "y' < int rows" "0 \<le> x'" "x' < int cols"
    using assms(2,5) by (auto simp: first c inside_def)
  have "(y', x) \<in> A"
  proof (cases "y \<le> y'")
    case True
    then show ?thesis
      using along [of y x 1 0 "nat (y' - y)"] assms(1) b by (auto simp: first DIRS_def shift_cell_def inside_def)
  next
    case False
    then show ?thesis
      using along [of y x "-1" 0 "nat (y - y')"] assms(1) b by (auto simp: first DIRS_def shift_cell_def inside_def)
  qed
  then show ?thesis
  proof (cases "x \<le> x'")
    case True
    then show ?thesis
      using along [of y' x 0 1 "nat (x' - x)"] \<open>(y', x) \<in> A\<close> b by (auto simp: c DIRS_def shift_cell_def inside_def)
  next
    case False
    then show ?thesis
      using along [of y' x 0 "-1" "nat (x - x')"] \<open>(y', x) \<in> A\<close> b by (auto simp: c DIRS_def shift_cell_def inside_def)
  qed
qed

lemma carve_complete:
  assumes "\<forall>i m. 0 < m \<longrightarrow> rng i m < m" "0 < rows" "0 < cols"
  shows "\<exists>opened order. carve rng cols rows = Some (opened, order)
    \<and> opened = set order \<and> distinct order \<and> length order + 1 = 2 * (rows * cols)
    \<and> room ` {c. inside rows cols c} \<subseteq> opened
    \<and> (\<forall>p \<in> opened. inside (2 * rows + 1) (2 * cols + 1) p)
    \<and> (\<forall>p \<in> opened. \<forall>q \<in> opened. linked opened p q)"
proof -
  define first where "first = (int (rng 0 rows), int (rng 1 cols))"
  have first: "inside rows cols first" using assms by (simp add: first_def inside_def)
  then have "carve_inv rows cols first {first} {room first} [room first] [first]"
    by (simp add: carve_inv_def)
  then obtain opened order seen where c: "carve rng cols rows = Some (opened, order)"
    and inv: "carve_inv rows cols first seen opened order []"
    using carve_loop_inv [OF _ assms(1)] unfolding carve_def Let_def first_def [symmetric] by blast
  have f: "first \<in> seen" and ins: "\<And>b. b \<in> seen \<Longrightarrow> inside rows cols b"
    and closed: "\<And>b m. b \<in> seen \<Longrightarrow> adjacent b m \<Longrightarrow> inside rows cols m \<Longrightarrow> m \<in> seen"
    and ord: "opened = set order" "distinct order" "length order + 1 = 2 * card seen"
    and rooms: "room ` seen \<subseteq> opened" and open_is: "\<And>p. p \<in> opened \<Longrightarrow> p \<in> room ` seen \<or> wall_between seen p"
    and link: "\<And>p. p \<in> opened \<Longrightarrow> linked opened (room first) p"
    using inv unfolding carve_inv_def by auto
  have "c \<in> seen" if "inside rows cols c" for c
    by (rule board_connected [OF f first closed ins that])
  then have "seen = {c. inside rows cols c}" using ins by blast
  then have card: "length order + 1 = 2 * (rows * cols)" "room ` {c. inside rows cols c} \<subseteq> opened"
    using ord(3) rooms card_inside by auto
  have "inside (2 * rows + 1) (2 * cols + 1) p" if "p \<in> opened" for p
    using open_is [OF that] ins
    by (fastforce simp: wall_between_def room_def inside_def shift_cell_def DIRS_def)
  moreover have "linked opened p q" if "p \<in> opened" "q \<in> opened" for p q
    using linked_sym [OF link [OF that(1)]] link [OF that(2)] rooms f by (meson image_subset_iff rtranclp_trans)
  ultimately show ?thesis using c ord card by blast
qed

section \<open>Flooding\<close>

text \<open>
  A level of the flood: every place of the frontier labels its open, unlabelled neighbours. The
  state is the distance grid, the parent grid and the next frontier.
\<close>

type_synonym flood_state = "(cell \<rightharpoonup> nat) \<times> (cell \<rightharpoonup> cell) \<times> cell list"

definition flood_neighbour :: "nat \<Rightarrow> nat \<Rightarrow> cell set \<Rightarrow> cell \<Rightarrow> nat \<Rightarrow> cell \<Rightarrow> flood_state \<Rightarrow> flood_state" where
  "flood_neighbour gh gw opened c d dir = (\<lambda>(ds, parent, nxt).
     let n = shift_cell c dir
     in if inside gh gw n \<and> n \<in> opened \<and> ds n = None
        then (ds(n \<mapsto> d), parent(n \<mapsto> c), nxt @ [n]) else (ds, parent, nxt))"

definition flood_cell :: "nat \<Rightarrow> nat \<Rightarrow> cell set \<Rightarrow> cell \<Rightarrow> flood_state \<Rightarrow> flood_state" where
  "flood_cell gh gw opened c = (\<lambda>(ds, parent, nxt).
     fold (flood_neighbour gh gw opened c (the (ds c) + 1)) DIRS (ds, parent, nxt))"

definition flood_level :: "nat \<Rightarrow> nat \<Rightarrow> cell set \<Rightarrow> cell list \<Rightarrow> flood_state \<Rightarrow> flood_state" where
  "flood_level gh gw opened frontier = fold (flood_cell gh gw opened) frontier"

text \<open>What a level leaves: it only adds labels, those it adds are the new frontier, in the grid.\<close>

definition grows :: "nat \<Rightarrow> nat \<Rightarrow> flood_state \<Rightarrow> flood_state \<Rightarrow> bool" where
  "grows gh gw = (\<lambda>(ds, parent, nxt) (ds', parent', nxt').
     ds \<subseteq>\<^sub>m ds' \<and> set nxt' \<subseteq> set nxt \<union> {c. inside gh gw c \<and> ds c = None \<and> ds' c \<noteq> None})"

lemma grows_trans: "grows gh gw s t \<Longrightarrow> grows gh gw t u \<Longrightarrow> grows gh gw s u"
proof -
  obtain a b c a' b' c' a'' b'' c'' where "s = (a, b, c)" "t = (a', b', c')" "u = (a'', b'', c'')"
    by (metis prod_cases3)
  moreover have "dom a' \<subseteq> dom a''" if "a' \<subseteq>\<^sub>m a''" using that by (rule map_le_implies_dom_le)
  moreover have "a k = None" if "a \<subseteq>\<^sub>m a'" "a' k = None" for k using that by (metis domIff map_le_def)
  ultimately show "grows gh gw s t \<Longrightarrow> grows gh gw t u \<Longrightarrow> grows gh gw s u"
    by (auto simp: grows_def intro: map_le_trans) blast+
qed

lemma grows_refl: "grows gh gw s s"
  by (auto simp: grows_def split: prod.split)

lemma fold_grows: "(\<And>x s. grows gh gw s (f x s)) \<Longrightarrow> grows gh gw s (fold f xs s)"
proof (induction xs arbitrary: s)
  case (Cons x xs)
  then show ?case unfolding fold_simps comp_def by (blast intro: grows_trans)
qed (simp add: grows_refl)

lemma flood_neighbour_grows: "grows gh gw s (flood_neighbour gh gw opened c d dir s)"
  by (auto simp: grows_def flood_neighbour_def Let_def map_le_def split: prod.splits)

lemma flood_level_grows: "grows gh gw s (flood_level gh gw opened frontier s)"
  unfolding flood_level_def
  by (intro fold_grows) (auto simp: flood_cell_def intro: fold_grows flood_neighbour_grows split: prod.split)

function flood_loop ::
  "nat \<Rightarrow> nat \<Rightarrow> cell set \<Rightarrow> (cell \<rightharpoonup> nat) \<Rightarrow> (cell \<rightharpoonup> cell) \<Rightarrow> cell list \<Rightarrow> (cell \<rightharpoonup> nat) \<times> (cell \<rightharpoonup> cell)" where
  "flood_loop gh gw opened ds parent frontier =
     (if frontier = [] then (ds, parent)
      else (let (ds, parent, nxt) = flood_level gh gw opened frontier (ds, parent, [])
            in flood_loop gh gw opened ds parent nxt))"
  by pat_completeness auto
termination
proof (relation "measure (\<lambda>(gh, gw, opened, ds, parent, frontier).
          2 * card {c. inside gh gw c \<and> ds c = None} + (if frontier = [] then 0 else 1))", goal_cases)
  case (2 gh gw opened ds parent frontier x ds' y parent' nxt)
  let ?u = "\<lambda>d :: cell \<rightharpoonup> nat. {c. inside gh gw c \<and> d c = None}"
  have "grows gh gw (ds, parent, []) (ds', parent', nxt)"
    using flood_level_grows 2 by metis
  then have g: "ds \<subseteq>\<^sub>m ds'" "\<forall>c \<in> set nxt. c \<in> ?u ds \<and> c \<notin> ?u ds'"
    by (auto simp: grows_def)
  have fin: "finite (?u ds)" using finite_inside [of gh gw] by (rule finite_subset [rotated]) auto
  have "?u ds' \<subseteq> ?u ds" using g(1) by (auto simp: map_le_def) (metis domI domIff)
  then have "card (?u ds') \<le> card (?u ds)" using fin by (intro card_mono)
  moreover have "card (?u ds') < card (?u ds)" if "nxt \<noteq> []"
  proof -
    have "hd nxt \<in> set nxt" using that by simp
    then have "?u ds' \<subset> ?u ds" using \<open>?u ds' \<subseteq> ?u ds\<close> g(2) by blast
    then show ?thesis using fin by (intro psubset_card_mono)
  qed
  ultimately show ?case using 2(1) by auto
qed simp

declare flood_loop.simps [simp del]

definition flood :: "nat \<Rightarrow> nat \<Rightarrow> cell set \<Rightarrow> cell \<Rightarrow> (cell \<rightharpoonup> nat) \<times> (cell \<rightharpoonup> cell)" where
  "flood gh gw opened start = flood_loop gh gw opened [start \<mapsto> 0] Map.empty [start]"

subsection \<open>The flood measures shortest distances\<close>

text \<open>The places at most \<open>n\<close> steps from \<open>s\<close>, walking on \<open>A\<close>.\<close>

fun ball :: "cell set \<Rightarrow> cell \<Rightarrow> nat \<Rightarrow> cell set" where
  "ball A s 0 = {s}"
| "ball A s (Suc n) = ball A s n \<union> {q \<in> A. \<exists>p \<in> ball A s n. adjacent p q}"

definition shortest :: "cell set \<Rightarrow> cell \<Rightarrow> cell \<Rightarrow> nat \<Rightarrow> bool" where
  "shortest A s c k \<longleftrightarrow> c \<in> ball A s k \<and> (\<forall>j < k. c \<notin> ball A s j)"

lemma ball_mono: "m \<le> n \<Longrightarrow> ball A s m \<subseteq> ball A s n"
  by (induction n rule: dec_induct) auto

lemma shortest_unique: "shortest A s c k \<Longrightarrow> shortest A s c j \<Longrightarrow> j = k"
  by (metis linorder_neqE_nat shortest_def)

lemma ball_shortest: "c \<in> ball A s n \<Longrightarrow> \<exists>k \<le> n. shortest A s c k"
  unfolding shortest_def using exists_least_iff [of "\<lambda>k. c \<in> ball A s k"] by (metis not_le)

text \<open>A level in progress, after the neighbours in \<open>done\<close> have been looked at.\<close>

definition mid_level :: "cell set \<Rightarrow> nat \<Rightarrow> (cell \<rightharpoonup> nat) \<Rightarrow> (cell \<rightharpoonup> cell) \<Rightarrow> (cell \<times> cell) set \<Rightarrow> flood_state \<Rightarrow> bool" where
  "mid_level A n ds par looked = (\<lambda>(ds', par', nxt).
     set nxt = {q \<in> A. ds q = None \<and> (\<exists>(c, d) \<in> looked. q = shift_cell c d)} \<and>
     (\<forall>q. ds' q = (if q \<in> set nxt then Some (n + 1) else ds q)) \<and>
     (\<forall>q \<in> set nxt. \<exists>c. par' q = Some c \<and> ds c = Some n \<and> adjacent c q) \<and>
     (\<forall>q. q \<notin> set nxt \<longrightarrow> par' q = par q))"

lemma mid_neighbour:
  assumes "mid_level {c \<in> opened. inside gh gw c} n ds par looked st" "ds c = Some n" "dir \<in> set DIRS"
  shows "mid_level {c \<in> opened. inside gh gw c} n ds par (insert (c, dir) looked)
    (flood_neighbour gh gw opened c (n + 1) dir st)"
proof -
  let ?A = "{c \<in> opened. inside gh gw c}" and ?q = "shift_cell c dir"
  obtain ds' par' nxt where st: "st = (ds', par', nxt)" by (rule prod_cases3)
  have N: "set nxt = {q \<in> ?A. ds q = None \<and> (\<exists>(c, d) \<in> looked. q = shift_cell c d)}"
    and L: "\<And>q. ds' q = (if q \<in> set nxt then Some (n + 1) else ds q)"
    and P: "\<And>q. q \<in> set nxt \<Longrightarrow> \<exists>c. par' q = Some c \<and> ds c = Some n \<and> adjacent c q"
    and Q: "\<And>q. q \<notin> set nxt \<Longrightarrow> par' q = par q"
    using assms(1) unfolding st mid_level_def prod.case by blast+
  have adj: "adjacent c ?q" using assms(3) by (simp add: adjacent_def)
  have free: "ds' ?q = None \<longleftrightarrow> ?q \<notin> set nxt \<and> ds ?q = None" using L [of ?q] by simp
  show ?thesis
  proof (cases "inside gh gw ?q \<and> ?q \<in> opened \<and> ds' ?q = None")
    case True
    then have f: "flood_neighbour gh gw opened c (n + 1) dir st = (ds'(?q \<mapsto> n + 1), par'(?q \<mapsto> c), nxt @ [?q])"
      by (simp add: flood_neighbour_def st Let_def)
    have "set (nxt @ [?q]) = {q \<in> ?A. ds q = None \<and> (\<exists>(c, d) \<in> insert (c, dir) looked. q = shift_cell c d)}"
      using True free N by auto
    moreover have "(ds'(?q \<mapsto> n + 1)) q = (if q \<in> set (nxt @ [?q]) then Some (n + 1) else ds q)" for q
      using L [of q] by simp
    moreover have "\<exists>b. (par'(?q \<mapsto> c)) q = Some b \<and> ds b = Some n \<and> adjacent b q" if "q \<in> set (nxt @ [?q])" for q
    proof (cases "q = ?q")
      case True
      then show ?thesis using assms(2) adj by (intro exI [of _ c]) simp
    next
      case False
      then show ?thesis using that P [of q] by (simp del: split_paired_Ex)
    qed
    moreover have "(par'(?q \<mapsto> c)) q = par q" if "q \<notin> set (nxt @ [?q])" for q
      using that Q [of q] by simp
    ultimately show ?thesis unfolding f mid_level_def prod.case
      by blast
  next
    case False
    then have f: "flood_neighbour gh gw opened c (n + 1) dir st = (ds', par', nxt)"
      by (auto simp: flood_neighbour_def st Let_def)
    have more: "(\<exists>(b, d) \<in> insert (c, dir) looked. q = shift_cell b d)
        \<longleftrightarrow> q = ?q \<or> (\<exists>(b, d) \<in> looked. q = shift_cell b d)" for q
      by simp
    have "\<not> (?q \<in> ?A \<and> ds ?q = None) \<or> ?q \<in> set nxt"
      using False free by blast
    then have "set nxt = {q \<in> ?A. ds q = None \<and> (\<exists>(b, d) \<in> insert (c, dir) looked. q = shift_cell b d)}"
      unfolding more using N by blast
    then show ?thesis unfolding f mid_level_def prod.case
      using L P Q by blast
  qed
qed

lemma mid_dirs:
  assumes "mid_level {c \<in> opened. inside gh gw c} n ds par looked st" "ds c = Some n" "set dirs \<subseteq> set DIRS"
  shows "mid_level {c \<in> opened. inside gh gw c} n ds par (looked \<union> {c} \<times> set dirs)
    (fold (flood_neighbour gh gw opened c (n + 1)) dirs st)"
  using assms(1,3)
proof (induction dirs arbitrary: looked st)
  case (Cons d dirs)
  have "looked \<union> {c} \<times> set (d # dirs) = insert (c, d) looked \<union> {c} \<times> set dirs" by auto
  then show ?case
    using Cons.IH [OF mid_neighbour [OF Cons.prems(1) assms(2), of d]] Cons.prems(2) by simp
qed simp

lemma mid_frontier:
  assumes "mid_level {c \<in> opened. inside gh gw c} n ds par looked st" "\<And>c. c \<in> set frontier \<Longrightarrow> ds c = Some n"
  shows "mid_level {c \<in> opened. inside gh gw c} n ds par (looked \<union> set frontier \<times> set DIRS)
    (flood_level gh gw opened frontier st)"
  using assms
proof (induction frontier arbitrary: looked st)
  case Nil
  then show ?case by (simp add: flood_level_def)
next
  case (Cons c frontier)
  obtain ds' par' nxt where st: "st = (ds', par', nxt)" by (rule prod_cases3)
  have c: "ds c = Some n" using Cons.prems(2) by simp
  have labels: "\<forall>q. ds' q = (if q \<in> set nxt then Some (n + 1) else ds q)" and "\<forall>q \<in> set nxt. ds q = None"
    using Cons.prems(1) unfolding mid_level_def st prod.case by blast+
  then have "c \<notin> set nxt" using c by (metis option.distinct(1))
  then have "ds' c = Some n" using labels c by metis
  then have "flood_cell gh gw opened c st = fold (flood_neighbour gh gw opened c (n + 1)) DIRS st"
    by (simp add: flood_cell_def st)
  then have "mid_level {c \<in> opened. inside gh gw c} n ds par (looked \<union> {c} \<times> set DIRS) (flood_cell gh gw opened c st)"
    using mid_dirs [OF Cons.prems(1) c, of DIRS] by simp
  moreover have "looked \<union> set (c # frontier) \<times> set DIRS = looked \<union> {c} \<times> set DIRS \<union> set frontier \<times> set DIRS" by auto
  ultimately show ?case
    using Cons.IH [of "looked \<union> {c} \<times> set DIRS" "flood_cell gh gw opened c st"] Cons.prems(2)
    by (simp add: flood_level_def)
qed

text \<open>Between levels.\<close>

definition level_inv :: "cell set \<Rightarrow> cell \<Rightarrow> nat \<Rightarrow> (cell \<rightharpoonup> nat) \<Rightarrow> (cell \<rightharpoonup> cell) \<Rightarrow> cell list \<Rightarrow> bool" where
  "level_inv A s n ds par frontier \<longleftrightarrow>
     (\<forall>c k. ds c = Some k \<longleftrightarrow> k \<le> n \<and> shortest A s c k) \<and>
     set frontier = {c. ds c = Some n} \<and>
     (\<forall>c k. ds c = Some (Suc k) \<longrightarrow> c \<in> A \<and> (\<exists>p. par c = Some p \<and> ds p = Some k \<and> adjacent p c)) \<and>
     par s = None"

lemma shortest_Suc:
  "shortest A s q (Suc n) \<longleftrightarrow> q \<in> A \<and> (\<forall>k \<le> n. \<not> shortest A s q k) \<and> (\<exists>c. shortest A s c n \<and> adjacent c q)"
proof
  assume q: "shortest A s q (Suc n)"
  then have "q \<in> A" "q \<notin> ball A s n" by (auto simp: shortest_def)
  moreover from q this(2) obtain c where c: "c \<in> ball A s n" "adjacent c q" by (auto simp: shortest_def)
  moreover have "shortest A s c n"
    unfolding shortest_def
  proof (intro conjI allI impI notI)
    fix j assume j: "j < n" "c \<in> ball A s j"
    then have "q \<in> ball A s (Suc j)" using c(2) \<open>q \<in> A\<close> by auto
    then show False using \<open>q \<notin> ball A s n\<close> ball_mono [of "Suc j" n A s] j(1) by auto
  qed (rule c)
  moreover have "\<not> shortest A s q k" if "k \<le> n" for k
    using that q by (auto simp: shortest_def less_Suc_eq_le)
  ultimately show "q \<in> A \<and> (\<forall>k \<le> n. \<not> shortest A s q k) \<and> (\<exists>c. shortest A s c n \<and> adjacent c q)" by blast
next
  assume q: "q \<in> A \<and> (\<forall>k \<le> n. \<not> shortest A s q k) \<and> (\<exists>c. shortest A s c n \<and> adjacent c q)"
  then have "q \<in> ball A s (Suc n)" by (auto simp: shortest_def)
  moreover have "q \<notin> ball A s j" if "j < Suc n" for j
    using that q ball_shortest [of q A s j] by (meson le_trans less_Suc_eq_le)
  ultimately show "shortest A s q (Suc n)" by (simp add: shortest_def)
qed

lemma level_step:
  assumes inv: "level_inv {c \<in> opened. inside gh gw c} s n ds par frontier"
    and step: "flood_level gh gw opened frontier (ds, par, []) = (ds', par', nxt)"
  shows "level_inv {c \<in> opened. inside gh gw c} s (Suc n) ds' par' nxt"
proof -
  let ?A = "{c \<in> opened. inside gh gw c}"
  have label: "ds c = Some k \<longleftrightarrow> k \<le> n \<and> shortest ?A s c k" for c k using inv unfolding level_inv_def by blast
  have front: "set frontier = {c. ds c = Some n}" using inv unfolding level_inv_def by blast
  have parents: "c \<in> ?A \<and> (\<exists>p. par c = Some p \<and> ds p = Some k \<and> adjacent p c)" if "ds c = Some (Suc k)" for c k
    using inv that unfolding level_inv_def by blast
  have "mid_level ?A n ds par {} (ds, par, [])" by (simp add: mid_level_def)
  then have mid: "mid_level ?A n ds par (set frontier \<times> set DIRS) (ds', par', nxt)"
    using mid_frontier [of opened gh gw n ds par "{}" "(ds, par, [])" frontier] front step by simp
  have nxt: "q \<in> set nxt \<longleftrightarrow> q \<in> ?A \<and> ds q = None \<and> (\<exists>c. ds c = Some n \<and> adjacent c q)" for q
    using mid front by (auto simp: mid_level_def adjacent_def)
  have ds': "ds' q = (if q \<in> set nxt then Some (Suc n) else ds q)" for q
    using mid unfolding mid_level_def prod.case Suc_eq_plus1 by blast
  have par': "\<exists>c. par' q = Some c \<and> ds c = Some n \<and> adjacent c q" if "q \<in> set nxt" for q
    using mid that unfolding mid_level_def prod.case by blast
  have par_old: "par' q = par q" if "q \<notin> set nxt" for q
    using mid that unfolding mid_level_def prod.case by blast
  have unlabelled: "ds q = None \<longleftrightarrow> (\<forall>k \<le> n. \<not> shortest ?A s q k)" for q
    using label by (metis not_None_eq)
  have new: "q \<in> set nxt \<longleftrightarrow> shortest ?A s q (Suc n)" for q
    using nxt [of q] unlabelled [of q] label shortest_Suc [of ?A s q n] by auto
  have s0: "shortest ?A s s 0" by (simp add: shortest_def)
  then have "s \<notin> set nxt" using new shortest_unique by blast
  have "ds' c = Some k \<longleftrightarrow> k \<le> Suc n \<and> shortest ?A s c k" for c k
    using label [of c k] new [of c] ds' [of c] shortest_unique [of ?A s c k "Suc n"] unlabelled [of c] nxt [of c]
    by (auto simp: le_Suc_eq)
  moreover have "set nxt = {c. ds' c = Some (Suc n)}"
    using ds' label by (auto split: if_splits)
  moreover have "c \<in> ?A \<and> (\<exists>p. par' c = Some p \<and> ds' p = Some k \<and> adjacent p c)" if c: "ds' c = Some (Suc k)" for c k
  proof (cases "c \<in> set nxt")
    case True
    then obtain p where "par' c = Some p" "ds p = Some n" "adjacent p c" using par' by blast
    moreover have "p \<notin> set nxt" using nxt [of p] \<open>ds p = Some n\<close> by simp
    ultimately show ?thesis using True nxt [of c] ds' [of c] ds' [of p] c by simp
  next
    case False
    then have "ds c = Some (Suc k)" using ds' [of c] c by simp
    then obtain p where p: "c \<in> ?A" "par c = Some p" "ds p = Some k" "adjacent p c" using parents by blast
    then have "p \<notin> set nxt" using nxt [of p] by simp
    then show ?thesis using p par_old [OF False] ds' [of p] by simp
  qed
  moreover have "par' s = None"
    using inv par_old [OF \<open>s \<notin> set nxt\<close>] by (simp add: level_inv_def)
  ultimately show ?thesis unfolding level_inv_def by blast
qed

definition flooded :: "cell set \<Rightarrow> cell \<Rightarrow> (cell \<rightharpoonup> nat) \<Rightarrow> (cell \<rightharpoonup> cell) \<Rightarrow> bool" where
  "flooded A s ds par \<longleftrightarrow>
     (\<forall>c k. ds c = Some k \<longleftrightarrow> shortest A s c k) \<and>
     (\<forall>c k. ds c = Some (Suc k) \<longrightarrow> c \<in> A \<and> (\<exists>p. par c = Some p \<and> ds p = Some k \<and> adjacent p c)) \<and>
     par s = None"

lemma level_done:
  assumes "level_inv A s n ds par []"
  shows "flooded A s ds par"
proof -
  have label: "\<And>c k. ds c = Some k \<longleftrightarrow> k \<le> n \<and> shortest A s c k" and none: "\<And>c. ds c \<noteq> Some n"
    using assms by (auto simp: level_inv_def)
  have "\<not> shortest A s c (n + j)" for c j
  proof (induction j arbitrary: c)
    case 0
    then show ?case using label none by auto
  next
    case (Suc j)
    then show ?case using shortest_Suc [of A s c "n + j"] by auto
  qed
  then have "k \<le> n" if "shortest A s c k" for c k
    using that by (metis le_add_diff_inverse linear)
  then have "ds c = Some k \<longleftrightarrow> shortest A s c k" for c k using label by blast
  then show ?thesis using assms unfolding flooded_def level_inv_def by blast
qed

lemma flood_loop_floods:
  assumes "level_inv {c \<in> opened. inside gh gw c} s n ds par frontier"
    "flood_loop gh gw opened ds par frontier = (ds', par')"
  shows "flooded {c \<in> opened. inside gh gw c} s ds' par'"
  using assms
proof (induction gh gw opened ds par frontier arbitrary: n rule: flood_loop.induct)
  case (1 gh gw opened ds par frontier)
  show ?case
  proof (cases "frontier = []")
    case True
    then have "ds' = ds" "par' = par" using "1.prems"(2) by (auto simp: flood_loop.simps)
    then show ?thesis using level_done "1.prems"(1) True by simp
  next
    case False
    obtain ds1 par1 nxt where l: "flood_level gh gw opened frontier (ds, par, []) = (ds1, par1, nxt)"
      by (rule prod_cases3)
    have "flood_loop gh gw opened ds1 par1 nxt = (ds', par')"
      using "1.prems"(2) False l by (subst (asm) flood_loop.simps) simp
    then show ?thesis
      using "1.IH" [OF False l [symmetric] refl refl level_step [OF "1.prems"(1) l]] by simp
  qed
qed

lemma flood_floods:
  assumes "flood gh gw opened s = (ds, par)"
  shows "flooded {c \<in> opened. inside gh gw c} s ds par"
proof (rule flood_loop_floods)
  have "shortest A s c 0 \<longleftrightarrow> c = s" for A c by (auto simp: shortest_def)
  then show "level_inv {c \<in> opened. inside gh gw c} s 0 [s \<mapsto> 0] Map.empty [s]"
    by (auto simp: level_inv_def split: if_splits)
qed (use assms in \<open>simp add: flood_def\<close>)

section \<open>The route\<close>

partial_function (option) route_back :: "(cell \<rightharpoonup> cell) \<Rightarrow> cell \<Rightarrow> cell list \<Rightarrow> cell list option" where
  "route_back par node path =
     (case par node of
        None \<Rightarrow> Some (path @ [node])
      | Some p \<Rightarrow> route_back par p (path @ [node]))"

definition maze_route :: "(cell \<rightharpoonup> nat) \<Rightarrow> (cell \<rightharpoonup> cell) \<Rightarrow> cell \<Rightarrow> cell list option" where
  "maze_route ds par goal = (if ds goal = None then Some [] else map_option rev (route_back par goal []))"

fun number_first :: "nat \<Rightarrow> cell list \<Rightarrow> (cell \<rightharpoonup> nat) \<Rightarrow> (cell \<rightharpoonup> nat)" where
  "number_first i [] m = m"
| "number_first i (c # cs) m = number_first (i + 1) cs (if m c = None then m(c \<mapsto> i) else m)"

fun number_last :: "nat \<Rightarrow> cell list \<Rightarrow> (cell \<rightharpoonup> nat) \<Rightarrow> (cell \<rightharpoonup> nat)" where
  "number_last i [] m = m"
| "number_last i (c # cs) m = number_last (i + 1) cs (m(c \<mapsto> i))"

record maze =
  mz_opened :: "cell set"
  mz_order :: "cell list"
  mz_dist :: "cell \<rightharpoonup> nat"
  mz_path :: "cell list"
  mz_opened_at :: "cell \<rightharpoonup> nat"
  mz_path_at :: "cell \<rightharpoonup> nat"
  mz_reach :: int

definition new_maze :: "(nat \<Rightarrow> nat \<Rightarrow> nat) \<Rightarrow> nat \<Rightarrow> nat \<Rightarrow> maze option" where
  "new_maze rng cols rows =
     (case carve rng cols rows of
        None \<Rightarrow> None
      | Some (opened, order) \<Rightarrow>
          (let gh = 2 * rows + 1; gw = 2 * cols + 1; (ds, par) = flood gh gw opened (1, 1)
           in case maze_route ds par (2 * int rows - 1, 2 * int cols - 1) of
                None \<Rightarrow> None
              | Some path \<Rightarrow> Some
                  \<lparr>mz_opened = opened, mz_order = order, mz_dist = ds, mz_path = path,
                   mz_opened_at = number_first 0 order Map.empty, mz_path_at = number_last 0 path Map.empty,
                   mz_reach = Max (set (map (\<lambda>c. case ds c of None \<Rightarrow> -1 | Some k \<Rightarrow> int k) (grid_cells gh gw)))\<rparr>))"

definition walk :: "cell set \<Rightarrow> cell list \<Rightarrow> bool" where
  "walk A ps \<longleftrightarrow> ps \<noteq> [] \<and> set ps \<subseteq> A \<and> successively adjacent ps"

lemma walk_ball:
  assumes "walk A ps"
  shows "last ps \<in> ball A (hd ps) (length ps - 1)"
  using assms
proof (induction ps rule: rev_induct)
  case (snoc p ps)
  show ?case
  proof (cases "ps = []")
    case False
    then have "walk A ps" "adjacent (last ps) p" "p \<in> A"
      using snoc.prems by (auto simp: walk_def successively_append_iff)
    moreover obtain n where "length ps = Suc n" using False by (cases ps) auto
    ultimately show ?thesis using snoc.IH False by (auto simp del: split_paired_Ex)
  qed simp
qed (simp add: walk_def)

lemma ball_linked: "linked A s q \<Longrightarrow> \<exists>n. q \<in> ball A s n"
proof (induction rule: rtranclp_induct)
  case base
  then show ?case using ball.simps(1) by blast
next
  case (step p q)
  then obtain n where "p \<in> ball A s n" by blast
  with step.hyps(2) have "q \<in> ball A s (Suc n)" by auto
  then show ?case by blast
qed

text \<open>Walking the parents back from a labelled place ends at the start, one step per label.\<close>

lemma route_back_walks:
  assumes "flooded A s ds par" "ds c = Some k" "s \<in> A"
  shows "\<exists>ps. route_back par c acc = Some (acc @ ps) \<and> length ps = k + 1 \<and> hd ps = c \<and> last ps = s \<and> walk A ps"
  using assms(2)
proof (induction k arbitrary: c acc)
  case 0
  then have "shortest A s c 0" using assms(1) unfolding flooded_def by blast
  then have "c = s" by (simp add: shortest_def)
  moreover have "par s = None" using assms(1) unfolding flooded_def by blast
  ultimately show ?case
    using assms(3) by (intro exI [of _ "[s]"]) (simp add: route_back.simps walk_def)
next
  case (Suc k)
  then obtain p where p: "c \<in> A" "par c = Some p" "ds p = Some k" "adjacent p c"
    using assms(1) unfolding flooded_def by blast
  obtain ps where ps: "route_back par p (acc @ [c]) = Some ((acc @ [c]) @ ps)" "length ps = k + 1" "hd ps = p"
    "last ps = s" "walk A ps"
    using Suc.IH [OF p(3)] by blast
  have "walk A (c # ps)"
    using ps(3,5) p(1) adjacent_sym [OF p(4)] by (cases ps) (auto simp: walk_def)
  moreover have "route_back par c acc = Some (acc @ (c # ps))"
    using ps(1) p(2) by (subst route_back.simps) simp
  ultimately show ?case using ps by (intro exI [of _ "c # ps"]) (auto simp: walk_def)
qed

lemma successively_rev_adjacent: "successively adjacent ps \<Longrightarrow> successively adjacent (rev ps)"
  by (simp add: successively_rev) (metis (mono_tags, lifting) adjacent_sym successively_mono)

lemma every_maze_is_solved_aux:
  assumes "\<forall>i m. 0 < m \<longrightarrow> rng i m < m" "0 < rows" "0 < cols"
  shows "\<exists>mz. new_maze rng cols rows = Some mz
    \<and> (\<forall>c. inside rows cols c \<longrightarrow> room c \<in> mz_opened mz) \<and> card (mz_opened mz) + 1 = 2 * (rows * cols)
    \<and> walk (mz_opened mz) (mz_path mz) \<and> hd (mz_path mz) = (1, 1)
    \<and> last (mz_path mz) = (2 * int rows - 1, 2 * int cols - 1)
    \<and> (\<forall>ps. walk (mz_opened mz) ps \<and> hd ps = (1, 1) \<and> last ps = (2 * int rows - 1, 2 * int cols - 1)
         \<longrightarrow> length (mz_path mz) \<le> length ps)"
proof -
  let ?goal = "(2 * int rows - 1, 2 * int cols - 1)"
  obtain opened order where c: "carve rng cols rows = Some (opened, order)" "opened = set order" "distinct order"
    "length order + 1 = 2 * (rows * cols)" "room ` {c. inside rows cols c} \<subseteq> opened"
    and ins: "\<And>p. p \<in> opened \<Longrightarrow> inside (2 * rows + 1) (2 * cols + 1) p"
    and link: "\<And>p q. p \<in> opened \<Longrightarrow> q \<in> opened \<Longrightarrow> linked opened p q"
    using carve_complete [OF assms] by blast
  have corners: "(1, 1) \<in> opened" "?goal \<in> opened"
  proof -
    have "room (0, 0) \<in> opened" "room (int rows - 1, int cols - 1) \<in> opened"
      using c(5) assms(2,3) by (auto simp: inside_def)
    then show "(1, 1) \<in> opened" "?goal \<in> opened" by (simp_all add: room_def algebra_simps)
  qed
  obtain ds par where f: "flood (2 * rows + 1) (2 * cols + 1) opened (1, 1) = (ds, par)" by fastforce
  have "{c \<in> opened. inside (2 * rows + 1) (2 * cols + 1) c} = opened" using ins by blast
  then have fl: "flooded opened (1, 1) ds par" using flood_floods [OF f] by simp
  obtain n where "?goal \<in> ball opened (1, 1) n" using ball_linked [OF link [OF corners]] by blast
  then obtain k where k: "shortest opened (1, 1) ?goal k" using ball_shortest by blast
  then have dk: "ds ?goal = Some k" using fl unfolding flooded_def by blast
  obtain ps where ps: "route_back par ?goal [] = Some ps" "length ps = k + 1" "hd ps = ?goal"
    "last ps = (1, 1)" "walk opened ps"
    using route_back_walks [OF fl dk corners(1), of "[]"] by auto
  have r: "maze_route ds par ?goal = Some (rev ps)"
    using dk ps(1) by (simp add: maze_route_def)
  have w: "walk opened (rev ps)" "hd (rev ps) = (1, 1)" "last (rev ps) = ?goal"
    using ps successively_rev_adjacent by (auto simp: walk_def hd_rev last_rev)
  have least: "length (rev ps) \<le> length qs" if "walk opened qs" "hd qs = (1, 1)" "last qs = ?goal" for qs
  proof -
    have "?goal \<in> ball opened (1, 1) (length qs - 1)" using walk_ball [OF that(1)] that(2,3) by simp
    then have "k \<le> length qs - 1" using k by (auto simp: shortest_def not_less [symmetric])
    moreover have "0 < length qs" using that(1) by (simp add: walk_def)
    ultimately have "k + 1 \<le> length qs" by linarith
    then show ?thesis using ps(2) by simp
  qed
  obtain mz where mz: "new_maze rng cols rows = Some mz" "mz_opened mz = opened" "mz_path mz = rev ps"
    using f r by (simp add: new_maze_def c(1))
  have "card opened + 1 = 2 * (rows * cols)" using c(2-4) distinct_card [of order] by simp
  moreover have "room p \<in> opened" if "inside rows cols p" for p using c(5) that by blast
  ultimately show ?thesis using mz w least by (intro exI [of _ mz]) (simp only:, blast)
qed

text \<open>
  C5. Every maze is solved: whatever the generator draws, carving opens every room and one wall less
  than rooms, all linked; the route leads from the first corner to the last over open places, and
  no walk over open places between the two is shorter.
\<close>

theorem every_maze_is_solved:
  assumes "\<forall>i m. 0 < m \<longrightarrow> rng i m < m" "0 < rows" "0 < cols"
  shows "\<exists>mz. new_maze rng cols rows = Some mz
    \<and> (\<forall>c. inside rows cols c \<longrightarrow> room c \<in> mz_opened mz) \<and> card (mz_opened mz) + 1 = 2 * (rows * cols)
    \<and> walk (mz_opened mz) (mz_path mz) \<and> hd (mz_path mz) = (1, 1)
    \<and> last (mz_path mz) = (2 * int rows - 1, 2 * int cols - 1)
    \<and> (\<forall>ps. walk (mz_opened mz) ps \<and> hd ps = (1, 1) \<and> last ps = (2 * int rows - 1, 2 * int cols - 1)
         \<longrightarrow> length (mz_path mz) \<le> length ps)"
  using assms by (rule every_maze_is_solved_aux)

theorem every_maze_is_solved_witness:
  "\<exists>mz. new_maze (\<lambda>i m. i mod m) 2 2 = Some mz
    \<and> walk (mz_opened mz) (mz_path mz) \<and> hd (mz_path mz) = (1, 1) \<and> last (mz_path mz) = (3, 3)"
  using every_maze_is_solved [of "\<lambda>i m. i mod m" 2 2] by auto

section \<open>The animation\<close>

text \<open>The options \<open>--carve-rate\<close>, \<open>--flood-rate\<close>, \<open>--path-rate\<close>, \<open>--hold\<close> and \<open>--tail\<close>.\<close>

record maze_args =
  ma_carve :: rat
  ma_flood :: rat
  ma_path :: rat
  ma_hold :: rat
  ma_tail :: int

definition carve_time :: "maze_args \<Rightarrow> maze \<Rightarrow> rat" where
  "carve_time ag mz = of_nat (length (mz_order mz)) / ma_carve ag"

definition flood_time :: "maze_args \<Rightarrow> maze \<Rightarrow> rat" where
  "flood_time ag mz = of_int (mz_reach mz) / ma_flood ag"

definition path_time :: "maze_args \<Rightarrow> maze \<Rightarrow> rat" where
  "path_time ag mz = of_nat (length (mz_path mz)) / ma_path ag"

definition before :: "nat option \<Rightarrow> int \<Rightarrow> bool" where
  "before m k \<longleftrightarrow> (\<exists>i. m = Some i \<and> int i < k)"

lemma before_simps [simp, code]:
  "before None k \<longleftrightarrow> False"
  "before (Some i) k \<longleftrightarrow> int i < k"
  by (simp_all add: before_def)

text \<open>The brightness of one place at \<open>elapsed\<close> seconds into its maze.\<close>

definition carve_level :: "maze_args \<Rightarrow> maze \<Rightarrow> rat \<Rightarrow> cell \<Rightarrow> rat" where
  "carve_level ag mz elapsed c =
     (let cut = \<lfloor>elapsed * ma_carve ag\<rfloor>; tail = max (ma_tail ag) 1
      in if before (mz_opened_at mz c) cut
         then (if before (mz_opened_at mz c) (cut - tail) then 45 / 100
               else 55 / 100 + 45 / 100 * (of_int (int (the (mz_opened_at mz c)) - (cut - tail)) / of_int tail))
         else 0)"

definition flood_level_at :: "maze_args \<Rightarrow> maze \<Rightarrow> rat \<Rightarrow> cell \<Rightarrow> rat" where
  "flood_level_at ag mz t c =
     (let reached = t * ma_flood ag
      in case mz_dist mz c of
           Some k \<Rightarrow> if of_nat k \<le> reached then (if of_nat k > reached - 6 then 1 else 62 / 100)
                     else if c \<in> mz_opened mz then 34 / 100 else 0
         | None \<Rightarrow> if c \<in> mz_opened mz then 34 / 100 else 0)"

definition route_level :: "maze_args \<Rightarrow> maze \<Rightarrow> rat \<Rightarrow> cell \<Rightarrow> rat" where
  "route_level ag mz t c =
     (if before (mz_path_at mz c) \<lfloor>min (t * ma_path ag) (of_nat (length (mz_path mz)))\<rfloor> then 1
      else if mz_dist mz c \<noteq> None then 42 / 100
      else if c \<in> mz_opened mz then 30 / 100 else 0)"

definition maze_level :: "maze_args \<Rightarrow> maze \<Rightarrow> rat \<Rightarrow> cell \<Rightarrow> rat" where
  "maze_level ag mz elapsed c =
     (if elapsed < carve_time ag mz then carve_level ag mz elapsed c
      else if elapsed < carve_time ag mz + flood_time ag mz then flood_level_at ag mz (elapsed - carve_time ag mz) c
      else route_level ag mz (elapsed - carve_time ag mz - flood_time ag mz) c)"

definition maze_over :: "maze_args \<Rightarrow> maze \<Rightarrow> rat \<Rightarrow> bool" where
  "maze_over ag mz elapsed \<longleftrightarrow>
     \<not> elapsed < carve_time ag mz + flood_time ag mz \<and> \<not> elapsed < carve_time ag mz \<and>
     elapsed - carve_time ag mz - flood_time ag mz > path_time ag mz + ma_hold ag"

lemma number_last_other: "c \<notin> set cs \<Longrightarrow> number_last i cs m c = m c"
  by (induction cs arbitrary: i m) auto

lemma number_last_in: "c \<in> set cs \<Longrightarrow> \<exists>j. number_last i cs m c = Some j \<and> j < i + length cs"
proof (induction cs arbitrary: i m)
  case (Cons d cs)
  show ?case
  proof (cases "c \<in> set cs")
    case True
    from Cons.IH [OF this, of "i + 1" "m(d \<mapsto> i)"] show ?thesis
      unfolding number_last.simps(2) by fastforce
  next
    case False
    with Cons.prems number_last_other [OF this, of "i + 1" "m(d \<mapsto> i)"] show ?thesis
      unfolding number_last.simps(2) by (intro exI [of _ i]) auto
  qed
qed simp

lemma reach_nonneg:
  assumes "new_maze rng cols rows = Some mz" "0 < rows" "0 < cols"
  shows "0 \<le> mz_reach mz"
proof -
  let ?gh = "2 * rows + 1" and ?gw = "2 * cols + 1"
  obtain opened order where c: "carve rng cols rows = Some (opened, order)"
    using assms(1) by (auto simp: new_maze_def split: option.splits)
  obtain ds par where f: "flood ?gh ?gw opened (1, 1) = (ds, par)" by fastforce
  have "ds (1, 1) = Some 0"
    using flood_floods [OF f] unfolding flooded_def by (simp add: shortest_def)
  moreover have "(1, 1) \<in> set (grid_cells ?gh ?gw)"
    using assms(2,3) by (force simp: grid_cells_def)
  moreover have "mz_reach mz = Max (set (map (\<lambda>c. case ds c of None \<Rightarrow> -1 | Some k \<Rightarrow> int k) (grid_cells ?gh ?gw)))"
    using assms(1) c f by (auto simp: new_maze_def split: option.splits)
  ultimately show ?thesis
    by (auto intro!: Max_ge_iff [THEN iffD2] bexI [of _ "(1, 1)"] simp: image_iff)
qed

text \<open>
  When the route has had its time, and through the hold that follows, exactly the places of the
  route are lit in full, and everything else is at most 0.42.
\<close>

theorem route_is_lit:
  assumes "new_maze rng cols rows = Some mz" "0 < rows" "0 < cols" "0 < ma_path ag" "0 < ma_flood ag"
    "carve_time ag mz + flood_time ag mz + path_time ag mz \<le> elapsed"
  shows "(c \<in> set (mz_path mz) \<longrightarrow> maze_level ag mz elapsed c = 1)
       \<and> (c \<notin> set (mz_path mz) \<longrightarrow> maze_level ag mz elapsed c \<le> 42 / 100)"
proof -
  define t where "t = elapsed - carve_time ag mz - flood_time ag mz"
  have "path_time ag mz \<le> t" using assms(6) by (simp add: t_def)
  then have full: "of_nat (length (mz_path mz)) \<le> t * ma_path ag"
    using assms(4) by (simp add: path_time_def pos_divide_le_eq)
  then have shown: "\<lfloor>min (t * ma_path ag) (of_nat (length (mz_path mz)))\<rfloor> = int (length (mz_path mz))"
    by (simp add: min_def)
  have "0 \<le> path_time ag mz" using assms(4) by (simp add: path_time_def)
  moreover have "0 \<le> flood_time ag mz"
    using reach_nonneg [OF assms(1-3)] assms(5) by (simp add: flood_time_def)
  ultimately have level: "maze_level ag mz elapsed c = route_level ag mz t c"
    using assms(6) by (simp add: maze_level_def t_def)
  have at: "mz_path_at mz = number_last 0 (mz_path mz) Map.empty"
    using assms(1) by (auto simp: new_maze_def Let_def split: option.splits prod.splits)
  show ?thesis
    using number_last_in [of c "mz_path mz" 0 Map.empty] number_last_other [of c "mz_path mz" 0 Map.empty]
    by (cases "c \<in> set (mz_path mz)") (auto simp: level route_level_def shown at)
qed

theorem route_is_lit_witness:
  "\<exists>mz. new_maze (\<lambda>i m. i mod m) 2 2 = Some mz
    \<and> (let ag = \<lparr>ma_carve = 160, ma_flood = 90, ma_path = 70, ma_hold = 2, ma_tail = 26\<rparr>
       in maze_level ag mz (carve_time ag mz + flood_time ag mz + path_time ag mz + 1) (1, 1) = 1)"
proof -
  let ?ag = "\<lparr>ma_carve = 160, ma_flood = 90, ma_path = 70, ma_hold = 2, ma_tail = 26\<rparr>"
  obtain mz where mz: "new_maze (\<lambda>i m. i mod m) 2 2 = Some mz" "walk (mz_opened mz) (mz_path mz)" "hd (mz_path mz) = (1, 1)"
    using every_maze_is_solved_aux [of "\<lambda>i m. i mod m" 2 2] by auto
  then have "(1, 1) \<in> set (mz_path mz)" by (metis hd_in_set walk_def)
  then show ?thesis
    using route_is_lit [OF mz(1), of ?ag "carve_time ?ag mz + flood_time ?ag mz + path_time ?ag mz + 1" "(1, 1)"] mz(1)
    by (intro exI [of _ mz]) (simp add: Let_def)
qed

end
