(* ===== verification/FT_Wireworld.thy ===== *)
theory FT_Wireworld
  imports FT_Grid "HOL-Library.AList"
begin

text \<open>
  The circuit of \<open>src/demos/wireworld.py\<close>: one generation of the automaton (\<open>step\<close>), the helpers
  that lay wires and check them (\<open>kingline\<close>, \<open>route\<close>, \<open>check_path\<close>, \<open>ring_path\<close>, \<open>check_ring\<close>), the
  class \<open>Board\<close>, the gates and the whole \<open>circuit\<close>. A grid of \<open>h\<close> rows and \<open>w\<close> columns is a
  function of the place that is \<open>Empty\<close> outside.
\<close>

section \<open>The automaton\<close>

datatype state = Empty | Head | Tail | Wire

definition DECAY :: "state \<Rightarrow> state" where
  "DECAY s = (case s of Empty \<Rightarrow> Empty | Head \<Rightarrow> Tail | Tail \<Rightarrow> Wire | Wire \<Rightarrow> Wire)"

definition AROUND :: "cell list" where
  "AROUND = [(-1, -1), (-1, 0), (-1, 1), (0, -1), (0, 1), (1, -1), (1, 0), (1, 1)]"

type_synonym grid = "cell \<Rightarrow> state"

text \<open>The count is an unsigned byte, so that one less than nought is 255.\<close>

definition heads_around :: "nat \<Rightarrow> nat \<Rightarrow> grid \<Rightarrow> cell \<Rightarrow> 8 word" where
  "heads_around h w g c =
     sum_list (map (\<lambda>d. if inside h w (shift_cell c d) \<and> g (shift_cell c d) = Head then 1 else 0) AROUND)"

definition ww_step :: "nat \<Rightarrow> nat \<Rightarrow> grid \<Rightarrow> grid" where
  "ww_step h w g c =
     (if \<not> inside h w c then Empty
      else if heads_around h w g c - 1 < 2 \<and> g c = Wire then Head
      else DECAY (g c))"

section \<open>Laying wires\<close>

function kingline_from :: "int \<Rightarrow> int \<Rightarrow> int \<Rightarrow> int \<Rightarrow> cell list" where
  "kingline_from r c r1 c1 =
     (if (r, c) = (r1, c1) then [(r1, c1)]
      else (r, c) # kingline_from (if r < r1 then r + 1 else if r > r1 then r - 1 else r)
                                  (if c < c1 then c + 1 else if c > c1 then c - 1 else c) r1 c1)"
  by pat_completeness auto
termination
  by (relation "measure (\<lambda>(r, c, r1, c1). nat (\<bar>r1 - r\<bar> + \<bar>c1 - c\<bar>))") auto

declare kingline_from.simps [simp del]

definition kingline :: "cell \<Rightarrow> cell \<Rightarrow> cell list" where
  "kingline a b = kingline_from (fst a) (snd a) (fst b) (snd b)"

fun route_from :: "cell list \<Rightarrow> cell list \<Rightarrow> cell list" where
  "route_from path (a # b # points) =
     route_from (path @ (if path = [] then kingline a b else drop 1 (kingline a b))) (b # points)"
| "route_from path _ = path"

definition route :: "cell list \<Rightarrow> cell list" where
  "route points = route_from [] points"

datatype board_error = Revisits string | Touches string nat nat | Out_of_grid

definition KING :: "cell list" where
  "KING = [(-1, -1), (-1, 0), (-1, 1), (0, -1), (0, 0), (0, 1), (1, -1), (1, 0), (1, 1)]"

text \<open>\<open>seen\<close>: the index of every cell of a path that has none twice.\<close>

definition index_in :: "cell list \<Rightarrow> cell \<Rightarrow> nat option" where
  "index_in cells = map_of (zip cells [0..<length cells])"

definition contacts :: "cell list \<Rightarrow> (nat \<times> nat) list" where
  "contacts cells =
     concat (map (\<lambda>i. List.map_filter (\<lambda>d. map_option (\<lambda>j. (i, j)) (index_in cells (shift_cell (cells ! i) d))) KING)
                 [0..<length cells])"

definition check_path :: "string \<Rightarrow> cell list \<Rightarrow> board_error + cell list" where
  "check_path name path =
     (if \<not> distinct path then Inl (Revisits name)
      else case filter (\<lambda>(i, j). \<bar>int j - int i\<bar> > 1) (contacts path) of
             [] \<Rightarrow> Inr path
           | (i, j) # _ \<Rightarrow> Inl (Touches name i j))"

definition ring_distance :: "nat \<Rightarrow> nat \<Rightarrow> nat \<Rightarrow> int" where
  "ring_distance n i j = min ((int j - int i) mod int n) ((int i - int j) mod int n)"

definition check_ring :: "string \<Rightarrow> cell list \<Rightarrow> board_error + cell list" where
  "check_ring name cells =
     (if \<not> distinct cells then Inl (Revisits name)
      else case filter (\<lambda>(i, j). ring_distance (length cells) i j > 1) (contacts cells) of
             [] \<Rightarrow> Inr cells
           | (i, j) # _ \<Rightarrow> Inl (Touches name i j))"

definition ring_path :: "int \<Rightarrow> int \<Rightarrow> nat \<Rightarrow> nat \<Rightarrow> cell list" where
  "ring_path r c run side =
     map (\<lambda>i. (r, c + int i)) [0..<run]
     @ map (\<lambda>i. (r + 1 + int i, c + int run)) [0..<side]
     @ map (\<lambda>i. (r + int side + 1, c + int run - 1 - int i)) [0..<run]
     @ map (\<lambda>i. (r + int side - int i, c - 1)) [0..<side]"

section \<open>The board\<close>

record board =
  bd_h :: nat
  bd_w :: nat
  bd_g :: grid
  bd_nets :: "(string \<times> cell list) list"

text \<open>
  An assignment to the array: an index from minus the size on counts from the end, any other
  index outside raises.
\<close>

definition wrap_index :: "nat \<Rightarrow> int \<Rightarrow> int option" where
  "wrap_index n i = (if 0 \<le> i \<and> i < int n then Some i else if - int n \<le> i \<and> i < 0 then Some (i + int n) else None)"

definition set_cell :: "state \<Rightarrow> cell \<Rightarrow> board \<Rightarrow> board_error + board" where
  "set_cell s c b =
     (case (wrap_index (bd_h b) (fst c), wrap_index (bd_w b) (snd c)) of
        (Some r, Some k) \<Rightarrow> Inr (b\<lparr>bd_g := (bd_g b)((r, k) := s)\<rparr>)
      | _ \<Rightarrow> Inl Out_of_grid)"

fun set_wires :: "cell list \<Rightarrow> board \<Rightarrow> board_error + board" where
  "set_wires [] b = Inr b"
| "set_wires (c # cells) b = bindE (set_cell Wire c b) (set_wires cells)"

definition new_board :: "nat \<Rightarrow> nat \<Rightarrow> board" where
  "new_board h w = \<lparr>bd_h = h, bd_w = w, bd_g = (\<lambda>_. Empty), bd_nets = []\<rparr>"

definition lay :: "string \<Rightarrow> cell list \<Rightarrow> bool \<Rightarrow> board \<Rightarrow> board_error + board" where
  "lay name cells ring b =
     bindE ((if ring then check_ring else check_path) name cells) (\<lambda>_.
     bindE (set_wires cells b) (\<lambda>b.
     Inr (b\<lparr>bd_nets := AList.update name cells (bd_nets b)\<rparr>)))"

definition add_cells :: "string \<Rightarrow> cell list \<Rightarrow> board \<Rightarrow> board_error + board" where
  "add_cells name cells b =
     bindE (set_wires cells b) (\<lambda>b.
     Inr (b\<lparr>bd_nets := AList.update name
            ((case map_of (bd_nets b) name of None \<Rightarrow> [] | Some old \<Rightarrow> old) @ cells) (bd_nets b)\<rparr>))"

definition cut_cell :: "cell \<Rightarrow> board \<Rightarrow> board_error + board" where
  "cut_cell = set_cell Empty"

definition diode :: "cell list \<Rightarrow> nat \<Rightarrow> board \<Rightarrow> board_error + board" where
  "diode path k b =
     (let (r, c) = path ! k; (r1, c1) = path ! (k + 1); dr = r1 - r; dc = c1 - c;
          pr = dc; pc = dr;
          prongs = map (\<lambda>s. (r + s * pr, c + s * pc)) [-1, 1] @ map (\<lambda>s. (r1 + s * pr, c1 + s * pc)) [-1, 1]
      in bindE (cut_cell (r1, c1) b) (add_cells ''diode'' prongs))"

definition descend :: "cell \<Rightarrow> int \<Rightarrow> cell" where
  "descend c row = (row, snd c + (row - fst c))"

definition flare :: "cell \<Rightarrow> cell list" where
  "flare e = [(fst e - 1, snd e + 1), (fst e, snd e + 1), (fst e + 1, snd e + 1)]"

record ports =
  pt_t :: cell
  pt_x :: cell
  pt_sig :: cell
  pt_out :: cell

definition GRID_W :: nat where "GRID_W = 160"
definition GRID_H :: nat where "GRID_H = 32"
definition GATE_ROW :: int where "GATE_ROW = 15"
definition RAIL_ROW :: int where "RAIL_ROW = 22"
definition BUS_A_ROW :: int where "BUS_A_ROW = 1"
definition BUS_B_ROW :: int where "BUS_B_ROW = 30"
definition GATES :: "int list" where "GATES = [40, 80, 120]"

definition gate :: "string \<Rightarrow> int \<Rightarrow> bool \<Rightarrow> board \<Rightarrow> board_error + (ports \<times> board)" where
  "gate name col inhibit b =
     (let r = GATE_ROW; c = col;
          ks = (if inhibit then [(r - 1, c - 1), (r, c - 1), (r + 1, c - 1)] else [(r, c - 1)]);
          sig = (r - 1, c + 1); out = (r + 1, c + 1)
      in bindE (add_cells (name @ ''.k'') (ks @ [(r, c)]) b) (\<lambda>b.
         bindE (lay (name @ ''.ctrl'') [(r, c - 2)] False b) (\<lambda>b.
         bindE (add_cells (name @ ''.ports'') [sig, out] b) (\<lambda>b.
         Inr (\<lparr>pt_t = (r, c), pt_x = (r, c - 2), pt_sig = sig, pt_out = out\<rparr>, b)))))"

text \<open>The nets that \<open>circuit\<close> lays, with the ports of its gates; \<open>ring_path\<close> of clock A first.\<close>

definition ring_a :: "cell list" where "ring_a = ring_path 3 5 8 4"
definition ring_b :: "cell list" where "ring_b = ring_path 22 5 13 5"

definition drop_wire :: "ports \<Rightarrow> cell list" where
  "drop_wire g = route [(BUS_A_ROW, snd (pt_sig g)), pt_sig g]"

definition rise_wire :: "ports \<Rightarrow> cell list" where
  "rise_wire g = (let col = snd (pt_x g)
                  in route [(BUS_B_ROW, col - 7), (GATE_ROW + 1, col - 5), (GATE_ROW, col - 4), pt_x g])"

definition circuit :: "board_error + board" where
  "circuit =
     bindE (lay ''clock.a'' ring_a True (new_board GRID_H GRID_W)) (\<lambda>b.
     bindE (lay ''clock.b'' ring_b True b) (\<lambda>b.
     bindE (lay ''bus.a'' (route [(2, 13), (BUS_A_ROW, 14), (BUS_A_ROW, GATES ! 2 + 1)]) False b) (\<lambda>b.
     bindE (lay ''bus.b'' (route [(29, 4), (BUS_B_ROW, 5), (BUS_B_ROW, GATES ! 1 - 9)]) False b) (\<lambda>b.
     bindE (gate ''or'' (GATES ! 0) False b) (\<lambda>(g0, b).
     bindE (gate ''andnot'' (GATES ! 1) True b) (\<lambda>(g1, b).
     bindE (gate ''and'' (GATES ! 2) True b) (\<lambda>(g2, b).
     bindE (lay ''drop.0'' (drop_wire g0) False b) (\<lambda>b.
     bindE (lay ''drop.1'' (drop_wire g1) False b) (\<lambda>b.
     bindE (lay ''drop.2'' (drop_wire g2) False b) (\<lambda>b.
     bindE (diode (drop_wire g0) (length (drop_wire g0) - 3) b) (\<lambda>b.
     bindE (lay ''rise.0'' (rise_wire g0) False b) (\<lambda>b.
     bindE (lay ''rise.1'' (rise_wire g1) False b) (\<lambda>b.
     bindE (diode (rise_wire g0) (length (rise_wire g0) - 3) b) (\<lambda>b.
     let rail0 = route [pt_out g0, descend (pt_out g0) RAIL_ROW, (RAIL_ROW, GATES ! 1 - 12)];
         rail1 = route [pt_out g2, descend (pt_out g2) (RAIL_ROW + 4), (RAIL_ROW + 4, int GRID_W - 3)];
         turn = RAIL_ROW + 2
     in bindE (lay ''rail.0'' rail0 False b) (\<lambda>b.
        bindE (lay ''rail.1'' rail1 False b) (\<lambda>b.
        bindE (add_cells ''lamp.0'' (flare (last rail0)) b) (\<lambda>b.
        bindE (add_cells ''lamp.1'' (flare (last rail1)) b) (\<lambda>b.
        lay ''chain'' (route [pt_out g1, descend (pt_out g1) turn,
              (turn, snd (pt_x g2) - (turn - GATE_ROW)), pt_x g2]) False b))))))))))))))))))"

definition PHASE_A :: nat where "PHASE_A = 0"
definition PHASE_B :: nat where "PHASE_B = 6"

definition seed :: "cell list \<Rightarrow> nat \<Rightarrow> grid \<Rightarrow> grid" where
  "seed ring phase g =
     g(ring ! (phase mod length ring) := Head,
       ring ! nat ((int phase - 1) mod int (length ring)) := Tail)"

section \<open>What the checks establish\<close>

definition touching :: "cell \<Rightarrow> cell \<Rightarrow> bool" where
  "touching p q \<longleftrightarrow> q \<in> set (map (shift_cell p) KING)"

lemma touching_iff: "touching p q \<longleftrightarrow> \<bar>fst q - fst p\<bar> \<le> 1 \<and> \<bar>snd q - snd p\<bar> \<le> 1"
proof -
  have king: "(a, b) \<in> set KING \<longleftrightarrow> \<bar>a\<bar> \<le> 1 \<and> \<bar>b\<bar> \<le> 1" for a b
    by (simp add: KING_def) presburger
  have "touching p q \<longleftrightarrow> (fst q - fst p, snd q - snd p) \<in> set KING"
    by (force simp: touching_def shift_cell_def image_iff prod_eq_iff)
  then show ?thesis by (simp only: king)
qed

lemma index_in_nth: "distinct cells \<Longrightarrow> index_in cells c = Some j \<longleftrightarrow> j < length cells \<and> cells ! j = c"
  by (auto simp: index_in_def map_of_zip_is_Some map_of_zip_nth in_set_zip dest!: map_of_SomeD)

lemma index_in_None: "index_in cells c = None \<longleftrightarrow> c \<notin> set cells"
  by (simp add: index_in_def)

lemma contacts_iff:
  assumes "distinct cells"
  shows "(i, j) \<in> set (contacts cells) \<longleftrightarrow> i < length cells \<and> j < length cells \<and> touching (cells ! i) (cells ! j)"
proof -
  have "(i, j) \<in> set (contacts cells)
      \<longleftrightarrow> i < length cells \<and> (\<exists>d \<in> set KING. index_in cells (shift_cell (cells ! i) d) = Some j)"
    by (auto simp: contacts_def List.map_filter_def image_iff) force
  also have "\<dots> \<longleftrightarrow> i < length cells \<and> j < length cells \<and> cells ! j \<in> shift_cell (cells ! i) ` set KING"
    unfolding index_in_nth [OF assms] by (metis image_iff)
  finally show ?thesis by (simp only: touching_def set_map)
qed

lemma check_ring_touching:
  assumes "check_ring name cells = Inr cells"
  shows "distinct cells" "i < length cells \<Longrightarrow> j < length cells \<Longrightarrow> touching (cells ! i) (cells ! j)
    \<Longrightarrow> ring_distance (length cells) i j \<le> 1"
proof -
  show d: "distinct cells" using assms by (auto simp: check_ring_def split: if_splits)
  have "filter (\<lambda>(i, j). ring_distance (length cells) i j > 1) (contacts cells) = []"
    using assms d by (auto simp: check_ring_def split: list.splits)
  then show "ring_distance (length cells) i j \<le> 1"
    if "i < length cells" "j < length cells" "touching (cells ! i) (cells ! j)"
    using that contacts_iff [OF d, of i j] by (fastforce simp: filter_empty_conv)
qed

section \<open>An electron on a loop\<close>

definition ring_grid :: "cell list \<Rightarrow> nat \<Rightarrow> grid" where
  "ring_grid cells i c =
     (case index_in cells c of
        None \<Rightarrow> Empty
      | Some j \<Rightarrow> if j = i then Head else if (j + 1) mod length cells = i then Tail else Wire)"

lemma sum_single:
  "distinct xs \<Longrightarrow> inj f \<Longrightarrow> sum_list (map (\<lambda>d. if f d = q then 1 else 0) xs)
    = (if q \<in> f ` set xs then 1 else 0 :: 8 word)"
  by (induction xs) (auto dest: injD)

lemma heads_single:
  assumes "\<And>p. g p = Head \<longleftrightarrow> p = q" "inside h w q"
  shows "heads_around h w g c = (if touching c q \<and> c \<noteq> q then 1 else 0)"
proof -
  have "heads_around h w g c = sum_list (map (\<lambda>d. if shift_cell c d = q then 1 else 0) AROUND)"
    unfolding heads_around_def using assms by (intro arg_cong [where f = sum_list] map_cong) auto
  also have "\<dots> = (if q \<in> shift_cell c ` set AROUND then 1 else 0)"
    by (rule sum_single) (auto simp: AROUND_def shift_cell_def inj_def)
  also have "q \<in> shift_cell c ` set AROUND \<longleftrightarrow> touching c q \<and> c \<noteq> q"
    by (cases c; cases q) (auto simp: AROUND_def touching_def KING_def shift_cell_def)
  finally show ?thesis .
qed

lemma ring_neighbours:
  assumes "ring_distance n i j \<le> 1" "i < n" "j < n" "i \<noteq> j"
  shows "j = (i + 1) mod n \<or> (j + 1) mod n = i"
proof -
  have d: "(int j - int i) mod int n \<noteq> 0" "(int i - int j) mod int n \<noteq> 0"
    using assms(2-4) dvd_imp_le_int [of "int j - int i" "int n"] dvd_imp_le_int [of "int i - int j" "int n"]
    by (auto simp: mod_eq_0_iff_dvd)
  have "0 \<le> (int j - int i) mod int n" "0 \<le> (int i - int j) mod int n" using assms(2) by simp_all
  then consider "(int j - int i) mod int n = 1" | "(int i - int j) mod int n = 1"
    using assms(1) d by (auto simp: ring_distance_def min_def split: if_splits)
  then show ?thesis
  proof cases
    case 1
    then have "(int i + (int j - int i) mod int n) mod int n = (int i + 1) mod int n" by simp
    then have "int j mod int n = int (i + 1) mod int n" by (simp add: mod_simps add.commute)
    then show ?thesis using assms(3) by (metis mod_less of_nat_eq_iff of_nat_mod)
  next
    case 2
    then have "(int j + (int i - int j) mod int n) mod int n = (int j + 1) mod int n" by simp
    then have "int i mod int n = int (j + 1) mod int n" by (simp add: mod_simps add.commute)
    then show ?thesis using assms(2) by (metis mod_less of_nat_eq_iff of_nat_mod)
  qed
qed

lemma electron_steps:
  assumes ok: "check_ring name cells = Inr cells" and n: "3 \<le> length cells"
    and joined: "\<And>j. j < length cells \<Longrightarrow> touching (cells ! j) (cells ! ((j + 1) mod length cells))"
    and fits: "\<forall>c \<in> set cells. inside h w c" and i: "i < length cells"
  shows "ww_step h w (ring_grid cells i) = ring_grid cells ((i + 1) mod length cells)"
proof
  fix c
  let ?n = "length cells" and ?g = "ring_grid cells i"
  note d = check_ring_touching(1) [OF ok]
  have head: "?g p = Head \<longleftrightarrow> p = cells ! i" for p
  proof (cases "index_in cells p")
    case None
    then have "p \<noteq> cells ! i" using i nth_mem by (auto simp: index_in_None)
    then show ?thesis using None by (simp add: ring_grid_def)
  next
    case (Some j)
    then have "j < ?n" "p = cells ! j" using index_in_nth [OF d] by auto
    then show ?thesis using Some i by (simp add: ring_grid_def nth_eq_iff_index_eq [OF d])
  qed
  have fits_i: "inside h w (cells ! i)" using fits i by simp
  show "ww_step h w ?g c = ring_grid cells ((i + 1) mod ?n) c"
  proof (cases "index_in cells c")
    case None
    then show ?thesis by (simp add: ww_step_def ring_grid_def DECAY_def)
  next
    case (Some j)
    then have j: "j < ?n" "c = cells ! j" using index_in_nth [OF d] by auto
    have inside_c: "inside h w c" using fits j by simp
    have count: "heads_around h w ?g c = (if touching c (cells ! i) \<and> c \<noteq> cells ! i then 1 else 0)"
      by (rule heads_single [OF head fits_i])
    have eq: "c = cells ! i \<longleftrightarrow> j = i" by (simp add: j i nth_eq_iff_index_eq [OF d])
    have next_i: "(i + 1) mod ?n \<noteq> i"
      using i n by (cases "i + 1 = ?n") auto
    have sym: "touching p q \<longleftrightarrow> touching q p" for p q by (auto simp: touching_iff)
    have two: "j \<noteq> i \<Longrightarrow> (j + 1) mod ?n = i \<Longrightarrow> j \<noteq> (i + 1) mod ?n"
      using i j(1) n by (cases "i + 1 = ?n"; cases "j + 1 = ?n") auto
    have next_inj: "(j + 1) mod ?n = (i + 1) mod ?n \<longleftrightarrow> j = i"
      using i j(1) by (cases "i + 1 = ?n"; cases "j + 1 = ?n") auto
    consider "j = i" | "j \<noteq> i" "(j + 1) mod ?n = i" | "j \<noteq> i" "j = (i + 1) mod ?n"
      | "j \<noteq> i" "(j + 1) mod ?n \<noteq> i" "j \<noteq> (i + 1) mod ?n" by blast
    then show ?thesis
    proof cases
      case 1
      then show ?thesis
        using Some inside_c next_i by (simp add: ww_step_def ring_grid_def DECAY_def)
    next
      case 2
      then show ?thesis
        using Some inside_c two next_inj by (simp add: ww_step_def ring_grid_def DECAY_def)
    next
      case 3
      then have "touching c (cells ! i)" using joined [OF i] sym j by simp
      then have "heads_around h w ?g c = 1" using count eq 3 by simp
      moreover have "?g c = Wire" using Some 3 two by (auto simp: ring_grid_def)
      ultimately show ?thesis
        using Some inside_c 3(2) by (simp add: ww_step_def ring_grid_def)
    next
      case 4
      have "\<not> touching c (cells ! i)"
        using check_ring_touching(2) [OF ok j(1) i] ring_neighbours [of ?n i j] sym j i 4
          check_ring_touching(2) [OF ok i j(1)] by auto
      then have "heads_around h w ?g c = 0" using count by simp
      moreover have "?g c = Wire" using Some 4 by (simp add: ring_grid_def)
      ultimately show ?thesis
        using Some inside_c 4 next_inj by (simp add: ww_step_def ring_grid_def DECAY_def)
    qed
  qed
qed

lemma electron_runs:
  assumes "check_ring name cells = Inr cells" "3 \<le> length cells"
    "\<And>j. j < length cells \<Longrightarrow> touching (cells ! j) (cells ! ((j + 1) mod length cells))"
    "\<forall>c \<in> set cells. inside h w c" "i < length cells"
  shows "(ww_step h w ^^ k) (ring_grid cells i) = ring_grid cells ((i + k) mod length cells)"
proof (induction k)
  case 0
  then show ?case using assms(5) by simp
next
  case (Suc k)
  have "(i + k) mod length cells < length cells" using assms(2) by (intro mod_less_divisor) linarith
  with Suc electron_steps [OF assms(1-4)] show ?case by (simp add: mod_Suc_eq)
qed

lemma ring_grid_inj:
  assumes "distinct cells" "i < length cells" "j < length cells" "ring_grid cells i = ring_grid cells j"
  shows "i = j"
proof -
  have "ring_grid cells i (cells ! i) = Head"
    using assms(1,2) index_in_nth [OF assms(1), of "cells ! i" i] by (simp add: ring_grid_def)
  then have "ring_grid cells j (cells ! i) = Head" using assms(4) by simp
  then show ?thesis
    using index_in_nth [OF assms(1), of "cells ! i" i] assms(2) by (auto simp: ring_grid_def split: if_splits)
qed

lemma seeded_ring:
  assumes "distinct cells" "2 \<le> length cells"
  shows "seed cells phase (\<lambda>c. if c \<in> set cells then Wire else Empty) = ring_grid cells (phase mod length cells)"
proof
  fix c
  let ?n = "length cells" and ?p = "phase mod length cells"
  let ?t = "nat ((int phase - 1) mod int ?n)"
  have n: "0 < ?n" using assms(2) by linarith
  have t: "?t < ?n" using n by (simp add: nat_less_iff)
  have tp: "(?t + 1) mod ?n = ?p"
  proof -
    have "int ((?t + 1) mod ?n) = ((int phase - 1) mod int ?n + 1) mod int ?n"
      using n by (simp add: zmod_int add.commute)
    also have "\<dots> = int phase mod int ?n" by (simp add: mod_simps)
    finally show ?thesis by (metis of_nat_eq_iff of_nat_mod)
  qed
  have only: "(j + 1) mod ?n = ?p \<longleftrightarrow> j = ?t" if "j < ?n" for j
    using tp t that by (cases "j + 1 = ?n"; cases "?t + 1 = ?n") auto
  have "?t \<noteq> ?p" using tp t assms(2) by (cases "?t + 1 = ?n") auto
  show "seed cells phase (\<lambda>c. if c \<in> set cells then Wire else Empty) c = ring_grid cells ?p c"
  proof (cases "index_in cells c")
    case None
    then have "c \<notin> set cells" by (simp add: index_in_None)
    then have "c \<noteq> cells ! ?p" "c \<noteq> cells ! ?t" using n t nth_mem by auto
    then show ?thesis using None \<open>c \<notin> set cells\<close> by (simp add: seed_def ring_grid_def)
  next
    case (Some j)
    then have j: "j < ?n" "c = cells ! j" using index_in_nth [OF assms(1)] by auto
    then have "c = cells ! ?p \<longleftrightarrow> j = ?p" "c = cells ! ?t \<longleftrightarrow> j = ?t" "c \<in> set cells"
      using n t nth_eq_iff_index_eq [OF assms(1)] by auto
    then show ?thesis using Some only [OF j(1)] \<open>?t \<noteq> ?p\<close> by (simp add: seed_def ring_grid_def)
  qed
qed

text \<open>
  C8. A loop's circumference is its period: on a closed loop that \<open>check_ring\<close> accepts, with
  consecutive cells touching, an electron put there by \<open>seed\<close> is back after \<open>k\<close> generations
  exactly when the number of cells divides \<open>k\<close>.
\<close>

theorem circumference_is_the_period:
  assumes "check_ring name cells = Inr cells" "3 \<le> length cells"
    "\<forall>j < length cells. touching (cells ! j) (cells ! ((j + 1) mod length cells))"
    "\<forall>c \<in> set cells. inside h w c"
  shows "let g = seed cells phase (\<lambda>c. if c \<in> set cells then Wire else Empty)
         in (ww_step h w ^^ k) g = g \<longleftrightarrow> length cells dvd k"
proof -
  let ?n = "length cells" and ?p = "phase mod length cells"
  note d = check_ring_touching(1) [OF assms(1)]
  have n: "0 < ?n" using assms(2) by linarith
  then have n: "0 < ?n" "?p < ?n" by simp_all
  have g: "seed cells phase (\<lambda>c. if c \<in> set cells then Wire else Empty) = ring_grid cells ?p"
    using assms(2) by (intro seeded_ring d) simp
  have "(ww_step h w ^^ k) (ring_grid cells ?p) = ring_grid cells ((?p + k) mod ?n)"
    using assms n by (intro electron_runs) auto
  moreover have "ring_grid cells ((?p + k) mod ?n) = ring_grid cells ?p \<longleftrightarrow> (?p + k) mod ?n = ?p"
    using ring_grid_inj [OF d, of "(?p + k) mod ?n" ?p] n by auto
  moreover have "(?p + k) mod ?n = ?p \<longleftrightarrow> ?n dvd k"
  proof -
    have "(?p + k) mod ?n = ?p mod ?n \<longleftrightarrow> ?n dvd (?p + k) - ?p" by (rule mod_eq_dvd_iff_nat) simp
    then show ?thesis by simp
  qed
  ultimately show ?thesis by (simp add: g Let_def)
qed

lemma clock_a:
  "length ring_a = 24" "list_all (inside GRID_H GRID_W) ring_a"
  "list_all (\<lambda>j. touching (ring_a ! j) (ring_a ! ((j + 1) mod length ring_a))) [0..<length ring_a]"
  "check_ring ''clock.a'' ring_a = Inr ring_a"
  by code_simp+

lemma clock_a_touching: "\<forall>j < length ring_a. touching (ring_a ! j) (ring_a ! ((j + 1) mod length ring_a))"
  using clock_a(3) unfolding list_all_iff set_upt by (auto simp only: atLeastLessThan_iff le0)

lemma clock_a_period:
  "(ww_step GRID_H GRID_W ^^ 24) (seed ring_a PHASE_A (\<lambda>c. if c \<in> set ring_a then Wire else Empty))
   = seed ring_a PHASE_A (\<lambda>c. if c \<in> set ring_a then Wire else Empty)"
proof -
  note d = check_ring_touching(1) [OF clock_a(4)]
  have "(ww_step GRID_H GRID_W ^^ 24) (ring_grid ring_a 0) = ring_grid ring_a ((0 + 24) mod length ring_a)"
    using clock_a(1,2) clock_a_touching by (intro electron_runs [OF clock_a(4)]) (auto simp: list_all_iff)
  moreover have "seed ring_a PHASE_A (\<lambda>c. if c \<in> set ring_a then Wire else Empty) = ring_grid ring_a 0"
    using seeded_ring [OF d, of PHASE_A] clock_a(1) by (simp add: PHASE_A_def)
  ultimately show ?thesis by (simp add: clock_a(1))
qed

theorem circumference_is_the_period_witness:
  "let g = seed ring_a PHASE_A (\<lambda>c. if c \<in> set ring_a then Wire else Empty)
   in (ww_step GRID_H GRID_W ^^ 24) g = g \<and> (ww_step GRID_H GRID_W ^^ 12) g \<noteq> g"
proof -
  have i: "\<forall>c \<in> set ring_a. inside GRID_H GRID_W c" using clock_a(2) by (simp only: list_all_iff)
  show ?thesis
    using circumference_is_the_period [OF clock_a(4) _ clock_a_touching i, of PHASE_A 24]
      circumference_is_the_period [OF clock_a(4) _ clock_a_touching i, of PHASE_A 12]
    by (simp add: Let_def clock_a(1))
qed

section \<open>The circuit lays out\<close>

lemma check_path_accepts:
  assumes "distinct cells"
    "\<And>i j. i < length cells \<Longrightarrow> j < length cells \<Longrightarrow> touching (cells ! i) (cells ! j) \<Longrightarrow> \<bar>int j - int i\<bar> \<le> 1"
  shows "check_path name cells = Inr cells"
proof -
  have "filter (\<lambda>(i, j). \<bar>int j - int i\<bar> > 1) (contacts cells) = []"
    using assms contacts_iff [OF assms(1)] by (force simp: filter_empty_conv)
  then show ?thesis using assms(1) by (simp add: check_path_def)
qed

text \<open>A wire that heads one column east with every cell touches nothing but its neighbours.\<close>

lemma eastward_accepts:
  assumes "map snd cells = map (\<lambda>i. c + int i) [0..<length cells]"
  shows "check_path name cells = Inr cells"
proof (rule check_path_accepts)
  have at: "snd (cells ! i) = c + int i" if "i < length cells" for i
    using arg_cong [OF assms, of "\<lambda>xs. xs ! i"] that by simp
  show "distinct cells"
    using at by (auto simp: distinct_conv_nth) (metis add_left_cancel of_nat_eq_iff)
  show "\<bar>int j - int i\<bar> \<le> 1" if "i < length cells" "j < length cells" "touching (cells ! i) (cells ! j)" for i j
    using that at by (simp add: touching_iff)
qed

definition sized :: "board \<Rightarrow> bool" where
  "sized b \<longleftrightarrow> bd_h b = GRID_H \<and> bd_w b = GRID_W"

abbreviation fits :: "cell list \<Rightarrow> bool" where
  "fits \<equiv> list_all (inside GRID_H GRID_W)"

lemma bindE_ok:
  assumes "\<exists>x. r = Inr x \<and> P x" "\<And>x. P x \<Longrightarrow> \<exists>y. f x = Inr y \<and> Q y"
  shows "\<exists>y. bindE r f = Inr y \<and> Q y"
  using assms by auto

lemma bindE_gate:
  assumes "\<exists>x. r = Inr x \<and> (fst x = g \<and> P (snd x))" "\<And>b. P b \<Longrightarrow> \<exists>y. f g b = Inr y \<and> Q y"
  shows "\<exists>y. bindE r (\<lambda>(g, b). f g b) = Inr y \<and> Q y"
  using assms by auto

lemma set_cell_sized: "sized b \<Longrightarrow> inside GRID_H GRID_W c \<Longrightarrow> \<exists>b'. set_cell st c b = Inr b' \<and> sized b'"
  by (auto simp: set_cell_def sized_def wrap_index_def inside_def split: prod.splits)

lemma set_wires_sized: "sized b \<Longrightarrow> fits cells \<Longrightarrow> \<exists>b'. set_wires cells b = Inr b' \<and> sized b'"
proof (induction cells arbitrary: b)
  case (Cons c cells)
  then have c: "inside GRID_H GRID_W c" by simp
  show ?case
    unfolding set_wires.simps by (rule bindE_ok [OF set_cell_sized [OF Cons.prems(1) c]]) (use Cons in simp)
qed simp

lemma lay_sized:
  assumes "sized b" "(if ring then check_ring else check_path) name cells = Inr cells" "fits cells"
  shows "\<exists>b'. lay name cells ring b = Inr b' \<and> sized b'"
proof -
  obtain b' where "set_wires cells b = Inr b'" "sized b'" using set_wires_sized [OF assms(1,3)] by blast
  then show ?thesis by (simp only: lay_def assms(2) bindE_simps) (simp add: sized_def)
qed

lemma add_cells_sized: "sized b \<Longrightarrow> fits cells \<Longrightarrow> \<exists>b'. add_cells name cells b = Inr b' \<and> sized b'"
  using set_wires_sized [of b cells] by (auto simp: add_cells_def sized_def)

lemma diode_sized:
  assumes "sized b" "path ! k = (r, c)" "path ! (k + 1) = (r1, c1)"
    "fits [(r1, c1), (r + (c - c1), c + (r - r1)), (r + (c1 - c), c + (r1 - r)),
           (r1 + (c - c1), c1 + (r - r1)), (r1 + (c1 - c), c1 + (r1 - r))]"
  shows "\<exists>b'. diode path k b = Inr b' \<and> sized b'"
  unfolding diode_def assms(2,3) Let_def prod.case cut_cell_def
  by (rule bindE_ok [OF set_cell_sized [OF assms(1)]]) (use assms(4) in \<open>auto intro!: add_cells_sized\<close>)

definition ports_at :: "int \<Rightarrow> ports" where
  "ports_at c = \<lparr>pt_t = (15, c), pt_x = (15, c - 2), pt_sig = (14, c + 1), pt_out = (16, c + 1)\<rparr>"

lemma gate_sized:
  assumes "sized b" "2 \<le> c" "c < 150"
  shows "\<exists>x. gate name c inhibit b = Inr x \<and> (fst x = ports_at c \<and> sized (snd x))"
proof -
  have in_grid: "inside GRID_H GRID_W (r, k)" if "0 \<le> r" "r < 32" "0 \<le> k" "k < 160" for r k
    using that by (simp add: inside_def GRID_H_def GRID_W_def)
  have one: "check_path nm [p] = Inr [p]" for nm p
    by (rule check_path_accepts) auto
  show ?thesis
    unfolding gate_def Let_def
    by (rule bindE_ok [OF add_cells_sized [OF assms(1)]], use assms(2,3) in_grid in \<open>simp add: GATE_ROW_def\<close>,
        rule bindE_ok [OF lay_sized], assumption, simp add: one,
        use assms(2,3) in_grid in \<open>simp add: GATE_ROW_def\<close>,
        rule bindE_ok [OF add_cells_sized], assumption, use assms(2,3) in_grid in \<open>simp add: GATE_ROW_def\<close>)
      (simp add: ports_at_def GATE_ROW_def)
qed

lemma ring_nets:
  "check_ring ''clock.a'' ring_a = Inr ring_a" "fits ring_a"
  "check_ring ''clock.b'' ring_b = Inr ring_b" "fits ring_b"
  by code_simp+

definition long_nets :: "cell list list" where
  "long_nets =
     [route [(2, 13), (BUS_A_ROW, 14), (BUS_A_ROW, GATES ! 2 + 1)],
      route [(29, 4), (BUS_B_ROW, 5), (BUS_B_ROW, GATES ! 1 - 9)],
      route [pt_out (ports_at 40), descend (pt_out (ports_at 40)) RAIL_ROW, (RAIL_ROW, GATES ! 1 - 12)],
      route [pt_out (ports_at 120), descend (pt_out (ports_at 120)) (RAIL_ROW + 4), (RAIL_ROW + 4, int GRID_W - 3)],
      route [pt_out (ports_at 80), descend (pt_out (ports_at 80)) (RAIL_ROW + 2),
             (RAIL_ROW + 2, snd (pt_x (ports_at 120)) - (RAIL_ROW + 2 - GATE_ROW)), pt_x (ports_at 120)]]"

lemma long_nets_east:
  "list_all (\<lambda>cells. map snd cells = map (\<lambda>i. snd (hd cells) + int i) [0..<length cells] \<and> fits cells) long_nets"
  by code_simp

lemma long_net:
  assumes "cells \<in> set long_nets"
  shows "check_path name cells = Inr cells" "fits cells"
proof -
  have e: "map snd cells = map (\<lambda>i. snd (hd cells) + int i) [0..<length cells]" and f: "fits cells"
    using long_nets_east assms unfolding list_all_iff by blast+
  show "check_path name cells = Inr cells" using e by (rule eastward_accepts)
  show "fits cells" by (rule f)
qed

definition path_ok :: "cell list \<Rightarrow> bool" where
  "path_ok cells \<longleftrightarrow> distinct cells \<and> list_all (\<lambda>(i, j). \<bar>int j - int i\<bar> \<le> 1) (contacts cells) \<and> fits cells"

lemma path_ok_accepts: "path_ok cells \<Longrightarrow> check_path name cells = Inr cells \<and> fits cells"
proof -
  assume ok: "path_ok cells"
  then have "filter (\<lambda>(i, j). \<bar>int j - int i\<bar> > 1) (contacts cells) = []"
    by (fastforce simp: path_ok_def list_all_iff filter_empty_conv)
  with ok show ?thesis by (simp add: path_ok_def check_path_def)
qed

lemma drop_wires: "path_ok (drop_wire (ports_at 40))" "path_ok (drop_wire (ports_at 80))"
    "path_ok (drop_wire (ports_at 120))"
  by code_simp+

lemma rise_wires: "path_ok (rise_wire (ports_at 40))" "path_ok (rise_wire (ports_at 80))"
  by code_simp+

lemma diode_places:
  "let p = drop_wire (ports_at 40) in p ! (length p - 3) = (12, 41) \<and> p ! (length p - 3 + 1) = (13, 41)"
  "let p = rise_wire (ports_at 40) in p ! (length p - 3) = (15, 36) \<and> p ! (length p - 3 + 1) = (15, 37)"
  by code_simp+

lemma lay_path_sized:
  assumes "sized b" "check_path name cells = Inr cells" "fits cells"
  shows "\<exists>b'. lay name cells False b = Inr b' \<and> sized b'"
  using lay_sized [OF assms(1), of False name cells] assms(2,3) by simp

lemma lay_checked_sized:
  assumes "sized b" "path_ok cells"
  shows "\<exists>b'. lay name cells False b = Inr b' \<and> sized b'"
  using lay_path_sized [OF assms(1)] path_ok_accepts [OF assms(2)] by blast

lemma lay_long_sized:
  assumes "sized b" "cells \<in> set long_nets"
  shows "\<exists>b'. lay name cells False b = Inr b' \<and> sized b'"
  using lay_path_sized [OF assms(1)] long_net [OF assms(2)] by blast

lemma diodes_sized:
  assumes "sized b"
  shows "\<exists>b'. diode (drop_wire (ports_at 40)) (length (drop_wire (ports_at 40)) - 3) b = Inr b' \<and> sized b'"
    "\<exists>b'. diode (rise_wire (ports_at 40)) (length (rise_wire (ports_at 40)) - 3) b = Inr b' \<and> sized b'"
proof -
  note d = diode_places [unfolded Let_def]
  show "\<exists>b'. diode (drop_wire (ports_at 40)) (length (drop_wire (ports_at 40)) - 3) b = Inr b' \<and> sized b'"
    by (rule diode_sized [OF assms d(1) [THEN conjunct1] d(1) [THEN conjunct2]]) code_simp
  show "\<exists>b'. diode (rise_wire (ports_at 40)) (length (rise_wire (ports_at 40)) - 3) b = Inr b' \<and> sized b'"
    by (rule diode_sized [OF assms d(2) [THEN conjunct1] d(2) [THEN conjunct2]]) code_simp
qed

lemma lamps_fit:
  "fits (flare (last (long_nets ! 2)))" "fits (flare (last (long_nets ! 3)))"
  by code_simp+

lemma gates_sized:
  assumes "sized b"
  shows "\<exists>x. gate ''or'' (GATES ! 0) False b = Inr x \<and> (fst x = ports_at 40 \<and> sized (snd x))"
    "\<exists>x. gate ''andnot'' (GATES ! 1) True b = Inr x \<and> (fst x = ports_at 80 \<and> sized (snd x))"
    "\<exists>x. gate ''and'' (GATES ! 2) True b = Inr x \<and> (fst x = ports_at 120 \<and> sized (snd x))"
  using gate_sized [OF assms, of 40] gate_sized [OF assms, of 80] gate_sized [OF assms, of 120]
  by (simp_all add: GATES_def)

text \<open>
  The circuit lays out: every net passes its check and every cell of it is on the board, so
  \<open>circuit\<close> raises neither an assertion nor an index error.
\<close>

theorem circuit_lays_out: "\<exists>b. circuit = Inr b \<and> bd_h b = GRID_H \<and> bd_w b = GRID_W"
proof -
  have start: "sized (new_board GRID_H GRID_W)" by (simp add: sized_def new_board_def)
  have long: "route [(2, 13), (BUS_A_ROW, 14), (BUS_A_ROW, GATES ! 2 + 1)] \<in> set long_nets"
    "route [(29, 4), (BUS_B_ROW, 5), (BUS_B_ROW, GATES ! 1 - 9)] \<in> set long_nets"
    "route [pt_out (ports_at 40), descend (pt_out (ports_at 40)) RAIL_ROW, (RAIL_ROW, GATES ! 1 - 12)] \<in> set long_nets"
    "route [pt_out (ports_at 120), descend (pt_out (ports_at 120)) (RAIL_ROW + 4), (RAIL_ROW + 4, int GRID_W - 3)] \<in> set long_nets"
    "route [pt_out (ports_at 80), descend (pt_out (ports_at 80)) (RAIL_ROW + 2),
       (RAIL_ROW + 2, snd (pt_x (ports_at 120)) - (RAIL_ROW + 2 - GATE_ROW)), pt_x (ports_at 120)] \<in> set long_nets"
    unfolding long_nets_def list.set by blast+
  have lamps: "fits (flare (last (route [pt_out (ports_at 40), descend (pt_out (ports_at 40)) RAIL_ROW, (RAIL_ROW, GATES ! 1 - 12)])))"
    "fits (flare (last (route [pt_out (ports_at 120), descend (pt_out (ports_at 120)) (RAIL_ROW + 4), (RAIL_ROW + 4, int GRID_W - 3)])))"
    using lamps_fit unfolding long_nets_def nth_Cons_numeral nth_Cons_0 numeral_2_eq_2 numeral_3_eq_3 nth_Cons_Suc
    by blast+
  have "\<exists>b. circuit = Inr b \<and> sized b"
    unfolding circuit_def Let_def
    apply (rule bindE_ok [OF lay_sized [OF start]], simp only: if_True ring_nets, rule ring_nets)
    apply (rule bindE_ok [OF lay_sized], assumption, simp only: if_True ring_nets, rule ring_nets)
    apply (rule bindE_ok [OF lay_long_sized], assumption, rule long)
    apply (rule bindE_ok [OF lay_long_sized], assumption, rule long)
    apply (rule bindE_gate [OF gates_sized(1)], assumption)
    apply (rule bindE_gate [OF gates_sized(2)], assumption)
    apply (rule bindE_gate [OF gates_sized(3)], assumption)
    apply (rule bindE_ok [OF lay_checked_sized], assumption, rule drop_wires)
    apply (rule bindE_ok [OF lay_checked_sized], assumption, rule drop_wires)
    apply (rule bindE_ok [OF lay_checked_sized], assumption, rule drop_wires)
    apply (rule bindE_ok [OF diodes_sized(1)], assumption)
    apply (rule bindE_ok [OF lay_checked_sized], assumption, rule rise_wires)
    apply (rule bindE_ok [OF lay_checked_sized], assumption, rule rise_wires)
    apply (rule bindE_ok [OF diodes_sized(2)], assumption)
    apply (rule bindE_ok [OF lay_long_sized], assumption, rule long)
    apply (rule bindE_ok [OF lay_long_sized], assumption, rule long)
    apply (rule bindE_ok [OF add_cells_sized], assumption, rule lamps)
    apply (rule bindE_ok [OF add_cells_sized], assumption, rule lamps)
    apply (rule lay_long_sized, assumption, rule long)
    done
  then show ?thesis by (simp add: sized_def)
qed

section \<open>The orbit\<close>

definition PERIOD :: nat where "PERIOD = 72"
definition WARMUP :: nat where "WARMUP = 300"

text \<open>\<open>orbit\<close> after the board is seeded; missing the cycle raises, here \<open>None\<close>.\<close>

definition orbit_of :: "nat \<Rightarrow> nat \<Rightarrow> nat \<Rightarrow> nat \<Rightarrow> grid \<Rightarrow> grid list option" where
  "orbit_of h w warmup period start =
     (let g = (ww_step h w ^^ warmup) start;
          frames = map (\<lambda>k. (ww_step h w ^^ k) g) [0..<period];
          g = (ww_step h w ^^ period) g
      in if list_all (\<lambda>c. g c = (frames ! 0) c) (grid_cells h w) then Some frames else None)"

definition orbit :: "board_error + grid list option" where
  "orbit = bindE circuit (\<lambda>b.
     Inr (orbit_of GRID_H GRID_W WARMUP PERIOD (seed ring_b PHASE_B (seed ring_a PHASE_A (bd_g b)))))"

definition frame_index :: "rat \<Rightarrow> rat \<Rightarrow> nat" where
  "frame_index rate t = nat (\<lfloor>t * rate\<rfloor> mod int PERIOD)"

lemma ww_step_outside: "\<not> inside h w c \<Longrightarrow> ww_step h w g c = Empty"
  by (simp add: ww_step_def)

text \<open>
  When \<open>orbit\<close> returns, its frames are a cycle of the automaton: the generation after each frame
  is the next one, and after the last comes the first.
\<close>

theorem orbit_is_a_cycle:
  assumes "orbit_of h w warmup period start = Some frames" "0 < warmup" "i < period"
  shows "length frames = period \<and> ww_step h w (frames ! i) = frames ! ((i + 1) mod period)"
proof -
  define g where "g = (ww_step h w ^^ warmup) start"
  have f: "frames = map (\<lambda>k. (ww_step h w ^^ k) g) [0..<period]"
    and closes: "\<And>c. inside h w c \<Longrightarrow> (ww_step h w ^^ period) g c = (frames ! 0) c"
    using assms(1) by (auto simp: orbit_of_def Let_def g_def list_all_iff set_grid_cells split: if_splits)
  have f0: "frames ! 0 = g" using f assms(3) by simp
  obtain k where "warmup = Suc k" using assms(2) by (cases warmup) auto
  then have "g c = Empty" if "\<not> inside h w c" for c using that by (simp add: g_def ww_step_outside)
  moreover obtain m where "period = Suc m" using assms(3) by (cases period) auto
  then have "(ww_step h w ^^ period) g c = Empty" if "\<not> inside h w c" for c
    using that by (simp add: ww_step_outside)
  ultimately have cycle: "(ww_step h w ^^ period) g = g"
    using closes f0 by (intro ext) (metis (full_types))
  have next_frame: "ww_step h w (frames ! i) = (ww_step h w ^^ (i + 1)) g"
    using f assms(3) by simp
  show ?thesis
  proof (cases "i + 1 < period")
    case True
    then show ?thesis using f next_frame by simp
  next
    case False
    then have "i + 1 = period" using assms(3) by simp
    then show ?thesis using f next_frame cycle f0 by simp
  qed
qed

theorem orbit_is_a_cycle_witness:
  "let w = \<lambda>c. if c \<in> set ring_a then Wire else Empty
   in \<exists>frames. orbit_of GRID_H GRID_W 24 24 (seed ring_a PHASE_A w) = Some frames
      \<and> ww_step GRID_H GRID_W (frames ! 23) = frames ! 0"
proof -
  let ?g = "seed ring_a PHASE_A (\<lambda>c. if c \<in> set ring_a then Wire else Empty)"
  have c: "(ww_step GRID_H GRID_W ^^ 24) ?g = ?g" using clock_a_period by simp
  then obtain frames where "orbit_of GRID_H GRID_W 24 24 ?g = Some frames"
    by (simp add: orbit_of_def Let_def list_all_iff)
  then show ?thesis
    using orbit_is_a_cycle [of GRID_H GRID_W 24 24 ?g frames 23] by (auto simp: Let_def)
qed

end
