(* ===== verification/FT_Bounce.thy ===== *)
theory FT_Bounce
  imports FT_Timeline FT_Json
begin

unbundle bit_operations_syntax

text \<open>
  The bouncing logo of \<open>src/demos/dvd.py\<close>: the motion in closed form (\<open>fold\<close> and \<open>place\<close> of
  \<open>build\<close>), the choice of velocities from the corner period, the counter and the corner the ring
  comes from. Seconds and pixels are rationals; the local time of day is an argument. Drawing the
  logo, its ghosts and the readout is not modelled.
\<close>

section \<open>Choosing the motion\<close>

fun gcd_loop :: "nat \<Rightarrow> nat \<Rightarrow> nat" where
  "gcd_loop a b = (if b = 0 then a else gcd_loop b (a mod b))"

declare gcd_loop.simps [simp del]

partial_function (option) next_coprime :: "nat \<Rightarrow> nat \<Rightarrow> nat option" where
  "next_coprime p q = (if gcd_loop p q \<noteq> 1 then next_coprime (p + 1) q else Some p)"

definition fold_back :: "rat \<Rightarrow> rat \<Rightarrow> rat" where
  "fold_back u s = \<bar>fmod (u + s) (2 * s) - s\<bar>"

record dvd_args =
  dv_period :: rat
  dv_sweeps :: int
  dv_bounces :: int
  dv_epoch :: rat
  dv_hit_offset :: rat
  dv_celebrate :: rat

record bounce =
  bn_Sx :: rat
  bn_Sy :: rat
  bn_T :: rat
  bn_q :: nat
  bn_p :: nat
  bn_vx :: rat
  bn_vy :: rat
  bn_base :: rat
  bn_h0 :: rat
  bn_midnight :: rat
  bn_before :: int
  bn_celeb :: rat

text \<open>
  The panel is \<open>W\<close> by \<open>H\<close>, the logo \<open>lw\<close> by \<open>lh\<close>; \<open>now\<close> is \<open>time.time()\<close> and \<open>clock_of\<close> the
  seconds since local midnight that \<open>time.localtime\<close> gives.
\<close>

definition dvd_build :: "int \<Rightarrow> int \<Rightarrow> int \<Rightarrow> int \<Rightarrow> rat \<Rightarrow> (rat \<Rightarrow> nat) \<Rightarrow> dvd_args \<Rightarrow> bounce option" where
  "dvd_build W H lw lh now clock_of ag =
     (let Sx = of_int (max 1 (W - lw)); Sy = of_int (max 1 (H - lh));
          T = max 1 (dv_period ag);
          q = nat (max 1 (dv_sweeps ag)); p = nat (max 1 (dv_bounces ag))
      in case (if gcd_loop p q \<noteq> 1 then next_coprime p q else Some p) of
           None \<Rightarrow> None
         | Some p \<Rightarrow>
             (let base = (if dv_epoch ag < 0 then now else dv_epoch ag);
                  h0 = dv_hit_offset ag;
                  midnight = base - of_nat (clock_of base)
              in Some \<lparr>bn_Sx = Sx, bn_Sy = Sy, bn_T = T, bn_q = q, bn_p = p,
                       bn_vx = Sx * of_nat q / T, bn_vy = Sy * of_nat p / T,
                       bn_base = base, bn_h0 = h0, bn_midnight = midnight,
                       bn_before = \<lfloor>(midnight - h0) / T\<rfloor>, bn_celeb = max 0 (dv_celebrate ag)\<rparr>))"

section \<open>One frame\<close>

definition place_at :: "bounce \<Rightarrow> rat \<Rightarrow> rat \<times> rat \<times> int" where
  "place_at b u =
     (fold_back (u * bn_vx b) (bn_Sx b), fold_back (u * bn_vy b) (bn_Sy b),
      \<lfloor>u * bn_vx b / bn_Sx b\<rfloor> + \<lfloor>u * bn_vy b / bn_Sy b\<rfloor>)"

definition run_time :: "bounce \<Rightarrow> rat \<Rightarrow> rat" where
  "run_time b t = (bn_base b + t) - bn_h0 b"

definition hits :: "bounce \<Rightarrow> rat \<Rightarrow> int" where
  "hits b u = \<lfloor>u / bn_T b\<rfloor>"

definition since_hit :: "bounce \<Rightarrow> rat \<Rightarrow> rat" where
  "since_hit b u = u - of_int (hits b u) * bn_T b"

definition corner_count :: "bounce \<Rightarrow> rat \<Rightarrow> int" where
  "corner_count b u = max 0 (hits b u - bn_before b)"

text \<open>Minutes and seconds since the last hit, as the readout shows them.\<close>

definition since_clock :: "bounce \<Rightarrow> rat \<Rightarrow> int \<times> int" where
  "since_clock b u = (let secs = \<lfloor>since_hit b u\<rfloor> in (secs div 60, secs mod 60))"

definition logo_colour :: "bounce \<Rightarrow> rat \<Rightarrow> int" where
  "logo_colour b u = (let (x, y, bounces) = place_at b u in bounces mod 9)"

definition logo_flash :: "bounce \<Rightarrow> rat \<Rightarrow> bool" where
  "logo_flash b u \<longleftrightarrow> 0 < bn_celeb b \<and> since_hit b u < bn_celeb b * (22 / 100)"

definition celebrating :: "bounce \<Rightarrow> rat \<Rightarrow> bool" where
  "celebrating b u \<longleftrightarrow> 0 < bn_celeb b \<and> since_hit b u < bn_celeb b"

definition ring_corner :: "bounce \<Rightarrow> rat \<Rightarrow> int \<times> int" where
  "ring_corner b u = ((hits b u * int (bn_q b)) AND 1, (hits b u * int (bn_p b)) AND 1)"

text \<open>Where the logo is drawn.\<close>

definition logo_at :: "bounce \<Rightarrow> rat \<Rightarrow> int \<times> int" where
  "logo_at b u = (let (x, y, _) = place_at b u in (py_round y, py_round x))"

text \<open>The part of a mask that \<open>blit\<close> draws, as rows and columns of the panel.\<close>

definition blit_box :: "int \<Rightarrow> int \<Rightarrow> int \<Rightarrow> int \<Rightarrow> int \<Rightarrow> int \<Rightarrow> (int \<times> int \<times> int \<times> int) option" where
  "blit_box W H mw mh y x =
     (let y0 = max 0 y; x0 = max 0 x; y1 = min H (y + mh); x1 = min W (x + mw)
      in if y1 \<le> y0 \<or> x1 \<le> x0 then None else Some (y0, x0, y1, x1))"

section \<open>The loops\<close>

lemma gcd_loop_gcd: "gcd_loop a b = gcd a b"
proof (induction a b rule: gcd_loop.induct)
  case (1 a b)
  then show ?case
    using gcd_red_nat [of a b] by (subst gcd_loop.simps) simp
qed

text \<open>From any \<open>p\<close> the loop meets a number that leaves 1 modulo \<open>q\<close> within \<open>q\<close> steps.\<close>

lemma next_coprime_found:
  assumes "0 < q"
  shows "\<exists>p'. next_coprime p q = Some p' \<and> p \<le> p' \<and> coprime p' q \<and> (\<forall>r. p \<le> r \<and> r < p' \<longrightarrow> \<not> coprime r q)"
proof -
  have "p + (p * (q - 1) + 1) = p * q + 1" using assms by (cases q) simp_all
  then have "coprime (p + (p * (q - 1) + 1)) q"
    using gcd_add_mult [of q p 1] by (simp add: coprime_iff_gcd_eq_1 gcd.commute)
  then have "\<exists>k. coprime (p + k) q" by blast
  then have "coprime (p + (LEAST k. coprime (p + k) q)) q" by (rule LeastI_ex)
  moreover have "\<not> coprime (p + k) q" if "k < (LEAST k. coprime (p + k) q)" for k
    using that by (rule not_less_Least)
  ultimately obtain n where n: "coprime (p + n) q" "\<forall>k < n. \<not> coprime (p + k) q" by blast
  then have "next_coprime p q = Some (p + n)"
  proof (induction n arbitrary: p)
    case 0
    then show ?case by (simp add: next_coprime.simps [of p q] gcd_loop_gcd coprime_iff_gcd_eq_1)
  next
    case (Suc n)
    have "\<not> coprime p q" using Suc.prems(2) by (metis add_0_right zero_less_Suc)
    moreover have "next_coprime (p + 1) q = Some (p + 1 + n)"
      using Suc.prems by (intro Suc.IH) (simp, metis Suc_less_eq add.assoc plus_1_eq_Suc)
    ultimately show ?case by (simp add: next_coprime.simps [of p q] gcd_loop_gcd coprime_iff_gcd_eq_1)
  qed
  moreover have "\<forall>r. p \<le> r \<and> r < p + n \<longrightarrow> \<not> coprime r q"
    using n(2) by (metis add_less_cancel_left le_Suc_ex)
  ultimately show ?thesis using n(1) by (intro exI [of _ "p + n"]) simp
qed

section \<open>The triangle wave\<close>

text \<open>The fold of \<open>w\<close> traverses of the span, as a fraction of it.\<close>

lemma fold_back_scale:
  assumes "0 < s"
  shows "fold_back (s * w) s = s * fold_back w 1"
proof -
  have "(s * w + s) / (2 * s) = (w + 1) / 2" using assms by (simp add: field_simps)
  then have "fmod (s * w + s) (2 * s) = s * w + s - 2 * s * of_int \<lfloor>(w + 1) / 2\<rfloor>" by (simp only: fmod_def)
  also have "\<dots> = s * fmod (w + 1) 2" by (simp add: fmod_def algebra_simps)
  finally have "fmod (s * w + s) (2 * s) = s * fmod (w + 1) 2" .
  then have "fold_back (s * w) s = \<bar>s * (fmod (w + 1) 2 - 1)\<bar>"
    by (simp add: fold_back_def right_diff_distrib)
  then show ?thesis using assms by (simp add: fold_back_def abs_mult)
qed

lemma fold_back_unit:
  obtains k :: int and r :: rat where "w = 2 * of_int k - 1 + r" "0 \<le> r" "r < 2" "fold_back w 1 = \<bar>r - 1\<bar>"
proof
  show "w = 2 * of_int \<lfloor>(w + 1) / 2\<rfloor> - 1 + fmod (w + 1) 2" by (simp add: fmod_def)
  show "0 \<le> fmod (w + 1) 2" "fmod (w + 1) 2 < 2" by (simp_all add: fmod_range)
  show "fold_back w 1 = \<bar>fmod (w + 1) 2 - 1\<bar>" by (simp add: fold_back_def)
qed

lemma fold_back_range: "0 < s \<Longrightarrow> 0 \<le> fold_back u s \<and> fold_back u s \<le> s"
  using fmod_range [of "2 * s" "u + s"] by (auto simp: fold_back_def)

lemma fold_back_int: "fold_back (of_int n) 1 = (if even n then 0 else 1)"
proof (cases "even n")
  case True
  then obtain k where "n = 2 * k" by auto
  then have "fmod (of_int n + 1) 2 = fmod (1 + 2 * of_int k) 2" by (simp add: add.commute)
  then show ?thesis using True by (simp add: fold_back_def fmod_shift fmod_id)
next
  case False
  then obtain k where "n = 2 * k + 1" by (auto elim: oddE)
  then have "fmod (of_int n + 1) 2 = fmod (0 + 2 * of_int (k + 1)) 2" by (simp add: algebra_simps)
  also have "\<dots> = fmod 0 2" by (rule fmod_shift) simp
  finally show ?thesis using False by (simp add: fold_back_def fmod_id)
qed

text \<open>The logo touches an edge exactly when a whole number of traverses is done.\<close>

lemma fold_back_edge: "fold_back w 1 = 0 \<or> fold_back w 1 = 1 \<longleftrightarrow> w \<in> \<int>"
proof
  assume e: "fold_back w 1 = 0 \<or> fold_back w 1 = 1"
  obtain k r where w: "w = 2 * of_int k - 1 + r" "0 \<le> r" "r < 2" "fold_back w 1 = \<bar>r - 1\<bar>"
    by (rule fold_back_unit)
  then have "r = 1 \<or> r = 0" using e by auto
  then have "w = of_int (2 * k) \<or> w = of_int (2 * k - 1)" using w(1) by auto
  then show "w \<in> \<int>" by auto
next
  assume "w \<in> \<int>"
  then obtain n where "w = of_int n" by (elim Ints_cases)
  then show "fold_back w 1 = 0 \<or> fold_back w 1 = 1" by (simp add: fold_back_int)
qed

text \<open>Two integers without a common factor have a common multiple of \<open>x\<close> only when \<open>x\<close> is whole.\<close>

lemma coprime_traverses:
  fixes x :: rat
  assumes "coprime p q" "of_nat q * x \<in> \<int>" "of_nat p * x \<in> \<int>"
  shows "x \<in> \<int>"
proof -
  obtain a b where "a * int p + b * int q = 1"
    using bezout_int [of "int p" "int q"] assms(1) by (auto simp: coprime_iff_gcd_eq_1)
  then have "of_int a * of_nat p + of_int b * of_nat q = (1 :: rat)"
    by (metis of_int_1 of_int_add of_int_mult of_int_of_nat_eq)
  then have "x = of_int a * (of_nat p * x) + of_int b * (of_nat q * x)"
    by (metis (no_types, lifting) mult.assoc mult_1 ring_class.ring_distribs(2))
  then show ?thesis using assms(2,3) by (metis Ints_add Ints_mult Ints_of_int)
qed

text \<open>The fold is the distance to the nearest even number, so it never jumps.\<close>

lemma fold_back_nearest: "fold_back w 1 \<le> \<bar>w - 2 * of_int k\<bar>" "\<exists>k. fold_back w 1 = \<bar>w - 2 * of_int k\<bar>"
proof -
  obtain j r where w: "w = 2 * of_int j - 1 + r" "0 \<le> r" "r < 2" "fold_back w 1 = \<bar>r - 1\<bar>"
    by (rule fold_back_unit)
  have "w - 2 * of_int j = r - 1" using w(1) by simp
  then show "\<exists>k. fold_back w 1 = \<bar>w - 2 * of_int k\<bar>" using w(4) by metis
  have "k \<le> j - 1 \<or> k = j \<or> j + 1 \<le> k" by linarith
  then have "of_int k \<le> (of_int j - 1 :: rat) \<or> k = j \<or> of_int j + 1 \<le> (of_int k :: rat)"
    by (metis of_int_1 of_int_add of_int_diff of_int_le_iff)
  then show "fold_back w 1 \<le> \<bar>w - 2 * of_int k\<bar>" using w by (auto simp: abs_if split: if_splits)
qed

lemma fold_back_lipschitz: "\<bar>fold_back v 1 - fold_back w 1\<bar> \<le> \<bar>v - w\<bar>"
proof -
  have le: "fold_back v 1 \<le> fold_back w 1 + \<bar>v - w\<bar>" for v w
  proof -
    obtain k where "fold_back w 1 = \<bar>w - 2 * of_int k\<bar>" using fold_back_nearest(2) by blast
    then show ?thesis using fold_back_nearest(1) [of v k] by (simp add: abs_if split: if_splits)
  qed
  from le [of v w] le [of w v] show ?thesis by (simp add: abs_minus_commute abs_le_iff)
qed

section \<open>What the build chooses\<close>

definition bounce_ok :: "bounce \<Rightarrow> bool" where
  "bounce_ok b \<longleftrightarrow> 0 < bn_Sx b \<and> 0 < bn_Sy b \<and> 0 < bn_T b \<and> coprime (bn_p b) (bn_q b)
     \<and> bn_vx b = bn_Sx b * of_nat (bn_q b) / bn_T b \<and> bn_vy b = bn_Sy b * of_nat (bn_p b) / bn_T b
     \<and> bn_before b = \<lfloor>(bn_midnight b - bn_h0 b) / bn_T b\<rfloor>"

lemma coprime_bounces:
  assumes "0 < q"
  shows "\<exists>p'. (if gcd_loop p q \<noteq> 1 then next_coprime p q else Some p) = Some p' \<and> coprime p' q"
proof (cases "gcd_loop p q = 1")
  case True
  then show ?thesis by (simp add: gcd_loop_gcd coprime_iff_gcd_eq_1)
next
  case False
  then show ?thesis using next_coprime_found [OF assms, of p] by auto
qed

lemma dvd_build_ok:
  "\<exists>b. dvd_build W H lw lh now clock_of ag = Some b \<and> bounce_ok b \<and> bn_T b = max 1 (dv_period ag)
     \<and> bn_Sx b = of_int (max 1 (W - lw)) \<and> bn_Sy b = of_int (max 1 (H - lh))"
proof -
  let ?q = "nat (max 1 (dv_sweeps ag))" and ?p = "nat (max 1 (dv_bounces ag))"
  obtain p where p: "(if gcd_loop ?p ?q \<noteq> 1 then next_coprime ?p ?q else Some ?p) = Some p" "coprime p ?q"
    using coprime_bounces [of ?q ?p] by (meson max.strict_coboundedI1 zero_less_nat_eq zero_less_one)
  have pos: "0 < (of_int (max 1 n) :: rat)" "0 < max 1 (dv_period ag)" for n
    by (simp_all add: less_max_iff_disj)
  show ?thesis
    unfolding dvd_build_def Let_def p(1) option.case
    by (intro exI conjI, rule refl) (simp_all only: bounce_ok_def bounce.simps pos p(2) simp_thms)
qed

text \<open>The position in traverses of the two axes, \<open>u / T\<close> periods after the hit.\<close>

lemma place_traverses:
  fixes u :: rat
  assumes "bounce_ok b"
  defines "x \<equiv> of_nat (bn_q b) * (u / bn_T b)" and "y \<equiv> of_nat (bn_p b) * (u / bn_T b)"
  shows "place_at b u = (bn_Sx b * fold_back x 1, bn_Sy b * fold_back y 1, \<lfloor>x\<rfloor> + \<lfloor>y\<rfloor>)"
proof -
  have "u * bn_vx b = bn_Sx b * x" "u * bn_vy b = bn_Sy b * y"
    using assms by (simp_all add: bounce_ok_def)
  moreover have "0 < bn_Sx b" "0 < bn_Sy b" using assms(1) by (simp_all add: bounce_ok_def)
  ultimately show ?thesis by (simp add: place_at_def fold_back_scale)
qed

section \<open>Corners\<close>

definition in_corner :: "bounce \<Rightarrow> rat \<Rightarrow> bool" where
  "in_corner b u \<longleftrightarrow> (let (x, y, _) = place_at b u in (x = 0 \<or> x = bn_Sx b) \<and> (y = 0 \<or> y = bn_Sy b))"

lemma in_corner_iff:
  assumes "bounce_ok b"
  shows "in_corner b u \<longleftrightarrow> u / bn_T b \<in> \<int>"
proof -
  let ?x = "of_nat (bn_q b) * (u / bn_T b)" and ?y = "of_nat (bn_p b) * (u / bn_T b)"
  have S: "bn_Sx b \<noteq> 0" "bn_Sy b \<noteq> 0" using assms by (auto simp: bounce_ok_def)
  then have "in_corner b u \<longleftrightarrow> ?x \<in> \<int> \<and> ?y \<in> \<int>"
    by (simp add: in_corner_def place_traverses [OF assms] fold_back_edge [symmetric])
  moreover have "?x \<in> \<int> \<and> ?y \<in> \<int> \<longleftrightarrow> u / bn_T b \<in> \<int>"
    using coprime_traverses [of "bn_p b" "bn_q b" "u / bn_T b"] assms Ints_mult [OF Ints_of_nat, of "u / bn_T b"]
    unfolding bounce_ok_def by blast
  ultimately show ?thesis by blast
qed

lemma whole_periods: "0 < m \<Longrightarrow> u / m \<in> \<int> \<longleftrightarrow> (\<exists>k. u = of_int k * (m :: rat))"
  by (auto simp: field_simps elim!: Ints_cases)

text \<open>
  C16. A corner is hit every period and never in between: whatever numbers of crossings are asked for,
  building ends (with the next number of bounces that has no factor in common with the sweeps),
  and the logo is flush in a corner of the panel exactly at the whole multiples of the period.
\<close>

theorem corner_every_period:
  "\<exists>b. dvd_build W H lw lh now clock_of ag = Some b \<and>
     (\<forall>u. in_corner b u \<longleftrightarrow> (\<exists>k. u = of_int k * max 1 (dv_period ag)))"
proof -
  obtain b where b: "dvd_build W H lw lh now clock_of ag = Some b" "bounce_ok b" "bn_T b = max 1 (dv_period ag)"
    using dvd_build_ok by blast
  have "in_corner b u \<longleftrightarrow> (\<exists>k. u = of_int k * max 1 (dv_period ag))" for u
    using in_corner_iff [OF b(2), of u] whole_periods [of "bn_T b" u] b(2,3) by (simp add: bounce_ok_def)
  then show ?thesis using b(1) by blast
qed

lemma ring_parity:
  assumes "bounce_ok b"
  shows "place_at b (of_int (hits b u) * bn_T b) =
    (of_int (fst (ring_corner b u)) * bn_Sx b, of_int (snd (ring_corner b u)) * bn_Sy b,
     hits b u * int (bn_q b) + hits b u * int (bn_p b))"
proof -
  let ?k = "hits b u"
  have T: "bn_T b \<noteq> 0" using assms by (simp add: bounce_ok_def)
  have fold: "fold_back (of_nat n * of_int ?k) 1 = of_int (?k * int n AND 1)" for n
  proof -
    have "fold_back (of_nat n * of_int ?k) 1 = fold_back (of_int (?k * int n)) 1" by (simp add: mult.commute)
    then show ?thesis unfolding fold_back_int by (simp add: and_one_eq mod2_eq_if)
  qed
  have "\<lfloor>of_nat n * of_int ?k :: rat\<rfloor> = ?k * int n" for n
    using floor_of_int [of "?k * int n", where ?'a = rat] by (simp add: mult.commute)
  then show ?thesis
    using T by (simp add: place_traverses [OF assms] fold ring_corner_def)
qed

lemma hits_between:
  assumes "bounce_ok b" "bn_midnight b \<le> bn_base b + t"
  shows "corner_count b (run_time b t) =
    int (card {k. bn_midnight b < bn_h0 b + of_int k * bn_T b \<and> bn_h0 b + of_int k * bn_T b \<le> bn_base b + t})"
proof -
  have T: "0 < bn_T b" using assms(1) by (simp add: bounce_ok_def)
  have "of_int k * bn_T b \<le> w \<longleftrightarrow> k \<le> \<lfloor>w / bn_T b\<rfloor>" for k w
    using T by (simp add: le_floor_iff pos_le_divide_eq)
  from this [of _ "bn_base b + t - bn_h0 b"] this [of _ "bn_midnight b - bn_h0 b"]
  have "{k. bn_midnight b < bn_h0 b + of_int k * bn_T b \<and> bn_h0 b + of_int k * bn_T b \<le> bn_base b + t}
      = {bn_before b <.. hits b (run_time b t)}"
    using assms(1) by (auto simp: hits_def run_time_def bounce_ok_def algebra_simps not_le [symmetric])
  then show ?thesis by (simp add: corner_count_def)
qed

text \<open>
  The ring leaves the corner that was hit: \<open>ring_corner\<close>, computed from the parities alone, names
  the corner the logo was in at the last hit, and the number of hits counted is the number of
  times a corner was hit since midnight.
\<close>

theorem ring_leaves_the_corner_hit:
  "\<exists>b. dvd_build W H lw lh now clock_of ag = Some b \<and>
     (let u = run_time b t; (i, j) = ring_corner b u; (x, y, _) = place_at b (of_int (hits b u) * bn_T b)
      in x = of_int i * bn_Sx b \<and> y = of_int j * bn_Sy b \<and> i \<in> {0, 1} \<and> j \<in> {0, 1}) \<and>
     corner_count b (run_time b t) = (if bn_midnight b \<le> bn_base b + t then
       int (card {k. bn_midnight b < bn_h0 b + of_int k * bn_T b \<and> bn_h0 b + of_int k * bn_T b \<le> bn_base b + t})
       else 0)"
proof -
  obtain b where b: "dvd_build W H lw lh now clock_of ag = Some b" "bounce_ok b"
    using dvd_build_ok by blast
  have "fst (ring_corner b u) \<in> {0, 1} \<and> snd (ring_corner b u) \<in> {0, 1}" for u
    by (auto simp: ring_corner_def and_one_eq)
  moreover have "corner_count b (run_time b t) = 0" if "\<not> bn_midnight b \<le> bn_base b + t"
  proof -
    have "(run_time b t) / bn_T b \<le> (bn_midnight b - bn_h0 b) / bn_T b"
      using that b(2) by (auto simp: run_time_def bounce_ok_def intro!: divide_right_mono)
    then have "hits b (run_time b t) \<le> bn_before b" using b(2) floor_mono by (simp add: hits_def bounce_ok_def)
    then show ?thesis by (simp add: corner_count_def)
  qed
  ultimately show ?thesis
    using ring_parity [OF b(2), of "run_time b t"] hits_between [OF b(2), of t] b(1)
    by (intro exI [of _ b]) (auto simp: Let_def case_prod_beta)
qed

section \<open>On the panel\<close>

lemma py_round_range:
  assumes "0 \<le> q" "q \<le> of_int n"
  shows "0 \<le> py_round q \<and> py_round q \<le> n"
proof -
  have "0 \<le> \<lfloor>q\<rfloor>" using assms(1) by simp
  moreover have "\<lfloor>q\<rfloor> < n \<or> q = of_int n" using assms(2) by (auto simp: floor_less_iff)
  ultimately show ?thesis by (auto simp: py_round_def Let_def)
qed

text \<open>
  The logo moves on the panel: at every moment the whole mask is drawn, nothing of it clipped, and
  between two moments it moves on each axis by no more than the speed allows, through every bounce.
\<close>

theorem logo_stays_whole:
  assumes "0 < lw" "lw < W" "0 < lh" "lh < H"
  shows "\<exists>b. dvd_build W H lw lh now clock_of ag = Some b \<and>
    (let (iy, ix) = logo_at b u in blit_box W H lw lh iy ix = Some (iy, ix, iy + lh, ix + lw)) \<and>
    \<bar>fst (place_at b u) - fst (place_at b v)\<bar> \<le> bn_vx b * \<bar>u - v\<bar> \<and>
    \<bar>fst (snd (place_at b u)) - fst (snd (place_at b v))\<bar> \<le> bn_vy b * \<bar>u - v\<bar>"
proof -
  obtain b where b: "dvd_build W H lw lh now clock_of ag = Some b" "bounce_ok b"
      "bn_Sx b = of_int (W - lw)" "bn_Sy b = of_int (H - lh)"
    using dvd_build_ok [of W H lw lh now clock_of ag] assms by (auto simp: max_def)
  have S: "0 < bn_Sx b" "0 < bn_Sy b" using b(2) by (auto simp: bounce_ok_def)
  have round: "0 \<le> py_round (fold_back w s) \<and> py_round (fold_back w s) \<le> n" if "s = of_int n" "0 < s" for w s n
    using fold_back_range [OF that(2), of w] that(1) by (intro py_round_range) auto
  have "blit_box W H lw lh (fst (logo_at b u)) (snd (logo_at b u))
      = Some (fst (logo_at b u), snd (logo_at b u), fst (logo_at b u) + lh, snd (logo_at b u) + lw)"
    using round [OF b(3) S(1), of "u * bn_vx b"] round [OF b(4) S(2), of "u * bn_vy b"] assms
    by (auto simp: logo_at_def place_at_def blit_box_def Let_def)
  moreover have axis: "\<bar>fold_back (u * w) s - fold_back (v * w) s\<bar> \<le> w * \<bar>u - v\<bar>" if "0 < s" "0 \<le> w" for s w
  proof -
    have "fold_back (x * w) s = s * fold_back (x * w / s) 1" for x
      using fold_back_scale [OF that(1), of "x * w / s"] that(1) by simp
    then have "\<bar>fold_back (u * w) s - fold_back (v * w) s\<bar> = s * \<bar>fold_back (u * w / s) 1 - fold_back (v * w / s) 1\<bar>"
      using that(1) by (simp add: abs_mult flip: right_diff_distrib)
    also have "\<dots> \<le> s * \<bar>u * w / s - v * w / s\<bar>"
      using that(1) fold_back_lipschitz by (simp add: mult_left_mono)
    also have "\<dots> = \<bar>w * (u - v)\<bar>"
      using that(1) by (simp add: algebra_simps flip: diff_divide_distrib abs_mult)
    finally show ?thesis using that(2) by (simp add: abs_mult)
  qed
  moreover have "0 \<le> bn_vx b" "0 \<le> bn_vy b" using b(2) by (auto simp: bounce_ok_def)
  ultimately show ?thesis
    using b(1) S by (intro exI [of _ b]) (simp add: place_at_def case_prod_beta Let_def)
qed

theorem logo_stays_whole_witness:
  "\<exists>b. dvd_build 320 64 43 29 0 (\<lambda>_. 0) \<lparr>dv_period = 180, dv_sweeps = 31, dv_bounces = 83, dv_epoch = 41,
      dv_hit_offset = 41, dv_celebrate = 8 / 5\<rparr> = Some b \<and>
    (let (iy, ix) = logo_at b 7 in blit_box 320 64 43 29 iy ix = Some (iy, ix, iy + 29, ix + 43)) \<and>
    \<bar>fst (place_at b 7) - fst (place_at b 9)\<bar> \<le> bn_vx b * \<bar>7 - 9\<bar> \<and>
    \<bar>fst (snd (place_at b 7)) - fst (snd (place_at b 9))\<bar> \<le> bn_vy b * \<bar>7 - 9\<bar>"
  by (rule logo_stays_whole) simp_all

end
