(* ===== verification/FT_Flap.thy ===== *)
theory FT_Flap
  imports FT_Timeline FT_Json
begin

text \<open>
  The departures board of \<open>src/demos/splitflap.py\<close>: the choice of the card size (\<open>geometry\<close>), the
  text a message asks for (\<open>wanted\<close>), and the motion of the cells (\<open>displayed\<close>, \<open>retarget\<close> and the
  loop of \<open>render\<close>). Cards are numbers, a picture of a cell is a value of \<open>face\<close> instead of pixels,
  seconds are rationals, text is ASCII. The random steps and delays of the cells are arguments.
\<close>

section \<open>Card sizes\<close>

definition GW :: nat where "GW = 5"
definition GH :: nat where "GH = 7"

record card_size =
  cs_scale :: nat
  cs_cols :: nat
  cs_card_w :: nat
  cs_card_h :: nat
  cs_cell_w :: nat
  cs_cell_h :: nat

definition cand :: "nat \<Rightarrow> nat \<Rightarrow> card_size" where
  "cand W s =
     (let card_w = GW * s + 2;
          cell_w = card_w + max 1 (s div 2);
          card_h = GH * s + 2 * max 2 (2 * s);
          card_h = card_h - card_h mod 2;
          cell_h = card_h + max 1 s
      in \<lparr>cs_scale = s, cs_cols = W div cell_w, cs_card_w = card_w, cs_card_h = card_h,
          cs_cell_w = cell_w, cs_cell_h = cell_h\<rparr>)"

fun size_loop ::
  "nat \<Rightarrow> nat \<Rightarrow> nat \<Rightarrow> nat \<Rightarrow> nat list \<Rightarrow> card_size option \<times> card_size option \<Rightarrow> card_size option \<times> card_size option" where
  "size_loop W H rows min_cols [] best_fb = best_fb"
| "size_loop W H rows min_cols (s # ss) (best, fallback) =
     (if cs_cols (cand W s) < 1 \<or> H < rows * cs_cell_h (cand W s) then (best, fallback)
      else if min_cols \<le> cs_cols (cand W s) then size_loop W H rows min_cols ss (Some (cand W s), fallback)
      else if best = None then size_loop W H rows min_cols ss (best, Some (cand W s))
      else size_loop W H rows min_cols ss (best, fallback))"

definition geometry :: "nat \<Rightarrow> nat \<Rightarrow> nat \<Rightarrow> nat \<Rightarrow> card_size" where
  "geometry W H rows min_cols =
     (case size_loop W H rows min_cols [1..<9] (None, None) of
        (Some c, _) \<Rightarrow> c
      | (None, Some c) \<Rightarrow> c
      | (None, None) \<Rightarrow> \<lparr>cs_scale = 1, cs_cols = max 1 (W div 8), cs_card_w = GW + 2, cs_card_h = GH + 3,
                         cs_cell_w = GW + 3, cs_cell_h = GH + 4\<rparr>)"

section \<open>What the board should say\<close>

definition ALPHABET :: string where
  "ALPHABET = '' ABCDEFGHIJKLMNOPQRSTUVWXYZ0123456789-.:/'!?,()+*&''"

definition INDEX :: "char \<Rightarrow> nat option" where
  "INDEX c = (if c \<in> set ALPHABET then Some (length (takeWhile (\<lambda>x. x \<noteq> c) ALPHABET)) else None)"

definition NCHARS :: nat where "NCHARS = length ALPHABET"

record local_time =
  lt_hour :: nat
  lt_min :: nat
  lt_mday :: nat
  lt_month :: string

record flap_args =
  fl_messages :: string
  fl_hold :: rat
  fl_rows :: nat
  fl_cols :: nat
  fl_no_settle :: bool
  fl_ampm :: bool

definition messages :: "flap_args \<Rightarrow> string list" where
  "messages ag =
     (let ms = filter (\<lambda>m. strip m \<noteq> []) (split_on (CHR '';'') (fl_messages ag)) in if ms = [] then ['' ''] else ms)"

text \<open>\<open>str.replace\<close> of a text that is not empty.\<close>

function replace_all :: "string \<Rightarrow> string \<Rightarrow> string \<Rightarrow> string" where
  "replace_all old new s =
     (if s = [] \<or> old = [] then s
      else if take (length old) s = old then new @ replace_all old new (drop (length old) s)
      else hd s # replace_all old new (tl s))"
  by pat_completeness auto
termination
  by (relation "measure (\<lambda>(old, new, s). length s)") auto

declare replace_all.simps [simp del]

definition two_digits :: "nat \<Rightarrow> string" where
  "two_digits n = (if n < 10 then ''0'' else []) @ nat_str n"

definition message_text :: "flap_args \<Rightarrow> local_time \<Rightarrow> string \<Rightarrow> string" where
  "message_text ag lt m =
     (if CHR ''{'' \<in> set m then
        let hour = (if fl_ampm ag then if lt_hour lt mod 12 = 0 then 12 else lt_hour lt mod 12 else lt_hour lt)
        in replace_all ''{DATE}'' (two_digits (lt_mday lt) @ '' '' @ upper (lt_month lt))
             (replace_all ''{TIME}'' (two_digits hour @ '':'' @ two_digits (lt_min lt)) m)
      else m)"

definition board_line :: "nat \<Rightarrow> string \<Rightarrow> string" where
  "board_line cols line =
     (let s = take cols (map (\<lambda>c. if INDEX c \<noteq> None then c else CHR '' '') (upper line)); pad = cols - length s
      in replicate (pad div 2) (CHR '' '') @ s @ replicate (pad - pad div 2) (CHR '' ''))"

definition current_message :: "flap_args \<Rightarrow> int \<Rightarrow> string" where
  "current_message ag msg = messages ag ! nat (msg mod int (length (messages ag)))"

definition wanted :: "flap_args \<Rightarrow> local_time \<Rightarrow> int \<Rightarrow> string list" where
  "wanted ag lt msg =
     (let lines = split_on (CHR ''|'') (message_text ag lt (current_message ag msg))
      in map (\<lambda>r. board_line (fl_cols ag) (if r < length lines then lines ! r else [])) [0..<fl_rows ag])"

section \<open>The cells\<close>

text \<open>
  What a cell shows: nothing yet, a card at rest, a card seating (drawn one pixel down), or the
  flap between one card and the next at a fraction of its fall.
\<close>

datatype face = Dark | Card nat | Seating nat | Turning nat nat rat

record flap_cell =
  fc_cur :: nat
  fc_src :: nat
  fc_steps :: nat
  fc_t0 :: rat
  fc_tgt :: nat
  fc_land :: rat
  fc_dirty :: bool
  fc_view :: face

record motor =
  mo_step :: rat
  mo_delay :: rat

definition SETTLE :: rat where "SETTLE = 55 / 1000"

definition new_cell :: flap_cell where
  "new_cell = \<lparr>fc_cur = 0, fc_src = 0, fc_steps = 0, fc_t0 = 0, fc_tgt = 0, fc_land = 0, fc_dirty = True, fc_view = Dark\<rparr>"

definition displayed :: "motor \<Rightarrow> rat \<Rightarrow> flap_cell \<Rightarrow> nat" where
  "displayed mo t c =
     (if fc_steps c = 0 then fc_cur c
      else let k = (t - fc_t0 c) / mo_step mo in
        if k \<le> 0 then fc_src c
        else if of_nat (fc_steps c) \<le> k then fc_cur c
        else (fc_src c + nat \<lfloor>k\<rfloor>) mod NCHARS)"

definition retarget_cell :: "motor \<Rightarrow> rat \<Rightarrow> nat \<Rightarrow> flap_cell \<Rightarrow> flap_cell" where
  "retarget_cell mo t new c =
     (if new = fc_tgt c then c
      else
        let shown = displayed mo t c;
            steps = nat ((int new - int shown) mod int NCHARS);
            c = c\<lparr>fc_tgt := new, fc_src := shown, fc_steps := steps,
                   fc_t0 := t + (if steps \<noteq> 0 then mo_delay mo else 0)\<rparr>;
            c = (if steps = 0 then c\<lparr>fc_cur := new, fc_land := t\<rparr> else c)
        in c\<lparr>fc_dirty := True\<rparr>)"

text \<open>The body of the loop of \<open>render\<close>: is the cell busy, and the cell as drawn.\<close>

definition rest_cell :: "bool \<Rightarrow> rat \<Rightarrow> flap_cell \<Rightarrow> flap_cell" where
  "rest_cell no_settle t c =
     (if fc_dirty c \<or> (\<not> no_settle \<and> t - fc_land c < SETTLE) then
        if \<not> no_settle \<and> 0 \<le> t - fc_land c \<and> t - fc_land c < SETTLE
        then c\<lparr>fc_view := Seating (fc_cur c), fc_dirty := True\<rparr>
        else c\<lparr>fc_view := Card (fc_cur c), fc_dirty := False\<rparr>
      else c)"

definition draw_cell :: "bool \<Rightarrow> motor \<Rightarrow> rat \<Rightarrow> flap_cell \<Rightarrow> bool \<times> flap_cell" where
  "draw_cell no_settle mo t c =
     (if fc_steps c \<noteq> 0 then
        let k = (t - fc_t0 c) / mo_step mo in
        if of_nat (fc_steps c) \<le> k then
          (False, rest_cell no_settle t (c\<lparr>fc_cur := fc_tgt c, fc_steps := 0, fc_land := t, fc_dirty := True\<rparr>))
        else if 0 \<le> k then
          let a = (fc_src c + nat \<lfloor>k\<rfloor>) mod NCHARS; b = (a + 1) mod NCHARS
          in (True, c\<lparr>fc_view := Turning a b (k - of_int \<lfloor>k\<rfloor>)\<rparr>)
        else (True, rest_cell no_settle t c)
      else (False, rest_cell no_settle t c))"

section \<open>The board\<close>

record flap_board =
  fb_cells :: "flap_cell list"
  fb_msg :: int
  fb_next :: rat
  fb_sec :: int

definition new_flap_board :: "flap_args \<Rightarrow> flap_board" where
  "new_flap_board ag = \<lparr>fb_cells = replicate (fl_rows ag * fl_cols ag) new_cell, fb_msg = -1, fb_next = 0, fb_sec = -1\<rparr>"

text \<open>The card of cell \<open>i\<close>: the lookups may raise, which is \<open>None\<close>.\<close>

definition card_for :: "flap_args \<Rightarrow> string list \<Rightarrow> nat \<Rightarrow> nat option" where
  "card_for ag want i =
     (let r = i div fl_cols ag; c = i mod fl_cols ag
      in if r < length want \<and> c < length (want ! r) then INDEX (want ! r ! c) else None)"

definition retarget :: "flap_args \<Rightarrow> motor list \<Rightarrow> rat \<Rightarrow> string list \<Rightarrow> flap_cell list \<Rightarrow> flap_cell list option" where
  "retarget ag motors t want cells =
     (if \<exists>i < fl_rows ag * fl_cols ag. card_for ag want i = None then None
      else Some (map (\<lambda>i. retarget_cell (motors ! i) t (the (card_for ag want i)) (cells ! i)) [0..<fl_rows ag * fl_cols ag]))"

definition draw_cells :: "flap_args \<Rightarrow> motor list \<Rightarrow> rat \<Rightarrow> flap_board \<Rightarrow> flap_board" where
  "draw_cells ag motors t b =
     (let drawn = map (\<lambda>i. draw_cell (fl_no_settle ag) (motors ! i) t (fb_cells b ! i)) [0..<fl_rows ag * fl_cols ag];
          busy = list_ex fst drawn
      in b\<lparr>fb_cells := map snd drawn,
           fb_next := (if \<not> busy \<and> 10 ^ 17 < fb_next b then t + fl_hold ag else fb_next b)\<rparr>)"

definition flap_frame ::
  "flap_args \<Rightarrow> motor list \<Rightarrow> (rat \<Rightarrow> local_time) \<Rightarrow> rat \<Rightarrow> rat \<Rightarrow> flap_board \<Rightarrow> flap_board option" where
  "flap_frame ag motors localtime now t b =
     map_option (draw_cells ag motors t)
       (if fb_msg b < 0 \<or> fb_next b \<le> t then
          map_option (\<lambda>cs. b\<lparr>fb_msg := fb_msg b + 1, fb_next := 10 ^ 18, fb_cells := cs\<rparr>)
            (retarget ag motors t (wanted ag (localtime now) (fb_msg b + 1)) (fb_cells b))
        else if CHR ''{'' \<in> set (current_message ag (fb_msg b)) \<and> \<lfloor>now\<rfloor> \<noteq> fb_sec b then
          map_option (\<lambda>cs. b\<lparr>fb_sec := \<lfloor>now\<rfloor>, fb_cells := cs\<rparr>)
            (retarget ag motors t (wanted ag (localtime now) (fb_msg b)) (fb_cells b))
        else Some b)"

text \<open>A sequence of frames, each with the wall clock and its own time.\<close>

fun flap_run ::
  "flap_args \<Rightarrow> motor list \<Rightarrow> (rat \<Rightarrow> local_time) \<Rightarrow> (rat \<times> rat) list \<Rightarrow> flap_board \<Rightarrow> flap_board option" where
  "flap_run ag motors localtime [] b = Some b"
| "flap_run ag motors localtime ((now, t) # ts) b =
     Option.bind (flap_frame ag motors localtime now t b) (flap_run ag motors localtime ts)"

lemma flap_run_append:
  "flap_run ag motors localtime (xs @ ys) b =
     Option.bind (flap_run ag motors localtime xs b) (flap_run ag motors localtime ys)"
  by (induction xs arbitrary: b) (auto split: Option.bind_split)

section \<open>Letters\<close>

lemma nchars [simp]: "NCHARS = 50"
  by (simp add: NCHARS_def ALPHABET_def)

lemma index_less: "INDEX c = Some i \<Longrightarrow> i < NCHARS"
proof -
  assume a: "INDEX c = Some i"
  then have "c \<in> set ALPHABET" by (simp add: INDEX_def split: if_splits)
  then have "dropWhile (\<lambda>x. x \<noteq> c) ALPHABET \<noteq> []" by (auto simp: dropWhile_eq_Nil_conv)
  then have "0 < length (dropWhile (\<lambda>x. x \<noteq> c) ALPHABET)" by blast
  moreover have "length (takeWhile (\<lambda>x. x \<noteq> c) ALPHABET) + length (dropWhile (\<lambda>x. x \<noteq> c) ALPHABET) = NCHARS"
    by (metis NCHARS_def length_append takeWhile_dropWhile_id)
  ultimately have "length (takeWhile (\<lambda>x. x \<noteq> c) ALPHABET) < NCHARS" by linarith
  then show ?thesis using a by (auto simp: INDEX_def simp del: nchars split: if_splits)
qed

lemma space_card: "INDEX (CHR '' '') = Some 0"
  by (simp add: INDEX_def ALPHABET_def)

lemma board_line_ok: "length (board_line cols line) = cols \<and> (\<forall>c \<in> set (board_line cols line). INDEX c \<noteq> None)"
  by (auto simp: board_line_def Let_def space_card dest!: in_set_takeD)

lemma wanted_cards:
  assumes "i < fl_rows ag * fl_cols ag"
  shows "card_for ag (wanted ag lt msg) i \<noteq> None"
proof -
  let ?r = "i div fl_cols ag" and ?c = "i mod fl_cols ag"
  have "0 < fl_cols ag" using assms by (cases "fl_cols ag") auto
  then have r: "?r < fl_rows ag" "?c < fl_cols ag" using assms by (simp_all add: less_mult_imp_div_less)
  then obtain line where line: "wanted ag lt msg ! ?r = board_line (fl_cols ag) line"
    by (simp add: wanted_def Let_def)
  moreover have "length (wanted ag lt msg) = fl_rows ag" by (simp add: wanted_def Let_def)
  ultimately show ?thesis
    using r board_line_ok [of "fl_cols ag" line] by (simp add: card_for_def)
qed

definition letter :: "flap_args \<Rightarrow> local_time \<Rightarrow> int \<Rightarrow> nat \<Rightarrow> nat" where
  "letter ag lt msg i = the (card_for ag (wanted ag lt msg) i)"

lemma letter_less: "i < fl_rows ag * fl_cols ag \<Longrightarrow> letter ag lt msg i < NCHARS"
  using wanted_cards [of i ag lt msg] index_less by (auto simp: letter_def card_for_def Let_def split: if_splits)

lemma retarget_wanted:
  "retarget ag motors t (wanted ag lt msg) cells =
     Some (map (\<lambda>i. retarget_cell (motors ! i) t (letter ag lt msg i) (cells ! i)) [0..<fl_rows ag * fl_cols ag])"
  using wanted_cards by (auto simp: retarget_def letter_def)

section \<open>One cell\<close>

definition cell_ok :: "flap_cell \<Rightarrow> bool" where
  "cell_ok c \<longleftrightarrow> fc_cur c < NCHARS \<and> fc_src c < NCHARS \<and> fc_tgt c < NCHARS \<and> fc_steps c < NCHARS
     \<and> (fc_steps c \<noteq> 0 \<longrightarrow> (fc_src c + fc_steps c) mod NCHARS = fc_tgt c) \<and> (fc_steps c = 0 \<longrightarrow> fc_cur c = fc_tgt c)
     \<and> (fc_steps c = 0 \<and> \<not> fc_dirty c \<longrightarrow> fc_view c = Card (fc_cur c))"

text \<open>The cell rests on its card, seating or seated.\<close>

definition rests_on :: "nat \<Rightarrow> flap_cell \<Rightarrow> bool" where
  "rests_on x c \<longleftrightarrow> fc_steps c = 0 \<and> fc_cur c = x \<and> (fc_view c = Card x \<or> fc_view c = Seating x)"

lemma new_cell_ok: "cell_ok new_cell"
  by (simp add: cell_ok_def new_cell_def)

lemma displayed_less: "cell_ok c \<Longrightarrow> displayed mo t c < NCHARS"
  by (simp add: displayed_def cell_ok_def Let_def)

lemma retarget_cell_ok:
  assumes "cell_ok c" "new < NCHARS"
  shows "cell_ok (retarget_cell mo t new c) \<and> fc_tgt (retarget_cell mo t new c) = new"
proof (cases "new = fc_tgt c")
  case True
  then show ?thesis using assms(1) by (simp add: retarget_cell_def)
next
  case False
  define shown where "shown = displayed mo t c"
  define steps where "steps = nat ((int new - int shown) mod int NCHARS)"
  have s: "shown < NCHARS" using displayed_less assms(1) by (simp add: shown_def)
  have st: "int steps = (int new - int shown) mod int NCHARS" by (simp add: steps_def)
  then have "int ((shown + steps) mod NCHARS) = int new"
    using assms(2) by (simp add: zmod_int mod_simps)
  then have sum: "(shown + steps) mod NCHARS = new" by linarith
  moreover have "int steps < int NCHARS" unfolding st by simp
  ultimately show ?thesis
    using False s assms
    unfolding retarget_cell_def Let_def cell_ok_def shown_def [symmetric] steps_def [symmetric] by simp
qed

lemma rest_cell_fields [simp]:
  "fc_cur (rest_cell ns t c) = fc_cur c" "fc_src (rest_cell ns t c) = fc_src c" "fc_tgt (rest_cell ns t c) = fc_tgt c"
  "fc_steps (rest_cell ns t c) = fc_steps c" "fc_t0 (rest_cell ns t c) = fc_t0 c"
  by (simp_all add: rest_cell_def)

lemma rest_cell_view:
  "fc_dirty c \<or> fc_view c = Card (fc_cur c) \<Longrightarrow>
     fc_view (rest_cell ns t c) = Card (fc_cur c) \<or> fc_dirty (rest_cell ns t c) \<and> fc_view (rest_cell ns t c) = Seating (fc_cur c)"
  by (auto simp: rest_cell_def)

lemma draw_cell_ok:
  assumes "cell_ok c"
  shows "cell_ok (snd (draw_cell ns mo t c)) \<and> fc_tgt (snd (draw_cell ns mo t c)) = fc_tgt c
    \<and> (\<not> fst (draw_cell ns mo t c) \<longrightarrow> rests_on (fc_tgt c) (snd (draw_cell ns mo t c)))
    \<and> (fst (draw_cell ns mo t c) \<longrightarrow> fc_steps (snd (draw_cell ns mo t c)) = fc_steps c
         \<and> fc_t0 (snd (draw_cell ns mo t c)) = fc_t0 c \<and> fc_steps c \<noteq> 0)"
proof (cases "fc_steps c = 0")
  case True
  then show ?thesis
    using assms rest_cell_view [of c ns t] by (auto simp: draw_cell_def cell_ok_def rests_on_def)
next
  case False
  let ?l = "c\<lparr>fc_cur := fc_tgt c, fc_steps := 0, fc_land := t, fc_dirty := True\<rparr>"
  show ?thesis
  proof (cases "of_nat (fc_steps c) \<le> (t - fc_t0 c) / mo_step mo")
    case True
    then show ?thesis
      using False assms rest_cell_view [of ?l ns t]
      by (auto simp: draw_cell_def cell_ok_def rests_on_def Let_def)
  next
    case late: False
    then show ?thesis
      using False assms by (auto simp: draw_cell_def cell_ok_def Let_def)
  qed
qed

lemma draw_cell_lands:
  assumes "0 < mo_step mo" "fc_steps c = 0 \<or> fc_t0 c + of_nat (fc_steps c) * mo_step mo \<le> t"
  shows "\<not> fst (draw_cell ns mo t c)"
  using assms by (auto simp: draw_cell_def Let_def pos_le_divide_eq algebra_simps)

text \<open>When a cell is told a new card, it is over after its delay and at most one turn of the stack.\<close>

lemma retarget_cell_deadline:
  assumes "cell_ok c" "new < NCHARS" "0 < mo_step mo" "mo_step mo \<le> S" "0 \<le> mo_delay mo" "mo_delay mo \<le> D"
    "fc_steps c = 0"
  shows "fc_steps (retarget_cell mo t new c) = 0 \<or>
    fc_t0 (retarget_cell mo t new c) + of_nat (fc_steps (retarget_cell mo t new c)) * mo_step mo
      \<le> t + D + of_nat (NCHARS - 1) * S"
proof (cases "new = fc_tgt c")
  case True
  then show ?thesis using assms(7) by (simp add: retarget_cell_def)
next
  case False
  let ?c = "retarget_cell mo t new c"
  have "fc_steps ?c < NCHARS" using retarget_cell_ok [OF assms(1,2)] by (auto simp: cell_ok_def)
  then have "of_nat (fc_steps ?c) * mo_step mo \<le> of_nat (NCHARS - 1) * S"
    using assms(3,4) by (intro mult_mono) auto
  moreover have "fc_t0 ?c \<le> t + D" using False assms(5,6) by (auto simp: retarget_cell_def Let_def)
  ultimately show ?thesis by linarith
qed

section \<open>The whole board\<close>

abbreviation cells_of :: "flap_args \<Rightarrow> nat" where "cells_of ag \<equiv> fl_rows ag * fl_cols ag"

definition board_ok :: "flap_args \<Rightarrow> flap_board \<Rightarrow> bool" where
  "board_ok ag b \<longleftrightarrow> -1 \<le> fb_msg b \<and> length (fb_cells b) = cells_of ag \<and> (\<forall>i < cells_of ag. cell_ok (fb_cells b ! i))"

text \<open>Every cell is on its way to, or rests on, the letter its message has there.\<close>

definition heading :: "flap_args \<Rightarrow> local_time \<Rightarrow> flap_board \<Rightarrow> bool" where
  "heading ag lt b \<longleftrightarrow> (\<forall>i < cells_of ag. fc_tgt (fb_cells b ! i) = letter ag lt (fb_msg b) i)"

definition all_shown :: "flap_args \<Rightarrow> local_time \<Rightarrow> flap_board \<Rightarrow> bool" where
  "all_shown ag lt b \<longleftrightarrow> (\<forall>i < cells_of ag. rests_on (letter ag lt (fb_msg b) i) (fb_cells b ! i))"

lemma new_board_ok: "board_ok ag (new_flap_board ag)"
  by (simp add: board_ok_def new_flap_board_def new_cell_ok)

lemma draw_cells_fields:
  "fb_msg (draw_cells ag motors t b) = fb_msg b" "length (fb_cells (draw_cells ag motors t b)) = cells_of ag"
  "i < cells_of ag \<Longrightarrow>
     fb_cells (draw_cells ag motors t b) ! i = snd (draw_cell (fl_no_settle ag) (motors ! i) t (fb_cells b ! i))"
  by (simp_all add: draw_cells_def Let_def)

lemma draw_cells_keeps:
  assumes "board_ok ag b"
  shows "board_ok ag (draw_cells ag motors t b)" and "heading ag lt (draw_cells ag motors t b) \<longleftrightarrow> heading ag lt b"
  using assms draw_cell_ok by (auto simp: board_ok_def heading_def draw_cells_fields)

text \<open>After a frame in which no cell is busy the message is there; then, and only then, its hold begins.\<close>

lemma draw_cells_next:
  assumes "board_ok ag b" "heading ag lt b"
  shows "fb_next (draw_cells ag motors t b) = fb_next b \<or>
    all_shown ag lt (draw_cells ag motors t b) \<and> fb_next (draw_cells ag motors t b) = t + fl_hold ag"
proof (cases "\<exists>i < cells_of ag. fst (draw_cell (fl_no_settle ag) (motors ! i) t (fb_cells b ! i))")
  case True
  then show ?thesis by (auto simp: draw_cells_def Let_def list_ex_iff)
next
  case False
  have "rests_on (fc_tgt (fb_cells b ! i)) (snd (draw_cell (fl_no_settle ag) (motors ! i) t (fb_cells b ! i)))"
    if "i < cells_of ag" for i
    using draw_cell_ok [of "fb_cells b ! i" "fl_no_settle ag" "motors ! i" t] False that assms(1)
    by (simp add: board_ok_def)
  then have "all_shown ag lt (draw_cells ag motors t b)"
    using assms(2) by (simp add: all_shown_def draw_cells_fields heading_def)
  then show ?thesis by (auto simp: draw_cells_def Let_def)
qed

lemma draw_cells_complete:
  assumes "board_ok ag b" "all_shown ag lt b"
  shows "all_shown ag lt (draw_cells ag motors t b)"
proof -
  have "rests_on x (snd (draw_cell ns mo t c))" if "cell_ok c" "rests_on x c" for x ns mo c
    using draw_cell_ok [OF that(1), of ns mo t] that by (auto simp: rests_on_def cell_ok_def draw_cell_def)
  then show ?thesis using assms by (auto simp: all_shown_def draw_cells_fields board_ok_def)
qed

definition plain :: "flap_args \<Rightarrow> bool" where
  "plain ag \<longleftrightarrow> (\<forall>m \<in> set (messages ag). CHR ''{'' \<notin> set m)"

lemma current_message_in: "current_message ag msg \<in> set (messages ag)"
proof -
  have "0 < length (messages ag)" by (simp add: messages_def Let_def)
  then show ?thesis
    unfolding current_message_def by (intro nth_mem) (simp add: nat_less_iff)
qed

lemma plain_letter: "plain ag \<Longrightarrow> letter ag lt msg i = letter ag lt' msg i"
  using current_message_in [of ag msg] by (simp add: letter_def wanted_def message_text_def plain_def Let_def)

lemma plain_heading:
  assumes "plain ag"
  shows "heading ag lt b = heading ag lt' b" and "all_shown ag lt b = all_shown ag lt' b"
proof -
  have e: "letter ag lt = letter ag lt'" by (intro ext plain_letter assms)
  show "heading ag lt b = heading ag lt' b" by (simp only: heading_def e)
  show "all_shown ag lt b = all_shown ag lt' b" by (simp only: all_shown_def e)
qed

text \<open>The two kinds of frame of a board whose messages have no clock in them.\<close>

definition start_message :: "flap_args \<Rightarrow> motor list \<Rightarrow> local_time \<Rightarrow> rat \<Rightarrow> flap_board \<Rightarrow> flap_board" where
  "start_message ag motors lt t b =
     b\<lparr>fb_msg := fb_msg b + 1, fb_next := 10 ^ 18,
       fb_cells := map (\<lambda>i. retarget_cell (motors ! i) t (letter ag lt (fb_msg b + 1) i) (fb_cells b ! i)) [0..<cells_of ag]\<rparr>"

lemma flap_frame_plain:
  assumes "plain ag"
  shows "flap_frame ag motors localtime now t b = Some (draw_cells ag motors t
    (if fb_msg b < 0 \<or> fb_next b \<le> t then start_message ag motors (localtime now) t b else b))"
  using assms current_message_in [of ag "fb_msg b"]
  by (auto simp: flap_frame_def start_message_def retarget_wanted plain_def)

lemma start_message_ok:
  assumes "board_ok ag b"
  shows "board_ok ag (start_message ag motors lt t b)" and "heading ag lt (start_message ag motors lt t b)"
  using assms retarget_cell_ok letter_less by (auto simp: start_message_def board_ok_def heading_def)

lemma flap_frame_ok:
  assumes "plain ag" "board_ok ag b" "fb_msg b < 0 \<or> heading ag lt b"
    "flap_frame ag motors localtime now t b = Some b'"
  shows "board_ok ag b' \<and> heading ag lt b' \<and> 0 \<le> fb_msg b' \<and> fb_msg b \<le> fb_msg b'"
proof -
  have h: "heading ag lt c = heading ag lt' c" for lt lt' c by (rule plain_heading(1) [OF assms(1)])
  show ?thesis
  proof (cases "fb_msg b < 0 \<or> fb_next b \<le> t")
    case True
    define s where "s = start_message ag motors (localtime now) t b"
    have b': "b' = draw_cells ag motors t s" using True assms(1,4) by (simp add: flap_frame_plain s_def)
    have s: "board_ok ag s" "heading ag (localtime now) s" "fb_msg s = fb_msg b + 1"
      unfolding s_def by (intro start_message_ok assms(2))+ (simp add: start_message_def)
    moreover have "heading ag lt s" using s(2) h by blast
    ultimately show ?thesis using assms(2) draw_cells_keeps [OF s(1)] by (simp add: b' draw_cells_fields board_ok_def)
  next
    case False
    then have "b' = draw_cells ag motors t b" using assms(1,4) by (simp add: flap_frame_plain)
    then show ?thesis using False assms(2,3) draw_cells_keeps by (auto simp: draw_cells_fields)
  qed
qed

lemma flap_run_ok:
  assumes "plain ag" "flap_run ag motors localtime ts b = Some b'" "board_ok ag b" "fb_msg b < 0 \<or> heading ag lt b"
  shows "board_ok ag b' \<and> (fb_msg b' < 0 \<or> heading ag lt b') \<and> fb_msg b \<le> fb_msg b'"
  using assms(2-4)
proof (induction ts arbitrary: b)
  case (Cons e ts)
  obtain now t where e: "e = (now, t)" by fastforce
  obtain c where c: "flap_frame ag motors localtime now t b = Some c" "flap_run ag motors localtime ts c = Some b'"
    using Cons.prems(1) by (auto simp: e split: Option.bind_splits)
  have "board_ok ag c \<and> heading ag lt c \<and> 0 \<le> fb_msg c \<and> fb_msg b \<le> fb_msg c"
    by (rule flap_frame_ok [OF assms(1) Cons.prems(2,3) c(1)])
  then show ?case using Cons.IH [OF c(2)] by linarith
qed auto

text \<open>While no new message starts, every riffle keeps the end it was given.\<close>

definition due_by :: "flap_args \<Rightarrow> motor list \<Rightarrow> rat \<Rightarrow> flap_board \<Rightarrow> bool" where
  "due_by ag motors d b \<longleftrightarrow> (\<forall>i < cells_of ag. fc_steps (fb_cells b ! i) = 0 \<or>
     fc_t0 (fb_cells b ! i) + of_nat (fc_steps (fb_cells b ! i)) * mo_step (motors ! i) \<le> d)"

lemma draw_cells_due:
  assumes "board_ok ag b" "due_by ag motors d b"
  shows "due_by ag motors d (draw_cells ag motors t b)"
  unfolding due_by_def
proof (intro allI impI)
  fix i
  assume i: "i < cells_of ag"
  let ?c = "fb_cells b ! i"
  have c: "cell_ok ?c" "fc_steps ?c = 0 \<or> fc_t0 ?c + of_nat (fc_steps ?c) * mo_step (motors ! i) \<le> d"
    using assms i by (auto simp: board_ok_def due_by_def)
  show "fc_steps (fb_cells (draw_cells ag motors t b) ! i) = 0 \<or>
     fc_t0 (fb_cells (draw_cells ag motors t b) ! i)
       + of_nat (fc_steps (fb_cells (draw_cells ag motors t b) ! i)) * mo_step (motors ! i) \<le> d"
    using draw_cell_ok [OF c(1), of "fl_no_settle ag" "motors ! i" t] c(2)
    by (cases "fst (draw_cell (fl_no_settle ag) (motors ! i) t ?c)") (auto simp: draw_cells_fields i rests_on_def)
qed

lemma draw_cells_arrives:
  assumes "board_ok ag b" "heading ag lt b" "due_by ag motors d b" "d \<le> t" "\<forall>i < cells_of ag. 0 < mo_step (motors ! i)"
  shows "all_shown ag lt (draw_cells ag motors t b)"
  unfolding all_shown_def
proof (intro allI impI)
  fix i
  assume i: "i < cells_of ag"
  let ?c = "fb_cells b ! i"
  have c: "cell_ok ?c" "fc_steps ?c = 0 \<or> fc_t0 ?c + of_nat (fc_steps ?c) * mo_step (motors ! i) \<le> t"
    "fc_tgt ?c = letter ag lt (fb_msg b) i" "0 < mo_step (motors ! i)"
    using assms i by (auto simp: board_ok_def due_by_def heading_def)
  have "\<not> fst (draw_cell (fl_no_settle ag) (motors ! i) t ?c)" by (rule draw_cell_lands [OF c(4,2)])
  then show "rests_on (letter ag lt (fb_msg (draw_cells ag motors t b)) i) (fb_cells (draw_cells ag motors t b) ! i)"
    using draw_cell_ok [OF c(1)] c(3) by (simp add: draw_cells_fields i)
qed

lemma arrives_later:
  assumes "plain ag" "\<forall>i < cells_of ag. 0 < mo_step (motors ! i)"
    "flap_run ag motors localtime ts b = Some b'" "fb_msg b' = fb_msg b" "0 \<le> fb_msg b"
    "board_ok ag b" "heading ag lt b" "due_by ag motors d b" "ts \<noteq> []" "d \<le> snd (last ts)"
  shows "all_shown ag lt b'"
  using assms(3-)
proof (induction ts arbitrary: b)
  case (Cons e ts)
  obtain now t where e: "e = (now, t)" by fastforce
  obtain c where c: "flap_frame ag motors localtime now t b = Some c" "flap_run ag motors localtime ts c = Some b'"
    using Cons.prems(1) by (auto simp: e split: Option.bind_splits)
  have ok: "board_ok ag c" "heading ag lt c" "0 \<le> fb_msg c" "fb_msg b \<le> fb_msg c"
    using flap_frame_ok [OF assms(1) Cons.prems(4) disjI2 [OF Cons.prems(5)] c(1)] by auto
  have "fb_msg c \<le> fb_msg b'"
    using flap_run_ok [OF assms(1) c(2) ok(1) disjI2 [OF ok(2)]] by blast
  then have same: "fb_msg c = fb_msg b" using ok(4) Cons.prems(2) by linarith
  have cc: "c = draw_cells ag motors t b"
  proof (cases "fb_msg b < 0 \<or> fb_next b \<le> t")
    case True
    then have "fb_msg c = fb_msg b + 1"
      using c(1) assms(1) by (auto simp: flap_frame_plain draw_cells_fields start_message_def)
    then show ?thesis using same by simp
  next
    case False
    then show ?thesis using c(1) assms(1) by (simp add: flap_frame_plain)
  qed
  have due: "due_by ag motors d c" unfolding cc by (rule draw_cells_due [OF Cons.prems(4,6)])
  show ?case
  proof (cases "ts = []")
    case True
    then show ?thesis
      using draw_cells_arrives [OF Cons.prems(4,5,6) _ assms(2), of t] Cons.prems(8) c(2) by (simp add: e cc)
  next
    case False
    then show ?thesis using Cons.IH [OF c(2)] same ok due Cons.prems by simp
  qed
qed simp

text \<open>
  What holds after any frames: a message is due to be replaced only when a frame has shown it
  complete, \<open>hold\<close> seconds before.
\<close>

definition held_since ::
  "flap_args \<Rightarrow> motor list \<Rightarrow> (rat \<Rightarrow> local_time) \<Rightarrow> local_time \<Rightarrow> (rat \<times> rat) list \<Rightarrow> rat \<Rightarrow> flap_board \<Rightarrow> bool" where
  "held_since ag motors localtime lt ts u b \<longleftrightarrow>
     (\<exists>before now rest b1. ts = before @ (now, u) # rest \<and>
        flap_run ag motors localtime (before @ [(now, u)]) (new_flap_board ag) = Some b1 \<and>
        all_shown ag lt b1 \<and> fb_msg b1 = fb_msg b)"

lemma held_snoc: "held_since ag motors localtime lt ts u b \<Longrightarrow> fb_msg c = fb_msg b \<Longrightarrow>
    held_since ag motors localtime lt (ts @ [e]) u c"
  unfolding held_since_def by force

lemma flap_history:
  assumes "plain ag" "flap_run ag motors localtime ts (new_flap_board ag) = Some b"
  shows "ts = [] \<and> b = new_flap_board ag \<or> board_ok ag b \<and> heading ag lt b \<and> 0 \<le> fb_msg b \<and>
    (fb_next b = 10 ^ 18 \<or> all_shown ag lt b \<and> held_since ag motors localtime lt ts (fb_next b - fl_hold ag) b)"
  using assms(2)
proof (induction ts arbitrary: b rule: rev_induct)
  case (snoc e ts)
  obtain now t where e: "e = (now, t)" by fastforce
  obtain a where a: "flap_run ag motors localtime ts (new_flap_board ag) = Some a"
    "flap_frame ag motors localtime now t a = Some b"
    using snoc.prems by (auto simp: e flap_run_append split: Option.bind_splits)
  have ok: "board_ok ag a" "fb_msg a < 0 \<or> heading ag lt a"
    using snoc.IH [OF a(1)] new_board_ok by (auto simp: new_flap_board_def)
  have b: "board_ok ag b" "heading ag lt b" "0 \<le> fb_msg b"
    using flap_frame_ok [OF assms(1) ok a(2)] by auto
  have here: "held_since ag motors localtime lt (ts @ [e]) t b" if "all_shown ag lt b"
    unfolding held_since_def using that snoc.prems by (intro exI [of _ ts] exI [of _ now] exI [of _ "[]"]) (simp add: e)
  show ?case
  proof (cases "fb_msg a < 0 \<or> fb_next a \<le> t")
    case True
    let ?s = "start_message ag motors (localtime now) t a"
    have bs: "b = draw_cells ag motors t ?s" using a(2) True assms(1) by (simp add: flap_frame_plain)
    have s: "board_ok ag ?s" "heading ag lt ?s"
      using start_message_ok [OF ok(1)] plain_heading(1) [OF assms(1)] by blast+
    from draw_cells_next [OF s, of motors t] show ?thesis
      using b here bs by (auto simp: start_message_def)
  next
    case False
    then have ba: "b = draw_cells ag motors t a" using a(2) assms(1) by (simp add: flap_frame_plain)
    have "ts \<noteq> []" using False a(1) by (auto simp: new_flap_board_def)
    then have ih: "heading ag lt a" "fb_next a = 10 ^ 18 \<or>
        all_shown ag lt a \<and> held_since ag motors localtime lt ts (fb_next a - fl_hold ag) a"
      using snoc.IH [OF a(1)] by auto
    have keep: "all_shown ag lt b \<and> held_since ag motors localtime lt (ts @ [e]) (fb_next a - fl_hold ag) b"
      if "all_shown ag lt a" "held_since ag motors localtime lt ts (fb_next a - fl_hold ag) a"
      using draw_cells_complete [OF ok(1) that(1)] held_snoc [OF that(2)] by (simp add: ba draw_cells_fields)
    from draw_cells_next [OF ok(1) ih(1), of motors t] show ?thesis
      using b here keep ih(2) by (auto simp: ba)
  qed
qed simp

text \<open>
  No message is cut short: with messages without a clock, whenever a frame replaces a message,
  the board has been showing all of it since an earlier frame at least \<open>hold\<close> seconds before.
\<close>

theorem no_message_is_cut_short:
  assumes "plain ag" "flap_run ag motors localtime history (new_flap_board ag) = Some b"
    "flap_frame ag motors localtime now t b = Some b'" "fb_msg b' \<noteq> fb_msg b" "0 \<le> fb_msg b" "t < 10 ^ 18"
  shows "all_shown ag lt b \<and> (\<exists>u \<le> t - fl_hold ag. held_since ag motors localtime lt history u b)"
proof -
  have "fb_next b \<le> t"
    using assms(3-5) by (auto simp: flap_frame_plain [OF assms(1)] draw_cells_fields split: if_splits)
  moreover from this have "fb_next b \<noteq> 10 ^ 18" using assms(6) by auto
  moreover have "b \<noteq> new_flap_board ag" using assms(5) by (auto simp: new_flap_board_def)
  ultimately show ?thesis using flap_history [OF assms(1,2), of lt]
    by (intro conjI exI [of _ "fb_next b - fl_hold ag"]) auto
qed

text \<open>
  C14. Every message arrives: with messages without a clock, once a frame at \<open>t\<close> has started a message,
  any later frame that comes one delay and one turn of the stack of cards later shows all of it,
  unless the board has already gone on to the next message.
\<close>

theorem every_message_arrives:
  assumes "plain ag" "flap_run ag motors localtime history (new_flap_board ag) = Some b"
    "\<forall>i < cells_of ag. 0 < mo_step (motors ! i) \<and> mo_step (motors ! i) \<le> S \<and>
       0 \<le> mo_delay (motors ! i) \<and> mo_delay (motors ! i) \<le> D"
    "fb_msg b < 0 \<or> fb_next b \<le> t" "t < 10 ^ 18" "later \<noteq> []"
    "flap_run ag motors localtime ((now, t) # later) b = Some b'" "fb_msg b' = fb_msg b + 1"
    "t + D + of_nat (NCHARS - 1) * S \<le> snd (last later)"
  shows "all_shown ag lt b'"
proof -
  let ?s = "start_message ag motors (localtime now) t b" and ?d = "t + D + of_nat (NCHARS - 1) * S"
  have b: "board_ok ag b" "\<forall>i < cells_of ag. fc_steps (fb_cells b ! i) = 0"
  proof -
    have "fb_next b \<noteq> 10 ^ 18" if "0 \<le> fb_msg b" using assms(4,5) that by auto
    then show "board_ok ag b" "\<forall>i < cells_of ag. fc_steps (fb_cells b ! i) = 0"
      using flap_history [OF assms(1,2), of lt] new_board_ok [of ag]
      by (auto simp: all_shown_def rests_on_def new_flap_board_def new_cell_def)
  qed
  have s: "board_ok ag ?s" "heading ag lt ?s" "fb_msg ?s = fb_msg b + 1"
    using start_message_ok [OF b(1)] plain_heading(1) [OF assms(1)] by (blast, blast, simp add: start_message_def)
  have "due_by ag motors ?d ?s"
    unfolding due_by_def
  proof (intro allI impI)
    fix i
    assume i: "i < cells_of ag"
    then have "cell_ok (fb_cells b ! i)" "fc_steps (fb_cells b ! i) = 0" using b by (auto simp: board_ok_def)
    from retarget_cell_deadline [OF this(1) letter_less [OF i] _ _ _ _ this(2)] assms(3) i
    show "fc_steps (fb_cells ?s ! i) = 0 \<or>
        fc_t0 (fb_cells ?s ! i) + of_nat (fc_steps (fb_cells ?s ! i)) * mo_step (motors ! i) \<le> ?d"
      by (simp add: start_message_def)
  qed
  then have "due_by ag motors ?d (draw_cells ag motors t ?s)" by (rule draw_cells_due [OF s(1)])
  moreover have "flap_run ag motors localtime later (draw_cells ag motors t ?s) = Some b'"
    using assms(4,7) by (simp add: flap_frame_plain [OF assms(1)])
  moreover have "fb_msg b' = fb_msg (draw_cells ag motors t ?s)" "0 \<le> fb_msg (draw_cells ag motors t ?s)"
    using assms(8) s(3) b(1) by (auto simp: draw_cells_fields board_ok_def)
  moreover have "heading ag lt (draw_cells ag motors t ?s)" using draw_cells_keeps(2) [OF s(1)] s(2) by blast
  moreover have "\<forall>i < cells_of ag. 0 < mo_step (motors ! i)" using assms(3) by blast
  ultimately show ?thesis
    using arrives_later [OF assms(1)] draw_cells_keeps(1) [OF s(1)] assms(6,9) by blast
qed

text \<open>A frame never raises: every letter a message asks for is on a card, clock or not.\<close>

lemma board_never_raises: "\<exists>b'. flap_run ag motors localtime ts b = Some b'"
proof (induction ts arbitrary: b)
  case (Cons e ts)
  obtain now t where e: "e = (now, t)" by fastforce
  have "flap_frame ag motors localtime now t b \<noteq> None"
    by (simp add: flap_frame_def retarget_wanted)
  then obtain c where "flap_frame ag motors localtime now t b = Some c" by blast
  then show ?case using Cons by (simp add: e)
qed simp

definition noon :: local_time where
  "noon = \<lparr>lt_hour = 12, lt_min = 0, lt_mday = 1, lt_month = ''Jan''\<rparr>"

definition two_words :: flap_args where
  "two_words = \<lparr>fl_messages = ''AB;C'', fl_hold = 1, fl_rows = 1, fl_cols = 2, fl_no_settle = False, fl_ampm = False\<rparr>"

definition two_motors :: "motor list" where
  "two_motors = [\<lparr>mo_step = 1 / 20, mo_delay = 1 / 10\<rparr>, \<lparr>mo_step = 1 / 16, mo_delay = 1 / 5\<rparr>]"

lemma two_words_plain: "plain two_words" by code_simp

theorem no_message_is_cut_short_witness:
  "\<exists>b. flap_run two_words two_motors (\<lambda>_. noon) [(0, 0), (3, 3)] (new_flap_board two_words) = Some b
    \<and> all_shown two_words noon b
    \<and> (\<exists>u \<le> 5 - 1. held_since two_words two_motors (\<lambda>_. noon) noon [(0, 0), (3, 3)] u b)"
proof -
  let ?run = "flap_run two_words two_motors (\<lambda>_. noon)"
  obtain b where b: "?run [(0, 0), (3, 3)] (new_flap_board two_words) = Some b" using board_never_raises by blast
  obtain b' where b': "?run ([(0, 0), (3, 3)] @ [(5, 5)]) (new_flap_board two_words) = Some b'" using board_never_raises by blast
  have "map_option fb_msg (?run [(0, 0), (3, 3)] (new_flap_board two_words)) = Some 0"
    "map_option fb_msg (?run ([(0, 0), (3, 3)] @ [(5, 5)]) (new_flap_board two_words)) = Some 1" by code_simp+
  then have m: "fb_msg b = 0" "fb_msg b' = 1" by (simp_all only: b b' option.map option.inject)
  have "flap_frame two_words two_motors (\<lambda>_. noon) 5 5 b = Some b'"
    using b' by (simp only: flap_run_append b) (simp split: Option.bind_splits)
  from no_message_is_cut_short [OF two_words_plain b this] m b show ?thesis by (simp add: two_words_def)
qed

theorem every_message_arrives_witness:
  "\<exists>b'. flap_run two_words two_motors (\<lambda>_. noon) [(0, 0), (4, 4)] (new_flap_board two_words) = Some b'
    \<and> all_shown two_words noon b'"
proof -
  let ?run = "flap_run two_words two_motors (\<lambda>_. noon)"
  obtain b' where b': "?run [(0, 0), (4, 4)] (new_flap_board two_words) = Some b'" using board_never_raises by blast
  have "map_option fb_msg (?run [(0, 0), (4, 4)] (new_flap_board two_words)) = Some 0" by code_simp
  then have "fb_msg b' = 0" by (simp only: b' option.map option.inject)
  then have "fb_msg b' = fb_msg (new_flap_board two_words) + 1" by (simp add: new_flap_board_def)
  from every_message_arrives [OF two_words_plain flap_run.simps(1) _ _ _ _ b' this, of "1 / 16" "1 / 5" noon]
  have "all_shown two_words noon b'"
    by (simp add: two_words_def two_motors_def new_flap_board_def less_Suc_eq numeral_2_eq_2)
  then show ?thesis using b' by blast
qed

section \<open>A cell told twice\<close>

text \<open>
  A message that changes under a flapping cell makes it jump. A cell in the middle of a riffle
  that is told another card is drawn, while it waits out its delay, with the card it last rested
  on and not with the one it was showing; and one whose riffle is over but not yet drawn starts
  again from the card it rested on before that riffle.
\<close>

theorem interrupted_cell_jumps:
  assumes "cell_ok c" "0 < mo_step mo" "0 < mo_delay mo" "new \<noteq> fc_tgt c" "new < NCHARS" "fc_t0 c < t" "fc_steps c \<noteq> 0"
  shows "(if t < fc_t0 c + of_nat (fc_steps c) * mo_step mo
     then displayed mo t c = (fc_src c + nat \<lfloor>(t - fc_t0 c) / mo_step mo\<rfloor>) mod NCHARS \<and>
       (new = displayed mo t c \<or>
        fc_view (snd (draw_cell ns mo t (retarget_cell mo t new c))) \<in> {Card (fc_cur c), Seating (fc_cur c)})
     else fc_src (retarget_cell mo t new c) = fc_cur c)"
proof -
  let ?k = "(t - fc_t0 c) / mo_step mo" and ?c = "retarget_cell mo t new c"
  have k: "0 < ?k" "of_nat (fc_steps c) \<le> ?k \<longleftrightarrow> \<not> t < fc_t0 c + of_nat (fc_steps c) * mo_step mo"
    using assms(2,6) by (auto simp: pos_le_divide_eq algebra_simps)
  show ?thesis
  proof (cases "t < fc_t0 c + of_nat (fc_steps c) * mo_step mo")
    case True
    then have shown: "displayed mo t c = (fc_src c + nat \<lfloor>?k\<rfloor>) mod NCHARS"
      using k assms(7) by (simp add: displayed_def Let_def)
    have "fc_view (snd (draw_cell ns mo t ?c)) \<in> {Card (fc_cur c), Seating (fc_cur c)}" if "new \<noteq> displayed mo t c"
    proof -
      have "displayed mo t c < NCHARS" by (rule displayed_less [OF assms(1)])
      then have "(int new - int (displayed mo t c)) mod int NCHARS \<noteq> 0"
        using that assms(5) by (metis mod_eq_dvd_iff mod_0_imp_dvd mod_pos_pos_trivial of_nat_0_le_iff of_nat_eq_iff of_nat_less_iff)
      moreover have "0 \<le> (int new - int (displayed mo t c)) mod int NCHARS" by simp
      ultimately have "nat ((int new - int (displayed mo t c)) mod int NCHARS) \<noteq> 0" by linarith
      then have r: "fc_steps ?c \<noteq> 0" "fc_t0 ?c = t + mo_delay mo" "fc_dirty ?c" "fc_cur ?c = fc_cur c"
        using assms(4) unfolding retarget_cell_def Let_def by simp_all
      have "(t - fc_t0 ?c) / mo_step mo < 0" using r(2) assms(2,3) by (simp add: divide_neg_pos)
      then have "draw_cell ns mo t ?c = (True, rest_cell ns t ?c)"
        using r(1) by (simp add: draw_cell_def Let_def)
      then show ?thesis using r(3,4) by (simp add: rest_cell_def)
    qed
    then show ?thesis using True shown by auto
  next
    case False
    then have "displayed mo t c = fc_cur c" using k assms(7) by (simp add: displayed_def Let_def)
    then show ?thesis using False assms(4) by (simp add: retarget_cell_def Let_def)
  qed
qed

theorem interrupted_cell_jumps_witness:
  "let c = \<lparr>fc_cur = 0, fc_src = 0, fc_steps = 26, fc_t0 = 0, fc_tgt = 26, fc_land = 0, fc_dirty = False, fc_view = Turning 9 10 0\<rparr>;
       mo = \<lparr>mo_step = 1 / 20, mo_delay = 1 / 10\<rparr>
   in displayed mo (1 / 2) c = 10 \<and> fc_view (snd (draw_cell True mo (1 / 2) (retarget_cell mo (1 / 2) 1 c))) \<in> {Card 0, Seating 0}"
proof -
  define c where "c = \<lparr>fc_cur = 0, fc_src = 0, fc_steps = 26, fc_t0 = 0, fc_tgt = 26, fc_land = 0, fc_dirty = False, fc_view = Turning 9 10 0\<rparr>"
  define mo where "mo = \<lparr>mo_step = 1 / 20, mo_delay = 1 / 10\<rparr>"
  have "cell_ok c" by (simp add: c_def cell_ok_def)
  from interrupted_cell_jumps [OF this, of mo 1 "1 / 2" True] show ?thesis
    unfolding Let_def c_def [symmetric] mo_def [symmetric] by (auto simp: c_def mo_def)
qed

text \<open>
  On a whole board: at ten o'clock every digit that changes while it is still on its way to 09:59
  goes blank.
\<close>

definition clock_board :: flap_args where
  "clock_board = \<lparr>fl_messages = ''{TIME}'', fl_hold = 6, fl_rows = 1, fl_cols = 5, fl_no_settle = False, fl_ampm = False\<rparr>"

definition tick :: "rat \<Rightarrow> local_time" where
  "tick now = (if now < 1 then \<lparr>lt_hour = 9, lt_min = 59, lt_mday = 1, lt_month = ''Jan''\<rparr>
               else \<lparr>lt_hour = 10, lt_min = 0, lt_mday = 1, lt_month = ''Jan''\<rparr>)"

lemma clock_goes_blank:
  defines "motors \<equiv> replicate 5 \<lparr>mo_step = 1 / 20, mo_delay = 1 / 10\<rparr>"
  shows "map_option (\<lambda>b. map fc_view (fb_cells b))
      (flap_run clock_board motors tick [(0, 0), (99 / 100, 99 / 100)] (new_flap_board clock_board)) =
    Some (replicate 5 (Turning 17 18 (4 / 5)))"
  and "map_option (\<lambda>b. map fc_view (fb_cells b))
      (flap_run clock_board motors tick [(0, 0), (99 / 100, 99 / 100), (1, 1)] (new_flap_board clock_board)) =
    Some [Card 0, Card 0, Turning 18 19 0, Card 0, Card 0]"
  unfolding motors_def by code_simp+

section \<open>The largest cards\<close>

definition size_fits :: "nat \<Rightarrow> nat \<Rightarrow> nat \<Rightarrow> nat \<Rightarrow> bool" where
  "size_fits W H rows s \<longleftrightarrow> 1 \<le> cs_cols (cand W s) \<and> rows * cs_cell_h (cand W s) \<le> H"

lemma size_fits_smaller:
  assumes "size_fits W H rows s'" "s \<le> s'"
  shows "size_fits W H rows s"
proof -
  have "max 1 (s div 2) \<le> max 1 (s' div 2)" using div_le_mono [OF assms(2), of 2] by auto
  then have "cs_cell_w (cand W s) \<le> cs_cell_w (cand W s')" using assms(2) by (simp add: cand_def Let_def GW_def)
  moreover have "0 < cs_cell_w (cand W s)" by (simp add: cand_def Let_def)
  ultimately have cols: "cs_cols (cand W s') \<le> cs_cols (cand W s)"
    by (simp add: cand_def Let_def div_le_mono2)
  have even: "n - n mod 2 \<le> m - m mod 2" if "n \<le> m" for n m :: nat using that by presburger
  have h: "GH * s + 2 * max 2 (2 * s) \<le> GH * s' + 2 * max 2 (2 * s')" using assms(2) by (simp add: GH_def)
  have m: "max 1 s \<le> max 1 s'" using assms(2) by auto
  have "cs_cell_h (cand W s) \<le> cs_cell_h (cand W s')"
    unfolding cand_def Let_def card_size.simps by (rule add_mono [OF even [OF h] m])
  then have "rows * cs_cell_h (cand W s) \<le> rows * cs_cell_h (cand W s')" by (rule mult_le_mono2)
  then show ?thesis using assms(1) cols unfolding size_fits_def by (meson le_trans)
qed

lemma size_loop_step:
  "size_loop W H rows mc (s # ss) (best, fb) =
     (if \<not> size_fits W H rows s then (best, fb)
      else size_loop W H rows mc ss
        (if mc \<le> cs_cols (cand W s) then (Some (cand W s), fb) else (best, if best = None then Some (cand W s) else fb)))"
  by (auto simp: size_fits_def not_le)

declare size_loop.simps(2) [simp del]

lemma size_loop_result:
  assumes "sorted_wrt (\<lambda>a b. size_fits W H rows b \<longrightarrow> size_fits W H rows a) ss"
    "size_loop W H rows mc ss (best, fb) = (best', fb')"
  defines "fit \<equiv> filter (size_fits W H rows) ss"
  defines "wide \<equiv> filter (\<lambda>s. mc \<le> cs_cols (cand W s)) fit"
  shows "best' = (if wide = [] then best else Some (cand W (last wide))) \<and>
    (best' = None \<longrightarrow> fb' = (if fit = [] then fb else Some (cand W (last fit))))"
  using assms(1,2) unfolding fit_def wide_def
proof (induction ss arbitrary: best fb)
  case (Cons s ss)
  show ?case
  proof (cases "size_fits W H rows s")
    case False
    then have "filter (size_fits W H rows) ss = []" using Cons.prems(1) by (auto simp: filter_empty_conv)
    moreover have "(best', fb') = (best, fb)"
      using False Cons.prems(2) by (simp add: size_loop_step)
    ultimately show ?thesis using False by simp
  next
    case True
    have "sorted_wrt (\<lambda>a b. size_fits W H rows b \<longrightarrow> size_fits W H rows a) ss" using Cons.prems(1) by simp
    note IH = Cons.IH [OF this]
    show ?thesis
    proof (cases "mc \<le> cs_cols (cand W s)")
      case wide: True
      then have "size_loop W H rows mc ss (Some (cand W s), fb) = (best', fb')"
        using True Cons.prems(2) by (simp add: size_loop_step)
      from IH [OF this] True wide show ?thesis by (simp split: if_splits)
    next
      case narrow: False
      then have "size_loop W H rows mc ss (best, if best = None then Some (cand W s) else fb) = (best', fb')"
        using True Cons.prems(2) by (simp add: size_loop_step)
      from IH [OF this] True narrow show ?thesis by (simp split: if_splits)
    qed
  qed
qed simp

text \<open>
  The board takes the largest cards it can: of the eight scales, the largest that fits the panel
  with enough columns, or failing that the largest that fits at all.
\<close>

theorem cards_are_largest:
  "let fit = filter (size_fits W H rows) [1..<9];
       wide = filter (\<lambda>s. min_cols \<le> cs_cols (cand W s)) fit
   in geometry W H rows min_cols =
        (if wide \<noteq> [] then cand W (last wide) else if fit \<noteq> [] then cand W (last fit)
         else \<lparr>cs_scale = 1, cs_cols = max 1 (W div 8), cs_card_w = 7, cs_card_h = 10, cs_cell_w = 8, cs_cell_h = 11\<rparr>)"
proof -
  have "sorted_wrt (\<lambda>a b. size_fits W H rows b \<longrightarrow> size_fits W H rows a) [1..<9]"
    by (rule sorted_wrt_mono_rel [OF _ sorted_wrt_upt]) (auto intro: size_fits_smaller)
  moreover obtain best fb where l: "size_loop W H rows min_cols [1..<9] (None, None) = (best, fb)" by fastforce
  ultimately show ?thesis
    using size_loop_result [of W H rows "[1..<9]" min_cols None None best fb]
    unfolding geometry_def Let_def l by (simp add: GW_def GH_def del: upt_rec_numeral split: option.split)
qed

end
