(* ===== verification/FT_Anagram.thy ===== *)
theory FT_Anagram
  imports FT_Timeline FT_Json "HOL-Library.Multiset"
begin

text \<open>
  The anagram of \<open>src/demos/sneakers.py\<close>: reading and checking the pairs of phrases, the places of
  the letters (\<open>measure\<close>, \<open>layout\<close>), the matching of the letters of one phrase with the places of
  the other (\<open>assign\<close>), the schedule of \<open>build\<close> and where \<open>sample\<close> puts each letter at a moment.
  Text is ASCII, places are integers, times and flight positions rationals; the random lags and
  noise are arguments. The height of the arcs and the baked pictures are not modelled.
\<close>

section \<open>The font\<close>

definition GLYPH_W :: nat where "GLYPH_W = 6"
definition GLYPH_H :: nat where "GLYPH_H = 9"

definition FONT :: "(char \<times> string list) list" where
  "FONT =
     [(CHR '' '', [''......'', ''......'', ''......'', ''......'', ''......'',
       ''......'', ''......'', ''......'', ''......'']),
      (CHR ''A'', [''.###..'', ''#...#.'', ''#...#.'', ''#...#.'', ''#####.'',
       ''#...#.'', ''#...#.'', ''#...#.'', ''#...#.'']),
      (CHR ''B'', [''####..'', ''#...#.'', ''#...#.'', ''#...#.'', ''####..'',
       ''#...#.'', ''#...#.'', ''#...#.'', ''####..'']),
      (CHR ''C'', [''.###..'', ''#...#.'', ''#.....'', ''#.....'', ''#.....'',
       ''#.....'', ''#.....'', ''#...#.'', ''.###..'']),
      (CHR ''D'', [''####..'', ''#...#.'', ''#...#.'', ''#...#.'', ''#...#.'',
       ''#...#.'', ''#...#.'', ''#...#.'', ''####..'']),
      (CHR ''E'', [''#####.'', ''#.....'', ''#.....'', ''#.....'', ''####..'',
       ''#.....'', ''#.....'', ''#.....'', ''#####.'']),
      (CHR ''F'', [''#####.'', ''#.....'', ''#.....'', ''#.....'', ''####..'',
       ''#.....'', ''#.....'', ''#.....'', ''#.....'']),
      (CHR ''G'', [''.###..'', ''#...#.'', ''#.....'', ''#.....'', ''#..##.'',
       ''#...#.'', ''#...#.'', ''#...#.'', ''.###..'']),
      (CHR ''H'', [''#...#.'', ''#...#.'', ''#...#.'', ''#...#.'', ''#####.'',
       ''#...#.'', ''#...#.'', ''#...#.'', ''#...#.'']),
      (CHR ''I'', [''.###..'', ''..#...'', ''..#...'', ''..#...'', ''..#...'',
       ''..#...'', ''..#...'', ''..#...'', ''.###..'']),
      (CHR ''J'', [''..###.'', ''...#..'', ''...#..'', ''...#..'', ''...#..'',
       ''...#..'', ''#..#..'', ''#..#..'', ''.##...'']),
      (CHR ''K'', [''#...#.'', ''#..#..'', ''#.#...'', ''##....'', ''##....'',
       ''#.#...'', ''#..#..'', ''#...#.'', ''#...#.'']),
      (CHR ''L'', [''#.....'', ''#.....'', ''#.....'', ''#.....'', ''#.....'',
       ''#.....'', ''#.....'', ''#.....'', ''#####.'']),
      (CHR ''M'', [''#...#.'', ''##.##.'', ''#.#.#.'', ''#.#.#.'', ''#...#.'',
       ''#...#.'', ''#...#.'', ''#...#.'', ''#...#.'']),
      (CHR ''N'', [''#...#.'', ''##..#.'', ''##..#.'', ''#.#.#.'', ''#.#.#.'',
       ''#.#.#.'', ''#..##.'', ''#..##.'', ''#...#.'']),
      (CHR ''O'', [''.###..'', ''#...#.'', ''#...#.'', ''#...#.'', ''#...#.'',
       ''#...#.'', ''#...#.'', ''#...#.'', ''.###..'']),
      (CHR ''P'', [''####..'', ''#...#.'', ''#...#.'', ''#...#.'', ''####..'',
       ''#.....'', ''#.....'', ''#.....'', ''#.....'']),
      (CHR ''Q'', [''.###..'', ''#...#.'', ''#...#.'', ''#...#.'', ''#...#.'',
       ''#...#.'', ''#.#.#.'', ''#..#..'', ''.##.#.'']),
      (CHR ''R'', [''####..'', ''#...#.'', ''#...#.'', ''#...#.'', ''####..'',
       ''#.#...'', ''#..#..'', ''#..#..'', ''#...#.'']),
      (CHR ''S'', [''.###..'', ''#...#.'', ''#.....'', ''#.....'', ''.###..'',
       ''....#.'', ''....#.'', ''#...#.'', ''.###..'']),
      (CHR ''T'', [''#####.'', ''..#...'', ''..#...'', ''..#...'', ''..#...'',
       ''..#...'', ''..#...'', ''..#...'', ''..#...'']),
      (CHR ''U'', [''#...#.'', ''#...#.'', ''#...#.'', ''#...#.'', ''#...#.'',
       ''#...#.'', ''#...#.'', ''#...#.'', ''.###..'']),
      (CHR ''V'', [''#...#.'', ''#...#.'', ''#...#.'', ''#...#.'', ''#...#.'',
       ''#...#.'', ''.#.#..'', ''.#.#..'', ''..#...'']),
      (CHR ''W'', [''#...#.'', ''#...#.'', ''#...#.'', ''#...#.'', ''#.#.#.'',
       ''#.#.#.'', ''#.#.#.'', ''##.##.'', ''#...#.'']),
      (CHR ''X'', [''#...#.'', ''#...#.'', ''.#.#..'', ''.#.#..'', ''..#...'',
       ''.#.#..'', ''.#.#..'', ''#...#.'', ''#...#.'']),
      (CHR ''Y'', [''#...#.'', ''#...#.'', ''.#.#..'', ''.#.#..'', ''..#...'',
       ''..#...'', ''..#...'', ''..#...'', ''..#...'']),
      (CHR ''Z'', [''#####.'', ''....#.'', ''....#.'', ''...#..'', ''..#...'',
       ''.#....'', ''#.....'', ''#.....'', ''#####.'']),
      (CHR ''0'', [''.###..'', ''#...#.'', ''#...#.'', ''#..##.'', ''#.#.#.'',
       ''##..#.'', ''#...#.'', ''#...#.'', ''.###..'']),
      (CHR ''1'', [''..#...'', ''.##...'', ''..#...'', ''..#...'', ''..#...'',
       ''..#...'', ''..#...'', ''..#...'', ''.###..'']),
      (CHR ''2'', [''.###..'', ''#...#.'', ''....#.'', ''....#.'', ''...#..'',
       ''..#...'', ''.#....'', ''#.....'', ''#####.'']),
      (CHR ''3'', [''.###..'', ''#...#.'', ''....#.'', ''....#.'', ''..##..'',
       ''....#.'', ''....#.'', ''#...#.'', ''.###..'']),
      (CHR ''4'', [''...#..'', ''..##..'', ''.#.#..'', ''#..#..'', ''#..#..'',
       ''#####.'', ''...#..'', ''...#..'', ''...#..'']),
      (CHR ''5'', [''#####.'', ''#.....'', ''#.....'', ''####..'', ''....#.'',
       ''....#.'', ''....#.'', ''#...#.'', ''.###..'']),
      (CHR ''6'', [''..##..'', ''.#....'', ''#.....'', ''#.....'', ''####..'',
       ''#...#.'', ''#...#.'', ''#...#.'', ''.###..'']),
      (CHR ''7'', [''#####.'', ''....#.'', ''....#.'', ''...#..'', ''...#..'',
       ''..#...'', ''..#...'', ''..#...'', ''..#...'']),
      (CHR ''8'', [''.###..'', ''#...#.'', ''#...#.'', ''#...#.'', ''.###..'',
       ''#...#.'', ''#...#.'', ''#...#.'', ''.###..'']),
      (CHR ''9'', [''.###..'', ''#...#.'', ''#...#.'', ''#...#.'', ''.####.'',
       ''....#.'', ''....#.'', ''...#..'', ''.##...'']),
      (CHR ''#'', [''.#.#..'', ''.#.#..'', ''#####.'', ''.#.#..'', ''.#.#..'',
       ''#####.'', ''.#.#..'', ''.#.#..'', ''......'']),
      (CHR ''*'', [''......'', ''#.#.#.'', ''.###..'', ''#####.'', ''.###..'',
       ''#.#.#.'', ''......'', ''......'', ''......'']),
      (CHR ''/'', [''....#.'', ''....#.'', ''...#..'', ''...#..'', ''..#...'',
       ''.#....'', ''.#....'', ''#.....'', ''#.....'']),
      (CHR 0x5C, [''#.....'', ''#.....'', ''.#....'', ''.#....'', ''..#...'',
       ''...#..'', ''...#..'', ''....#.'', ''....#.'']),
      (CHR ''+'', [''......'', ''......'', ''..#...'', ''..#...'', ''#####.'',
       ''..#...'', ''..#...'', ''......'', ''......'']),
      (CHR ''-'', [''......'', ''......'', ''......'', ''......'', ''#####.'',
       ''......'', ''......'', ''......'', ''......'']),
      (CHR ''='', [''......'', ''......'', ''......'', ''#####.'', ''......'',
       ''#####.'', ''......'', ''......'', ''......'']),
      (CHR ''?'', [''.###..'', ''#...#.'', ''....#.'', ''...#..'', ''..#...'',
       ''..#...'', ''......'', ''..#...'', ''..#...'']),
      (CHR ''!'', [''..#...'', ''..#...'', ''..#...'', ''..#...'', ''..#...'',
       ''..#...'', ''......'', ''..#...'', ''..#...'']),
      (CHR '':'', [''......'', ''..#...'', ''..#...'', ''......'', ''......'',
       ''......'', ''..#...'', ''..#...'', ''......'']),
      (CHR ''.'', [''......'', ''......'', ''......'', ''......'', ''......'',
       ''......'', ''......'', ''..#...'', ''..#...'']),
      (CHR 0x27, [''..#...'', ''..#...'', ''..#...'', ''......'', ''......'',
       ''......'', ''......'', ''......'', ''......''])]"

text \<open>Every glyph is nine rows of six columns of which the last is the side bearing, and no two share a key.\<close>

lemma font_shape:
  "list_all (\<lambda>(c, rows). length rows = GLYPH_H \<and> list_all (\<lambda>r. length r = GLYPH_W \<and> r ! 5 = CHR ''.'') rows) FONT"
  "distinct (map fst FONT)"
  by code_simp+

section \<open>Reading the pairs\<close>

text \<open>\<open>s.split()\<close> and \<open>' '.join\<close>.\<close>

function split_ws :: "string \<Rightarrow> string list" where
  "split_ws s =
     (if lstrip s = [] then []
      else takeWhile (\<lambda>c. \<not> is_ws c) (lstrip s) # split_ws (dropWhile (\<lambda>c. \<not> is_ws c) (lstrip s)))"
  by pat_completeness auto
termination
proof (relation "measure length", goal_cases)
  case (2 s)
  then obtain c cs where c: "lstrip s = c # cs" by (cases "lstrip s") auto
  then have "\<not> is_ws c" by (simp add: lstrip_def dropWhile_eq_Cons_conv)
  then have "length (dropWhile (\<lambda>c. \<not> is_ws c) (lstrip s)) \<le> length cs"
    by (simp add: c length_dropWhile_le)
  moreover have "length (lstrip s) \<le> length s" by (simp add: lstrip_def length_dropWhile_le)
  ultimately show ?case by (simp add: c)
qed simp

declare split_ws.simps [simp del]

fun join_spaces :: "string list \<Rightarrow> string" where
  "join_spaces [] = []"
| "join_spaces [w] = w"
| "join_spaces (w # ws) = w @ '' '' @ join_spaces ws"

datatype words_error = No_glyph string | Not_two string | No_letters string | Not_anagram string string | Empty_words

definition normalise :: "string \<Rightarrow> words_error + string" where
  "normalise phrase =
     (let txt = join_spaces (split_ws (upper phrase))
      in if list_all (\<lambda>c. c \<in> fst ` set FONT) txt then Inr txt else Inl (No_glyph phrase))"

definition letters :: "string \<Rightarrow> string" where
  "letters s = filter (\<lambda>c. c \<noteq> CHR '' '') s"

definition check_anagram :: "string \<Rightarrow> string \<Rightarrow> words_error + unit" where
  "check_anagram a b = (if mset (letters a) = mset (letters b) then Inr () else Inl (Not_anagram a b))"

definition read_pair :: "string \<Rightarrow> words_error + (string \<times> string)" where
  "read_pair chunk =
     (case split_on (CHR ''|'') chunk of
        [x, y] \<Rightarrow>
          bindE (normalise x) (\<lambda>first. bindE (normalise y) (\<lambda>second.
            if letters first = [] then Inl (No_letters chunk)
            else bindE (check_anagram first second) (\<lambda>_. Inr (first, second))))
      | _ \<Rightarrow> Inl (Not_two chunk))"

fun read_chunks :: "string list \<Rightarrow> words_error + (string \<times> string) list" where
  "read_chunks [] = Inr []"
| "read_chunks (c # cs) =
     (if strip c = [] then read_chunks cs
      else bindE (read_pair c) (\<lambda>p. bindE (read_chunks cs) (\<lambda>ps. Inr (p # ps))))"

definition read_words :: "string \<Rightarrow> words_error + (string \<times> string) list" where
  "read_words words = bindE (read_chunks (split_on (CHR '';'') words)) (\<lambda>ps. if ps = [] then Inl Empty_words else Inr ps)"

section \<open>Places\<close>

type_synonym slots = "(char \<times> int) list"

fun measure_from :: "int \<Rightarrow> int \<Rightarrow> int \<Rightarrow> string \<Rightarrow> slots" where
  "measure_from adv gap x [] = []"
| "measure_from adv gap x (c # cs) =
     (if c = CHR '' '' then measure_from adv gap (x + gap) cs else (c, x) # measure_from adv gap (x + adv) cs)"

definition measure_text :: "string \<Rightarrow> nat \<Rightarrow> slots \<times> int" where
  "measure_text phrase scale =
     (let adv = int (GLYPH_W * scale); gap = py_round (of_int adv * (7 / 10));
          slots = measure_from adv gap 0 phrase
      in (slots, if slots = [] then 0 else snd (last slots) + 5 * int scale))"

definition layout :: "string \<Rightarrow> nat \<Rightarrow> int \<Rightarrow> slots \<times> int" where
  "layout phrase scale width =
     (let (slots, ink) = measure_text phrase scale; left = (width - ink) div 2
      in (map (\<lambda>(c, x). (c, x + left)) slots, left + ink))"

text \<open>The inner loop of \<open>assign\<close>: the nearest free place with the same character, or minus one.\<close>

definition nearest :: "bool list \<Rightarrow> slots \<Rightarrow> char \<Rightarrow> int \<Rightarrow> int" where
  "nearest taken slots_b c xa =
     fst (fold (\<lambda>j (best, best_d).
         if taken ! j \<or> fst (slots_b ! j) \<noteq> c then (best, best_d)
         else let d = \<bar>snd (slots_b ! j) - xa\<bar> in
           if best_d = None \<or> d < the best_d then (int j, Some d) else (best, best_d))
       [0..<length slots_b] (-1, None))"

text \<open>An index of minus one is the last place; on an empty list it raises, which is \<open>None\<close>.\<close>

fun assign_from :: "slots \<Rightarrow> bool list \<Rightarrow> slots \<Rightarrow> (char \<times> int \<times> int) list option" where
  "assign_from slots_b taken [] = Some []"
| "assign_from slots_b taken ((c, xa) # rest) =
     (if slots_b = [] then None
      else let best = nearest taken slots_b c xa; j = (if best < 0 then length slots_b - 1 else nat best) in
        map_option ((#) (c, xa, snd (slots_b ! j))) (assign_from slots_b (taken[j := True]) rest))"

definition assign :: "slots \<Rightarrow> slots \<Rightarrow> (char \<times> int \<times> int) list option" where
  "assign slots_a slots_b = assign_from slots_b (replicate (length slots_b) False) slots_a"

text \<open>The largest of six scales whose widest phrase leaves a margin.\<close>

definition widest :: "(string \<times> string) list \<Rightarrow> nat \<Rightarrow> int" where
  "widest pairs c = Max (set (concat (map (\<lambda>(a, b). [snd (measure_text a c), snd (measure_text b c)]) pairs)))"

fun scale_loop :: "(string \<times> string) list \<Rightarrow> int \<Rightarrow> int \<Rightarrow> nat list \<Rightarrow> nat \<Rightarrow> nat" where
  "scale_loop pairs width height [] scale = scale"
| "scale_loop pairs width height (c # cs) scale =
     (if int (GLYPH_H * c) > height - 20 then scale
      else if widest pairs c > width - 16 then scale
      else scale_loop pairs width height cs c)"

definition text_scale :: "(string \<times> string) list \<Rightarrow> int \<Rightarrow> int \<Rightarrow> nat" where
  "text_scale pairs width height = scale_loop pairs width height [1..<7] 1"

section \<open>The schedule\<close>

datatype act_kind = Scramble | Hold | Fly | Dissolve

record plan_entry =
  pe_t0 :: rat
  pe_dur :: rat
  pe_kind :: act_kind
  pe_act :: nat
  pe_side :: bool

record plan =
  pl_entries :: "plan_entry list"
  pl_clock :: rat

definition add_entry :: "rat \<times> act_kind \<times> nat \<times> bool \<Rightarrow> plan \<Rightarrow> plan" where
  "add_entry = (\<lambda>(dur, kind, a, side) p.
     \<lparr>pl_entries = pl_entries p @ [\<lparr>pe_t0 = pl_clock p, pe_dur = dur, pe_kind = kind, pe_act = a, pe_side = side\<rparr>],
      pl_clock = pl_clock p + dur\<rparr>)"

record sneak_args =
  sk_words :: string
  sk_speed :: rat
  sk_hold :: rat
  sk_scramble :: rat
  sk_cycle :: int
  sk_width :: int
  sk_height :: int

definition fly_dur :: "sneak_args \<Rightarrow> rat" where "fly_dur ag = (32 / 10) / max (sk_speed ag) (5 / 100)"
definition scr_dur :: "sneak_args \<Rightarrow> rat" where "scr_dur ag = max (sk_scramble ag) (1 / 10) / max (sk_speed ag) (5 / 100)"
definition hold_dur :: "sneak_args \<Rightarrow> rat" where "hold_dur ag = max (sk_hold ag) (1 / 10)"

definition act_requests :: "sneak_args \<Rightarrow> nat \<Rightarrow> (rat \<times> act_kind \<times> nat \<times> bool) list" where
  "act_requests ag a =
     [(scr_dur ag, Scramble, a, False)] @
     concat (replicate (nat (max (sk_cycle ag) 1))
       [(hold_dur ag, Hold, a, False), (fly_dur ag, Fly, a, False), (hold_dur ag, Hold, a, True), (fly_dur ag, Fly, a, True)]) @
     [(scr_dur ag * (1 / 2), Dissolve, a, False)]"

definition make_plan :: "sneak_args \<Rightarrow> nat \<Rightarrow> plan" where
  "make_plan ag n = fold add_entry (concat (map (act_requests ag) [0..<n])) \<lparr>pl_entries = [], pl_clock = 0\<rparr>"

interpretation plan_line: timeline pe_t0 pe_dur pl_entries pl_clock add_entry "\<lambda>(dur, _). 0 < dur"
  by unfold_locales (auto simp: add_entry_def)

section \<open>Where the letters are\<close>

text \<open>The lags and the noise of an act are what its generator drew.\<close>

record act =
  ac_tiles :: "(char \<times> int \<times> int) list"
  ac_right_a :: int
  ac_right_b :: int

record draws =
  dr_lag :: "nat \<Rightarrow> bool \<Rightarrow> nat \<Rightarrow> rat"
  dr_lock :: "nat \<Rightarrow> nat \<Rightarrow> rat"
  dr_noise :: "nat \<Rightarrow> nat \<Rightarrow> nat \<Rightarrow> char"
  dr_flick :: "nat \<Rightarrow> nat \<Rightarrow> nat \<Rightarrow> nat"

definition FULL :: nat where "FULL = 15"
definition TRANSIT :: nat where "TRANSIT = 12"

definition make_act :: "nat \<Rightarrow> int \<Rightarrow> string \<times> string \<Rightarrow> act option" where
  "make_act scale width = (\<lambda>(first, second).
     let (slots_a, right_a) = layout first scale width; (slots_b, right_b) = layout second scale width
     in map_option (\<lambda>tiles. \<lparr>ac_tiles = tiles, ac_right_a = right_a, ac_right_b = right_b\<rparr>) (assign slots_a slots_b))"

record sneakers =
  sn_pairs :: "(string \<times> string) list"
  sn_scale :: nat
  sn_acts :: "act list"
  sn_plan :: plan

datatype sneak_error = Bad_words words_error | Index_error

fun all_some :: "'a option list \<Rightarrow> 'a list option" where
  "all_some [] = Some []"
| "all_some (x # xs) = Option.bind x (\<lambda>y. map_option ((#) y) (all_some xs))"

definition sneakers_build :: "sneak_args \<Rightarrow> sneak_error + sneakers" where
  "sneakers_build ag =
     (case read_words (sk_words ag) of
        Inl e \<Rightarrow> Inl (Bad_words e)
      | Inr pairs \<Rightarrow>
          (let scale = text_scale pairs (sk_width ag) (sk_height ag)
           in case all_some (map (make_act scale (sk_width ag)) pairs) of
                None \<Rightarrow> Inl Index_error
              | Some acts \<Rightarrow> Inr \<lparr>sn_pairs = pairs, sn_scale = scale, sn_acts = acts,
                                   sn_plan = make_plan ag (length acts)\<rparr>))"

definition flight :: "rat \<Rightarrow> rat \<Rightarrow> rat" where
  "flight lag u = max 0 (min ((u - lag) / (1 - lag)) 1)"

definition eased :: "rat \<Rightarrow> rat" where
  "eased k = (let v = k - 1 in 1 + 235 / 100 * v * v * v + 135 / 100 * v * v)"

text \<open>Character, place and brightness of tile \<open>i\<close> of an act, a fraction \<open>u\<close> into an entry at time \<open>now\<close>.\<close>

definition tile_at :: "draws \<Rightarrow> act_kind \<Rightarrow> nat \<Rightarrow> bool \<Rightarrow> rat \<Rightarrow> rat \<Rightarrow> nat \<Rightarrow> char \<times> int \<times> int \<Rightarrow> char \<times> rat \<times> nat" where
  "tile_at dr kind a side now u i = (\<lambda>(c, xa, xb).
     case kind of
       Hold \<Rightarrow> (c, of_int (if side then xb else xa), FULL)
     | Fly \<Rightarrow>
         (let src = of_int (if side then xb else xa); dst = of_int (if side then xa else xb);
              k = flight (dr_lag dr a side i) u
          in (c, src + (dst - src) * eased k, if 0 < k * (1 - k) then TRANSIT else FULL))
     | _ \<Rightarrow>
         (let locked = (if kind = Scramble then dr_lock dr a i \<le> u else u < dr_lock dr a i);
              slot = nat (\<lfloor>now * 17\<rfloor> mod 256)
          in (if locked then c else dr_noise dr a slot i, of_int xa, if locked then FULL else dr_flick dr a slot i)))"

definition sample :: "draws \<Rightarrow> sneakers \<Rightarrow> rat \<Rightarrow> plan_entry \<times> (char \<times> rat \<times> nat) list" where
  "sample dr sn t =
     (let now = fmod t (pl_clock (sn_plan sn));
          es = pl_entries (sn_plan sn);
          e = es ! (bisect_right (map pe_t0 es) now - 1);
          u = (now - pe_t0 e) / pe_dur e;
          tiles = ac_tiles (sn_acts sn ! pe_act e)
      in (e, map (\<lambda>i. tile_at dr (pe_kind e) (pe_act e) (pe_side e) now u i (tiles ! i)) [0..<length tiles]))"

section \<open>Every letter finds a seat\<close>

definition free_seats :: "bool list \<Rightarrow> nat list" where
  "free_seats taken = filter (\<lambda>j. \<not> taken ! j) [0..<length taken]"

lemma take_seat:
  assumes "j < length taken" "\<not> taken ! j"
  shows "mset (free_seats taken) = add_mset j (mset (free_seats (taken[j := True])))"
proof -
  have "free_seats (taken[j := True]) = filter (\<lambda>i. i \<noteq> j) (free_seats taken)"
    using assms(1) by (auto simp: free_seats_def nth_list_update intro!: filter_cong split: if_splits)
  moreover have "mset (free_seats taken) = {# i \<in># mset (free_seats taken). i = j #} + {# i \<in># mset (free_seats taken). i \<noteq> j #}"
    by (rule multiset_partition)
  moreover have "{# i \<in># mset (free_seats taken). i = j #} = {#j#}"
  proof -
    have "count (mset (free_seats taken)) j = 1"
      using assms by (simp add: distinct_count_atmost_1 [THEN iffD1] free_seats_def)
    then show ?thesis by (simp add: filter_eq_replicate_mset)
  qed
  ultimately show ?thesis by simp
qed

lemma nearest_spec:
  defines "ok \<equiv> \<lambda>taken b c j. \<not> taken ! j \<and> fst (b ! j) = (c :: char)"
  shows "(nearest taken b c xa = -1 \<and> (\<forall>j < length b. \<not> ok taken b c j)) \<or>
    (\<exists>j < length b. nearest taken b c xa = int j \<and> ok taken b c j \<and>
       (\<forall>i < length b. ok taken b c i \<longrightarrow> \<bar>snd (b ! j) - xa\<bar> \<le> \<bar>snd (b ! i) - xa\<bar>))"
proof -
  define f where "f = (\<lambda>j (best :: int, best_d).
         if taken ! j \<or> fst (b ! j) \<noteq> c then (best, best_d)
         else let d = \<bar>snd (b ! j) - xa\<bar> in
           if best_d = None \<or> d < the best_d then (int j, Some d) else (best, best_d))"
  define good where "good = (\<lambda>js (best, best_d).
      best = -1 \<and> best_d = None \<and> (\<forall>j \<in> set js. \<not> ok taken b c j) \<or>
      (\<exists>j \<in> set js. best = int j \<and> best_d = Some \<bar>snd (b ! j) - xa\<bar> \<and> ok taken b c j \<and>
         (\<forall>i \<in> set js. ok taken b c i \<longrightarrow> \<bar>snd (b ! j) - xa\<bar> \<le> \<bar>snd (b ! i) - xa\<bar>)))"
  have "good js (fold f js (-1, None))" for js
  proof (induction js rule: rev_induct)
    case (snoc k js)
    obtain best d where r: "fold f js (-1, None) = (best, d)" by fastforce
    then show ?case using snoc by (auto simp: good_def f_def ok_def Let_def)
  qed (simp add: good_def)
  from this [of "[0..<length b]"] show ?thesis
    unfolding nearest_def f_def [symmetric] good_def by (auto split: prod.splits)
qed

lemma assign_from_seats:
  assumes "length taken = length b" "mset (map fst a) = mset (map (\<lambda>j. fst (b ! j)) (free_seats taken))"
  shows "\<exists>out. assign_from b taken a = Some out \<and> map (\<lambda>(c, xa, _). (c, xa)) out = a \<and>
    mset (map (\<lambda>(c, _, xb). (c, xb)) out) = mset (map ((!) b) (free_seats taken))"
  using assms
proof (induction a arbitrary: taken)
  case Nil
  then show ?case by simp
next
  case (Cons e a)
  obtain c xa where e: "e = (c, xa)" by fastforce
  have "c \<in> set (map (\<lambda>j. fst (b ! j)) (free_seats taken))"
    using Cons.prems(2) by (metis e fst_conv list.set_intros(1) list.simps(9) mset_eq_setD)
  then obtain j0 where "j0 < length b" "\<not> taken ! j0" "fst (b ! j0) = c"
    using Cons.prems(1) by (auto simp: free_seats_def)
  then obtain j where j: "j < length b" "nearest taken b c xa = int j" "\<not> taken ! j" "fst (b ! j) = c"
    using nearest_spec [of taken b c xa] by auto
  note seat = take_seat [of j taken]
  have "mset (map fst a) = mset (map (\<lambda>j. fst (b ! j)) (free_seats (taken[j := True])))"
    using Cons.prems j seat by (simp add: e mset_map)
  then obtain out where out: "assign_from b (taken[j := True]) a = Some out" "map (\<lambda>(c, xa, _). (c, xa)) out = a"
    "mset (map (\<lambda>(c, _, xb). (c, xb)) out) = mset (map ((!) b) (free_seats (taken[j := True])))"
    using Cons.IH [of "taken[j := True]"] Cons.prems(1) by auto
  have "b ! j = (c, snd (b ! j))" using j(4) by (metis prod.collapse)
  then have "mset (map ((!) b) (free_seats taken)) = add_mset (c, snd (b ! j)) (mset (map ((!) b) (free_seats (taken[j := True]))))"
    using seat j(1,3) Cons.prems(1) by (simp add: mset_map)
  moreover have "assign_from b taken (e # a) = Some ((c, xa, snd (b ! j)) # out)"
    using out(1) j(1,2) by (auto simp: e Let_def)
  ultimately show ?case
    using out(2,3) by (intro exI [of _ "(c, xa, snd (b ! j)) # out"]) (simp add: e)
qed

lemma assign_seats:
  assumes "mset (map fst a) = mset (map fst b)"
  shows "\<exists>out. assign a b = Some out \<and> map (\<lambda>(c, xa, _). (c, xa)) out = a \<and> mset (map (\<lambda>(c, _, xb). (c, xb)) out) = mset b"
proof -
  have f: "free_seats (replicate (length b) False) = [0..<length b]"
    unfolding free_seats_def by (simp add: filter_id_conv)
  have "map ((!) b) [0..<length b] = b" by (rule map_nth)
  moreover have "map (\<lambda>j. fst (b ! j)) [0..<length b] = map fst b" by (rule nth_equalityI) simp_all
  ultimately show ?thesis
    using assign_from_seats [of "replicate (length b) False" b a] assms by (simp add: assign_def f)
qed

section \<open>Phrases on the panel\<close>

lemma measure_from_chars: "map fst (measure_from adv gap x cs) = letters cs"
  by (induction cs arbitrary: x) (auto simp: letters_def)

lemma measure_from_spaced:
  assumes "0 \<le> gap" "0 \<le> adv"
  shows "sorted_wrt (\<lambda>p q. snd p + adv \<le> snd q) (measure_from adv gap x cs) \<and>
    (\<forall>p \<in> set (measure_from adv gap x cs). x \<le> snd p)"
proof (induction cs arbitrary: x)
  case (Cons c cs)
  have "\<forall>p \<in> set (measure_from adv gap (x + d) cs). x \<le> snd p" if "0 \<le> d" for d
    using Cons.IH [of "x + d"] that by (meson add_increasing2 order_trans order_refl)
  then show ?case using Cons.IH [of "x + gap"] Cons.IH [of "x + adv"] assms by simp
qed simp

lemma py_round_nonneg: "0 \<le> q \<Longrightarrow> 0 \<le> py_round q"
  by (simp add: py_round_def Let_def)

lemma layout_chars: "map fst (fst (layout phrase scale width)) = letters phrase"
  using measure_from_chars by (simp add: layout_def measure_text_def Let_def case_prod_beta comp_def)

text \<open>Letters stand a full cell apart, inside the span whose right end \<open>layout\<close> returns.\<close>

lemma measure_text_spaced:
  "sorted_wrt (\<lambda>p q. snd p + int (GLYPH_W * scale) \<le> snd q) (fst (measure_text phrase scale)) \<and>
    (\<forall>p \<in> set (fst (measure_text phrase scale)). 0 \<le> snd p)"
  unfolding measure_text_def Let_def fst_conv by (rule measure_from_spaced) (simp_all add: py_round_nonneg)

lemma layout_places:
  "fst (layout phrase scale width) =
     map (\<lambda>p. (fst p, snd p + (width - snd (measure_text phrase scale)) div 2)) (fst (measure_text phrase scale))"
  by (simp add: layout_def case_prod_beta Let_def)

lemma layout_spaced:
  "sorted_wrt (\<lambda>p q. snd p + int (6 * scale) \<le> snd q) (fst (layout phrase scale width))"
  using measure_text_spaced [of scale phrase] by (simp add: layout_places sorted_wrt_map GLYPH_W_def)

lemma layout_span:
  assumes "p \<in> set (fst (layout phrase scale width))"
  shows "(width - snd (measure_text phrase scale)) div 2 \<le> snd p \<and>
    snd p + 5 * int scale \<le> (width - snd (measure_text phrase scale)) div 2 + snd (measure_text phrase scale)"
proof -
  define ss where "ss = fst (measure_text phrase scale)"
  obtain q where q: "q \<in> set ss" "snd p = snd q + (width - snd (measure_text phrase scale)) div 2"
    using assms by (auto simp: layout_places ss_def)
  note sp = measure_text_spaced [of scale phrase, folded ss_def]
  have "snd q \<le> snd (last ss)"
  proof -
    obtain ys z where z: "ss = ys @ [z]" using q(1) by (metis empty_iff empty_set rev_exhaust)
    show ?thesis
    proof (cases "q = z")
      case False
      then have "snd q + int (GLYPH_W * scale) \<le> snd z" using sp q(1) z by (auto simp: sorted_wrt_append)
      then show ?thesis using z by (simp add: GLYPH_W_def)
    qed (simp add: z)
  qed
  moreover have "snd (measure_text phrase scale) = snd (last ss) + 5 * int scale"
    using q(1) by (auto simp: measure_text_def Let_def ss_def split: if_splits)
  moreover have "0 \<le> snd q" using sp q(1) by blast
  ultimately show ?thesis using q(2) by linarith
qed

section \<open>What was accepted\<close>

definition anagrams :: "string \<times> string \<Rightarrow> bool" where
  "anagrams = (\<lambda>(a, b). letters a \<noteq> [] \<and> mset (letters a) = mset (letters b))"

lemma read_pair_ok: "read_pair c = Inr ab \<Longrightarrow> anagrams ab"
  by (auto simp: read_pair_def check_anagram_def anagrams_def bindE_def split: list.splits sum.splits if_splits)

lemma read_chunks_ok: "read_chunks cs = Inr ps \<Longrightarrow> list_all anagrams ps"
  by (induction cs arbitrary: ps) (auto simp: bindE_def read_pair_ok split: sum.splits if_splits)

lemma read_words_ok: "read_words w = Inr ps \<Longrightarrow> ps \<noteq> [] \<and> list_all anagrams ps"
  by (auto simp: read_words_def bindE_def read_chunks_ok split: sum.splits if_splits)

lemma make_act_seats:
  assumes "anagrams (a, b)"
  shows "\<exists>ac. make_act scale width (a, b) = Some ac \<and>
    map (\<lambda>(c, xa, _). (c, xa)) (ac_tiles ac) = fst (layout a scale width) \<and>
    mset (map (\<lambda>(c, _, xb). (c, xb)) (ac_tiles ac)) = mset (fst (layout b scale width))"
proof -
  have "mset (map fst (fst (layout a scale width))) = mset (map fst (fst (layout b scale width)))"
    using assms by (simp only: layout_chars anagrams_def prod.case)
  from assign_seats [OF this] show ?thesis by (auto simp: make_act_def case_prod_beta)
qed

lemma all_some_map: "\<forall>x \<in> set xs. f x \<noteq> None \<Longrightarrow> all_some (map f xs) = Some (map (the \<circ> f) xs)"
  by (induction xs) auto

lemma sneakers_built:
  assumes "read_words (sk_words ag) = Inr pairs"
  shows "\<exists>sn. sneakers_build ag = Inr sn \<and> sn_pairs sn = pairs \<and> length (sn_acts sn) = length pairs \<and>
    sn_plan sn = make_plan ag (length pairs) \<and> sn_scale sn = text_scale pairs (sk_width ag) (sk_height ag) \<and>
    (\<forall>i < length pairs. Some (sn_acts sn ! i) = make_act (sn_scale sn) (sk_width ag) (pairs ! i))"
proof -
  let ?f = "make_act (text_scale pairs (sk_width ag) (sk_height ag)) (sk_width ag)"
  have some: "\<forall>p \<in> set pairs. ?f p \<noteq> None"
    using read_words_ok [OF assms] make_act_seats by (fastforce simp: list_all_iff)
  then have "Some (map (the \<circ> ?f) pairs ! i) = ?f (pairs ! i)" if "i < length pairs" for i
    using that by (simp add: option.collapse)
  then show ?thesis
    using assms all_some_map [OF some] by (simp add: sneakers_build_def Let_def)
qed

section \<open>The schedule in order\<close>

lemma add_entries:
  "map (\<lambda>e. (pe_dur e, pe_kind e, pe_act e, pe_side e)) (pl_entries (fold add_entry xs p)) =
     map (\<lambda>e. (pe_dur e, pe_kind e, pe_act e, pe_side e)) (pl_entries p) @ xs"
  by (induction xs arbitrary: p) (auto simp: add_entry_def)

abbreviation plan_requests :: "sneak_args \<Rightarrow> nat \<Rightarrow> (rat \<times> act_kind \<times> nat \<times> bool) list" where
  "plan_requests ag n \<equiv> concat (map (act_requests ag) [0..<n])"

lemma plan_entries:
  "map (\<lambda>e. (pe_dur e, pe_kind e, pe_act e, pe_side e)) (pl_entries (make_plan ag n)) = plan_requests ag n"
  by (simp add: make_plan_def add_entries)

lemma durations_positive: "0 < fly_dur ag" "0 < scr_dur ag" "0 < hold_dur ag"
  by (simp_all add: fly_dur_def scr_dur_def hold_dur_def less_max_iff_disj)

lemma plan_laid: "plan_line.laid (make_plan ag n)"
  unfolding make_plan_def
  by (intro plan_line.laid_fold plan_line.laid_empty)
    (auto simp: list_all_iff act_requests_def durations_positive dest: set_replicate_conv_if [THEN equalityD1, THEN subsetD])

lemma plan_not_empty: "0 < n \<Longrightarrow> pl_entries (make_plan ag n) \<noteq> []"
proof -
  assume "0 < n"
  then have "plan_requests ag n \<noteq> []" by (cases n) (auto simp: act_requests_def)
  then show ?thesis using plan_entries [of ag n] by auto
qed

lemma plan_acts: "e \<in> set (pl_entries (make_plan ag n)) \<Longrightarrow> pe_act e < n"
proof -
  assume "e \<in> set (pl_entries (make_plan ag n))"
  then have "(pe_dur e, pe_kind e, pe_act e, pe_side e) \<in> set (plan_requests ag n)"
    unfolding plan_entries [symmetric] by force
  then show ?thesis by (auto simp: act_requests_def split: if_splits)
qed

lemma sample_entry:
  assumes "0 < length (sn_acts sn)" "sn_plan sn = make_plan ag (length (sn_acts sn))"
  shows "fst (sample dr sn t) \<in> set (pl_entries (sn_plan sn)) \<and> pe_act (fst (sample dr sn t)) < length (sn_acts sn)"
proof -
  have "fst (sample dr sn t) = plan_line.shown (sn_plan sn) t"
    by (simp add: sample_def plan_line.shown_def Let_def)
  then have "fst (sample dr sn t) \<in> set (pl_entries (sn_plan sn))"
    using plan_line.shown_at [OF plan_laid plan_not_empty [OF assms(1)], where t = t] assms(2) by simp
  then show ?thesis using plan_acts assms(2) by auto
qed

text \<open>
  C15. Both phrases are spelt. When the words are accepted the build succeeds, and at every moment the
  schedule holds a phrase, every letter of it is shown at full brightness in a place of its own:
  the letters and places on the panel are exactly those of the phrase laid out.
\<close>

theorem both_phrases_are_spelt:
  assumes "read_words (sk_words ag) = Inr pairs"
  shows "\<exists>sn. sneakers_build ag = Inr sn \<and>
    (let (e, shown) = sample dr sn t; (a, b) = pairs ! pe_act e
     in pe_kind e = Hold \<longrightarrow>
       mset (map (\<lambda>(c, x, _). (c, x)) shown) =
         mset (map (\<lambda>(c, x). (c, of_int x)) (fst (layout (if pe_side e then b else a) (sn_scale sn) (sk_width ag)))) \<and>
       (\<forall>(_, _, level) \<in> set shown. level = FULL))"
proof -
  obtain sn where sn: "sneakers_build ag = Inr sn" "length (sn_acts sn) = length pairs"
    "sn_plan sn = make_plan ag (length (sn_acts sn))"
    "\<forall>i < length pairs. Some (sn_acts sn ! i) = make_act (sn_scale sn) (sk_width ag) (pairs ! i)"
    using sneakers_built [OF assms] by auto
  have pairs: "pairs \<noteq> []" "list_all anagrams pairs" using read_words_ok [OF assms] by auto
  obtain e shown where es: "sample dr sn t = (e, shown)" by fastforce
  then have act: "pe_act e < length pairs" using sample_entry [of sn ag dr t] sn(2,3) pairs(1) by simp
  obtain a b where ab: "pairs ! pe_act e = (a, b)" by fastforce
  have "anagrams (a, b)" using pairs(2) act ab by (auto simp: list_all_length)
  from make_act_seats [OF this, of "sn_scale sn" "sk_width ag"] sn(4) act ab
  have seats: "map (\<lambda>(c, xa, _). (c, xa)) (ac_tiles (sn_acts sn ! pe_act e)) = fst (layout a (sn_scale sn) (sk_width ag))"
    "mset (map (\<lambda>(c, _, xb). (c, xb)) (ac_tiles (sn_acts sn ! pe_act e))) = mset (fst (layout b (sn_scale sn) (sk_width ag)))"
    by (metis option.inject)+
  define ts where "ts = ac_tiles (sn_acts sn ! pe_act e)"
  have hold: "shown = map (\<lambda>(c, xa, xb). (c, of_int (if pe_side e then xb else xa), FULL)) ts" if "pe_kind e = Hold"
    using es that by (auto simp: sample_def Let_def tile_at_def ts_def case_prod_beta intro!: nth_equalityI)
  have "mset (map (\<lambda>(c, x, _). (c, x)) shown) =
      mset (map (\<lambda>(c, x). (c, of_int x)) (fst (layout (if pe_side e then b else a) (sn_scale sn) (sk_width ag))))"
    if "pe_kind e = Hold"
  proof -
    define G where "G = map (\<lambda>(c, xa, xb). (c, if pe_side e then xb else xa)) ts"
    have shown: "map (\<lambda>(c, x, _). (c, x)) shown = map (\<lambda>(c, x). (c, of_int x)) G"
      by (simp add: hold [OF that] case_prod_beta G_def)
    have G: "mset G =
        mset (fst (layout (if pe_side e then b else a) (sn_scale sn) (sk_width ag)))"
      using seats by (cases "pe_side e") (simp_all add: ts_def G_def)
    show ?thesis unfolding shown mset_map G ..
  qed
  moreover have "\<forall>(_, _, level) \<in> set shown. level = FULL" if "pe_kind e = Hold"
    by (auto simp: hold [OF that])
  ultimately show ?thesis
    by (intro exI [of _ sn] conjI sn(1)) (simp only: es ab Let_def prod.case, blast)
qed

definition elvis :: sneak_args where
  "elvis = \<lparr>sk_words = ''elvis | lives'', sk_speed = 1, sk_hold = 5, sk_scramble = 4, sk_cycle = 2, sk_width = 320, sk_height = 64\<rparr>"

definition no_draws :: draws where
  "no_draws = \<lparr>dr_lag = (\<lambda>_ _ _. 1 / 4), dr_lock = (\<lambda>_ _. 1 / 2), dr_noise = (\<lambda>_ _ _. CHR ''X''), dr_flick = (\<lambda>_ _ _. 7)\<rparr>"

lemma elvis_reads: "read_words (sk_words elvis) = Inr [(''ELVIS'', ''LIVES'')]" by code_simp

theorem both_phrases_are_spelt_witness:
  "\<exists>sn. sneakers_build elvis = Inr sn \<and>
    (let (e, shown) = sample no_draws sn 5; (a, b) = [(''ELVIS'', ''LIVES'')] ! pe_act e
     in pe_kind e = Hold \<longrightarrow>
       mset (map (\<lambda>(c, x, _). (c, x)) shown) =
         mset (map (\<lambda>(c, x). (c, of_int x)) (fst (layout (if pe_side e then b else a) (sn_scale sn) (sk_width elvis)))) \<and>
       (\<forall>(_, _, level) \<in> set shown. level = FULL))"
  by (rule both_phrases_are_spelt [OF elvis_reads])

section \<open>No letter jumps\<close>

text \<open>Whether an entry begins, and ends, at the places of the second phrase.\<close>

fun seat_before :: "rat \<times> act_kind \<times> nat \<times> bool \<Rightarrow> bool" where
  "seat_before (_, kind, _, side) = (kind \<in> {Hold, Fly} \<and> side)"

fun seat_after :: "rat \<times> act_kind \<times> nat \<times> bool \<Rightarrow> bool" where
  "seat_after (_, kind, _, side) = (kind = Hold \<and> side \<or> kind = Fly \<and> \<not> side)"

fun chained :: "bool \<Rightarrow> (rat \<times> act_kind \<times> nat \<times> bool) list \<Rightarrow> bool \<Rightarrow> bool" where
  "chained s [] s' \<longleftrightarrow> s = s'"
| "chained s (r # rs) s' \<longleftrightarrow> seat_before r = s \<and> chained (seat_after r) rs s'"

lemma chained_append: "chained s xs s1 \<Longrightarrow> chained s1 ys s2 \<Longrightarrow> chained s (xs @ ys) s2"
  by (induction xs arbitrary: s) auto

lemma chained_concat: "\<forall>xs \<in> set xss. chained s xs s \<Longrightarrow> chained s (concat xss) s"
  by (induction xss) (auto intro: chained_append)

lemma chained_nth:
  "chained s rs s' \<Longrightarrow> j < length rs \<Longrightarrow>
     seat_after (rs ! j) = (if Suc j < length rs then seat_before (rs ! Suc j) else s')"
proof (induction rs arbitrary: s j)
  case (Cons r rs)
  then show ?case by (cases j; cases rs) auto
qed simp

lemma plan_chained: "chained False (plan_requests ag n) False"
proof (rule chained_concat, rule ballI)
  fix xs
  assume "xs \<in> set (map (act_requests ag) [0..<n])"
  then obtain a where a: "xs = act_requests ag a" by auto
  have "chained False (concat (replicate m [(hold_dur ag, Hold, a, False), (fly_dur ag, Fly, a, False),
      (hold_dur ag, Hold, a, True), (fly_dur ag, Fly, a, True)])) False" for m
    by (rule chained_concat) (auto split: if_splits)
  then show "chained False xs False"
    unfolding a act_requests_def by (intro chained_append [where ?s1.0 = False]) auto
qed

lemma flight_ends: "0 \<le> lag \<Longrightarrow> lag < 1 \<Longrightarrow> eased (flight lag 0) = 0 \<and> eased (flight lag 1) = 1"
proof -
  assume lag: "0 \<le> lag" "lag < 1"
  then have "(0 - lag) / (1 - lag) \<le> 0" by (intro divide_nonpos_pos) auto
  then have "flight lag 0 = 0" unfolding flight_def by (simp add: min_def max_def)
  moreover have "flight lag 1 = 1" using lag by (simp add: flight_def)
  ultimately show ?thesis by (simp add: eased_def Let_def)
qed

text \<open>The place of a tile as an entry begins and as it ends.\<close>

lemma tile_ends:
  assumes "\<forall>a s i. 0 \<le> dr_lag dr a s i \<and> dr_lag dr a s i < 1"
  shows "fst (snd (tile_at dr kind a side now 0 i (c, xa, xb))) = of_int (if seat_before (d, kind, a, side) then xb else xa)"
    and "fst (snd (tile_at dr kind a side now 1 i (c, xa, xb))) = of_int (if seat_after (d, kind, a, side) then xb else xa)"
  using assms flight_ends by (cases kind; simp add: tile_at_def Let_def)+

text \<open>
  No letter jumps: in the schedule, wrapped round its end, every letter is, as an entry begins,
  in the place where the entry before left it, whenever both belong to the same pair.
\<close>

theorem no_letter_jumps:
  assumes "\<forall>a s i. 0 \<le> dr_lag dr a s i \<and> dr_lag dr a s i < 1" "j < length (pl_entries (make_plan ag n))"
  shows "let es = pl_entries (make_plan ag n); e = es ! j; e' = es ! (Suc j mod length es)
    in pe_act e = pe_act e' \<longrightarrow>
      fst (snd (tile_at dr (pe_kind e') (pe_act e') (pe_side e') now' 0 i tile)) =
      fst (snd (tile_at dr (pe_kind e) (pe_act e) (pe_side e) now 1 i tile))"
proof -
  define es where "es = pl_entries (make_plan ag n)"
  define req where "req = (\<lambda>e :: plan_entry. (pe_dur e, pe_kind e, pe_act e, pe_side e))"
  have rs: "map req es = plan_requests ag n" unfolding req_def es_def by (rule plan_entries)
  have j: "j < length es" using assms(2) by (simp add: es_def)
  obtain c xa xb where tile: "tile = (c, xa, xb)" by (rule prod_cases3)
  have ch: "chained False (map req es) False" unfolding rs by (rule plan_chained)
  have "seat_after (map req es ! j) = seat_before (map req es ! (Suc j mod length es))"
  proof (cases "Suc j < length es")
    case True
    then show ?thesis using chained_nth [OF ch, of j] j by simp
  next
    case False
    then have "Suc j = length es" using j by simp
    then show ?thesis using chained_nth [OF ch, of j] j ch by (cases "map req es") auto
  qed
  moreover have "Suc j mod length es < length es" using j by (intro mod_less_divisor) linarith
  ultimately have "seat_after (req (es ! j)) = seat_before (req (es ! (Suc j mod length es)))"
    using j by simp
  then show ?thesis
    unfolding Let_def es_def [symmetric] tile tile_ends(1) [OF assms(1), of _ _ _ _ _ _ _ _ "pe_dur (es ! (Suc j mod length es))"]
      tile_ends(2) [OF assms(1), of _ _ _ _ _ _ _ _ "pe_dur (es ! j)"]
    by (simp only: req_def) simp
qed

theorem no_letter_jumps_witness:
  "let es = pl_entries (make_plan elvis 1); e = es ! 2; e' = es ! 3
   in pe_act e = pe_act e' \<and>
     fst (snd (tile_at no_draws (pe_kind e') (pe_act e') (pe_side e') 9 0 0 (CHR ''E'', 10, 40))) =
     fst (snd (tile_at no_draws (pe_kind e) (pe_act e) (pe_side e) 8 1 0 (CHR ''E'', 10, 40)))"
proof -
  have "length (pl_entries (make_plan elvis 1)) = 10"
    "pe_act (pl_entries (make_plan elvis 1) ! 2) = pe_act (pl_entries (make_plan elvis 1) ! 3)" by code_simp+
  moreover have "\<forall>a s i. 0 \<le> dr_lag no_draws a s i \<and> dr_lag no_draws a s i < 1" by (simp add: no_draws_def)
  ultimately show ?thesis
    using no_letter_jumps [of no_draws 2 elvis 1 9 0 "(CHR ''E'', 10, 40)" 8] by (simp add: Let_def)
qed

section \<open>Every letter is on the panel\<close>

lemma scale_loop_fits:
  "scale_loop pairs width height cs s0 = s0 \<or>
     (let s = scale_loop pairs width height cs s0 in int (GLYPH_H * s) \<le> height - 20 \<and> widest pairs s \<le> width - 16)"
proof (induction cs arbitrary: s0)
  case (Cons c cs)
  show ?case using Cons.IH [of c] by (cases "scale_loop pairs width height cs c = c") (auto simp: Let_def not_less)
qed simp

lemma widest_ge: "ab \<in> set pairs \<Longrightarrow> phrase \<in> {fst ab, snd ab} \<Longrightarrow> snd (measure_text phrase c) \<le> widest pairs c"
  unfolding widest_def by (rule Max_ge) (force simp: case_prod_beta)+

text \<open>
  The chosen size leaves a margin: on a panel that has room for the smallest letters, every
  letter of every phrase lies eight pixels from either side and its rows fit the height.
\<close>

theorem letters_keep_the_margin:
  assumes "int GLYPH_H \<le> height - 20" "widest pairs 1 \<le> width - 16" "ab \<in> set pairs" "phrase \<in> {fst ab, snd ab}"
    "p \<in> set (fst (layout phrase (text_scale pairs width height) width))"
  shows "8 \<le> snd p \<and> snd p + 5 * int (text_scale pairs width height) \<le> width - 8
    \<and> int (GLYPH_H * text_scale pairs width height) \<le> height - 20"
proof -
  define s where "s = text_scale pairs width height"
  have s: "int (GLYPH_H * s) \<le> height - 20" "widest pairs s \<le> width - 16"
    using scale_loop_fits [of pairs width height "[1..<7]" 1] assms(1,2)
    by (auto simp: s_def text_scale_def Let_def)
  have "snd (measure_text phrase s) \<le> width - 16"
    using widest_ge [OF assms(3,4), of s] s(2) by linarith
  then have "8 \<le> (width - snd (measure_text phrase s)) div 2"
    "(width - snd (measure_text phrase s)) div 2 + snd (measure_text phrase s) \<le> width - 8" by linarith+
  then show ?thesis using layout_span [OF assms(5)] s(1) unfolding s_def by linarith
qed

theorem letters_keep_the_margin_witness:
  "let s = text_scale [(''ELVIS'', ''LIVES'')] 320 64; p = hd (fst (layout ''ELVIS'' s 320))
   in 8 \<le> snd p \<and> snd p + 5 * int s \<le> 320 - 8 \<and> int (GLYPH_H * s) \<le> 64 - 20"
proof -
  have "widest [(''ELVIS'', ''LIVES'')] 1 \<le> 320 - 16" by code_simp
  moreover have "fst (layout ''ELVIS'' (text_scale [(''ELVIS'', ''LIVES'')] 320 64) 320) \<noteq> []" by code_simp
  ultimately show ?thesis
    using letters_keep_the_margin [of 64 "[(''ELVIS'', ''LIVES'')]" 320 "(''ELVIS'', ''LIVES'')" "''ELVIS''"
        "hd (fst (layout ''ELVIS'' (text_scale [(''ELVIS'', ''LIVES'')] 320 64) 320))"]
    unfolding Let_def by (simp add: GLYPH_H_def)
qed

end
