(* ===== verification/FT_Cycles.thy ===== *)
theory FT_Cycles
  imports FT_Grid FT_Timeline FT_Json
begin

text \<open>
  The light cycles of \<open>src/demos/tron.py\<close>: the numbers \<open>build\<close> derives from the arguments, the board,
  the riders and how they choose their way, one step of the game, and the catching up of \<open>render\<close>.
  Seconds and scores are rationals. What the random generator returns is an argument, one family of
  numbers for every time it is seeded. Debris, shock waves, the flash and the drawing are not modelled.
\<close>

section \<open>The numbers of a build\<close>

definition DIRS4 :: "(int \<times> int) list" where
  "DIRS4 = [(0, 1), (1, 0), (0, -1), (-1, 0)]"

definition SPAWNS :: "(rat \<times> rat \<times> int) list" where
  "SPAWNS = [(18 / 100, 30 / 100, 0), (82 / 100, 70 / 100, 2), (18 / 100, 72 / 100, 0), (82 / 100, 28 / 100, 2)]"

record tron_args =
  ta_width :: nat
  ta_height :: nat
  ta_riders :: int
  ta_speed :: rat
  ta_grid :: int
  ta_rounds :: int
  ta_cycle :: rat

record game =
  gm_gh :: nat
  gm_gw :: nat
  gm_nrid :: nat
  gm_speed :: rat
  gm_decay :: int
  gm_beat :: int
  gm_lap :: int
  gm_spr :: int
  gm_cyc_steps :: int
  gm_total :: rat
  gm_max_race :: int
  gm_reach :: int
  gm_path_max :: int

fun snap_pitch :: "nat \<Rightarrow> nat \<Rightarrow> nat \<Rightarrow> nat" where
  "snap_pitch W H c = (if 1 < c \<and> (W mod c \<noteq> 0 \<or> H mod c \<noteq> 0) then snap_pitch W H (c - 1) else c)"

declare snap_pitch.simps [simp del]

definition tron_build :: "tron_args \<Rightarrow> game" where
  "tron_build ag =
     (let pitch = snap_pitch (ta_width ag) (ta_height ag) (nat (max 1 (ta_grid ag)));
          gh = ta_height ag div pitch; gw = ta_width ag div pitch;
          speed = max 4 (ta_speed ag); nround = max 1 (ta_rounds ag);
          decay = max 8 \<lfloor>55 / 100 * speed\<rfloor>; beat = max 3 \<lfloor>45 / 100 * speed\<rfloor>; lap = max 4 \<lfloor>11 / 10 * speed\<rfloor>;
          tail = 24 + lap + decay + beat;
          spr = max (2 * tail) (py_round (ta_cycle ag * speed / of_int nround));
          cyc_steps = spr * nround;
          max_race = spr - tail
      in \<lparr>gm_gh = gh, gm_gw = gw, gm_nrid = nat (min 4 (max 2 (ta_riders ag))), gm_speed = speed,
          gm_decay = decay, gm_beat = beat, gm_lap = lap, gm_spr = spr, gm_cyc_steps = cyc_steps,
          gm_total = of_int cyc_steps * (1 / speed), gm_max_race = max_race,
          gm_reach = max 12 (int gw div 2), gm_path_max = max_race + 4 * lap + 32\<rparr>)"

section \<open>The board and the riders\<close>

record rider =
  rd_y :: int
  rd_x :: int
  rd_d :: int
  rd_moving :: bool
  rd_derezzed :: bool
  rd_erase_at :: int
  rd_straight :: int
  rd_doomed :: bool
  rd_path :: "int list"
  rd_cut :: nat

record arena =
  ar_step :: int
  ar_owner :: "nat list"
  ar_heat :: "rat list"
  ar_riders :: "rider list"
  ar_phase :: nat
  ar_race_at :: int
  ar_race_len :: int
  ar_end_at :: int
  ar_phase_end :: int

text \<open>
  What the generator gives, by step: the slack of a round's deadline, the scatter of a spawn and the
  noise of a rider's turn.
\<close>

record chances =
  ch_slack :: "int \<Rightarrow> nat"
  ch_spawn_y :: "int \<Rightarrow> nat \<Rightarrow> nat"
  ch_spawn_x :: "int \<Rightarrow> nat \<Rightarrow> nat"
  ch_noise :: "int \<Rightarrow> nat \<Rightarrow> int \<Rightarrow> rat"

definition new_rider :: rider where
  "new_rider = \<lparr>rd_y = 0, rd_x = 0, rd_d = 0, rd_moving = False, rd_derezzed = False, rd_erase_at = -1,
     rd_straight = 0, rd_doomed = False, rd_path = [], rd_cut = 0\<rparr>"

definition new_arena :: "game \<Rightarrow> arena" where
  "new_arena e = \<lparr>ar_step = -1, ar_owner = replicate (gm_gh e * gm_gw e) 0, ar_heat = replicate (gm_gh e * gm_gw e) 0,
     ar_riders = replicate (gm_nrid e) new_rider, ar_phase = 2, ar_race_at = 0, ar_race_len = gm_max_race e,
     ar_end_at = -1, ar_phase_end = 0\<rparr>"

text \<open>
  Cells are numbered row by row. numpy takes an index below zero from the end; a head is only ever
  off the board on a board of a single row or column.
\<close>

definition cell_no :: "game \<Rightarrow> int \<Rightarrow> int \<Rightarrow> int" where
  "cell_no e y x = y * int (gm_gw e) + x"

definition slot :: "game \<Rightarrow> int \<Rightarrow> nat" where
  "slot e k = nat (k mod int (gm_gh e * gm_gw e))"

definition put :: "game \<Rightarrow> int list \<Rightarrow> 'a \<Rightarrow> 'a list \<Rightarrow> 'a list" where
  "put e ks v xs = fold (\<lambda>k xs. xs[slot e k := v]) ks xs"

definition owner_at :: "game \<Rightarrow> arena \<Rightarrow> int \<Rightarrow> int \<Rightarrow> nat" where
  "owner_at e a y x = ar_owner a ! slot e (cell_no e y x)"

definition blocked :: "game \<Rightarrow> arena \<Rightarrow> int \<Rightarrow> int \<Rightarrow> bool" where
  "blocked e a y x \<longleftrightarrow> \<not> inside (gm_gh e) (gm_gw e) (y, x) \<or> owner_at e a y x \<noteq> 0"

definition upd_rider :: "nat \<Rightarrow> (rider \<Rightarrow> rider) \<Rightarrow> arena \<Rightarrow> arena" where
  "upd_rider i f a = a\<lparr>ar_riders := (ar_riders a)[i := f (ar_riders a ! i)]\<rparr>"

section \<open>Choosing a way\<close>

text \<open>The cells that the slices of \<open>lane\<close> take, nearest first.\<close>

definition ray :: "game \<Rightarrow> int \<Rightarrow> int \<Rightarrow> int \<Rightarrow> int \<Rightarrow> (int \<times> int) list" where
  "ray e y x d cap =
     (if d = 0 then map (\<lambda>c. (y, c)) [x + 1..min (x + cap) (int (gm_gw e) - 1)]
      else if d = 1 then map (\<lambda>c. (c, x)) [y + 1..min (y + cap) (int (gm_gh e) - 1)]
      else if d = 2 then map (\<lambda>c. (y, c)) (rev [max 0 (x - cap)..x - 1])
      else map (\<lambda>c. (c, x)) (rev [max 0 (y - cap)..y - 1]))"

definition lane :: "game \<Rightarrow> arena \<Rightarrow> int \<Rightarrow> int \<Rightarrow> int \<Rightarrow> int \<Rightarrow> int" where
  "lane e a y x d cap = int (length (takeWhile (\<lambda>(y, x). owner_at e a y x = 0) (ray e y x d cap)))"

text \<open>Heading, row and column of the cell a rider enters with a turn.\<close>

definition way :: "arena \<Rightarrow> nat \<Rightarrow> int \<Rightarrow> int \<times> int \<times> int" where
  "way a i turn =
     (let r = ar_riders a ! i; d = (rd_d r + turn) mod 4; (dy, dx) = DIRS4 ! nat d
      in (d, rd_y r + dy, rd_x r + dx))"

definition hug :: "game \<Rightarrow> arena \<Rightarrow> int \<Rightarrow> int \<Rightarrow> int" where
  "hug e a y x =
     (if (0 < y \<and> owner_at e a (y - 1) x \<noteq> 0) \<or> (y < int (gm_gh e) - 1 \<and> owner_at e a (y + 1) x \<noteq> 0) then 1 else 0)
   + (if (0 < x \<and> owner_at e a y (x - 1) \<noteq> 0) \<or> (x < int (gm_gw e) - 1 \<and> owner_at e a y (x + 1) \<noteq> 0) then 1 else 0)"

definition near :: "game \<Rightarrow> arena \<Rightarrow> int \<Rightarrow> int \<Rightarrow> nat \<Rightarrow> rat" where
  "near e a y x j =
     1 - of_int (min (\<bar>y - rd_y (ar_riders a ! j)\<bar> + \<bar>x - rd_x (ar_riders a ! j)\<bar>) (gm_reach e)) / of_int (gm_reach e)"

definition turn_score :: "game \<Rightarrow> chances \<Rightarrow> arena \<Rightarrow> nat \<Rightarrow> rat \<Rightarrow> int \<Rightarrow> rat" where
  "turn_score e ch a i aggr turn =
     (let fcap = max 5 (py_round (20 - 15 * aggr)); scap = max 2 (py_round (12 - 9 * aggr));
          swgt = 7 / 10 * (1 - 6 / 10 * aggr); hugw = 4 / 10 + 12 / 10 * aggr;
          (d, ny, nx) = way a i turn; (dy, dx) = DIRS4 ! nat d;
          run = lane e a ny nx d fcap;
          ey = min (max (ny + dy * run) 0) (int (gm_gh e) - 1); ex = min (max (nx + dx * run) 0) (int (gm_gw e) - 1);
          score = of_int run + swgt * of_int (lane e a ey ex ((d + 1) mod 4) scap + lane e a ey ex ((d + 3) mod 4) scap);
          score = score + (if turn = 0 then 1 else 25 / 100 * of_int (max (rd_straight (ar_riders a ! i) - 12) 0));
          score = score + hugw * of_int (hug e a ny nx);
          score = score + ch_noise ch (ar_step a) i turn * (5 / 2)
      in if 0 < aggr then
           score + sum_list (map (\<lambda>j. if j = i \<or> \<not> rd_moving (ar_riders a ! j) then 0
                                      else aggr * 14 * near e a ny nx j * near e a ny nx j) [0..<gm_nrid e])
         else score)"

definition choose_way :: "game \<Rightarrow> chances \<Rightarrow> arena \<Rightarrow> nat \<Rightarrow> rat \<Rightarrow> int option" where
  "choose_way e ch a i aggr =
     snd (fold (\<lambda>turn (best, best_d).
                  let (d, ny, nx) = way a i turn
                  in if blocked e a ny nx then (best, best_d)
                     else if best < turn_score e ch a i aggr turn then (turn_score e ch a i aggr turn, Some d)
                     else (best, best_d)) [0, -1, 1] (- (10 ^ 18), None))"

section \<open>The round\<close>

definition TAIL :: "rat list" where
  "TAIL = [1, 95 / 100, 86 / 100, 77 / 100, 68 / 100]"

definition lay_cell :: "game \<Rightarrow> nat \<Rightarrow> arena \<Rightarrow> arena" where
  "lay_cell e i a =
     (let r = ar_riders a ! i; k = cell_no e (rd_y r) (rd_x r); n = length (rd_path r);
          a = a\<lparr>ar_owner := put e [k] (i + 1) (ar_owner a)\<rparr>
      in if gm_path_max e \<le> int n then a
         else let path = rd_path r @ [k]; m = min (n + 1) (length TAIL)
              in upd_rider i (\<lambda>r. r\<lparr>rd_path := path\<rparr>)
                   (a\<lparr>ar_heat := fold (\<lambda>(k, h) hs. hs[slot e k := h]) (zip (rev (drop (n + 1 - m) path)) (take m TAIL)) (ar_heat a)\<rparr>))"

definition np_clip :: "rat \<Rightarrow> int \<Rightarrow> int \<Rightarrow> rat" where
  "np_clip v lo hi = min (of_int hi) (max (of_int lo) v)"

definition spawn_at :: "game \<Rightarrow> chances \<Rightarrow> int \<Rightarrow> nat \<Rightarrow> int \<times> int" where
  "spawn_at e ch s i =
     (let (fx, fy, _) = SPAWNS ! i; jy = of_nat (ch_spawn_y ch s i mod 5) - 2; jx = of_nat (ch_spawn_x ch s i mod 7) - 3
      in (\<lfloor>np_clip (fy * of_nat (gm_gh e) + jy) 1 (int (gm_gh e) - 2)\<rfloor>,
          \<lfloor>np_clip (fx * of_nat (gm_gw e) + jx) 1 (int (gm_gw e) - 2)\<rfloor>))"

definition spawn :: "game \<Rightarrow> chances \<Rightarrow> nat \<Rightarrow> arena \<Rightarrow> arena" where
  "spawn e ch i a =
     lay_cell e i (upd_rider i (\<lambda>r. r\<lparr>
       rd_y := fst (spawn_at e ch (ar_step a) i), rd_x := snd (spawn_at e ch (ar_step a) i),
       rd_d := snd (snd (SPAWNS ! i)), rd_moving := True, rd_derezzed := False, rd_erase_at := -1, rd_straight := 0,
       rd_doomed := False, rd_path := [], rd_cut := 0\<rparr>) a)"

definition start_round :: "game \<Rightarrow> chances \<Rightarrow> arena \<Rightarrow> arena" where
  "start_round e ch a =
     fold (spawn e ch) [0..<gm_nrid e]
       (a\<lparr>ar_owner := replicate (gm_gh e * gm_gw e) 0, ar_heat := replicate (gm_gh e * gm_gw e) 0, ar_phase := 0,
         ar_race_at := ar_step a,
         ar_race_len := gm_max_race e - int (ch_slack ch (ar_step a)) mod max 2 (gm_max_race e div 4),
         ar_end_at := -1\<rparr>)"

definition burst :: "game \<Rightarrow> nat \<Rightarrow> arena \<Rightarrow> arena" where
  "burst e i a =
     upd_rider i (\<lambda>r. r\<lparr>rd_moving := False, rd_derezzed := True, rd_erase_at := ar_step a + max 2 \<lfloor>30 / 100 * gm_speed e\<rfloor>\<rparr>) a"

definition retire_rider :: "nat \<Rightarrow> arena \<Rightarrow> arena" where
  "retire_rider i a = upd_rider i (\<lambda>r. r\<lparr>rd_moving := False, rd_erase_at := ar_step a\<rparr>) a"

section \<open>One step\<close>

definition aggression :: "arena \<Rightarrow> rat" where
  "aggression a =
     (if 0 \<le> ar_end_at a then 3 / 10
      else min (max ((of_int (ar_step a - ar_race_at a) - 30 / 100 * of_int (ar_race_len a)) / (40 / 100 * of_int (ar_race_len a))) 0) 1)"

definition ride :: "game \<Rightarrow> chances \<Rightarrow> rat \<Rightarrow> nat \<Rightarrow> arena \<Rightarrow> arena" where
  "ride e ch aggr i a =
     (let r = ar_riders a ! i
      in if \<not> rd_moving r then a
         else case (if \<not> rd_doomed r then choose_way e ch a i aggr
                    else let (dy, dx) = DIRS4 ! nat (rd_d r)
                         in if blocked e a (rd_y r + dy) (rd_x r + dx) then None else Some (rd_d r)) of
                None \<Rightarrow> burst e i a
              | Some d \<Rightarrow>
                  let (dy, dx) = DIRS4 ! nat d
                  in lay_cell e i (upd_rider i (\<lambda>r. r\<lparr>rd_straight := if d = rd_d r then rd_straight r + 1 else 0,
                       rd_d := d, rd_y := rd_y r + dy, rd_x := rd_x r + dx\<rparr>) a))"

definition riders_up :: "game \<Rightarrow> arena \<Rightarrow> nat list" where
  "riders_up e a = filter (\<lambda>i. rd_moving (ar_riders a ! i)) [0..<gm_nrid e]"

definition worst_way :: "game \<Rightarrow> arena \<Rightarrow> nat list \<Rightarrow> int \<times> nat \<times> int" where
  "worst_way e a up =
     fold (\<lambda>(i, turn) (worst, worst_i, worst_d).
             let (d, ny, nx) = way a i turn
             in if blocked e a ny nx then (worst, worst_i, worst_d)
                else if lane e a ny nx d 24 < worst then (lane e a ny nx d 24, i, d)
                else (worst, worst_i, worst_d))
       (concat (map (\<lambda>i. [(i, 0), (i, -1), (i, 1)]) up)) (2 ^ 30, hd up, rd_d (ar_riders a ! hd up))"

text \<open>The deadline: the riders of \<open>up\<close> afterwards, and the arena.\<close>

definition deadline :: "game \<Rightarrow> arena \<Rightarrow> nat list \<times> arena" where
  "deadline e a =
     (let up = riders_up e a; hard = ar_race_at a + ar_race_len a; s = ar_step a
      in if 1 < length up \<and> hard \<le> s \<and> \<not> list_ex rd_doomed (ar_riders a) then
           let (_, i, d) = worst_way e a up in (up, upd_rider i (\<lambda>r. r\<lparr>rd_doomed := True, rd_d := d\<rparr>) a)
         else if 1 < length up \<and> hard + 24 \<le> s then
           (take 1 up, fold (burst e) (rev (drop 1 up)) a)
         else (up, a))"

definition decide_end :: "game \<Rightarrow> nat list \<Rightarrow> arena \<Rightarrow> arena" where
  "decide_end e up a =
     (if 1 < length up then a
      else let s = ar_step a;
               end = (if ar_end_at a < 0 then max (s + gm_lap e) (ar_race_at a + gm_spr e - gm_decay e - gm_beat e - 2)
                      else ar_end_at a)
           in a\<lparr>ar_end_at := if up = [] then min end (s + gm_beat e) else end\<rparr>)"

definition close_race :: "game \<Rightarrow> arena \<Rightarrow> arena" where
  "close_race e a =
     (if 0 \<le> ar_end_at a \<and> ar_end_at a \<le> ar_step a then
        (fold retire_rider (riders_up e a) a)\<lparr>ar_phase := 1, ar_phase_end := ar_step a + gm_decay e + gm_beat e\<rparr>
      else a)"

definition dissolve :: "game \<Rightarrow> nat \<Rightarrow> arena \<Rightarrow> arena" where
  "dissolve e i a =
     (let r = ar_riders a ! i; s = ar_step a; n = length (rd_path r)
      in if rd_erase_at r < 0 \<or> s < rd_erase_at r \<or> n \<le> rd_cut r then a
         else
           let frac = min (of_int (s - rd_erase_at r) / of_int (gm_decay e)) 1 :: rat;
               want = nat \<lfloor>frac * of_nat n\<rfloor>;
               gone = take (want - rd_cut r) (drop (rd_cut r) (rd_path r));
               a = (if rd_cut r < want
                    then upd_rider i (\<lambda>r. r\<lparr>rd_cut := want\<rparr>)
                           (a\<lparr>ar_owner := put e gone 0 (ar_owner a), ar_heat := put e gone 0 (ar_heat a)\<rparr>)
                    else a)
           in a\<lparr>ar_heat := put e (take 4 (drop want (rd_path r))) (16 / 10) (ar_heat a)\<rparr>)"

definition race_step :: "game \<Rightarrow> chances \<Rightarrow> arena \<Rightarrow> arena" where
  "race_step e ch a =
     (let (up, a) = deadline e (fold (ride e ch (aggression a)) [0..<gm_nrid e] a)
      in close_race e (decide_end e up a))"

definition advance :: "game \<Rightarrow> chances \<Rightarrow> arena \<Rightarrow> arena" where
  "advance e ch a =
     (let a = a\<lparr>ar_step := ar_step a + 1\<rparr>
      in if ar_step a mod gm_spr e = 0 then start_round e ch a
         else fold (dissolve e) [0..<gm_nrid e]
                (if ar_phase a = 0 then race_step e ch a
                 else if ar_phase a = 1 \<and> ar_phase_end a \<le> ar_step a then a\<lparr>ar_phase := 2\<rparr>
                 else a))"

section \<open>The frames\<close>

definition reset_arena :: "game \<Rightarrow> arena \<Rightarrow> arena" where
  "reset_arena e a =
     a\<lparr>ar_step := -1, ar_phase := 2, ar_end_at := -1, ar_owner := replicate (gm_gh e * gm_gw e) 0,
       ar_heat := replicate (gm_gh e * gm_gw e) 0,
       ar_riders := map (\<lambda>r. r\<lparr>rd_moving := False, rd_erase_at := -1, rd_path := [], rd_cut := 0\<rparr>) (ar_riders a)\<rparr>"

text \<open>The state of the effect: how often the generator was seeded, and the arena.\<close>

record tron =
  tr_seeding :: nat
  tr_arena :: arena

definition tron_new :: "game \<Rightarrow> tron" where
  "tron_new e = \<lparr>tr_seeding = 0, tr_arena = new_arena e\<rparr>"

definition target_step :: "game \<Rightarrow> rat \<Rightarrow> int" where
  "target_step e t = min \<lfloor>fmod t (gm_total e) * gm_speed e\<rfloor> (gm_cyc_steps e - 1)"

function catch_up :: "game \<Rightarrow> chances \<Rightarrow> int \<Rightarrow> arena \<Rightarrow> arena" where
  "catch_up e ch target a = (if ar_step a < target then catch_up e ch target (advance e ch a) else a)"
  by pat_completeness auto

definition tron_frame :: "game \<Rightarrow> (nat \<Rightarrow> chances) \<Rightarrow> rat \<Rightarrow> tron \<Rightarrow> tron" where
  "tron_frame e seeds t st =
     (let target = target_step e t;
          st = (if target < ar_step (tr_arena st)
                then \<lparr>tr_seeding = tr_seeding st + 1, tr_arena = reset_arena e (tr_arena st)\<rparr> else st)
      in st\<lparr>tr_arena := catch_up e (seeds (tr_seeding st)) target (tr_arena st)\<rparr>)"

section \<open>What each operation leaves alone\<close>

text \<open>Everything but the riders and the contents of the board.\<close>

definition clocks :: "arena \<Rightarrow> int \<times> nat \<times> int \<times> int \<times> int \<times> int \<times> nat \<times> nat \<times> nat" where
  "clocks a = (ar_step a, ar_phase a, ar_race_at a, ar_race_len a, ar_end_at a, ar_phase_end a,
     length (ar_riders a), length (ar_owner a), length (ar_heat a))"

named_theorems clock_simps

lemma clocks_fold [clock_simps]: "(\<And>x b. clocks (f x b) = clocks b) \<Longrightarrow> clocks (fold f xs a) = clocks a"
  by (induction xs arbitrary: a) simp_all

lemma length_put [simp]: "length (put e ks v xs) = length xs"
  by (induction ks arbitrary: xs) (simp_all add: put_def)

lemma length_fold_update [simp]: "length (fold (\<lambda>(k, h) hs. hs[f k := h]) ps hs) = length hs"
  by (induction ps arbitrary: hs) (simp_all add: case_prod_beta)

lemma clocks_upd_rider [clock_simps]: "clocks (upd_rider i f a) = clocks a"
  by (simp add: clocks_def upd_rider_def)

lemma clocks_lay_cell [clock_simps]: "clocks (lay_cell e i a) = clocks a"
  by (simp add: clocks_def upd_rider_def lay_cell_def Let_def)

lemma clocks_burst [clock_simps]: "clocks (burst e i a) = clocks a"
  by (simp add: burst_def clock_simps)

lemma clocks_retire_rider [clock_simps]: "clocks (retire_rider i a) = clocks a"
  by (simp add: retire_rider_def clock_simps)

lemma clocks_spawn [clock_simps]: "clocks (spawn e ch i a) = clocks a"
  by (simp add: spawn_def clock_simps)

lemma clocks_ride [clock_simps]: "clocks (ride e ch g i a) = clocks a"
  by (auto simp: ride_def clock_simps Let_def split: prod.split option.split)

lemma clocks_dissolve [clock_simps]: "clocks (dissolve e i a) = clocks a"
  by (simp add: dissolve_def Let_def clocks_def upd_rider_def)

lemma clocks_deadline [clock_simps]: "clocks (snd (deadline e a)) = clocks a"
  by (simp add: deadline_def Let_def clock_simps split: prod.split)

lemma step_of_clocks: "clocks a = clocks b \<Longrightarrow> ar_step a = ar_step b"
  by (simp add: clocks_def)

lemma step_decide_end [simp]: "ar_step (decide_end e up a) = ar_step a"
  by (simp add: decide_end_def Let_def)

lemma step_close_race [simp]: "ar_step (close_race e a) = ar_step a"
  using step_of_clocks [OF clocks_fold, of retire_rider "riders_up e a" a]
  by (simp add: close_race_def clock_simps)

lemma step_race_step [simp]: "ar_step (race_step e ch a) = ar_step a"
  by (simp add: race_step_def case_prod_beta) (rule step_of_clocks, simp add: clock_simps)

lemma step_advance [simp]: "ar_step (advance e ch a) = ar_step a + 1"
proof -
  have "ar_step (start_round e ch b) = ar_step b" for b
    unfolding start_round_def by (subst step_of_clocks [OF clocks_fold]) (simp_all add: clock_simps)
  moreover have "ar_step (fold (dissolve e) xs b) = ar_step b" for xs b
    by (rule step_of_clocks) (simp add: clock_simps)
  ultimately show ?thesis by (simp add: advance_def Let_def)
qed

termination catch_up
  by (relation "measure (\<lambda>(e, ch, target, a). nat (target - ar_step a))") auto

declare catch_up.simps [simp del]

end
