(* ===== verification/FT_Arena.thy ===== *)
theory FT_Arena
  imports FT_Cycles
begin

text \<open>
  What the game of \<open>tron.py\<close> keeps: how long a race can last, that every ribbon is gone when the next
  round begins, that the board shows the paths that were ridden and nothing else, and that the state
  depends on the step alone. The last section shows what the backstop of the deadline does.
\<close>

section \<open>The numbers fit\<close>

definition fuse :: "game \<Rightarrow> int" where
  "fuse e = max 2 \<lfloor>30 / 100 * gm_speed e\<rfloor>"

definition game_ok :: "game \<Rightarrow> bool" where
  "game_ok e \<longleftrightarrow> 2 \<le> gm_nrid e \<and> gm_nrid e \<le> 4 \<and> 4 \<le> gm_speed e \<and> 8 \<le> gm_decay e \<and> 4 \<le> gm_lap e \<and> fuse e < gm_beat e
     \<and> 2 * (24 + gm_lap e + gm_decay e + gm_beat e) \<le> gm_spr e
     \<and> gm_max_race e = gm_spr e - (24 + gm_lap e + gm_decay e + gm_beat e)
     \<and> gm_path_max e = gm_max_race e + 4 * gm_lap e + 32
     \<and> 0 < gm_cyc_steps e \<and> gm_spr e dvd gm_cyc_steps e \<and> gm_total e = of_int (gm_cyc_steps e) / gm_speed e"

lemma fuse_less_beat:
  assumes "4 \<le> v"
  shows "max 2 \<lfloor>30 / 100 * v\<rfloor> < max 3 \<lfloor>45 / 100 * v :: rat\<rfloor>"
proof (cases "v < 20 / 3")
  case True
  then have "\<lfloor>30 / 100 * v\<rfloor> < 2" by (simp add: floor_less_iff)
  then show ?thesis by linarith
next
  case False
  then have "of_int (\<lfloor>30 / 100 * v\<rfloor> + 1) \<le> 45 / 100 * v"
    using of_int_floor_le [of "30 / 100 * v"] by simp
  then have "\<lfloor>30 / 100 * v\<rfloor> + 1 \<le> \<lfloor>45 / 100 * v\<rfloor>" by (simp only: le_floor_iff)
  then show ?thesis by linarith
qed

lemma tron_build_ok: "game_ok (tron_build ag)"
proof -
  define d where "d = (max 8 \<lfloor>55 / 100 * max 4 (ta_speed ag)\<rfloor> :: int)"
  define b where "b = (max 3 \<lfloor>45 / 100 * max 4 (ta_speed ag)\<rfloor> :: int)"
  define l where "l = (max 4 \<lfloor>11 / 10 * max 4 (ta_speed ag)\<rfloor> :: int)"
  have "8 \<le> d" "4 \<le> l" "3 \<le> b" by (simp_all add: d_def l_def b_def)
  moreover have "max 2 \<lfloor>30 / 100 * max 4 (ta_speed ag)\<rfloor> < b" unfolding b_def by (rule fuse_less_beat) simp
  moreover have "0 < max (2 * (24 + l + d + b)) k" for k using calculation by (simp add: less_max_iff_disj)
  ultimately show ?thesis
    unfolding game_ok_def tron_build_def Let_def fuse_def d_def [symmetric] b_def [symmetric] l_def [symmetric]
    by (auto simp: mult_pos_pos)
qed

section \<open>Clocks and ribbons\<close>

text \<open>The last step of a round that began at \<open>R\<close> at which somebody may still move.\<close>

definition last_move :: "game \<Rightarrow> int \<Rightarrow> int" where
  "last_move e R = R + gm_spr e - gm_decay e - gm_beat e"

definition rider_ok :: "game \<Rightarrow> int \<Rightarrow> int \<Rightarrow> rider \<Rightarrow> bool" where
  "rider_ok e R l r \<longleftrightarrow> int (length (rd_path r)) \<le> l \<and> rd_cut r \<le> length (rd_path r)
     \<and> (if rd_moving r then rd_erase_at r < 0 \<and> rd_cut r = 0
        else 0 \<le> rd_erase_at r \<and> rd_erase_at r \<le> last_move e R + fuse e)"

lemma rider_ok_mono: "rider_ok e R l r \<Longrightarrow> l \<le> l' \<Longrightarrow> rider_ok e R l' r"
  by (auto simp: rider_ok_def)

text \<open>The cells of a ribbon that have not dissolved.\<close>

definition ribbon :: "game \<Rightarrow> rider \<Rightarrow> nat set" where
  "ribbon e r = slot e ` set (drop (rd_cut r) (rd_path r))"

definition owned :: "game \<Rightarrow> nat \<Rightarrow> arena \<Rightarrow> bool" where
  "owned e m a \<longleftrightarrow> (\<forall>k < length (ar_owner a). ar_owner a ! k \<noteq> 0 \<longrightarrow>
     (\<exists>i < m. ar_owner a ! k = i + 1 \<and> k \<in> ribbon e (ar_riders a ! i)))"

lemma fold_upto:
  "P 0 a \<Longrightarrow> (\<And>i b. i < n \<Longrightarrow> P i b \<Longrightarrow> P (Suc i) (f i b)) \<Longrightarrow> P n (fold f [0..<n] a)"
proof (induction n)
  case (Suc n)
  then show ?case using Suc.prems(2) [of n] by simp
qed simp

lemma put_nth: "k < length xs \<Longrightarrow> put e ks v xs ! k = (if k \<in> slot e ` set ks then v else xs ! k)"
proof (induction ks arbitrary: xs)
  case (Cons p ks)
  then show ?case by (cases "slot e p = k") (auto simp: put_def)
qed (simp add: put_def)

lemma owned_upd_rider:
  assumes "owned e m a" "ribbon e (f (ar_riders a ! i)) = ribbon e (ar_riders a ! i)" "i < length (ar_riders a)"
  shows "owned e m (upd_rider i f a)"
  unfolding owned_def
proof (intro allI impI)
  fix k assume k: "k < length (ar_owner (upd_rider i f a))" "ar_owner (upd_rider i f a) ! k \<noteq> 0"
  then obtain j where j: "j < m" "ar_owner a ! k = j + 1" "k \<in> ribbon e (ar_riders a ! j)"
    using assms(1) by (auto simp: owned_def upd_rider_def)
  have "ribbon e (ar_riders (upd_rider i f a) ! j) = ribbon e (ar_riders a ! j)"
    using assms(2,3) by (cases "i = j") (simp_all add: upd_rider_def)
  then show "\<exists>j < m. ar_owner (upd_rider i f a) ! k = j + 1 \<and> k \<in> ribbon e (ar_riders (upd_rider i f a) ! j)"
    using j by (auto simp: upd_rider_def)
qed

lemma owner_lay_cell [simp]: "ar_owner (lay_cell e i a) = put e [cell_no e (rd_y (ar_riders a ! i)) (rd_x (ar_riders a ! i))] (i + 1) (ar_owner a)"
  by (simp add: lay_cell_def upd_rider_def Let_def)

lemma riders_lay_cell:
  assumes "int (length (rd_path (ar_riders a ! i))) < gm_path_max e"
  shows "ar_riders (lay_cell e i a) =
    (ar_riders a)[i := (ar_riders a ! i)\<lparr>rd_path := rd_path (ar_riders a ! i) @ [cell_no e (rd_y (ar_riders a ! i)) (rd_x (ar_riders a ! i))]\<rparr>]"
  using assms by (simp add: lay_cell_def upd_rider_def Let_def)

lemma riders_upd_rider [simp]: "ar_riders (upd_rider i f a) = (ar_riders a)[i := f (ar_riders a ! i)]"
  and owner_upd_rider [simp]: "ar_owner (upd_rider i f a) = ar_owner a"
  by (simp_all add: upd_rider_def)

lemma owned_lay_cell:
  assumes "owned e m a" "i < m" "i < length (ar_riders a)" "int (length (rd_path (ar_riders a ! i))) < gm_path_max e"
    "rd_cut (ar_riders a ! i) \<le> length (rd_path (ar_riders a ! i))"
  shows "owned e m (lay_cell e i a)"
  unfolding owned_def
proof (intro allI impI)
  let ?r = "ar_riders a ! i"
  let ?p = "cell_no e (rd_y ?r) (rd_x ?r)"
  fix k assume k: "k < length (ar_owner (lay_cell e i a))" "ar_owner (lay_cell e i a) ! k \<noteq> 0"
  have r: "ribbon e (ar_riders (lay_cell e i a) ! i) = insert (slot e ?p) (ribbon e ?r)"
    using assms(3,5) by (auto simp: riders_lay_cell [OF assms(4)] ribbon_def)
  have other: "ar_riders (lay_cell e i a) ! j = ar_riders a ! j" if "j \<noteq> i" for j
    using that by (simp add: riders_lay_cell [OF assms(4)])
  show "\<exists>j < m. ar_owner (lay_cell e i a) ! k = j + 1 \<and> k \<in> ribbon e (ar_riders (lay_cell e i a) ! j)"
  proof (cases "k = slot e ?p")
    case True
    then show ?thesis using k assms(2) r by (intro exI [of _ i]) (auto simp: put_nth)
  next
    case False
    then obtain j where "j < m" "ar_owner a ! k = j + 1" "k \<in> ribbon e (ar_riders a ! j)"
      using k assms(1) by (auto simp: owned_def put_nth)
    then show ?thesis using False k r other by (cases "j = i") (auto simp: put_nth)
  qed
qed

section \<open>Riding\<close>

definition kept :: "game \<Rightarrow> int \<Rightarrow> int \<Rightarrow> nat \<Rightarrow> arena \<Rightarrow> bool" where
  "kept e R l i a \<longleftrightarrow> length (ar_riders a) = gm_nrid e \<and> owned e (gm_nrid e) a \<and> 0 \<le> ar_step a \<and> ar_step a \<le> last_move e R
     \<and> (\<forall>j < gm_nrid e. rider_ok e R (if j < i then l + 1 else l) (ar_riders a ! j))"

lemma kept_burst:
  assumes "kept e R l m a" "i < gm_nrid e" "game_ok e"
  shows "kept e R l m (burst e i a)"
proof -
  have "owned e (gm_nrid e) (burst e i a)"
    unfolding burst_def using assms(1,2) by (intro owned_upd_rider) (auto simp: kept_def ribbon_def)
  moreover have "rider_ok e R (if j < m then l + 1 else l) (ar_riders (burst e i a) ! j)" if j: "j < gm_nrid e" for j
    using assms(1,2) j
    by (cases "j = i") (force simp: kept_def burst_def rider_ok_def fuse_def)+
  ultimately show ?thesis
    using assms(1) step_of_clocks [OF clocks_burst, of e i a] by (simp add: kept_def burst_def)
qed

lemma kept_ride:
  assumes "kept e R l i a" "i < gm_nrid e" "game_ok e" "l < gm_path_max e"
  shows "kept e R l (Suc i) (ride e ch g i a)"
proof -
  let ?r = "ar_riders a ! i"
  have le: "kept e R l (Suc i) a"
    using assms(1) by (auto simp: kept_def less_Suc_eq elim!: rider_ok_mono)
  have len: "int (length (rd_path ?r)) \<le> l" "rd_cut ?r \<le> length (rd_path ?r)" "i < length (ar_riders a)"
    using assms(1,2) by (auto simp: kept_def rider_ok_def)
  have move: "kept e R l (Suc i) (lay_cell e i (upd_rider i f a))"
    if f: "rd_path (f ?r) = rd_path ?r" "rd_cut (f ?r) = rd_cut ?r" "rd_moving (f ?r) = rd_moving ?r"
      "rd_erase_at (f ?r) = rd_erase_at ?r" for f
  proof -
    have guard: "int (length (rd_path (ar_riders (upd_rider i f a) ! i))) < gm_path_max e"
      using f len assms(4) by simp
    have "owned e (gm_nrid e) (upd_rider i f a)"
      using assms(1,2) len(3) f by (intro owned_upd_rider) (auto simp: kept_def ribbon_def)
    then have "owned e (gm_nrid e) (lay_cell e i (upd_rider i f a))"
      using assms(2) len f guard by (intro owned_lay_cell) auto
    moreover have "rider_ok e R (if j < Suc i then l + 1 else l) (ar_riders (lay_cell e i (upd_rider i f a)) ! j)"
      if j: "j < gm_nrid e" for j
    proof (cases "j = i")
      case True
      have "rider_ok e R l ?r" using assms(1,2) unfolding kept_def by (metis less_irrefl)
      then have "rider_ok e R (l + 1) (f ?r\<lparr>rd_path := rd_path (f ?r) @ [k]\<rparr>)" for k
        using f by (simp add: rider_ok_def)
      then show ?thesis using True len(3) by (simp add: riders_lay_cell [OF guard])
    next
      case False
      then show ?thesis using le j by (simp add: riders_lay_cell [OF guard] kept_def)
    qed
    moreover have "ar_step (lay_cell e i (upd_rider i f a)) = ar_step a" by (rule step_of_clocks) (simp add: clock_simps)
    ultimately show ?thesis using assms(1) by (simp add: kept_def riders_lay_cell [OF guard])
  qed
  show ?thesis
    unfolding ride_def Let_def
    by (auto simp: le split: prod.split option.split intro!: move kept_burst [OF le assms(2,3)])
qed

lemma doomed_ride: "map rd_doomed (ar_riders (ride e ch g i a)) = map rd_doomed (ar_riders a)"
proof -
  have upd: "map rd_doomed (xs[i := x]) = map rd_doomed xs" if "i < length xs \<Longrightarrow> rd_doomed x = rd_doomed (xs ! i)"
    for xs :: "rider list" and x
    using that by (cases "i < length xs") (simp_all add: map_update list_update_same_conv list_update_beyond)
  show ?thesis
    by (auto simp: ride_def burst_def lay_cell_def Let_def upd split: prod.split option.split)
qed

lemma doomed_rides: "list_ex rd_doomed (ar_riders (fold (ride e ch g) xs a)) = list_ex rd_doomed (ar_riders a)"
proof -
  have "map rd_doomed (ar_riders (fold (ride e ch g) xs a)) = map rd_doomed (ar_riders a)"
    by (induction xs arbitrary: a) (simp_all add: doomed_ride)
  then have "list_ex id (map rd_doomed (ar_riders (fold (ride e ch g) xs a))) = list_ex id (map rd_doomed (ar_riders a))"
    by simp
  then show ?thesis by (simp add: list_ex_iff)
qed

section \<open>The deadline\<close>

lemma worst_way_in: "up \<noteq> [] \<Longrightarrow> fst (snd (worst_way e a up)) \<in> set up"
  unfolding worst_way_def
  by (rule fold_invariant [where Q = "\<lambda>p. fst p \<in> set up"]) (auto simp: Let_def case_prod_beta)

lemma riders_up_less: "i \<in> set (riders_up e a) \<Longrightarrow> i < gm_nrid e"
  by (simp add: riders_up_def)

lemma kept_fold:
  assumes "kept e R l m a" "\<And>i b. i \<in> set xs \<Longrightarrow> kept e R l m b \<Longrightarrow> kept e R l m (f i b)"
  shows "kept e R l m (fold f xs a)"
  using assms by (induction xs arbitrary: a) simp_all

lemma kept_deadline:
  assumes "kept e R l (gm_nrid e) a" "game_ok e"
  shows "kept e R l (gm_nrid e) (snd (deadline e a))"
proof -
  have less: "i < gm_nrid e" if "i \<in> set (riders_up e a)" for i using that by (rule riders_up_less)
  then have less_drop: "i < gm_nrid e" if "i \<in> set (drop n (riders_up e a))" for i n using that in_set_dropD by fast
  have doom: "kept e R l (gm_nrid e) (upd_rider i (\<lambda>r. r\<lparr>rd_doomed := True, rd_d := d\<rparr>) a)" if "i < gm_nrid e" for i d
  proof -
    have "owned e (gm_nrid e) (upd_rider i (\<lambda>r. r\<lparr>rd_doomed := True, rd_d := d\<rparr>) a)"
      using assms(1) that by (intro owned_upd_rider) (simp_all add: kept_def ribbon_def)
    then show ?thesis
      using assms(1) that step_of_clocks [OF clocks_upd_rider, of i "\<lambda>r. r\<lparr>rd_doomed := True, rd_d := d\<rparr>" a]
      by (auto simp: kept_def nth_list_update rider_ok_def)
  qed
  have i: "fst (snd (worst_way e a (riders_up e a))) < gm_nrid e" if "1 < length (riders_up e a)"
    using that by (intro less worst_way_in) auto
  show ?thesis
    unfolding deadline_def Let_def
    by (auto simp: assms(1) case_prod_beta intro!: doom i kept_fold [OF assms(1)] kept_burst [OF _ _ assms(2)]
        dest: less_drop)
qed

lemma list_ex_update: "i < length xs \<Longrightarrow> P x \<Longrightarrow> list_ex P (xs[i := x])"
  unfolding list_ex_iff using set_update_memI by fast

lemma deadline_up:
  assumes "length (ar_riders a) = gm_nrid e" "ar_race_at a + ar_race_len a < ar_step a \<Longrightarrow> list_ex rd_doomed (ar_riders a)"
    "1 < length (fst (deadline e a))"
  shows "riders_up e (snd (deadline e a)) = fst (deadline e a)"
    and "ar_step a < ar_race_at a + ar_race_len a + 24"
    and "ar_race_at a + ar_race_len a \<le> ar_step a \<Longrightarrow> list_ex rd_doomed (ar_riders (snd (deadline e a)))"
proof -
  let ?i = "fst (snd (worst_way e a (riders_up e a)))"
  have up: "1 < length (riders_up e a)"
    using assms(3) by (auto simp: deadline_def Let_def case_prod_beta split: if_splits)
  then have i: "?i < length (ar_riders a)"
    using riders_up_less [OF worst_way_in, of e a e a] assms(1) by fastforce
  have mov: "rd_moving ((ar_riders a)[?i := (ar_riders a ! ?i)\<lparr>rd_doomed := True, rd_d := d\<rparr>] ! j) = rd_moving (ar_riders a ! j)" for j d
    using i by (cases "j = ?i") simp_all
  have same: "riders_up e (upd_rider ?i (\<lambda>r. r\<lparr>rd_doomed := True, rd_d := d\<rparr>) a) = riders_up e a" for d
    unfolding riders_up_def [of e "upd_rider _ _ _"] riders_upd_rider mov by (simp add: riders_up_def)
  show "riders_up e (snd (deadline e a)) = fst (deadline e a)"
    using assms(3) by (auto simp: deadline_def Let_def case_prod_beta same split: if_splits)
  show "ar_step a < ar_race_at a + ar_race_len a + 24"
  proof (cases "ar_race_at a + ar_race_len a < ar_step a")
    case True
    then show ?thesis using assms(2,3) up by (auto simp: deadline_def Let_def split: if_splits)
  qed linarith
  show "list_ex rd_doomed (ar_riders (snd (deadline e a)))" if "ar_race_at a + ar_race_len a \<le> ar_step a"
    using that up i assms(3) by (auto simp: deadline_def Let_def case_prod_beta list_ex_update split: if_splits)
qed

section \<open>The end of a race\<close>

definition in_time :: "game \<Rightarrow> arena \<Rightarrow> bool" where
  "in_time e a \<longleftrightarrow>
     (if ar_phase a \<noteq> 0 then riders_up e a = []
      else if ar_end_at a < 0
      then ar_step a < ar_race_at a + ar_race_len a + 24 \<and> 1 < length (riders_up e a)
        \<and> (ar_race_at a + ar_race_len a \<le> ar_step a \<longrightarrow> list_ex rd_doomed (ar_riders a))
      else ar_step a < ar_end_at a \<and> ar_end_at a \<le> last_move e (ar_race_at a))"

definition deadline_ok :: "game \<Rightarrow> arena \<Rightarrow> bool" where
  "deadline_ok e a \<longleftrightarrow> 0 \<le> ar_race_at a \<and> 24 \<le> ar_race_len a \<and> ar_race_len a \<le> gm_max_race e"

lemma kept_retire:
  assumes "kept e R l m a" "i < gm_nrid e"
  shows "kept e R l m (retire_rider i a)"
proof -
  have "owned e (gm_nrid e) (retire_rider i a)"
    unfolding retire_rider_def using assms by (intro owned_upd_rider) (auto simp: kept_def ribbon_def)
  moreover have "0 \<le> fuse e" by (simp add: fuse_def)
  moreover have "rider_ok e R (if j < m then l + 1 else l) (ar_riders (retire_rider i a) ! j)" if j: "j < gm_nrid e" for j
    using assms j \<open>0 \<le> fuse e\<close> by (cases "j = i") (force simp: kept_def retire_rider_def rider_ok_def)+
  ultimately show ?thesis
    using assms(1) step_of_clocks [OF clocks_retire_rider, of i a] by (simp add: kept_def retire_rider_def)
qed

lemma retire_stops:
  "length (ar_riders a) = n \<Longrightarrow> j < n \<Longrightarrow>
    rd_moving (ar_riders (fold retire_rider is a) ! j) = (rd_moving (ar_riders a ! j) \<and> j \<notin> set is)"
proof (induction "is" arbitrary: a)
  case (Cons i "is")
  then show ?case by (cases "i = j") (simp_all add: retire_rider_def)
qed simp

lemma race_at_ends [simp]:
  "ar_race_at (decide_end e up a) = ar_race_at a" "ar_race_len (decide_end e up a) = ar_race_len a"
  "ar_race_at (close_race e a) = ar_race_at a" "ar_race_len (close_race e a) = ar_race_len a"
  using clocks_fold [where f = retire_rider and xs = "riders_up e a" and a = a, OF clocks_retire_rider]
  by (simp_all add: decide_end_def close_race_def Let_def clocks_def)

lemma kept_close_race:
  assumes "kept e R l m a"
  shows "kept e R l m (close_race e a)"
proof -
  have "kept e R l m (fold retire_rider (riders_up e a) a)"
    using assms by (rule kept_fold) (auto intro: kept_retire riders_up_less)
  then show ?thesis using assms by (simp add: close_race_def kept_def owned_def)
qed

lemma close_race_stops:
  assumes "length (ar_riders a) = gm_nrid e" "ar_end_at a = ar_step a" "0 \<le> ar_end_at a"
  shows "ar_phase (close_race e a) = 1" and "riders_up e (close_race e a) = []"
proof -
  have "\<not> rd_moving (ar_riders (fold retire_rider (riders_up e a) a) ! j)" if "j < gm_nrid e" for j
    using that by (auto simp: retire_stops [OF assms(1) that] riders_up_def)
  then show "ar_phase (close_race e a) = 1" "riders_up e (close_race e a) = []"
    using assms(2,3) by (auto simp: close_race_def riders_up_def filter_empty_conv)
qed

lemma race_step_keeps:
  assumes ok: "game_ok e" and k: "kept e (ar_race_at a) l 0 a" "0 \<le> l" "l < gm_path_max e" and "deadline_ok e a"
    and p: "ar_phase a = 0"
    "ar_end_at a < 0 \<Longrightarrow> ar_step a \<le> ar_race_at a + ar_race_len a + 24"
    "ar_end_at a < 0 \<Longrightarrow> ar_race_at a + ar_race_len a < ar_step a \<Longrightarrow> list_ex rd_doomed (ar_riders a)"
    "0 \<le> ar_end_at a \<Longrightarrow> ar_step a \<le> ar_end_at a \<and> ar_end_at a \<le> last_move e (ar_race_at a)"
  shows "kept e (ar_race_at a) l (gm_nrid e) (race_step e ch a)" and "in_time e (race_step e ch a)"
    and "ar_race_at (race_step e ch a) = ar_race_at a" and "ar_race_len (race_step e ch a) = ar_race_len a"
proof -
  let ?R = "ar_race_at a" and ?n = "gm_nrid e"
  define b where "b = fold (ride e ch (aggression a)) [0..<?n] a"
  define c where "c = snd (deadline e b)"
  define up where "up = fst (deadline e b)"
  have "kept e ?R l ?n b"
    unfolding b_def by (rule fold_upto [where P = "\<lambda>i. kept e ?R l i"]) (use k kept_ride ok in auto)
  then have kc: "kept e ?R l ?n c" unfolding c_def using ok by (rule kept_deadline)
  have clk: "clocks b = clocks a" "clocks c = clocks a" by (simp_all add: b_def c_def clock_simps)
  then have same: "ar_step b = ar_step a" "ar_race_at b = ?R" "ar_race_len b = ar_race_len a" "ar_step c = ar_step a"
    "ar_race_at c = ?R" "ar_race_len c = ar_race_len a" "ar_end_at c = ar_end_at a" "ar_phase c = 0"
    "length (ar_riders b) = ?n" using k(1) p(1) by (auto simp: clocks_def kept_def)
  have dm: "list_ex rd_doomed (ar_riders b) = list_ex rd_doomed (ar_riders a)" unfolding b_def by (rule doomed_rides)
  have step: "race_step e ch a = close_race e (decide_end e up c)"
    by (simp add: race_step_def case_prod_beta b_def c_def up_def)
  have "kept e ?R l ?n (decide_end e up c)" using kc by (simp add: decide_end_def kept_def owned_def Let_def)
  then show "kept e ?R l ?n (race_step e ch a)" unfolding step by (rule kept_close_race)
  show "ar_race_at (race_step e ch a) = ?R" "ar_race_len (race_step e ch a) = ar_race_len a"
    by (simp_all add: step same)
  have bounds: "ar_step a + gm_lap e \<le> last_move e ?R" if "ar_end_at a < 0"
    using p(2) [OF that] ok \<open>deadline_ok e a\<close> by (simp add: game_ok_def last_move_def deadline_ok_def)
  show "in_time e (race_step e ch a)"
  proof (cases "1 < length up")
    case True
    then have d: "decide_end e up c = c" by (simp add: decide_end_def)
    show ?thesis
    proof (cases "ar_end_at a < 0")
      case neg: True
      note up = deadline_up [of b e, OF same(9) _ True [unfolded up_def]]
      have "riders_up e c = up" "ar_step a < ?R + ar_race_len a + 24"
        "?R + ar_race_len a \<le> ar_step a \<Longrightarrow> list_ex rd_doomed (ar_riders c)"
        using up p(3) [OF neg] by (simp_all add: same dm c_def up_def)
      then show ?thesis using neg True by (simp add: step d close_race_def in_time_def same)
    next
      case False
      then have "ar_end_at c \<le> ar_step c \<Longrightarrow> ar_end_at c = ar_step c" using p(4) by (simp add: same)
      then show ?thesis
        using False p(4) close_race_stops [of c e] kc
        by (cases "ar_end_at c \<le> ar_step c") (auto simp: step d in_time_def close_race_def same kept_def)
    qed
  next
    case False
    define d where "d = decide_end e up c"
    have dd: "ar_step d = ar_step a" "ar_race_at d = ?R" "ar_phase d = 0" "length (ar_riders d) = ?n"
      using kc by (simp_all add: d_def decide_end_def Let_def same kept_def)
    have "0 \<le> ar_step a" using k(1) by (simp add: kept_def)
    moreover have "8 \<le> gm_decay e" "4 \<le> gm_lap e" "3 \<le> gm_beat e" using ok by (auto simp: game_ok_def fuse_def)
    ultimately have e: "0 \<le> ar_end_at d" "ar_step d \<le> ar_end_at d" "ar_end_at d \<le> last_move e ?R"
      using p(4) bounds False by (auto simp: d_def decide_end_def Let_def same last_move_def)
    show ?thesis
    proof (cases "ar_end_at d = ar_step d")
      case True
      then show ?thesis using close_race_stops [OF dd(4) True e(1)] by (simp add: step d_def [symmetric] in_time_def)
    next
      case False
      then show ?thesis using e dd by (simp add: step d_def [symmetric] in_time_def close_race_def)
    qed
  qed
qed

section \<open>Dissolving\<close>

definition new_cut :: "game \<Rightarrow> int \<Rightarrow> rider \<Rightarrow> nat" where
  "new_cut e s r =
     (if rd_erase_at r < 0 \<or> s < rd_erase_at r \<or> length (rd_path r) \<le> rd_cut r then rd_cut r
      else max (rd_cut r) (nat \<lfloor>min (of_int (s - rd_erase_at r) / of_int (gm_decay e)) 1 * (of_nat (length (rd_path r)) :: rat)\<rfloor>))"

lemma riders_dissolve: "ar_riders (dissolve e i a) = (ar_riders a)[i := (ar_riders a ! i)\<lparr>rd_cut := new_cut e (ar_step a) (ar_riders a ! i)\<rparr>]"
  by (auto simp: dissolve_def new_cut_def Let_def max_def)

lemma owner_dissolve: "ar_owner (dissolve e i a) =
    put e (take (new_cut e (ar_step a) (ar_riders a ! i) - rd_cut (ar_riders a ! i))
      (drop (rd_cut (ar_riders a ! i)) (rd_path (ar_riders a ! i)))) 0 (ar_owner a)"
  by (auto simp: dissolve_def new_cut_def Let_def max_def put_def)

lemma new_cut_range:
  assumes "rd_cut r \<le> length (rd_path r)" "0 < gm_decay e"
  shows "rd_cut r \<le> new_cut e s r" and "new_cut e s r \<le> length (rd_path r)"
proof -
  have "min q 1 * (of_nat n :: rat) \<le> of_nat n" for q n
    using mult_right_mono [of "min q 1" 1 "of_nat n :: rat"] by simp
  then have "\<lfloor>min q 1 * (of_nat n :: rat)\<rfloor> \<le> int n" for q n
    by (metis floor_mono floor_of_nat)
  then show "rd_cut r \<le> new_cut e s r" "new_cut e s r \<le> length (rd_path r)"
    using assms(1) by (simp_all add: new_cut_def nat_le_iff)
qed

lemma new_cut_all:
  assumes "0 \<le> rd_erase_at r" "rd_erase_at r + gm_decay e \<le> s" "0 < gm_decay e" "rd_cut r \<le> length (rd_path r)"
  shows "new_cut e s r = length (rd_path r)"
proof -
  have "(of_int (gm_decay e) :: rat) \<le> of_int (s - rd_erase_at r)" using assms(2) by (simp only: of_int_le_iff le_diff_eq add.commute)
  then have "min (of_int (s - rd_erase_at r) / of_int (gm_decay e)) 1 = (1 :: rat)"
    using assms(3) by (simp add: le_divide_eq min_def)
  then show ?thesis using assms by (simp add: new_cut_def)
qed

definition ribbons_ok :: "game \<Rightarrow> int \<Rightarrow> int \<Rightarrow> arena \<Rightarrow> bool" where
  "ribbons_ok e R l a \<longleftrightarrow> length (ar_riders a) = gm_nrid e \<and> owned e (gm_nrid e) a
     \<and> (\<forall>j < gm_nrid e. rider_ok e R l (ar_riders a ! j))"

definition gone_by :: "game \<Rightarrow> int \<Rightarrow> rider \<Rightarrow> bool" where
  "gone_by e s r \<longleftrightarrow> rd_moving r \<or> s < rd_erase_at r + gm_decay e \<or> rd_cut r = length (rd_path r)"

lemma owned_dissolve:
  assumes "owned e m a" "i < length (ar_riders a)" "rd_cut (ar_riders a ! i) \<le> length (rd_path (ar_riders a ! i))" "0 < gm_decay e"
  shows "owned e m (dissolve e i a)"
  unfolding owned_def
proof (intro allI impI)
  let ?r = "ar_riders a ! i"
  let ?c = "new_cut e (ar_step a) ?r"
  let ?gone = "take (?c - rd_cut ?r) (drop (rd_cut ?r) (rd_path ?r))"
  fix k assume k: "k < length (ar_owner (dissolve e i a))" "ar_owner (dissolve e i a) ! k \<noteq> 0"
  then have nk: "k \<notin> slot e ` set ?gone" "ar_owner (dissolve e i a) ! k = ar_owner a ! k"
    by (auto simp: owner_dissolve put_nth split: if_splits)
  then obtain j where j: "j < m" "ar_owner a ! k = j + 1" "k \<in> ribbon e (ar_riders a ! j)"
    using assms(1) k by (auto simp: owned_def owner_dissolve)
  have "drop (rd_cut ?r) (rd_path ?r) = ?gone @ drop ?c (rd_path ?r)"
    using new_cut_range [OF assms(3,4), of "ar_step a"] append_take_drop_id [of "?c - rd_cut ?r" "drop (rd_cut ?r) (rd_path ?r)"]
    by (simp add: drop_drop)
  then have "ribbon e ?r = slot e ` set ?gone \<union> slot e ` set (drop ?c (rd_path ?r))"
    unfolding ribbon_def by (metis image_Un set_append)
  then have "k \<in> ribbon e (ar_riders (dissolve e i a) ! j)"
    using j(3) nk(1) assms(2) by (cases "j = i") (auto simp: riders_dissolve ribbon_def)
  then show "\<exists>j < m. ar_owner (dissolve e i a) ! k = j + 1 \<and> k \<in> ribbon e (ar_riders (dissolve e i a) ! j)"
    using j nk(2) by auto
qed

lemma dissolve_keeps:
  assumes "ribbons_ok e R l a" "\<forall>j < i. gone_by e (ar_step a) (ar_riders a ! j)" "i < gm_nrid e" "0 < gm_decay e"
  shows "ribbons_ok e R l (dissolve e i a)" and "\<forall>j < Suc i. gone_by e (ar_step a) (ar_riders (dissolve e i a) ! j)"
proof -
  let ?r = "ar_riders a ! i"
  have r: "rider_ok e R l ?r" "i < length (ar_riders a)" "length (ar_riders a) = gm_nrid e"
    using assms(1,3) by (auto simp: ribbons_ok_def)
  then have c: "rd_cut ?r \<le> length (rd_path ?r)" by (simp add: rider_ok_def)
  have "rider_ok e R l (?r\<lparr>rd_cut := new_cut e (ar_step a) ?r\<rparr>)"
    using r(1) new_cut_range [OF c assms(4), of "ar_step a"] by (auto simp: rider_ok_def new_cut_def)
  then have "rider_ok e R l (ar_riders (dissolve e i a) ! j)" if "j < gm_nrid e" for j
    using assms(1) that r(3) by (cases "j = i") (simp_all add: ribbons_ok_def riders_dissolve)
  then show "ribbons_ok e R l (dissolve e i a)"
    using assms(1) owned_dissolve [OF _ r(2) c assms(4)] by (simp add: ribbons_ok_def riders_dissolve)
  have "gone_by e (ar_step a) (?r\<lparr>rd_cut := new_cut e (ar_step a) ?r\<rparr>)"
    using new_cut_all [OF _ _ assms(4) c, of "ar_step a"] r(1) by (cases "ar_step a < rd_erase_at ?r + gm_decay e") (auto simp: gone_by_def rider_ok_def split: if_splits)
  then show "\<forall>j < Suc i. gone_by e (ar_step a) (ar_riders (dissolve e i a) ! j)"
    using assms(2) r(2) by (auto simp: riders_dissolve nth_list_update)
qed

lemma dissolves_keep:
  assumes "ribbons_ok e R l a" "0 < gm_decay e"
  shows "ribbons_ok e R l (fold (dissolve e) [0..<gm_nrid e] a)
    \<and> (\<forall>j < gm_nrid e. gone_by e (ar_step a) (ar_riders (fold (dissolve e) [0..<gm_nrid e] a) ! j))"
proof -
  let ?P = "\<lambda>i b. ribbons_ok e R l b \<and> ar_step b = ar_step a \<and> (\<forall>j < i. gone_by e (ar_step a) (ar_riders b ! j))"
  have "?P (gm_nrid e) (fold (dissolve e) [0..<gm_nrid e] a)"
  proof (rule fold_upto [where P = ?P])
    show "?P (Suc i) (dissolve e i b)" if "i < gm_nrid e" "?P i b" for i b
      using that dissolve_keeps [of e R l b i] assms(2) step_of_clocks [OF clocks_dissolve, of e i b] by simp
  qed (use assms(1) in simp)
  then show ?thesis by simp
qed

section \<open>The start of a round\<close>

definition spawned :: "game \<Rightarrow> chances \<Rightarrow> int \<Rightarrow> nat \<Rightarrow> rider" where
  "spawned e ch s i =
     (let (y, x) = spawn_at e ch s i
      in \<lparr>rd_y = y, rd_x = x, rd_d = snd (snd (SPAWNS ! i)), rd_moving = True, rd_derezzed = False, rd_erase_at = -1,
          rd_straight = 0, rd_doomed = False, rd_path = [cell_no e y x], rd_cut = 0\<rparr>)"

lemma spawn_lays: "spawn e ch i a = lay_cell e i (upd_rider i (\<lambda>_. (spawned e ch (ar_step a) i)\<lparr>rd_path := []\<rparr>) a)"
  unfolding spawn_def
  by (rule arg_cong [where f = "\<lambda>f. lay_cell e i (upd_rider i f a)"], rule ext, rule rider.equality)
    (simp_all add: spawned_def case_prod_beta Let_def)

lemma riders_spawn:
  assumes "0 < gm_path_max e" "i < length (ar_riders a)"
  shows "ar_riders (spawn e ch i a) = (ar_riders a)[i := spawned e ch (ar_step a) i]"
  using assms by (simp add: spawn_lays riders_lay_cell spawned_def case_prod_beta Let_def)

lemma owned_fresh:
  assumes "owned e i a" "i < length (ar_riders a)"
  shows "owned e (Suc i) (upd_rider i f a)"
  using assms by (fastforce simp: owned_def)

lemma owned_spawn:
  assumes "owned e i a" "i < length (ar_riders a)" "0 < gm_path_max e"
  shows "owned e (Suc i) (spawn e ch i a)"
  unfolding spawn_def
  by (auto intro!: owned_lay_cell owned_fresh assms(1,2) simp: assms(2,3))

lemma start_round_keeps:
  assumes "length (ar_riders a) = gm_nrid e" "game_ok e" "0 \<le> ar_step a"
  shows "ribbons_ok e (ar_step a) 1 (start_round e ch a)" and "riders_up e (start_round e ch a) = [0..<gm_nrid e]"
    and "length (ar_owner (start_round e ch a)) = gm_gh e * gm_gw e" and "ar_step (start_round e ch a) = ar_step a"
    and "ar_phase (start_round e ch a) = 0" and "ar_race_at (start_round e ch a) = ar_step a" and "ar_end_at (start_round e ch a) = -1"
    and "deadline_ok e (start_round e ch a)"
proof -
  let ?b = "a\<lparr>ar_owner := replicate (gm_gh e * gm_gw e) 0, ar_heat := replicate (gm_gh e * gm_gw e) 0, ar_phase := 0,
         ar_race_at := ar_step a,
         ar_race_len := gm_max_race e - int (ch_slack ch (ar_step a)) mod max 2 (gm_max_race e div 4), ar_end_at := -1\<rparr>"
  have g: "0 < gm_path_max e" "39 \<le> gm_max_race e" using assms(2) by (auto simp: game_ok_def fuse_def)
  let ?P = "\<lambda>i b. length (ar_riders b) = gm_nrid e \<and> owned e i b
      \<and> (\<forall>j < i. rider_ok e (ar_step a) 1 (ar_riders b ! j) \<and> rd_moving (ar_riders b ! j))"
  have "?P (gm_nrid e) (start_round e ch a)"
    unfolding start_round_def
  proof (rule fold_upto [where P = ?P])
    show "?P 0 ?b" using assms(1) by (simp add: owned_def)
  next
    fix i b assume i: "i < gm_nrid e" and P: "?P i b"
    show "?P (Suc i) (spawn e ch i b)"
      using P i owned_spawn [of e i b] g(1)
      by (auto simp: riders_spawn less_Suc_eq rider_ok_def spawned_def case_prod_beta Let_def)
  qed
  then show "ribbons_ok e (ar_step a) 1 (start_round e ch a)" "riders_up e (start_round e ch a) = [0..<gm_nrid e]"
    by (auto simp: ribbons_ok_def riders_up_def filter_id_conv)
  have c: "clocks (start_round e ch a) = clocks ?b" unfolding start_round_def by (simp add: clock_simps)
  then show "length (ar_owner (start_round e ch a)) = gm_gh e * gm_gw e" "ar_step (start_round e ch a) = ar_step a"
    "ar_phase (start_round e ch a) = 0" "ar_race_at (start_round e ch a) = ar_step a" "ar_end_at (start_round e ch a) = -1"
    by (simp_all add: clocks_def)
  define k where "k = int (ch_slack ch (ar_step a)) mod max 2 (gm_max_race e div 4)"
  have "0 \<le> k" "k < max 2 (gm_max_race e div 4)" by (simp_all add: k_def pos_mod_bound)
  moreover have "ar_race_at (start_round e ch a) = ar_step a" "ar_race_len (start_round e ch a) = gm_max_race e - k"
    using c unfolding k_def by (simp_all add: clocks_def)
  ultimately show "deadline_ok e (start_round e ch a)"
    unfolding deadline_ok_def using assms(3) g(2) by linarith
qed

section \<open>Every step\<close>

definition arena_ok :: "game \<Rightarrow> arena \<Rightarrow> bool" where
  "arena_ok e a \<longleftrightarrow> deadline_ok e a \<and> in_time e a \<and> length (ar_owner a) = gm_gh e * gm_gw e
     \<and> gm_spr e dvd ar_race_at a \<and> ar_race_at a \<le> ar_step a \<and> ar_step a < ar_race_at a + gm_spr e
     \<and> ribbons_ok e (ar_race_at a) (min (ar_step a) (last_move e (ar_race_at a)) - ar_race_at a + 1) a
     \<and> (\<forall>j < gm_nrid e. gone_by e (ar_step a) (ar_riders a ! j))"

definition ready :: "game \<Rightarrow> arena \<Rightarrow> bool" where
  "ready e a \<longleftrightarrow> length (ar_riders a) = gm_nrid e \<and> (ar_step a = -1 \<or> arena_ok e a)"

lemma in_time_dissolve: "in_time e (dissolve e i a) = in_time e a"
proof -
  have same: "map f (ar_riders (dissolve e i a)) = map f (ar_riders a)" if "\<And>r n. f (r\<lparr>rd_cut := n\<rparr>) = f r" for f :: "rider \<Rightarrow> bool"
    using that by (cases "i < length (ar_riders a)")
      (simp_all add: riders_dissolve map_update list_update_same_conv list_update_beyond)
  have mv: "rd_moving (ar_riders (dissolve e i a) ! j) = rd_moving (ar_riders a ! j)" for j
    by (cases "i < length (ar_riders a)"; cases "i = j") (simp_all add: riders_dissolve list_update_beyond)
  have "riders_up e (dissolve e i a) = riders_up e a" by (simp add: riders_up_def mv)
  moreover have "list_ex id (map rd_doomed (ar_riders (dissolve e i a))) = list_ex id (map rd_doomed (ar_riders a))"
    by (simp add: same)
  ultimately show ?thesis
    using clocks_dissolve [of e i a] by (simp add: in_time_def clocks_def list_ex_iff)
qed

lemma in_time_dissolves: "in_time e (fold (dissolve e) is a) = in_time e a"
  by (induction "is" arbitrary: a) (simp_all add: in_time_dissolve)

lemma arena_after_dissolve:
  assumes "game_ok e" "deadline_ok e a" "in_time e a" "length (ar_owner a) = gm_gh e * gm_gw e" "gm_spr e dvd ar_race_at a"
    "ar_race_at a \<le> ar_step a" "ar_step a < ar_race_at a + gm_spr e"
    "ribbons_ok e (ar_race_at a) (min (ar_step a) (last_move e (ar_race_at a)) - ar_race_at a + 1) a"
  shows "arena_ok e (fold (dissolve e) [0..<gm_nrid e] a)"
proof -
  let ?b = "fold (dissolve e) [0..<gm_nrid e] a"
  have "clocks ?b = clocks a" by (simp add: clock_simps)
  then have "ar_step ?b = ar_step a" "ar_race_at ?b = ar_race_at a" "ar_race_len ?b = ar_race_len a"
    "length (ar_owner ?b) = length (ar_owner a)" by (simp_all add: clocks_def)
  moreover have "0 < gm_decay e" using assms(1) by (simp add: game_ok_def)
  ultimately show ?thesis
    using assms dissolves_keep [OF assms(8)] by (simp add: arena_ok_def in_time_dissolves deadline_ok_def)
qed

lemma kept_of_ribbons: "ribbons_ok e R l a \<Longrightarrow> 0 \<le> ar_step a \<Longrightarrow> ar_step a \<le> last_move e R \<Longrightarrow> kept e R l 0 a"
  by (simp add: ribbons_ok_def kept_def)

lemma ribbons_of_kept: "kept e R l (gm_nrid e) a \<Longrightarrow> ribbons_ok e R (l + 1) a"
  by (simp add: ribbons_ok_def kept_def)

lemma ribbons_step [simp]: "ribbons_ok e R l (a\<lparr>ar_step := s\<rparr>) = ribbons_ok e R l a"
  "ribbons_ok e R l (a\<lparr>ar_phase := p\<rparr>) = ribbons_ok e R l a"
  by (simp_all add: ribbons_ok_def owned_def)

lemma ribbons_mono: "ribbons_ok e R l a \<Longrightarrow> l \<le> l' \<Longrightarrow> ribbons_ok e R l' a"
  by (auto simp: ribbons_ok_def elim: rider_ok_mono)

lemma riders_up_step [simp]: "riders_up e (a\<lparr>ar_step := s\<rparr>) = riders_up e a" "riders_up e (a\<lparr>ar_phase := p\<rparr>) = riders_up e a"
  by (simp_all add: riders_up_def)

lemma advance_starts:
  assumes "game_ok e" "length (ar_riders a) = gm_nrid e" "(ar_step a + 1) mod gm_spr e = 0" "-1 \<le> ar_step a"
  shows "arena_ok e (advance e ch a)"
proof -
  let ?a = "a\<lparr>ar_step := ar_step a + 1\<rparr>"
  define b where "b = start_round e ch ?a"
  have adv: "advance e ch a = b" using assms(3) by (simp add: advance_def b_def)
  note b = start_round_keeps [of ?a e ch, OF _ assms(1), folded b_def]
  have r: "ribbons_ok e (ar_step b) 1 b" "riders_up e b = [0..<gm_nrid e]" "length (ar_owner b) = gm_gh e * gm_gw e"
    "ar_step b = ar_step a + 1" "ar_phase b = 0" "ar_race_at b = ar_step b" "ar_end_at b = -1" "deadline_ok e b"
    using b assms(2,4) by simp_all
  have g: "2 \<le> gm_nrid e" "ar_step b \<le> last_move e (ar_step b)" "0 < gm_spr e"
    using assms(1) by (auto simp: game_ok_def last_move_def fuse_def)
  have "rd_moving (ar_riders b ! j)" if "j < gm_nrid e" for j
    using that r(2) unfolding riders_up_def by (metis atLeastLessThan_iff filter_id_conv set_upt zero_le)
  moreover have "gm_spr e dvd ar_step b" using assms(3) r(4) by (simp add: dvd_eq_mod_eq_0)
  moreover have "in_time e b" using r g by (simp add: in_time_def deadline_ok_def)
  ultimately show ?thesis
    unfolding adv arena_ok_def using r g by (simp add: gone_by_def)
qed

lemma race_kept:
  assumes ok: "game_ok e" and "arena_ok e a" "ar_phase a = 0"
  shows "kept e (ar_race_at a) (ar_step a - ar_race_at a + 1) 0 (a\<lparr>ar_step := ar_step a + 1\<rparr>)"
    and "ar_step a - ar_race_at a + 1 < gm_path_max e" and "ar_step a + 1 \<le> last_move e (ar_race_at a)"
proof -
  let ?R = "ar_race_at a"
  have a: "deadline_ok e a" "in_time e a" "?R \<le> ar_step a" "ribbons_ok e ?R (min (ar_step a) (last_move e ?R) - ?R + 1) a"
    using assms(2) by (auto simp: arena_ok_def)
  show last: "ar_step a + 1 \<le> last_move e ?R"
    using a(1,2) assms(3) ok by (auto simp: in_time_def deadline_ok_def game_ok_def last_move_def split: if_splits)
  then show "ar_step a - ?R + 1 < gm_path_max e"
    using a(1,3) ok by (auto simp: deadline_ok_def game_ok_def last_move_def)
  show "kept e ?R (ar_step a - ?R + 1) 0 (a\<lparr>ar_step := ar_step a + 1\<rparr>)"
    using last a by (auto simp: deadline_ok_def intro!: kept_of_ribbons)
qed

lemma race_step_of:
  assumes ok: "game_ok e" and "arena_ok e a" "ar_phase a = 0"
  shows "kept e (ar_race_at a) (ar_step a - ar_race_at a + 1) (gm_nrid e) (race_step e ch (a\<lparr>ar_step := ar_step a + 1\<rparr>))"
    and "in_time e (race_step e ch (a\<lparr>ar_step := ar_step a + 1\<rparr>))"
    and "ar_race_at (race_step e ch (a\<lparr>ar_step := ar_step a + 1\<rparr>)) = ar_race_at a"
    and "ar_race_len (race_step e ch (a\<lparr>ar_step := ar_step a + 1\<rparr>)) = ar_race_len a"
proof -
  let ?b = "a\<lparr>ar_step := ar_step a + 1\<rparr>"
  have a: "deadline_ok e a" "in_time e a" "ar_race_at a \<le> ar_step a" using assms(2) by (auto simp: arena_ok_def)
  have k: "kept e (ar_race_at ?b) (ar_step a - ar_race_at a + 1) 0 ?b" using race_kept(1) [OF assms] by simp
  have l: "0 \<le> ar_step a - ar_race_at a + 1" using a(3) by simp
  have "deadline_ok e ?b" "ar_phase ?b = 0"
    "ar_end_at ?b < 0 \<Longrightarrow> ar_step ?b \<le> ar_race_at ?b + ar_race_len ?b + 24"
    "ar_end_at ?b < 0 \<Longrightarrow> ar_race_at ?b + ar_race_len ?b < ar_step ?b \<Longrightarrow> list_ex rd_doomed (ar_riders ?b)"
    "0 \<le> ar_end_at ?b \<Longrightarrow> ar_step ?b \<le> ar_end_at ?b \<and> ar_end_at ?b \<le> last_move e (ar_race_at ?b)"
    using a(1,2) assms(3) by (auto simp: in_time_def deadline_ok_def)
  note race_step_keeps [OF ok k l race_kept(2) [OF assms] this, of ch]
  then show "kept e (ar_race_at a) (ar_step a - ar_race_at a + 1) (gm_nrid e) (race_step e ch ?b)" "in_time e (race_step e ch ?b)"
    "ar_race_at (race_step e ch ?b) = ar_race_at a" "ar_race_len (race_step e ch ?b) = ar_race_len a" by simp_all
qed

lemma length_owner_race_step: "length (ar_owner (race_step e ch a)) = length (ar_owner a)"
proof -
  let ?d = "deadline e (fold (ride e ch (aggression a)) [0..<gm_nrid e] a)"
  have "length (ar_owner (close_race e (decide_end e up c))) = length (ar_owner c)" for up c
    using clocks_fold [where f = retire_rider and xs = "riders_up e (decide_end e up c)" and a = "decide_end e up c", OF clocks_retire_rider]
    by (simp add: close_race_def decide_end_def Let_def clocks_def)
  moreover have "clocks (snd ?d) = clocks a" by (simp add: clock_simps)
  ultimately show ?thesis by (simp add: race_step_def case_prod_beta clocks_def)
qed

lemma advance_race:
  assumes ok: "game_ok e" and "arena_ok e a" "(ar_step a + 1) mod gm_spr e \<noteq> 0" "ar_phase a = 0"
  shows "arena_ok e (advance e ch a)"
proof -
  let ?R = "ar_race_at a" and ?b = "a\<lparr>ar_step := ar_step a + 1\<rparr>"
  have a: "deadline_ok e a" "length (ar_owner a) = gm_gh e * gm_gw e" "gm_spr e dvd ?R" "?R \<le> ar_step a"
    using assms(2) by (auto simp: arena_ok_def)
  note last = race_kept(3) [OF ok assms(2,4)] and R = race_step_of [OF ok assms(2,4), of ch]
  have adv: "advance e ch a = fold (dissolve e) [0..<gm_nrid e] (race_step e ch ?b)"
    using assms(3,4) by (simp add: advance_def)
  have "ar_step a + 1 < ?R + gm_spr e"
    using last ok by (auto simp: last_move_def game_ok_def fuse_def)
  then show ?thesis
    unfolding adv
    using R last a ribbons_of_kept [OF R(1)]
    by (intro arena_after_dissolve ok) (simp_all add: deadline_ok_def length_owner_race_step)
qed

lemma advance_rest:
  assumes ok: "game_ok e" and "arena_ok e a" "(ar_step a + 1) mod gm_spr e \<noteq> 0" "ar_phase a \<noteq> 0"
  shows "arena_ok e (advance e ch a)"
proof -
  let ?R = "ar_race_at a" and ?b = "a\<lparr>ar_step := ar_step a + 1\<rparr>"
  have a: "deadline_ok e a" "in_time e a" "length (ar_owner a) = gm_gh e * gm_gw e" "gm_spr e dvd ?R" "?R \<le> ar_step a"
    "ar_step a < ?R + gm_spr e" "ribbons_ok e ?R (min (ar_step a) (last_move e ?R) - ?R + 1) a"
    using assms(2) by (auto simp: arena_ok_def)
  have "ar_step a + 1 \<noteq> ?R + gm_spr e"
    using a(4) assms(3) by (metis dvd_add_triv_right_iff dvd_eq_mod_eq_0)
  then have r: "ar_step a + 1 < ?R + gm_spr e" "riders_up e a = []"
    using a(2,6) assms(4) by (simp_all add: in_time_def)
  have "ribbons_ok e ?R (min (ar_step a + 1) (last_move e ?R) - ?R + 1) a"
    by (rule ribbons_mono [OF a(7)]) simp
  moreover have "arena_ok e (fold (dissolve e) [0..<gm_nrid e] c)" if "c \<in> {?b, ?b\<lparr>ar_phase := 2\<rparr>}" for c
    using that a r calculation assms(4) ok
    by (intro arena_after_dissolve ok) (auto simp: deadline_ok_def in_time_def)
  ultimately show ?thesis
    using assms(3,4) by (auto simp: advance_def Let_def)
qed

lemma advance_ok: "game_ok e \<Longrightarrow> ready e a \<Longrightarrow> arena_ok e (advance e ch a)"
proof -
  assume ok: "game_ok e" and r: "ready e a"
  show ?thesis
  proof (cases "(ar_step a + 1) mod gm_spr e = 0")
    case True
    moreover have "-1 \<le> ar_step a" using r by (auto simp: ready_def arena_ok_def deadline_ok_def)
    ultimately show ?thesis using r advance_starts [OF ok] by (simp add: ready_def)
  next
    case False
    then have "arena_ok e a" using r by (auto simp: ready_def)
    then show ?thesis using advance_race [OF ok] advance_rest [OF ok] False by blast
  qed
qed

lemma arena_ready: "arena_ok e a \<Longrightarrow> ready e a"
  by (simp add: ready_def arena_ok_def ribbons_ok_def)

section \<open>Frames\<close>

lemma catch_up_step: "ar_step (catch_up e ch target a) = max target (ar_step a)"
proof (induction e ch target a rule: catch_up.induct)
  case (1 e ch target a)
  then show ?case by (subst catch_up.simps) auto
qed

lemma catch_up_keeps:
  assumes "P a" "\<And>b. P b \<Longrightarrow> P (advance e ch b)"
  shows "P (catch_up e ch target a)"
  using assms
proof (induction e ch target a rule: catch_up.induct)
  case (1 e ch target a)
  then show ?case by (subst catch_up.simps) auto
qed

lemma ready_reset: "length (ar_riders a) = gm_nrid e \<Longrightarrow> ready e (reset_arena e a)"
  by (simp add: ready_def reset_arena_def)

lemma ready_frame:
  assumes "game_ok e" "ready e (tr_arena st)"
  shows "ready e (tr_arena (tron_frame e seeds t st))"
proof -
  have "ready e (catch_up e ch target b)" if "ready e b" for ch target b
    using that by (rule catch_up_keeps) (rule arena_ready, rule advance_ok [OF assms(1)])
  moreover have "ready e (reset_arena e (tr_arena st))" using assms(2) by (intro ready_reset) (simp add: ready_def)
  ultimately show ?thesis using assms(2) by (simp add: tron_frame_def Let_def)
qed

lemma ready_frames: "game_ok e \<Longrightarrow> ready e (tr_arena (fold (tron_frame e seeds) ts (tron_new e)))"
  by (rule fold_keeps [where P = "\<lambda>st. ready e (tr_arena st)"])
    (simp_all add: ready_frame, simp add: tron_new_def new_arena_def ready_def)

lemma target_step_range: "game_ok e \<Longrightarrow> 0 \<le> target_step e t \<and> target_step e t < gm_cyc_steps e"
proof -
  assume ok: "game_ok e"
  then have "0 < gm_total e" "0 \<le> gm_speed e" by (auto simp: game_ok_def)
  then have "0 \<le> fmod t (gm_total e) * gm_speed e" using fmod_range(1) by simp
  then show ?thesis using ok by (simp add: target_step_def game_ok_def)
qed

lemma frame_step:
  assumes "game_ok e"
  shows "ar_step (tr_arena (tron_frame e seeds t st)) = target_step e t"
  using target_step_range [OF assms, of t]
  by (auto simp: tron_frame_def Let_def catch_up_step reset_arena_def)

lemma frame_ok:
  assumes "game_ok e"
  shows "arena_ok e (tr_arena (fold (tron_frame e seeds) (ts @ [t]) (tron_new e)))"
  using ready_frames [OF assms, of seeds "ts @ [t]"] target_step_range [OF assms, of t]
  by (auto simp: ready_def frame_step [OF assms])

lemma empty_at_the_end:
  assumes ok: "game_ok e" and "arena_ok e a" "(ar_step a + 1) mod gm_spr e = 0"
  shows "riders_up e a = []" and "list_all (\<lambda>c. c = 0) (ar_owner a)"
proof -
  let ?R = "ar_race_at a"
  have a: "deadline_ok e a" "in_time e a" "gm_spr e dvd ?R" "?R \<le> ar_step a" "ar_step a < ?R + gm_spr e"
    "ribbons_ok e ?R (min (ar_step a) (last_move e ?R) - ?R + 1) a" "\<forall>j < gm_nrid e. gone_by e (ar_step a) (ar_riders a ! j)"
    using assms(2) by (auto simp: arena_ok_def)
  have "gm_spr e dvd ar_step a + 1 - ?R" using a(3) assms(3) by (simp add: dvd_eq_mod_eq_0 [symmetric])
  moreover have "0 < ar_step a + 1 - ?R" using a(4) by simp
  ultimately have "gm_spr e \<le> ar_step a + 1 - ?R" by (rule zdvd_imp_le)
  then have s: "ar_step a + 1 = ?R + gm_spr e" using a(5) by simp
  have "2 \<le> fuse e" by (simp add: fuse_def)
  then have "ar_phase a \<noteq> 0"
    using a(1,2) s ok by (auto simp: in_time_def deadline_ok_def game_ok_def last_move_def split: if_splits)
  then show up: "riders_up e a = []" using a(2) by (simp add: in_time_def)
  have "rd_cut (ar_riders a ! j) = length (rd_path (ar_riders a ! j))" if j: "j < gm_nrid e" for j
  proof -
    have "\<not> rd_moving (ar_riders a ! j)" using up j by (auto simp: riders_up_def filter_empty_conv)
    moreover from this have "rd_erase_at (ar_riders a ! j) + gm_decay e \<le> ar_step a"
      using a(6) j s ok by (auto simp: ribbons_ok_def rider_ok_def last_move_def game_ok_def)
    ultimately show ?thesis using a(7) j by (auto simp: gone_by_def)
  qed
  then show "list_all (\<lambda>c. c = 0) (ar_owner a)"
    using a(6) by (fastforce simp: ribbons_ok_def owned_def ribbon_def list_all_length)
qed

text \<open>
  C11. Every round ends on an empty arena. Whatever the arguments, the random numbers and the frames
  asked for before, at the last step of a round, and so at the point where the cycle loops, no rider
  is moving and no cell is owned.
\<close>

theorem rounds_end_empty:
  assumes "(target_step (tron_build ag) t + 1) mod gm_spr (tron_build ag) = 0"
  shows "let e = tron_build ag; a = tr_arena (fold (tron_frame e seeds) (ts @ [t]) (tron_new e))
    in riders_up e a = [] \<and> list_all (\<lambda>c. c = 0) (ar_owner a)"
proof -
  let ?e = "tron_build ag" and ?a = "tr_arena (fold (tron_frame (tron_build ag) seeds) (ts @ [t]) (tron_new (tron_build ag)))"
  have "ar_step ?a = target_step ?e t" by (simp add: frame_step [OF tron_build_ok])
  then show ?thesis
    using empty_at_the_end [OF tron_build_ok frame_ok [OF tron_build_ok], of ag seeds ts t] assms by (simp add: Let_def)
qed

definition grid_args :: tron_args where
  "grid_args = \<lparr>ta_width = 320, ta_height = 64, ta_riders = 3, ta_speed = 26, ta_grid = 2, ta_rounds = 4, ta_cycle = 45\<rparr>"

definition quiet :: chances where
  "quiet = \<lparr>ch_slack = (\<lambda>_. 0), ch_spawn_y = (\<lambda>_ _. 0), ch_spawn_x = (\<lambda>_ _. 0), ch_noise = (\<lambda>_ _ _. 0)\<rparr>"

lemma grid_steps: "gm_spr (tron_build grid_args) = 292" "gm_cyc_steps (tron_build grid_args) = 1168"
  "gm_total (tron_build grid_args) = 1168 / 26" "gm_speed (tron_build grid_args) = 26" "gm_gh (tron_build grid_args) = 32"
  "gm_gw (tron_build grid_args) = 160"
  by code_simp+

theorem rounds_end_empty_witness:
  "let e = tron_build grid_args; a = tr_arena (fold (tron_frame e (\<lambda>_. quiet)) ([3, 1] @ [583 / 26]) (tron_new e))
   in riders_up e a = [] \<and> list_all (\<lambda>c. c = 0) (ar_owner a)"
proof -
  have "target_step (tron_build grid_args) (583 / 26) = 583"
    by (simp add: target_step_def grid_steps fmod_id)
  then show ?thesis by (intro rounds_end_empty) (simp add: grid_steps)
qed

end
