(* ===== verification/FT_Ribbons.thy ===== *)
theory FT_Ribbons
  imports FT_Arena
begin

text \<open>
  What the board of \<open>tron.py\<close> shows: on a board with room for the spawns, the cells owned by a rider
  are exactly the part of its path that has not dissolved, and the path is a chain of neighbouring
  cells without repetition. Then how riders come to derezz, and that a frame depends on its time only.
\<close>

section \<open>Ways that are free\<close>

lemma choose_way_free:
  assumes "choose_way e ch a i g = Some d"
  shows "\<exists>turn. fst (way a i turn) = d \<and> \<not> blocked e a (fst (snd (way a i turn))) (snd (snd (way a i turn)))"
proof -
  have "case snd (fold (\<lambda>turn (best, best_d).
                  let (d, ny, nx) = way a i turn
                  in if blocked e a ny nx then (best, best_d)
                     else if best < turn_score e ch a i g turn then (turn_score e ch a i g turn, Some d)
                     else (best, best_d)) [0, -1, 1] (- (10 ^ 18), None)) of None \<Rightarrow> True
    | Some d \<Rightarrow> \<exists>turn. fst (way a i turn) = d \<and> \<not> blocked e a (fst (snd (way a i turn))) (snd (snd (way a i turn)))"
    (is "?P (snd (fold ?f ?xs ?st))")
    by (rule fold_keeps [where P = "\<lambda>st. ?P (snd st)"]) (auto simp: Let_def case_prod_beta split: option.splits)
  then show ?thesis using assms unfolding choose_way_def by simp
qed

lemma way_eq:
  "way a i turn = (let d = (rd_d (ar_riders a ! i) + turn) mod 4
     in (d, rd_y (ar_riders a ! i) + fst (DIRS4 ! nat d), rd_x (ar_riders a ! i) + snd (DIRS4 ! nat d)))"
  by (simp add: way_def Let_def case_prod_beta)

lemma choose_way_Some:
  assumes "choose_way e ch a i g = Some d"
  shows "0 \<le> d \<and> d < 4"
    and "\<not> blocked e a (rd_y (ar_riders a ! i) + fst (DIRS4 ! nat d)) (rd_x (ar_riders a ! i) + snd (DIRS4 ! nat d))"
  using choose_way_free [OF assms] by (auto simp: way_eq Let_def)

section \<open>Cells and chains\<close>

definition next_to :: "game \<Rightarrow> int \<Rightarrow> int \<Rightarrow> bool" where
  "next_to e p q \<longleftrightarrow>
     \<bar>p div int (gm_gw e) - q div int (gm_gw e)\<bar> + \<bar>p mod int (gm_gw e) - q mod int (gm_gw e)\<bar> = 1"

lemma cell_no_inside:
  assumes "inside (gm_gh e) (gm_gw e) (y, x)"
  shows "0 \<le> cell_no e y x" and "cell_no e y x < int (gm_gh e * gm_gw e)"
    and "cell_no e y x div int (gm_gw e) = y" and "cell_no e y x mod int (gm_gw e) = x"
proof -
  have b: "0 \<le> y" "y + 1 \<le> int (gm_gh e)" "0 \<le> x" "x < int (gm_gw e)" using assms by (auto simp: inside_def)
  then show "0 \<le> cell_no e y x" by (simp add: cell_no_def)
  have "(y + 1) * int (gm_gw e) \<le> int (gm_gh e) * int (gm_gw e)" using b(2) by (rule mult_right_mono) simp
  then show "cell_no e y x < int (gm_gh e * gm_gw e)" using b(4) by (simp add: cell_no_def distrib_right)
  show "cell_no e y x div int (gm_gw e) = y" "cell_no e y x mod int (gm_gw e) = x"
    using b by (simp_all add: cell_no_def)
qed

lemma slot_of: "0 \<le> k \<Longrightarrow> k < int (gm_gh e * gm_gw e) \<Longrightarrow> slot e k = nat k"
  by (simp add: slot_def)

lemma next_cell:
  assumes "inside (gm_gh e) (gm_gw e) (y, x)" "0 \<le> d" "d < 4"
    "inside (gm_gh e) (gm_gw e) (y + fst (DIRS4 ! nat d), x + snd (DIRS4 ! nat d))"
  shows "next_to e (cell_no e y x) (cell_no e (y + fst (DIRS4 ! nat d)) (x + snd (DIRS4 ! nat d)))"
proof -
  have "d \<in> {0, 1, 2, 3}" using assms(2,3) by auto
  then show ?thesis
    unfolding next_to_def cell_no_inside(3,4) [OF assms(1)] cell_no_inside(3,4) [OF assms(4)]
    by (auto simp: DIRS4_def)
qed

text \<open>Rider \<open>i\<close>'s path, and that the board shows all of it that has not dissolved.\<close>

definition path_exact :: "game \<Rightarrow> nat list \<Rightarrow> nat \<Rightarrow> rider \<Rightarrow> bool" where
  "path_exact e own i r \<longleftrightarrow>
     rd_path r \<noteq> [] \<and> last (rd_path r) = cell_no e (rd_y r) (rd_x r) \<and> inside (gm_gh e) (gm_gw e) (rd_y r, rd_x r)
     \<and> distinct (rd_path r) \<and> successively (next_to e) (rd_path r)
     \<and> (\<forall>p \<in> set (rd_path r). 0 \<le> p \<and> p < int (gm_gh e * gm_gw e))
     \<and> (\<forall>p \<in> set (drop (rd_cut r) (rd_path r)). own ! nat p = i + 1)
     \<and> (rd_moving r \<longrightarrow> rd_cut r = 0) \<and> 0 \<le> rd_d r \<and> rd_d r < 4"

definition exact :: "game \<Rightarrow> nat \<Rightarrow> arena \<Rightarrow> bool" where
  "exact e m a \<longleftrightarrow> length (ar_riders a) = gm_nrid e \<and> length (ar_owner a) = gm_gh e * gm_gw e
     \<and> (\<forall>i < m. path_exact e (ar_owner a) i (ar_riders a ! i))"

lemma exact_upd_rider:
  assumes "exact e m a" "m \<le> gm_nrid e" "i < gm_nrid e"
    "\<And>own. path_exact e own i (ar_riders a ! i) \<Longrightarrow> path_exact e own i (f (ar_riders a ! i))"
  shows "exact e m (upd_rider i f a)"
  using assms by (auto simp: exact_def nth_list_update)

lemma exact_burst: "exact e m a \<Longrightarrow> m \<le> gm_nrid e \<Longrightarrow> i < gm_nrid e \<Longrightarrow> exact e m (burst e i a)"
  unfolding burst_def by (rule exact_upd_rider) (simp_all add: path_exact_def)

lemma exact_retire: "exact e m a \<Longrightarrow> m \<le> gm_nrid e \<Longrightarrow> i < gm_nrid e \<Longrightarrow> exact e m (retire_rider i a)"
  unfolding retire_rider_def by (rule exact_upd_rider) (simp_all add: path_exact_def)

text \<open>Other riders' paths survive a write to cells that they do not own.\<close>

lemma path_exact_put:
  assumes "path_exact e own j r" "length own = gm_gh e * gm_gw e"
    "\<forall>p \<in> set ks. 0 \<le> p \<and> p < int (gm_gh e * gm_gw e) \<and> own ! nat p \<noteq> j + 1"
  shows "path_exact e (put e ks v own) j r"
proof -
  have "put e ks v own ! nat p = j + 1" if p: "p \<in> set (drop (rd_cut r) (rd_path r))" for p
  proof -
    have b: "0 \<le> p" "p < int (gm_gh e * gm_gw e)" "own ! nat p = j + 1"
      using assms(1) p in_set_dropD [OF p] by (auto simp: path_exact_def)
    then have "nat p \<notin> slot e ` set ks" using assms(3) by (auto simp: slot_of)
    then show ?thesis using b assms(2) by (simp add: put_nth nat_less_iff)
  qed
  then show ?thesis using assms(1) by (simp add: path_exact_def)
qed

lemma exact_move:
  assumes "exact e m a" "m \<le> gm_nrid e" "i < m" "rd_moving (ar_riders a ! i)" "0 \<le> d" "d < 4"
    "int (length (rd_path (ar_riders a ! i))) < gm_path_max e"
    and free: "\<not> blocked e a (rd_y (ar_riders a ! i) + fst (DIRS4 ! nat d)) (rd_x (ar_riders a ! i) + snd (DIRS4 ! nat d))"
  shows "exact e m (lay_cell e i (upd_rider i (\<lambda>r. r\<lparr>rd_straight := n r, rd_d := d,
      rd_y := rd_y r + fst (DIRS4 ! nat d), rd_x := rd_x r + snd (DIRS4 ! nat d)\<rparr>) a))" (is "exact e m (lay_cell e i ?a)")
proof -
  let ?r = "ar_riders a ! i"
  define y x where "y = rd_y ?r + fst (DIRS4 ! nat d)" and "x = rd_x ?r + snd (DIRS4 ! nat d)"
  define k where "k = cell_no e y x"
  let ?own = "put e [k] (i + 1) (ar_owner a)" and ?q = "?r\<lparr>rd_straight := n ?r, rd_d := d, rd_y := y, rd_x := x, rd_path := rd_path ?r @ [k]\<rparr>"
  have len: "length (ar_riders a) = gm_nrid e" "length (ar_owner a) = gm_gh e * gm_gw e" "i < length (ar_riders a)"
    using assms(1-3) by (auto simp: exact_def)
  have r: "path_exact e (ar_owner a) i ?r" using assms(1,3) by (simp add: exact_def)
  then have cut: "rd_cut ?r = 0" using assms(4) by (simp add: path_exact_def)
  have ins: "inside (gm_gh e) (gm_gw e) (y, x)" using free by (simp add: blocked_def y_def x_def)
  note k = cell_no_inside(1,2) [OF ins, folded k_def]
  have zero: "ar_owner a ! nat k = 0"
    using free slot_of [OF k] by (simp add: blocked_def owner_at_def k_def y_def x_def)
  have "k \<notin> set (rd_path ?r)" using r cut zero by (auto simp: path_exact_def)
  moreover have "next_to e (cell_no e (rd_y ?r) (rd_x ?r)) k"
    unfolding k_def y_def x_def using r assms(5,6) ins by (intro next_cell) (auto simp: path_exact_def y_def x_def)
  moreover have "?own ! nat k = i + 1" using k len(2) by (simp add: put_def slot_of nat_less_iff)
  moreover have "?own ! nat p = i + 1" if "p \<in> set (rd_path ?r)" for p
    using that path_exact_put [OF r len(2), of "[k]" "i + 1"] r cut zero k by (auto simp: path_exact_def)
  ultimately have "path_exact e ?own i ?q"
    using r cut ins k assms(5,6) by (auto simp: path_exact_def successively_append_iff k_def)
  moreover have "path_exact e ?own j (ar_riders a ! j)" if "j < m" for j
    using assms(1) that k zero by (intro path_exact_put) (auto simp: exact_def)
  moreover have "ar_riders (lay_cell e i ?a) = (ar_riders a)[i := ?q]"
    using len(3) assms(7) by (simp add: riders_lay_cell k_def y_def x_def)
  moreover have "ar_owner (lay_cell e i ?a) = ?own" using len(3) by (simp add: k_def y_def x_def)
  ultimately show ?thesis using len assms(1) by (simp add: exact_def nth_list_update)
qed

section \<open>Every operation keeps the board exact\<close>

lemma exact_ride:
  assumes "exact e m a" "m \<le> gm_nrid e" "i < m" "int (length (rd_path (ar_riders a ! i))) < gm_path_max e"
  shows "exact e m (ride e ch g i a)"
proof -
  let ?r = "ar_riders a ! i"
  have "0 \<le> rd_d ?r \<and> rd_d ?r < 4" using assms(1,3) by (simp add: exact_def path_exact_def)
  then show ?thesis
    unfolding ride_def Let_def case_prod_beta
    using assms exact_burst [OF assms(1,2)] exact_move [OF assms(1-3) _ _ _ assms(4)] choose_way_Some [of e ch a i g]
    by (auto split: option.split)
qed

lemma exact_rides:
  assumes "exact e (gm_nrid e) a" "kept e R l 0 a" "game_ok e" "l < gm_path_max e"
  shows "exact e (gm_nrid e) (fold (ride e ch g) [0..<gm_nrid e] a)"
proof -
  let ?P = "\<lambda>i b. exact e (gm_nrid e) b \<and> kept e R l i b"
  have "?P (gm_nrid e) (fold (ride e ch g) [0..<gm_nrid e] a)"
  proof (rule fold_upto [where P = ?P])
    fix i b assume i: "i < gm_nrid e" and P: "?P i b"
    then have "rider_ok e R l (ar_riders b ! i)" unfolding kept_def by (metis less_irrefl)
    then have "int (length (rd_path (ar_riders b ! i))) < gm_path_max e" using assms(4) by (simp add: rider_ok_def)
    then show "?P (Suc i) (ride e ch g i b)" using P i assms(3,4) exact_ride [of e "gm_nrid e" b i] kept_ride by blast
  qed (use assms in simp)
  then show ?thesis ..
qed

lemma exact_fold:
  "exact e m a \<Longrightarrow> (\<And>i b. i \<in> set is \<Longrightarrow> exact e m b \<Longrightarrow> exact e m (f i b)) \<Longrightarrow> exact e m (fold f is a)"
  by (induction "is" arbitrary: a) simp_all

lemma worst_way_d:
  assumes "0 \<le> rd_d (ar_riders a ! hd up)" "rd_d (ar_riders a ! hd up) < 4"
  shows "0 \<le> snd (snd (worst_way e a up)) \<and> snd (snd (worst_way e a up)) < 4"
  unfolding worst_way_def
  by (rule fold_keeps [where P = "\<lambda>st. 0 \<le> snd (snd st) \<and> snd (snd st) < 4"])
    (use assms in \<open>auto simp: way_eq Let_def\<close>)

lemma exact_deadline:
  assumes "exact e (gm_nrid e) a"
  shows "exact e (gm_nrid e) (snd (deadline e a))"
proof -
  have up: "i < gm_nrid e" if "i \<in> set (riders_up e a)" for i using that by (rule riders_up_less)
  then have drop: "i < gm_nrid e" if "i \<in> set (drop n (riders_up e a))" for i n using that in_set_dropD by fast
  have "exact e (gm_nrid e) (upd_rider (fst (snd (worst_way e a (riders_up e a)))) (\<lambda>r. r\<lparr>rd_doomed := True, rd_d := snd (snd (worst_way e a (riders_up e a)))\<rparr>) a)"
    if "1 < length (riders_up e a)"
  proof -
    have ne: "riders_up e a \<noteq> []" using that by auto
    have d: "0 \<le> rd_d (ar_riders a ! hd (riders_up e a))" "rd_d (ar_riders a ! hd (riders_up e a)) < 4"
      using assms up [OF hd_in_set [OF ne]] by (auto simp: exact_def path_exact_def)
    show ?thesis
      using assms up [OF worst_way_in [OF ne, of e a]] worst_way_d [OF d, of e]
      by (intro exact_upd_rider) (auto simp: path_exact_def)
  qed
  then show ?thesis
    unfolding deadline_def Let_def case_prod_beta
    by (auto simp: assms intro!: exact_fold exact_burst dest: drop)
qed

lemma exact_clocks [simp]: "exact e m (a\<lparr>ar_step := s\<rparr>) = exact e m a" "exact e m (a\<lparr>ar_phase := p\<rparr>) = exact e m a"
  "exact e m (a\<lparr>ar_phase := p, ar_phase_end := q\<rparr>) = exact e m a" "exact e m (a\<lparr>ar_end_at := s\<rparr>) = exact e m a"
  by (simp_all add: exact_def)

lemma exact_race_step:
  assumes "exact e (gm_nrid e) a" "kept e R l 0 a" "game_ok e" "l < gm_path_max e"
  shows "exact e (gm_nrid e) (race_step e ch a)"
proof -
  have "exact e (gm_nrid e) (close_race e b)" if "exact e (gm_nrid e) b" for b
    using that by (auto simp: close_race_def intro!: exact_fold exact_retire dest: riders_up_less)
  then show ?thesis
    using exact_deadline [OF exact_rides [OF assms]] by (simp add: race_step_def case_prod_beta decide_end_def Let_def)
qed

lemma exact_dissolve:
  assumes "exact e (gm_nrid e) a" "i < gm_nrid e" "0 < gm_decay e"
    "rd_cut (ar_riders a ! i) \<le> length (rd_path (ar_riders a ! i))" "rd_moving (ar_riders a ! i) \<Longrightarrow> rd_erase_at (ar_riders a ! i) < 0"
  shows "exact e (gm_nrid e) (dissolve e i a)"
proof -
  let ?r = "ar_riders a ! i"
  define c where "c = new_cut e (ar_step a) ?r"
  define gone where "gone = take (c - rd_cut ?r) (drop (rd_cut ?r) (rd_path ?r))"
  have len: "length (ar_riders a) = gm_nrid e" "length (ar_owner a) = gm_gh e * gm_gw e" using assms(1) by (auto simp: exact_def)
  have r: "path_exact e (ar_owner a) i ?r" using assms(1,2) by (simp add: exact_def)
  have split: "drop (rd_cut ?r) (rd_path ?r) = gone @ drop c (rd_path ?r)"
    using new_cut_range(1) [OF assms(4,3), of "ar_step a"] append_take_drop_id [of "c - rd_cut ?r" "drop (rd_cut ?r) (rd_path ?r)"]
    by (simp add: gone_def c_def)
  then have "set gone \<subseteq> set (rd_path ?r)" by (metis set_append set_drop_subset sup.boundedE)
  then have g: "\<forall>p \<in> set gone. 0 \<le> p \<and> p < int (gm_gh e * gm_gw e) \<and> ar_owner a ! nat p = i + 1"
    using r split by (auto simp: path_exact_def)
  have moving: "rd_moving ?r \<longrightarrow> c = 0"
    using assms(5) r by (auto simp: c_def new_cut_def path_exact_def)
  have "distinct (gone @ drop c (rd_path ?r))" using r split by (metis distinct_drop path_exact_def)
  then have apart: "p \<notin> set gone" if "p \<in> set (drop c (rd_path ?r))" for p using that by auto
  have i: "path_exact e (put e gone 0 (ar_owner a)) i (?r\<lparr>rd_cut := c\<rparr>)"
  proof -
    have "put e gone 0 (ar_owner a) ! nat p = i + 1" if p: "p \<in> set (drop c (rd_path ?r))" for p
    proof -
      have b: "0 \<le> p" "p < int (gm_gh e * gm_gw e)" "ar_owner a ! nat p = i + 1"
        using r p in_set_dropD [OF p] split by (auto simp: path_exact_def)
      moreover have "nat p \<notin> slot e ` set gone" using apart [OF p] g b(1) by (auto simp: slot_of eq_nat_nat_iff)
      ultimately show ?thesis using len by (simp add: put_nth nat_less_iff)
    qed
    then show ?thesis using r moving by (simp add: path_exact_def)
  qed
  have "path_exact e (put e gone 0 (ar_owner a)) j (ar_riders a ! j)" if "j < gm_nrid e" "j \<noteq> i" for j
    using assms(1) that g len by (intro path_exact_put) (auto simp: exact_def)
  then show ?thesis
    using i len assms(2) by (simp add: exact_def riders_dissolve owner_dissolve c_def [symmetric] gone_def [symmetric] nth_list_update)
qed

lemma exact_dissolves:
  assumes "exact e (gm_nrid e) a" "ribbons_ok e R l a" "0 < gm_decay e"
  shows "exact e (gm_nrid e) (fold (dissolve e) [0..<gm_nrid e] a)"
proof -
  let ?P = "\<lambda>i b. exact e (gm_nrid e) b \<and> ribbons_ok e R l b \<and> (\<forall>j < i. gone_by e (ar_step b) (ar_riders b ! j))"
  have "?P (gm_nrid e) (fold (dissolve e) [0..<gm_nrid e] a)"
  proof (rule fold_upto [where P = ?P])
    fix i b assume i: "i < gm_nrid e" and P: "?P i b"
    have "exact e (gm_nrid e) (dissolve e i b)"
      using P i assms(3) by (intro exact_dissolve) (auto simp: ribbons_ok_def rider_ok_def split: if_splits)
    then show "?P (Suc i) (dissolve e i b)"
      using P i dissolve_keeps [of e R l b i] assms(3) step_of_clocks [OF clocks_dissolve, of e i b] by auto
  qed (use assms in simp)
  then show ?thesis by blast
qed

section \<open>Spawning apart\<close>

lemma clip_floor:
  fixes v :: rat
  assumes "1 \<le> m"
  shows "1 \<le> \<lfloor>np_clip v 1 m\<rfloor>" and "\<lfloor>np_clip v 1 m\<rfloor> \<le> m"
    and "1 \<le> w \<Longrightarrow> v \<le> w \<Longrightarrow> of_int \<lfloor>np_clip v 1 m\<rfloor> \<le> w"
    and "w + 1 \<le> v \<Longrightarrow> w + 1 \<le> of_int m \<Longrightarrow> w < of_int \<lfloor>np_clip v 1 m\<rfloor>"
proof -
  have m: "(1 :: rat) \<le> of_int m" using assms by simp
  show "1 \<le> \<lfloor>np_clip v 1 m\<rfloor>" using m by (simp add: np_clip_def le_floor_iff)
  show "\<lfloor>np_clip v 1 m\<rfloor> \<le> m" by (simp add: np_clip_def floor_le_iff min_less_iff_disj)
  have f: "of_int \<lfloor>np_clip v 1 m\<rfloor> \<le> np_clip v 1 m" "np_clip v 1 m - 1 < of_int \<lfloor>np_clip v 1 m\<rfloor>" by linarith+
  show "1 \<le> w \<Longrightarrow> v \<le> w \<Longrightarrow> of_int \<lfloor>np_clip v 1 m\<rfloor> \<le> w"
    using order_trans [OF f(1), of w] by (simp add: np_clip_def min_le_iff_disj)
  show "w + 1 \<le> v \<Longrightarrow> w + 1 \<le> of_int m \<Longrightarrow> w < of_int \<lfloor>np_clip v 1 m\<rfloor>"
    using f(2) by (simp add: np_clip_def min_def max_def split: if_splits)
qed

definition roomy :: "game \<Rightarrow> bool" where
  "roomy e \<longleftrightarrow> 12 \<le> gm_gh e \<and> 12 \<le> gm_gw e"

lemma spawn_inside:
  assumes "roomy e"
  shows "inside (gm_gh e) (gm_gw e) (spawn_at e ch s i)"
proof -
  have "1 \<le> int (gm_gh e) - 2" "1 \<le> int (gm_gw e) - 2" using assms by (auto simp: roomy_def)
  note clip_floor(1,2) [OF this(1)] clip_floor(1,2) [OF this(2)]
  then show ?thesis
    unfolding spawn_at_def Let_def case_prod_beta inside_def
    by (smt (verit) fst_conv snd_conv)
qed

lemma jitter: "(0 :: rat) \<le> of_nat (n mod 5)" "(of_nat (n mod 5) :: rat) \<le> 4" "(0 :: rat) \<le> of_nat (n mod 7)" "(of_nat (n mod 7) :: rat) \<le> 6"
proof -
  have "n mod 5 \<le> 4" "n mod 7 \<le> 6" by linarith+
  then show "(of_nat (n mod 5) :: rat) \<le> 4" "(of_nat (n mod 7) :: rat) \<le> 6"
    using of_nat_mono [of "n mod 5" 4] of_nat_mono [of "n mod 7" 6] by simp_all
qed simp_all

lemma spawn_apart:
  assumes "roomy e"
  shows "snd (spawn_at e ch s 0) < snd (spawn_at e ch s 1)" "snd (spawn_at e ch s 0) < snd (spawn_at e ch s 3)"
    "snd (spawn_at e ch s 2) < snd (spawn_at e ch s 1)" "snd (spawn_at e ch s 2) < snd (spawn_at e ch s 3)"
    "fst (spawn_at e ch s 0) < fst (spawn_at e ch s 2)" "fst (spawn_at e ch s 3) < fst (spawn_at e ch s 1)"
proof -
  have m: "1 \<le> int (gm_gh e) - 2" "1 \<le> int (gm_gw e) - 2"
    and r: "(12 :: rat) \<le> of_nat (gm_gh e)" "(12 :: rat) \<le> of_nat (gm_gw e)" using assms by (auto simp: roomy_def)
  have less: "a < b" if "of_int a \<le> w" "w < of_int b" for a b and w :: rat
    using that by (metis less_le_trans le_less_trans of_int_less_iff)
  let ?w = "18 / 100 * of_nat (gm_gw e) + 3 :: rat"
  have left: "of_int (snd (spawn_at e ch s i)) \<le> ?w" if "i = 0 \<or> i = 2" for i
    using that r clip_floor(3) [OF m(2), of ?w "18 / 100 * of_nat (gm_gw e) + (of_nat (ch_spawn_x ch s i mod 7) - 3)"] jitter(4) [of "ch_spawn_x ch s i"]
    by (auto simp: spawn_at_def SPAWNS_def)
  have right: "?w < of_int (snd (spawn_at e ch s i))" if "i = 1 \<or> i = 3" for i
    using that r clip_floor(4) [OF m(2), of ?w "82 / 100 * of_nat (gm_gw e) + (of_nat (ch_spawn_x ch s i mod 7) - 3)"] jitter(3) [of "ch_spawn_x ch s i"]
    by (auto simp: spawn_at_def SPAWNS_def)
  show "snd (spawn_at e ch s 0) < snd (spawn_at e ch s 1)" "snd (spawn_at e ch s 0) < snd (spawn_at e ch s 3)"
    "snd (spawn_at e ch s 2) < snd (spawn_at e ch s 1)" "snd (spawn_at e ch s 2) < snd (spawn_at e ch s 3)"
    by (rule less [OF left right]; simp)+
  have "of_int (fst (spawn_at e ch s 0)) \<le> (30 / 100 * of_nat (gm_gh e) + 2 :: rat)"
    using r clip_floor(3) [OF m(1), of "30 / 100 * of_nat (gm_gh e) + 2" "30 / 100 * of_nat (gm_gh e) + (of_nat (ch_spawn_y ch s 0 mod 5) - 2)"]
      jitter(2) [of "ch_spawn_y ch s 0"] by (simp add: spawn_at_def SPAWNS_def)
  moreover have "(30 / 100 * of_nat (gm_gh e) + 2 :: rat) < of_int (fst (spawn_at e ch s 2))"
    using r clip_floor(4) [OF m(1), of "30 / 100 * of_nat (gm_gh e) + 2" "72 / 100 * of_nat (gm_gh e) + (of_nat (ch_spawn_y ch s 2 mod 5) - 2)"]
      jitter(1) [of "ch_spawn_y ch s 2"] by (simp add: spawn_at_def SPAWNS_def)
  ultimately show "fst (spawn_at e ch s 0) < fst (spawn_at e ch s 2)" by (rule less)
  have "of_int (fst (spawn_at e ch s 3)) \<le> (28 / 100 * of_nat (gm_gh e) + 2 :: rat)"
    using r clip_floor(3) [OF m(1), of "28 / 100 * of_nat (gm_gh e) + 2" "28 / 100 * of_nat (gm_gh e) + (of_nat (ch_spawn_y ch s 3 mod 5) - 2)"]
      jitter(2) [of "ch_spawn_y ch s 3"] by (simp add: spawn_at_def SPAWNS_def)
  moreover have "(28 / 100 * of_nat (gm_gh e) + 2 :: rat) < of_int (fst (spawn_at e ch s 1))"
    using r clip_floor(4) [OF m(1), of "28 / 100 * of_nat (gm_gh e) + 2" "70 / 100 * of_nat (gm_gh e) + (of_nat (ch_spawn_y ch s 1 mod 5) - 2)"]
      jitter(1) [of "ch_spawn_y ch s 1"] by (simp add: spawn_at_def SPAWNS_def)
  ultimately show "fst (spawn_at e ch s 3) < fst (spawn_at e ch s 1)" by (rule less)
qed

lemma spawns_differ:
  assumes "roomy e" "i < 4" "j < 4" "i \<noteq> j"
  shows "spawn_at e ch s i \<noteq> spawn_at e ch s j"
proof -
  have "i \<in> {0, 1, 2, 3}" "j \<in> {0, 1, 2, 3}" using assms(2,3) by auto
  then show ?thesis using assms(4) spawn_apart [OF assms(1), of ch s] by auto
qed


lemma exact_spawn:
  assumes "exact e i a" "roomy e" "i < gm_nrid e" "game_ok e" "\<forall>j < i. ar_riders a ! j = spawned e ch (ar_step a) j"
  shows "exact e (Suc i) (spawn e ch i a)"
proof -
  let ?s = "ar_step a"
  let ?k = "\<lambda>j. cell_no e (fst (spawn_at e ch ?s j)) (snd (spawn_at e ch ?s j))"
  have g: "0 < gm_path_max e" "gm_nrid e \<le> 4" using assms(4) by (auto simp: game_ok_def fuse_def)
  have len: "length (ar_riders a) = gm_nrid e" "length (ar_owner a) = gm_gh e * gm_gw e" using assms(1) by (auto simp: exact_def)
  have ins: "inside (gm_gh e) (gm_gw e) (fst (spawn_at e ch ?s j), snd (spawn_at e ch ?s j))" for j
    using spawn_inside [OF assms(2), of ch ?s j] by simp
  note k = cell_no_inside [OF ins]
  have own: "ar_owner (spawn e ch i a) = put e [?k i] (i + 1) (ar_owner a)"
    using assms(3) len(1) by (simp add: spawn_def)
  have "put e [?k i] (i + 1) (ar_owner a) ! nat (?k i) = i + 1"
    using k(1,2) [of i] len(2) by (simp add: put_nth slot_of nat_less_iff)
  moreover have "0 \<le> snd (snd (SPAWNS ! i)) \<and> snd (snd (SPAWNS ! i)) < 4"
  proof -
    have "i \<in> {0, 1, 2, 3}" using assms(3) g(2) by auto
    then show ?thesis by (auto simp: SPAWNS_def)
  qed
  ultimately have new: "path_exact e (ar_owner (spawn e ch i a)) i (spawned e ch ?s i)"
    using ins k(1,2) by (simp add: path_exact_def spawned_def case_prod_beta Let_def own)
  have old: "path_exact e (ar_owner (spawn e ch i a)) j (ar_riders a ! j)" if j: "j < i" for j
  proof -
    have "spawn_at e ch ?s i \<noteq> spawn_at e ch ?s j"
      using j assms(2,3) g(2) by (intro spawns_differ) auto
    then have "?k i \<noteq> ?k j" using k(3,4) [of i] k(3,4) [of j] by (metis prod.collapse)
    moreover have "path_exact e (ar_owner a) j (ar_riders a ! j)" using assms(1) j by (simp add: exact_def)
    moreover have "ar_riders a ! j = spawned e ch ?s j" using assms(5) j by simp
    ultimately show ?thesis
      using k(1,2) [of i] k(1,2) [of j] len(2) unfolding own
      by (simp add: path_exact_def spawned_def case_prod_beta Let_def put_nth slot_of nat_less_iff eq_nat_nat_iff)
  qed
  have "ar_riders (spawn e ch i a) = (ar_riders a)[i := spawned e ch ?s i]"
    using assms(3) len(1) g(1) by (intro riders_spawn) auto
  moreover have "length (ar_owner (spawn e ch i a)) = length (ar_owner a)" by (simp add: own)
  ultimately show ?thesis using new old len assms(3) by (simp add: exact_def nth_list_update less_Suc_eq)
qed

lemma exact_start:
  assumes "roomy e" "game_ok e" "length (ar_riders a) = gm_nrid e"
  shows "exact e (gm_nrid e) (start_round e ch a)"
proof -
  let ?P = "\<lambda>i b. exact e i b \<and> ar_step b = ar_step a \<and> (\<forall>j < i. ar_riders b ! j = spawned e ch (ar_step a) j)"
  have g: "0 < gm_path_max e" using assms(2) by (auto simp: game_ok_def fuse_def)
  have "?P (gm_nrid e) (start_round e ch a)"
    unfolding start_round_def
  proof (rule fold_upto [where P = ?P])
    fix i b assume i: "i < gm_nrid e" and P: "?P i b"
    then have "ar_riders (spawn e ch i b) = (ar_riders b)[i := spawned e ch (ar_step b) i]"
      using g by (intro riders_spawn) (auto simp: exact_def)
    then show "?P (Suc i) (spawn e ch i b)"
      using P i exact_spawn [of e i b ch] assms(1,2) step_of_clocks [OF clocks_spawn, of e ch i b]
      by (auto simp: less_Suc_eq exact_def)
  qed (use assms(3) in \<open>simp add: exact_def\<close>)
  then show ?thesis by blast
qed

section \<open>Every frame\<close>

definition board_exact :: "game \<Rightarrow> arena \<Rightarrow> bool" where
  "board_exact e a \<longleftrightarrow> ready e a \<and> (0 \<le> ar_step a \<longrightarrow> exact e (gm_nrid e) a)"

lemma exact_advance:
  assumes "roomy e" "game_ok e" "board_exact e a"
  shows "exact e (gm_nrid e) (advance e ch a)"
proof -
  let ?b = "a\<lparr>ar_step := ar_step a + 1\<rparr>"
  have r: "ready e a" "length (ar_riders a) = gm_nrid e" using assms(3) by (auto simp: board_exact_def ready_def)
  show ?thesis
  proof (cases "(ar_step a + 1) mod gm_spr e = 0")
    case True
    then show ?thesis using exact_start [OF assms(1,2), of ?b ch] r(2) by (simp add: advance_def)
  next
    case False
    then have ok: "arena_ok e a" "0 \<le> ar_step a" "exact e (gm_nrid e) a"
      using r(1) assms(3) by (auto simp: ready_def board_exact_def arena_ok_def deadline_ok_def)
    let ?R = "ar_race_at a" and ?l = "ar_step a - ar_race_at a + 1"
    have g: "0 < gm_decay e" using assms(2) by (simp add: game_ok_def)
    have rib: "ribbons_ok e ?R (min (ar_step a) (last_move e ?R) - ?R + 1) a" using ok(1) by (simp add: arena_ok_def)
    show ?thesis
    proof (cases "ar_phase a = 0")
      case race: True
      note k = race_kept [OF assms(2) ok(1) race]
      note R = race_step_of [OF assms(2) ok(1) race, of ch]
      have "exact e (gm_nrid e) (race_step e ch ?b)"
        using k ok(3) by (intro exact_race_step assms(2)) simp_all
      moreover have "ribbons_ok e ?R (?l + 1) (race_step e ch ?b)" using ribbons_of_kept [OF R(1)] by simp
      ultimately show ?thesis using False race g by (simp add: advance_def exact_dissolves)
    next
      case rest: False
      have "exact e (gm_nrid e) (fold (dissolve e) [0..<gm_nrid e] c)" if "c \<in> {?b, ?b\<lparr>ar_phase := 2\<rparr>}" for c
        using that ok(3) rib g by (intro exact_dissolves) auto
      then show ?thesis using False rest by (auto simp: advance_def Let_def)
    qed
  qed
qed

lemma board_exact_frame:
  assumes "roomy e" "game_ok e" "board_exact e (tr_arena st)"
  shows "board_exact e (tr_arena (tron_frame e seeds t st))"
proof -
  have "board_exact e (catch_up e ch target b)" if "board_exact e b" for ch target b
    using that
  proof (rule catch_up_keeps)
    show "board_exact e (advance e ch c)" if c: "board_exact e c" for c
      using arena_ready [OF advance_ok [OF assms(2)], of c ch] exact_advance [OF assms(1,2) c, of ch] c
      by (simp add: board_exact_def)
  qed
  moreover have "board_exact e (reset_arena e (tr_arena st))"
    using assms(3) ready_reset [of "tr_arena st" e] by (simp add: board_exact_def ready_def) (simp add: reset_arena_def)
  ultimately show ?thesis using assms(3) by (simp add: tron_frame_def Let_def)
qed

lemma board_exact_frames:
  assumes "roomy e" "game_ok e"
  shows "board_exact e (tr_arena (fold (tron_frame e seeds) ts (tron_new e)))"
  by (rule fold_keeps [where P = "\<lambda>st. board_exact e (tr_arena st)"])
    (simp_all add: board_exact_frame assms, simp add: tron_new_def new_arena_def board_exact_def ready_def)

text \<open>
  C10. The board is the paths, and nothing else. On a board of at least twelve rows and columns,
  whatever the frames and the random numbers, the cells owned by a rider are exactly the part of its
  path that has not dissolved; the path visits no cell twice, goes from cell to neighbouring cell and
  ends under the rider. In particular no rider ever crosses a ribbon, its own included.
\<close>

theorem ribbons_are_exact:
  assumes "12 \<le> gm_gh (tron_build ag)" "12 \<le> gm_gw (tron_build ag)" "i < gm_nrid (tron_build ag)"
    "k < gm_gh (tron_build ag) * gm_gw (tron_build ag)"
  shows "let e = tron_build ag; a = tr_arena (fold (tron_frame e seeds) (ts @ [t]) (tron_new e)); r = ar_riders a ! i
    in (ar_owner a ! k = i + 1 \<longleftrightarrow> int k \<in> set (drop (rd_cut r) (rd_path r)))
      \<and> distinct (rd_path r) \<and> successively (next_to e) (rd_path r) \<and> last (rd_path r) = cell_no e (rd_y r) (rd_x r)"
proof -
  let ?e = "tron_build ag"
  define a where "a = tr_arena (fold (tron_frame ?e seeds) (ts @ [t]) (tron_new ?e))"
  let ?r = "ar_riders a ! i"
  have ok: "arena_ok ?e a" unfolding a_def by (rule frame_ok [OF tron_build_ok])
  have "roomy ?e" using assms(1,2) by (simp add: roomy_def)
  then have "board_exact ?e a" unfolding a_def by (intro board_exact_frames tron_build_ok)
  then have ex: "exact ?e (gm_nrid ?e) a" using ok by (auto simp: board_exact_def arena_ok_def deadline_ok_def)
  then have p: "path_exact ?e (ar_owner a) i ?r" "k < length (ar_owner a)" using assms(3,4) by (auto simp: exact_def)
  have "int k \<in> set (drop (rd_cut ?r) (rd_path ?r))" if "ar_owner a ! k = i + 1"
  proof -
    have "k \<in> ribbon ?e ?r" using ok p(2) that by (force simp: arena_ok_def ribbons_ok_def owned_def)
    then obtain q where q: "q \<in> set (drop (rd_cut ?r) (rd_path ?r))" "k = slot ?e q" by (auto simp: ribbon_def)
    then have "0 \<le> q" "q < int (gm_gh ?e * gm_gw ?e)" using p(1) in_set_dropD [OF q(1)] by (auto simp: path_exact_def)
    then show ?thesis using q by (simp add: slot_of)
  qed
  moreover have "ar_owner a ! k = i + 1" if "int k \<in> set (drop (rd_cut ?r) (rd_path ?r))"
    using p(1) that by (fastforce simp: path_exact_def)
  ultimately show ?thesis using p(1) unfolding Let_def a_def [symmetric] by (auto simp: path_exact_def)
qed

lemma grid_riders: "gm_nrid (tron_build grid_args) = 3"
  by code_simp

theorem ribbons_are_exact_witness:
  "let e = tron_build grid_args; a = tr_arena (fold (tron_frame e (\<lambda>_. quiet)) ([1, 2] @ [3]) (tron_new e)); r = ar_riders a ! 2
   in (ar_owner a ! 700 = 2 + 1 \<longleftrightarrow> int 700 \<in> set (drop (rd_cut r) (rd_path r)))
     \<and> distinct (rd_path r) \<and> successively (next_to e) (rd_path r) \<and> last (rd_path r) = cell_no e (rd_y r) (rd_x r)"
  by (rule ribbons_are_exact) (simp_all add: grid_steps grid_riders)

section \<open>How riders derezz\<close>

lemma choose_way_None:
  assumes "choose_way e ch a i g = None" "turn \<in> {0, -1, 1}" "\<And>turn. - (10 ^ 18) < turn_score e ch a i g turn"
  shows "blocked e a (fst (snd (way a i turn))) (snd (snd (way a i turn)))"
  using assms(1,2) assms(3) [of 0] assms(3) [of "-1"] assms(3) [of 1] order_less_trans [OF assms(3)]
  by (auto simp: choose_way_def Let_def case_prod_beta split: if_splits)

lemma turn_score_nonneg:
  assumes "0 \<le> g" "g \<le> 1" "\<And>turn. 0 \<le> ch_noise ch (ar_step a) i turn"
  shows "0 \<le> turn_score e ch a i g turn"
proof -
  have lane: "0 \<le> lane e a y x d c" for y x d c by (simp add: lane_def)
  have "0 \<le> near e a y x j * near e a y x j" for y x j by simp
  then have hunt: "0 \<le> sum_list (map (\<lambda>j. if j = i \<or> \<not> rd_moving (ar_riders a ! j) then 0
      else g * 14 * near e a y x j * near e a y x j) js)" for y x js
    using assms(1) by (intro sum_list_nonneg) (auto simp: mult.assoc)
  have "0 \<le> (7 / 10 * (1 - 6 / 10 * g) :: rat)" "0 \<le> 4 / 10 + 12 / 10 * g" using assms(1,2) by simp_all
  then have "0 \<le> 7 / 10 * (1 - 6 / 10 * g) * of_int (lane e a y x d c + lane e a y x d' c)"
    "0 \<le> (4 / 10 + 12 / 10 * g) * of_int (hug e a y x)" for y x d d' c
    using lane by (simp_all add: hug_def)
  then show ?thesis
    unfolding turn_score_def Let_def case_prod_beta
    by (auto simp: lane assms(3) intro!: add_nonneg_nonneg hunt simp del: of_int_add)
qed

text \<open>The heading a rider takes in its turn, if it has one.\<close>

definition heading_of :: "game \<Rightarrow> chances \<Rightarrow> rat \<Rightarrow> nat \<Rightarrow> arena \<Rightarrow> int option" where
  "heading_of e ch g i a =
     (let r = ar_riders a ! i
      in if \<not> rd_doomed r then choose_way e ch a i g
         else if blocked e a (rd_y r + fst (DIRS4 ! nat (rd_d r))) (rd_x r + snd (DIRS4 ! nat (rd_d r))) then None
         else Some (rd_d r))"

lemma ride_heading:
  assumes "rd_moving (ar_riders a ! i)"
  shows "ride e ch g i a = (case heading_of e ch g i a of None \<Rightarrow> burst e i a
    | Some d \<Rightarrow> lay_cell e i (upd_rider i (\<lambda>r. r\<lparr>rd_straight := if d = rd_d r then rd_straight r + 1 else 0, rd_d := d,
        rd_y := rd_y r + fst (DIRS4 ! nat d), rd_x := rd_x r + snd (DIRS4 ! nat d)\<rparr>) a))"
  using assms by (simp add: ride_def heading_of_def Let_def case_prod_beta split: option.split)

lemma heading_free:
  "heading_of e ch g i a = Some d \<Longrightarrow>
    \<not> blocked e a (rd_y (ar_riders a ! i) + fst (DIRS4 ! nat d)) (rd_x (ar_riders a ! i) + snd (DIRS4 ! nat d))"
  using choose_way_Some(2) [of e ch a i g d] by (auto simp: heading_of_def Let_def split: if_splits)

lemma ride_moving:
  assumes "i < length (ar_riders a)" "rd_moving (ar_riders a ! i)" "int (length (rd_path (ar_riders a ! i))) < gm_path_max e"
  shows "rd_moving (ar_riders (ride e ch g i a) ! i) \<longleftrightarrow> heading_of e ch g i a \<noteq> None"
    and "rd_moving (ar_riders (ride e ch g i a) ! i) \<Longrightarrow>
      \<exists>k. rd_path (ar_riders (ride e ch g i a) ! i) = rd_path (ar_riders a ! i) @ [k] \<and> ar_owner a ! slot e k = 0"
proof -
  show "rd_moving (ar_riders (ride e ch g i a) ! i) \<longleftrightarrow> heading_of e ch g i a \<noteq> None"
    using assms by (auto simp: ride_heading burst_def riders_lay_cell split: option.split)
  then show "\<exists>k. rd_path (ar_riders (ride e ch g i a) ! i) = rd_path (ar_riders a ! i) @ [k] \<and> ar_owner a ! slot e k = 0"
    if "rd_moving (ar_riders (ride e ch g i a) ! i)"
    using that assms heading_free [of e ch g i a]
    by (auto simp: ride_heading riders_lay_cell blocked_def owner_at_def)
qed

lemma aggression_range: "0 \<le> aggression a" "aggression a \<le> 1"
  by (simp_all add: aggression_def)

text \<open>
  A rider derezzes in its turn exactly when it is boxed in: one that steers when all three ways,
  straight, left and right, are blocked by the edge or a ribbon; one that has been aimed at a wall
  when the cell ahead is. Otherwise it takes a free cell.
\<close>

theorem boxed_in_riders_derezz:
  assumes "i < length (ar_riders a)" "rd_moving (ar_riders a ! i)" "int (length (rd_path (ar_riders a ! i))) < gm_path_max e"
    "\<forall>turn. 0 \<le> ch_noise ch (ar_step a) i turn"
  shows "\<not> rd_moving (ar_riders (ride e ch (aggression b) i a) ! i) \<longleftrightarrow>
    (if rd_doomed (ar_riders a ! i)
     then blocked e a (rd_y (ar_riders a ! i) + fst (DIRS4 ! nat (rd_d (ar_riders a ! i))))
                      (rd_x (ar_riders a ! i) + snd (DIRS4 ! nat (rd_d (ar_riders a ! i))))
     else \<forall>turn \<in> {0, -1, 1}. blocked e a (fst (snd (way a i turn))) (snd (snd (way a i turn))))"
proof -
  have score: "- (10 ^ 18) < turn_score e ch a i (aggression b) turn" for turn
    using turn_score_nonneg [OF aggression_range [of b], where e = e and ch = ch and a = a and i = i and turn = turn] assms(4) by (auto intro: less_le_trans [of _ 0])
  have "choose_way e ch a i (aggression b) = None \<longleftrightarrow>
    (\<forall>turn \<in> {0, -1, 1}. blocked e a (fst (snd (way a i turn))) (snd (snd (way a i turn))))"
  proof
    show "\<forall>turn \<in> {0, -1, 1}. blocked e a (fst (snd (way a i turn))) (snd (snd (way a i turn)))"
      if "choose_way e ch a i (aggression b) = None" using choose_way_None [OF that _ score] by blast
    show "choose_way e ch a i (aggression b) = None"
      if "\<forall>turn \<in> {0, -1, 1}. blocked e a (fst (snd (way a i turn))) (snd (snd (way a i turn)))"
      using that by (simp add: choose_way_def Let_def case_prod_beta)
  qed
  then show ?thesis by (simp add: ride_moving(1) [OF assms(1-3)] heading_of_def Let_def)
qed

definition small_args :: tron_args where
  "small_args = \<lparr>ta_width = 24, ta_height = 24, ta_riders = 3, ta_speed = 4, ta_grid = 2, ta_rounds = 1, ta_cycle = 10\<rparr>"

text \<open>A rider in the corner, with the ribbon of another below it; two riders in the open.\<close>

definition cornered :: arena where
  "cornered = (new_arena (tron_build small_args))\<lparr>ar_step := 60, ar_phase := 0, ar_race_len := 31,
     ar_owner := ((replicate 144 0)[0 := 1, 12 := 2, 66 := 3]),
     ar_riders := [new_rider\<lparr>rd_d := 2, rd_moving := True, rd_path := [0]\<rparr>,
                   new_rider\<lparr>rd_y := 1, rd_moving := True, rd_path := [12]\<rparr>,
                   new_rider\<lparr>rd_y := 5, rd_x := 6, rd_moving := True, rd_path := [66]\<rparr>]\<rparr>"

theorem boxed_in_riders_derezz_witness:
  "\<not> rd_moving (ar_riders (ride (tron_build small_args) quiet (aggression cornered) 0 cornered) ! 0)"
proof -
  have "\<forall>turn \<in> {0, -1, 1}. blocked (tron_build small_args) cornered (fst (snd (way cornered 0 turn))) (snd (snd (way cornered 0 turn)))"
    by code_simp
  moreover have "gm_path_max (tron_build small_args) = 87" by code_simp
  ultimately show ?thesis
    using boxed_in_riders_derezz [of 0 cornered "tron_build small_args" quiet cornered]
    by (simp add: cornered_def new_rider_def quiet_def)
qed

lemma ride_other: "j \<noteq> i \<Longrightarrow> ar_riders (ride e ch g i a) ! j = ar_riders a ! j"
  by (auto simp: ride_def burst_def lay_cell_def Let_def case_prod_beta split: option.split)

lemma rides_rider:
  "j < n \<Longrightarrow> ar_riders (fold (ride e ch g) [0..<n] a) ! j = ar_riders (ride e ch g j (fold (ride e ch g) [0..<j] a)) ! j"
proof (induction n)
  case (Suc n)
  then show ?case by (cases "j = n") (simp_all add: ride_other)
qed simp

lemma rides_untouched: "n \<le> j \<Longrightarrow> ar_riders (fold (ride e ch g) [0..<n] a) ! j = ar_riders a ! j"
  by (induction n) (simp_all add: ride_other)

lemma burst_nth: "j < length (ar_riders a) \<Longrightarrow> ar_riders (burst e i a) ! j =
    (if i = j then (ar_riders a ! j)\<lparr>rd_moving := False, rd_derezzed := True, rd_erase_at := ar_step a + max 2 \<lfloor>30 / 100 * gm_speed e\<rfloor>\<rparr>
     else ar_riders a ! j)"
  by (simp add: burst_def)

lemma bursts_derezz:
  assumes "j < length (ar_riders a)"
  shows "rd_derezzed (ar_riders (fold (burst e) is a) ! j) = (rd_derezzed (ar_riders a ! j) \<or> j \<in> set is)
    \<and> rd_moving (ar_riders (fold (burst e) is a) ! j) = (rd_moving (ar_riders a ! j) \<and> j \<notin> set is)"
  using assms
proof (induction "is" arbitrary: a)
  case (Cons i "is")
  have "j < length (ar_riders (burst e i a))" using Cons.prems by (simp add: burst_def)
  from Cons.IH [OF this] show ?case using Cons.prems by (auto simp: burst_nth)
qed simp

lemma retire_derezzed:
  "rd_derezzed (ar_riders (fold retire_rider is a) ! j) = rd_derezzed (ar_riders a ! j)"
proof (induction "is" arbitrary: a)
  case (Cons i "is")
  have "rd_derezzed (ar_riders (retire_rider i a) ! j) = rd_derezzed (ar_riders a ! j)"
    by (cases "i < length (ar_riders a)"; cases "i = j") (simp_all add: retire_rider_def list_update_beyond)
  then show ?case by (simp add: Cons.IH)
qed simp

text \<open>
  C37. The backstop derezzes riders in clear air. Once a rider has been doomed, if two or more riders
  are still up 24 steps after the deadline, all but the first of them are derezzed, although each has
  in that same step ridden into a free cell. With three riders this is what happens whenever the
  doomed one has crashed and the two others go on.
\<close>

theorem backstop_derezzes_in_clear_air:
  assumes b_def: "b = fold (ride e ch (aggression a)) [0..<gm_nrid e] a"
    and "kept e R l 0 a" "game_ok e" "l < gm_path_max e"
    "list_ex rd_doomed (ar_riders a)" "ar_race_at a + ar_race_len a + 24 \<le> ar_step a" "j \<in> set (tl (riders_up e b))"
  shows "(\<exists>k. rd_path (ar_riders b ! j) = rd_path (ar_riders a ! j) @ [k]
        \<and> ar_owner (fold (ride e ch (aggression a)) [0..<j] a) ! slot e k = 0)
    \<and> rd_derezzed (ar_riders (race_step e ch a) ! j) \<and> \<not> rd_moving (ar_riders (race_step e ch a) ! j)"
proof -
  let ?g = "aggression a"
  define c where "c = fold (ride e ch ?g) [0..<j] a"
  have j: "j < gm_nrid e" "rd_moving (ar_riders b ! j)" "j \<in> set (riders_up e b)"
  proof -
    show up: "j \<in> set (riders_up e b)" using assms(7) by (cases "riders_up e b") simp_all
    then show "j < gm_nrid e" "rd_moving (ar_riders b ! j)" by (simp_all add: riders_up_def)
  qed
  have "kept e R l j c"
    unfolding c_def using j(1) assms(2-4) by (intro fold_upto [where P = "\<lambda>i. kept e R l i"] kept_ride) auto
  then have kc: "length (ar_riders c) = gm_nrid e" "rider_ok e R l (ar_riders c ! j)"
    using j(1) by (auto simp: kept_def)
  have jb: "ar_riders b ! j = ar_riders (ride e ch ?g j c) ! j" unfolding b_def c_def using j(1) by (rule rides_rider)
  have jc: "ar_riders c ! j = ar_riders a ! j" unfolding c_def by (simp add: rides_untouched)
  have mov: "rd_moving (ar_riders c ! j)"
    using j(2) jb by (cases "rd_moving (ar_riders c ! j)") (simp_all add: ride_def Let_def)
  have "\<exists>k. rd_path (ar_riders (ride e ch ?g j c) ! j) = rd_path (ar_riders c ! j) @ [k] \<and> ar_owner c ! slot e k = 0"
    using kc j mov jb assms(4) by (intro ride_moving(2)) (auto simp: rider_ok_def)
  then have path: "\<exists>k. rd_path (ar_riders b ! j) = rd_path (ar_riders a ! j) @ [k] \<and> ar_owner c ! slot e k = 0"
    by (simp add: jb jc)
  have clk: "clocks b = clocks a" unfolding b_def by (simp add: clock_simps)
  then have clk: "ar_step b = ar_step a" "ar_race_at b = ar_race_at a" "ar_race_len b = ar_race_len a" "length (ar_riders b) = gm_nrid e"
    using assms(2) by (auto simp: clocks_def kept_def)
  have dm: "list_ex rd_doomed (ar_riders b)" unfolding b_def doomed_rides by (rule assms(5))
  have up: "1 < length (riders_up e b)" using assms(7) by (cases "riders_up e b") auto
  define d where "d = fold (burst e) (rev (drop 1 (riders_up e b))) b"
  have dl: "deadline e b = (take 1 (riders_up e b), d)"
    using dm up assms(6) by (auto simp: deadline_def Let_def clk d_def)
  have "j \<in> set (rev (drop 1 (riders_up e b)))" using assms(7) by (simp add: drop_Suc)
  then have derez: "rd_derezzed (ar_riders d ! j)" "\<not> rd_moving (ar_riders d ! j)"
    using bursts_derezz [of j b e] j(1) clk(4) by (auto simp: d_def)
  have len: "length (ar_riders d) = gm_nrid e"
    using clocks_fold [where f = "burst e" and a = b, OF clocks_burst] clk(4) by (simp add: d_def clocks_def)
  have "rd_derezzed (ar_riders (close_race e (decide_end e u d)) ! j) \<and> \<not> rd_moving (ar_riders (close_race e (decide_end e u d)) ! j)" for u
    using derez j(1) len by (simp add: close_race_def decide_end_def Let_def retire_derezzed retire_stops)
  then have "rd_derezzed (ar_riders (race_step e ch a) ! j) \<and> \<not> rd_moving (ar_riders (race_step e ch a) ! j)"
    by (simp add: race_step_def b_def [symmetric] dl)
  then show ?thesis using path by (simp add: c_def)
qed


text \<open>The first of three riders was doomed and has crashed and dissolved; the other two go on.\<close>

definition two_go_on :: arena where
  "two_go_on = (new_arena (tron_build small_args))\<lparr>ar_step := 60, ar_phase := 0, ar_race_len := 31,
     ar_owner := ((replicate 144 0)[40 := 2, 66 := 3]),
     ar_riders := [new_rider\<lparr>rd_derezzed := True, rd_erase_at := 40, rd_doomed := True, rd_path := [0], rd_cut := 1\<rparr>,
                   new_rider\<lparr>rd_y := 3, rd_x := 4, rd_moving := True, rd_path := [40]\<rparr>,
                   new_rider\<lparr>rd_y := 5, rd_x := 6, rd_moving := True, rd_path := [66]\<rparr>]\<rparr>"

lemma two_go_on_kept: "kept (tron_build small_args) 0 60 0 two_go_on"
proof -
  let ?e = "tron_build small_args"
  have e: "gm_nrid ?e = 3" "last_move ?e 0 = 67" "fuse ?e = 2" "gm_gh ?e = 12" "gm_gw ?e = 12" by code_simp+
  have own: "length (ar_owner two_go_on) = 144" by (simp add: two_go_on_def)
  have cells: "ar_owner two_go_on ! k = (if k = 66 then 3 else if k = 40 then 2 else 0)" if "k < 144" for k
    using that by (simp add: two_go_on_def nth_list_update)
  have riders: "ar_riders two_go_on ! 1 = new_rider\<lparr>rd_y := 3, rd_x := 4, rd_moving := True, rd_path := [40]\<rparr>"
    "ar_riders two_go_on ! 2 = new_rider\<lparr>rd_y := 5, rd_x := 6, rd_moving := True, rd_path := [66]\<rparr>"
    by (simp_all add: two_go_on_def numeral_2_eq_2)
  have "40 \<in> ribbon ?e (ar_riders two_go_on ! 1)" "66 \<in> ribbon ?e (ar_riders two_go_on ! 2)"
    unfolding riders by (simp_all add: ribbon_def slot_def e new_rider_def)
  then have "owned ?e 3 two_go_on"
    unfolding owned_def own using cells by (auto split: if_splits intro: exI [of _ 1] exI [of _ 2])
  then show ?thesis
    by (simp add: kept_def e) (auto simp: two_go_on_def rider_ok_def e new_rider_def less_Suc_eq numeral_3_eq_3)
qed

theorem backstop_derezzes_in_clear_air_witness:
  "let e = tron_build small_args; b = fold (ride e quiet (aggression two_go_on)) [0..<gm_nrid e] two_go_on
   in (\<exists>k. rd_path (ar_riders b ! 2) = rd_path (ar_riders two_go_on ! 2) @ [k]
        \<and> ar_owner (fold (ride e quiet (aggression two_go_on)) [0..<2] two_go_on) ! slot e k = 0)
    \<and> rd_derezzed (ar_riders (race_step e quiet two_go_on) ! 2) \<and> \<not> rd_moving (ar_riders (race_step e quiet two_go_on) ! 2)"
proof -
  let ?e = "tron_build small_args"
  have "2 \<in> set (tl (riders_up ?e (fold (ride ?e quiet (aggression two_go_on)) [0..<gm_nrid ?e] two_go_on)))" by code_simp
  moreover have "60 < gm_path_max ?e" "list_ex rd_doomed (ar_riders two_go_on)"
    "ar_race_at two_go_on + ar_race_len two_go_on + 24 \<le> ar_step two_go_on" by code_simp+
  ultimately show ?thesis
    unfolding Let_def by (intro backstop_derezzes_in_clear_air [OF refl two_go_on_kept tron_build_ok])
qed

end
