(* ===== verification/FT_Replay.thy ===== *)
theory FT_Replay
  imports FT_Arena
begin

text \<open>
  A frame of \<open>tron.py\<close> depends on its time only: with a fixed seed, the arena after any sequence of
  frames is the one that stepping from a new arena gives. The deadline of a phase that is over is
  left out of the comparison; nothing reads it.
\<close>

section \<open>The phase deadline is read in phase 1 only\<close>

definition with_end :: "int \<Rightarrow> arena \<Rightarrow> arena" where
  "with_end p a = a\<lparr>ar_phase_end := p\<rparr>"

named_theorems end_simps

lemma with_end_fields [simp]:
  "ar_step (with_end p a) = ar_step a" "ar_owner (with_end p a) = ar_owner a" "ar_heat (with_end p a) = ar_heat a"
  "ar_riders (with_end p a) = ar_riders a" "ar_phase (with_end p a) = ar_phase a" "ar_race_at (with_end p a) = ar_race_at a"
  "ar_race_len (with_end p a) = ar_race_len a" "ar_end_at (with_end p a) = ar_end_at a" "ar_phase_end (with_end p a) = p"
  by (simp_all add: with_end_def)

lemma with_end_fold [end_simps]: "(\<And>x b. f x (with_end p b) = with_end p (f x b)) \<Longrightarrow> fold f xs (with_end p a) = with_end p (fold f xs a)"
  by (induction xs arbitrary: a) simp_all

lemma with_end_upd_rider [end_simps]: "upd_rider i f (with_end p a) = with_end p (upd_rider i f a)"
  by (simp add: upd_rider_def with_end_def)

lemma with_end_reads [end_simps]:
  "way (with_end p a) i turn = way a i turn" "blocked e (with_end p a) y x = blocked e a y x"
  "lane e (with_end p a) y x d cap = lane e a y x d cap" "hug e (with_end p a) y x = hug e a y x"
  "near e (with_end p a) y x j = near e a y x j" "riders_up e (with_end p a) = riders_up e a"
  "aggression (with_end p a) = aggression a"
  by (simp_all add: way_def blocked_def lane_def hug_def near_def owner_at_def riders_up_def aggression_def)

lemma with_end_score [end_simps]: "turn_score e ch (with_end p a) i g turn = turn_score e ch a i g turn"
  unfolding turn_score_def end_simps with_end_fields by (rule refl)

lemma with_end_choose [end_simps]: "choose_way e ch (with_end p a) i g = choose_way e ch a i g"
  unfolding choose_way_def end_simps by (rule refl)

lemma with_end_worst [end_simps]: "worst_way e (with_end p a) up = worst_way e a up"
  unfolding worst_way_def end_simps with_end_fields by (rule refl)

lemma with_end_lay_cell [end_simps]: "lay_cell e i (with_end p a) = with_end p (lay_cell e i a)"
  by (simp add: lay_cell_def Let_def upd_rider_def with_end_def)

lemma with_end_spawn [end_simps]: "spawn e ch i (with_end p a) = with_end p (spawn e ch i a)"
  by (simp add: spawn_def end_simps)

lemma with_end_burst [end_simps]: "burst e i (with_end p a) = with_end p (burst e i a)"
  and with_end_retire [end_simps]: "retire_rider i (with_end p a) = with_end p (retire_rider i a)"
  by (simp_all add: burst_def retire_rider_def end_simps)

lemma with_end_ride [end_simps]: "ride e ch g i (with_end p a) = with_end p (ride e ch g i a)"
  by (simp add: ride_def Let_def case_prod_beta end_simps split: option.split)

lemma with_end_deadline [end_simps]:
  "deadline e (with_end p a) = (fst (deadline e a), with_end p (snd (deadline e a)))"
  by (simp add: deadline_def Let_def case_prod_beta end_simps)

lemma with_end_decide_end [end_simps]: "decide_end e up (with_end p a) = with_end p (decide_end e up a)"
  by (simp add: decide_end_def Let_def with_end_def)

lemma with_end_dissolve [end_simps]: "dissolve e i (with_end p a) = with_end p (dissolve e i a)"
  by (simp add: dissolve_def Let_def upd_rider_def with_end_def)

text \<open>What matters of an arena.\<close>

definition settled :: "arena \<Rightarrow> arena" where
  "settled a = (if ar_phase a = 1 then a else with_end 0 a)"

lemma with_end_twice [simp]: "with_end p (with_end q a) = with_end p a"
  by (simp add: with_end_def)

lemma with_end_clocks [simp]: "with_end p (a\<lparr>ar_step := s\<rparr>) = (with_end p a)\<lparr>ar_step := s\<rparr>"
  "with_end p (a\<lparr>ar_phase := q\<rparr>) = (with_end p a)\<lparr>ar_phase := q\<rparr>"
  by (simp_all add: with_end_def)

lemma settled_with_end: "ar_phase a \<noteq> 1 \<Longrightarrow> settled (with_end p a) = settled a"
  by (simp add: settled_def)

lemma close_race_with_end: "ar_phase a = 0 \<Longrightarrow> settled (close_race e (with_end p a)) = settled (close_race e a)"
  using clocks_fold [where f = retire_rider and a = a and xs = "riders_up e a", OF clocks_retire_rider]
  by (simp add: close_race_def end_simps settled_with_end) (simp add: with_end_def)

lemma settled_dissolves: "settled a = settled b \<Longrightarrow> settled (fold (dissolve e) is a) = settled (fold (dissolve e) is b)"
proof -
  have phase: "ar_phase (fold (dissolve e) is c) = ar_phase c" for c
    using clocks_fold [where f = "dissolve e" and a = c and xs = "is", OF clocks_dissolve] by (simp add: clocks_def)
  have "settled (fold (dissolve e) is c) = fold (dissolve e) is (settled c)" for c
    by (simp add: settled_def phase end_simps)
  then show "settled a = settled b \<Longrightarrow> ?thesis" by simp
qed

lemma phase_race: "ar_phase (decide_end e up (snd (deadline e (fold (ride e ch g) xs a)))) = ar_phase a"
proof -
  have "clocks (snd (deadline e (fold (ride e ch g) xs a))) = clocks a" by (simp add: clock_simps)
  then show ?thesis by (simp add: decide_end_def Let_def clocks_def)
qed

lemma race_step_with_end: "ar_phase a = 0 \<Longrightarrow> settled (race_step e ch (with_end p a)) = settled (race_step e ch a)"
  by (simp add: race_step_def case_prod_beta end_simps close_race_with_end phase_race)

lemma start_round_with_end: "settled (start_round e ch (with_end p a)) = settled (start_round e ch a)"
proof -
  have "start_round e ch (with_end p a) = with_end p (start_round e ch a)"
  proof -
    have "(with_end p a)\<lparr>ar_owner := w, ar_heat := h, ar_phase := 0, ar_race_at := r, ar_race_len := l, ar_end_at := -1\<rparr> =
      with_end p (a\<lparr>ar_owner := w, ar_heat := h, ar_phase := 0, ar_race_at := r, ar_race_len := l, ar_end_at := -1\<rparr>)" for w h r l
      by (simp add: with_end_def)
    then show ?thesis unfolding start_round_def with_end_fields by (simp only: with_end_fold [where f = "spawn e ch", OF with_end_spawn])
  qed
  moreover have "ar_phase (start_round e ch a) = 0"
    unfolding start_round_def using clocks_fold [where f = "spawn e ch", OF clocks_spawn] by (simp add: clocks_def)
  ultimately show ?thesis by (simp add: settled_with_end)
qed

lemma advance_with_end: "ar_phase a \<noteq> 1 \<Longrightarrow> settled (advance e ch (with_end p a)) = settled (advance e ch a)"
  using start_round_with_end [of e ch p "a\<lparr>ar_step := ar_step a + 1\<rparr>"]
    race_step_with_end [of "a\<lparr>ar_step := ar_step a + 1\<rparr>" e ch p] settled_with_end [of "a\<lparr>ar_step := ar_step a + 1\<rparr>" p]
  by (auto simp: advance_def Let_def intro!: settled_dissolves)

lemma settled_eq:
  assumes "settled a = settled b"
  obtains p where "b = with_end p a" "ar_phase a = 1 \<Longrightarrow> b = a"
proof -
  have "ar_phase (settled c) = ar_phase c" for c by (simp add: settled_def)
  then have ph: "ar_phase a = ar_phase b" using assms by metis
  show thesis
  proof (cases "ar_phase a = 1")
    case True
    then have "b = a" using assms ph by (simp add: settled_def)
    moreover have "a = with_end (ar_phase_end a) a" by (simp add: with_end_def)
    ultimately show ?thesis by (intro that [of "ar_phase_end a"]) simp_all
  next
    case False
    then have "with_end (ar_phase_end b) (with_end 0 a) = with_end (ar_phase_end b) (with_end 0 b)"
      using assms ph by (simp add: settled_def)
    then have "b = with_end (ar_phase_end b) a" by (simp add: with_end_def)
    then show ?thesis using that False by blast
  qed
qed

lemma advance_settled: "settled a = settled b \<Longrightarrow> settled (advance e ch a) = settled (advance e ch b)"
  by (elim settled_eq) (metis advance_with_end)

section \<open>A new round forgets the old one\<close>

text \<open>Two arenas that agree but for the riders from \<open>m\<close> on and the deadline of the phase.\<close>

definition twins :: "game \<Rightarrow> nat \<Rightarrow> arena \<Rightarrow> arena \<Rightarrow> bool" where
  "twins e m a b \<longleftrightarrow> length (ar_riders a) = gm_nrid e \<and> length (ar_riders b) = gm_nrid e
     \<and> take m (ar_riders a) = take m (ar_riders b)
     \<and> ar_step a = ar_step b \<and> ar_owner a = ar_owner b \<and> ar_heat a = ar_heat b \<and> ar_phase a = ar_phase b
     \<and> ar_race_at a = ar_race_at b \<and> ar_race_len a = ar_race_len b \<and> ar_end_at a = ar_end_at b"

lemma spawn_closed:
  assumes "i < length (ar_riders a)" "0 < gm_path_max e"
  shows "spawn e ch i a = a\<lparr>ar_owner := put e (rd_path (spawned e ch (ar_step a) i)) (i + 1) (ar_owner a),
    ar_heat := put e (rd_path (spawned e ch (ar_step a) i)) 1 (ar_heat a),
    ar_riders := (ar_riders a)[i := spawned e ch (ar_step a) i]\<rparr>"
  using assms by (simp add: spawn_lays lay_cell_def Let_def upd_rider_def TAIL_def spawned_def case_prod_beta put_def)

lemma twins_spawn:
  assumes "twins e i a b" "i < gm_nrid e" "0 < gm_path_max e"
  shows "twins e (Suc i) (spawn e ch i a) (spawn e ch i b)"
  using assms by (auto simp: twins_def spawn_closed take_Suc_conv_app_nth)

lemma twins_start:
  assumes "length (ar_riders a) = gm_nrid e" "length (ar_riders b) = gm_nrid e" "ar_step a = ar_step b" "0 < gm_path_max e"
  shows "twins e (gm_nrid e) (start_round e ch a) (start_round e ch b)"
proof -
  have "twins e m (fold (spawn e ch) [0..<m] c) (fold (spawn e ch) [0..<m] d)" if "m \<le> gm_nrid e" "twins e 0 c d" for m c d
    using that by (induction m) (simp_all add: twins_spawn assms(4))
  note tw = this
  show ?thesis unfolding start_round_def by (rule tw) (use assms in \<open>simp_all add: twins_def\<close>)
qed

lemma twins_settled: "twins e (gm_nrid e) a b \<Longrightarrow> ar_phase a \<noteq> 1 \<Longrightarrow> settled a = settled b"
  unfolding settled_def twins_def by (auto intro!: arena.equality)

section \<open>Replaying\<close>

definition fresh_arena :: "game \<Rightarrow> arena \<Rightarrow> bool" where
  "fresh_arena e a \<longleftrightarrow> game_ok e \<and> ar_step a = -1 \<and> length (ar_riders a) = gm_nrid e"

interpretation replaying: replay ar_step "advance e ch" settled "fresh_arena e" for e ch
proof
  fix a b assume f: "fresh_arena e a" "fresh_arena e b"
  let ?a = "a\<lparr>ar_step := 0\<rparr>" and ?b = "b\<lparr>ar_step := 0\<rparr>"
  have "0 < gm_path_max e" using f(1) by (auto simp: fresh_arena_def game_ok_def fuse_def)
  then have "twins e (gm_nrid e) (start_round e ch ?a) (start_round e ch ?b)"
    using f by (intro twins_start) (simp_all add: fresh_arena_def)
  moreover have "ar_phase (start_round e ch ?a) = 0"
    unfolding start_round_def using clocks_fold [where f = "spawn e ch", OF clocks_spawn] by (simp add: clocks_def)
  ultimately show "settled (advance e ch a) = settled (advance e ch b)"
    using f by (auto simp: advance_def fresh_arena_def intro: twins_settled)
qed (auto simp: fresh_arena_def intro: advance_settled)

lemma stepped_catch_up: "replaying.stepped e ch a \<Longrightarrow> replaying.stepped e ch (catch_up e ch target a)"
  by (rule catch_up_keeps) (auto intro: replaying.stepped_adv)

lemma stepped_frame:
  assumes "game_ok e" "ready e (tr_arena st)" "\<forall>k. seeds k = ch" "replaying.stepped e ch (tr_arena st)"
  shows "replaying.stepped e ch (tr_arena (tron_frame e seeds t st))"
proof -
  have "replaying.stepped e ch (reset_arena e (tr_arena st))"
    using assms(1,2) by (intro replaying.stepped_fresh) (simp add: fresh_arena_def ready_def, simp add: reset_arena_def)
  then show ?thesis using assms(3,4) by (simp add: tron_frame_def Let_def stepped_catch_up)
qed

lemma stepped_frames:
  assumes "game_ok e" "\<forall>k. seeds k = ch"
  shows "replaying.stepped e ch (tr_arena (fold (tron_frame e seeds) ts (tron_new e)))"
proof -
  let ?P = "\<lambda>st. ready e (tr_arena st) \<and> replaying.stepped e ch (tr_arena st)"
  have "?P (tron_new e)"
    using ready_frames [OF assms(1), of seeds "[]"] assms(1)
    by (auto simp: tron_new_def new_arena_def fresh_arena_def intro!: replaying.stepped_fresh)
  then have "?P (fold (tron_frame e seeds) ts (tron_new e))"
    by (rule fold_keeps [where P = ?P, rotated]) (use assms in \<open>auto intro: ready_frame stepped_frame\<close>)
  then show ?thesis by simp
qed



end
