(* ===== verification/FT_Live.thy ===== *)
theory FT_Live
  imports FT_Wire FT_WebSocket FT_Control
begin

text \<open>
  The running viewer of \<open>src/tools/ft-web/ft-web-server.py\<close>: its three threads, the HTTP handler with
  the upgrade to a WebSocket, the UDP loop that feeds the display and the push loop that sends
  pictures and statistics to the browsers. A run is a sequence of what each thread does in turn; the
  sockets' answers and the clock are in the events, SHA-1 with base64 and the writing of JSON are
  parameters. Only the stop event of the shutdown is left out.
\<close>

section \<open>Requests\<close>

definition parse_dimension :: "string \<Rightarrow> (int \<times> int) option" where
  "parse_dimension text =
     (let (w, found, h) = partition_at (CHR ''x'') (lower text)
      in if \<not> found then None
         else case (int_of_str w, int_of_str h) of (Some w, Some h) \<Rightarrow> Some (w, h) | _ \<Rightarrow> None)"

datatype web_reply =
    Page string string \<comment> \<open>body and content type\<close>
  | Not_found
  | Bad_upgrade
  | Switching string \<comment> \<open>the accept key\<close>

definition serve_file :: "(string \<Rightarrow> string option) \<Rightarrow> string \<Rightarrow> string \<Rightarrow> web_reply" where
  "serve_file files name content_type =
     (case files name of None \<Rightarrow> Not_found | Some body \<Rightarrow> Page body content_type)"

text \<open>\<open>accept_of\<close> is the base64 of the SHA-1 of the key and the fixed identifier of RFC 6455.\<close>

definition upgrade_reply :: "(string \<Rightarrow> string) \<Rightarrow> string option \<Rightarrow> string option \<Rightarrow> web_reply" where
  "upgrade_reply accept_of key up =
     (let u = lower (case up of None \<Rightarrow> [] | Some s \<Rightarrow> s)
      in case key of
           None \<Rightarrow> Bad_upgrade
         | Some k \<Rightarrow> if k = [] \<or> \<not> contains ''websocket'' u then Bad_upgrade
                    else Switching (accept_of (k @ ''258EAFA5-E914-47DA-95CA-C5AB0DC85B11'')))"

definition web_do_GET ::
  "(string \<Rightarrow> string option) \<Rightarrow> (string \<Rightarrow> string) \<Rightarrow> string \<Rightarrow> string option \<Rightarrow> string option \<Rightarrow> web_reply" where
  "web_do_GET files accept_of raw key up =
     (let path = hd (split_on (CHR ''?'') raw)
      in if path = ''/ws'' then upgrade_reply accept_of key up
         else if path \<in> {''/'', ''/index.html''} then serve_file files ''index.html'' ''text/html; charset=utf-8''
         else Not_found)"

section \<open>The state the threads share\<close>

record web_state =
  lv_udp :: bool \<comment> \<open>the UDP thread is running\<close>
  lv_display :: display
  lv_hub :: hub
  lv_last_gen :: int
  lv_last_expire :: rat
  lv_last_stats :: rat
  lv_prev :: "nat \<times> nat \<times> nat \<times> nat \<times> bool list"
  lv_pushed :: nat
  lv_next_tick :: rat

text \<open>As the threads start, at the time \<open>now\<close>.\<close>

definition start_live :: "display \<Rightarrow> rat \<Rightarrow> web_state" where
  "start_live d now =
     \<lparr>lv_udp = True, lv_display = d, lv_hub = \<lparr>h_clients = [], h_state = (\<lambda>_. new_ws_client)\<rparr>,
      lv_last_gen = -1, lv_last_expire = 0, lv_last_stats = now, lv_prev = snapshot_counters d,
      lv_pushed = 0, lv_next_tick = now\<rparr>"

section \<open>The UDP loop\<close>

text \<open>What a receive gives: a datagram, nothing in time, an interrupted call or another error.\<close>

datatype received = Got "byte list" rat | Timed_out | Interrupted | Broken

text \<open>An exception out of \<open>apply\<close> or of the receive leaves the function, which ends the thread.\<close>

definition udp_turn :: "received \<Rightarrow> web_state \<Rightarrow> web_state" where
  "udp_turn r l =
     (if \<not> lv_udp l then l
      else case r of
        Got buf now \<Rightarrow> (case apply_datagram (lv_display l) buf now of
                          Inl _ \<Rightarrow> l\<lparr>lv_udp := False\<rparr>
                        | Inr d \<Rightarrow> l\<lparr>lv_display := d\<rparr>)
      | Timed_out \<Rightarrow> l
      | Interrupted \<Rightarrow> l
      | Broken \<Rightarrow> l\<lparr>lv_udp := False\<rparr>)"

section \<open>The push loop\<close>

definition grid_bytes :: "grid \<Rightarrow> byte list" where
  "grid_bytes g = concat (map (\<lambda>row. concat (map (\<lambda>(r, gr, b). [r, gr, b]) row)) g)"

text \<open>
  One pass: the clock at its start, at the reckoning of the slack and at the resynchronisation, and
  whether a send to a client succeeds.
\<close>

record pass =
  ps_now :: rat
  ps_end :: rat
  ps_resync :: rat
  ps_picture_ok :: "nat \<Rightarrow> bool"
  ps_stats_ok :: "nat \<Rightarrow> bool"

definition expire_turn :: "rat \<Rightarrow> web_state \<Rightarrow> web_state" where
  "expire_turn now l =
     (if 1 \<le> now - lv_last_expire l then l\<lparr>lv_display := expire now (lv_display l), lv_last_expire := now\<rparr> else l)"

definition picture_turn :: "(nat \<Rightarrow> bool) \<Rightarrow> web_state \<Rightarrow> web_state" where
  "picture_turn ok l =
     (if hub_count (lv_hub l) \<noteq> 0 then
        let (gen, frame) = composite (lv_display l)
        in if int gen \<noteq> lv_last_gen l
           then l\<lparr>lv_last_gen := int gen, lv_hub := hub_broadcast ok (lv_hub l) (grid_bytes frame) 2,
                  lv_pushed := Suc (lv_pushed l)\<rparr>
           else l
      else l)"

definition stats_doc :: "web_state \<Rightarrow> rat \<Rightarrow> json" where
  "stats_doc l dt =
     (let (dg, fr, by, bad, layers) = snapshot_counters (lv_display l); (dg0, fr0, by0, _, _) = lv_prev l;
          diff = (\<lambda>a b. of_int (int a - int b) :: rat)
      in JObj [(''type'', JStr ''stats''), (''dgrams_per_s'', JFloat (Fin (diff dg dg0 / dt))),
               (''frames_per_s'', JFloat (Fin (diff fr fr0 / dt))),
               (''mbit_per_s'', JFloat (Fin (diff by by0 * 8 / dt / 10 ^ 6))),
               (''pushed_per_s'', JFloat (Fin (of_nat (lv_pushed l) / dt))), (''bad'', JInt (int bad)),
               (''layers'', JArr (map JBool layers)), (''clients'', JInt (int (hub_count (lv_hub l))))])"

definition stats_turn :: "(json \<Rightarrow> byte list) \<Rightarrow> (nat \<Rightarrow> bool) \<Rightarrow> rat \<Rightarrow> web_state \<Rightarrow> web_state" where
  "stats_turn dumps ok now l =
     (if 1 / 2 \<le> now - lv_last_stats l then
        l\<lparr>lv_hub := hub_broadcast ok (lv_hub l) (dumps (stats_doc l (now - lv_last_stats l))) 1,
          lv_prev := snapshot_counters (lv_display l), lv_pushed := 0, lv_last_stats := now\<rparr>
      else l)"

definition next_turn :: "rat \<Rightarrow> pass \<Rightarrow> web_state \<Rightarrow> web_state" where
  "next_turn interval p l =
     (let tick = lv_next_tick l + interval
      in l\<lparr>lv_next_tick := if 0 < tick - ps_end p then tick else ps_resync p\<rparr>)"

definition push_pass :: "(json \<Rightarrow> byte list) \<Rightarrow> rat \<Rightarrow> pass \<Rightarrow> web_state \<Rightarrow> web_state" where
  "push_pass dumps interval p l =
     next_turn interval p (stats_turn dumps (ps_stats_ok p) (ps_now p) (picture_turn (ps_picture_ok p) (expire_turn (ps_now p) l)))"

section \<open>A viewer comes and goes\<close>

definition hello_doc :: "display \<Rightarrow> json" where
  "hello_doc d = JObj [(''type'', JStr ''hello''), (''width'', JInt (int (d_width d))), (''height'', JInt (int (d_height d))),
     (''layers'', JInt (int NUM_LAYERS)), (''timeout'', JInt (d_timeout d))]"

text \<open>The new client is sent the greeting before it is registered; \<open>ok\<close> is whether that succeeds.\<close>

definition viewer_joins :: "(json \<Rightarrow> byte list) \<Rightarrow> nat \<Rightarrow> bool \<Rightarrow> web_state \<Rightarrow> web_state" where
  "viewer_joins dumps i ok l =
     (let c = snd (ws_client_send ok new_ws_client (dumps (hello_doc (lv_display l))) 1)
      in l\<lparr>lv_hub := hub_add i (lv_hub l \<lparr>h_state := (h_state (lv_hub l))(i := c)\<rparr>)\<rparr>)"

definition viewer_leaves :: "nat \<Rightarrow> web_state \<Rightarrow> web_state" where
  "viewer_leaves i l =
     (let h = hub_remove i (lv_hub l) in l\<lparr>lv_hub := h\<lparr>h_state := (h_state h)(i := ws_client_close (h_state h i))\<rparr>\<rparr>)"

section \<open>Runs\<close>

datatype live_event =
    Udp received
  | Join nat bool
  | Leave nat
  | Busy nat bool \<comment> \<open>a send to the client is in flight, or no longer\<close>
  | Pass pass

definition live_step :: "(json \<Rightarrow> byte list) \<Rightarrow> rat \<Rightarrow> live_event \<Rightarrow> web_state \<Rightarrow> web_state" where
  "live_step dumps interval ev l =
     (case ev of
        Udp r \<Rightarrow> udp_turn r l
      | Join i ok \<Rightarrow> viewer_joins dumps i ok l
      | Leave i \<Rightarrow> viewer_leaves i l
      | Busy i b \<Rightarrow> l\<lparr>lv_hub := (lv_hub l)\<lparr>h_state := (h_state (lv_hub l))(i := (h_state (lv_hub l) i)\<lparr>wc_locked := b\<rparr>)\<rparr>\<rparr>
      | Pass p \<Rightarrow> push_pass dumps interval p l)"

definition live_run :: "(json \<Rightarrow> byte list) \<Rightarrow> rat \<Rightarrow> live_event list \<Rightarrow> web_state \<Rightarrow> web_state" where
  "live_run dumps interval evs l = fold (live_step dumps interval) evs l"

section \<open>Generations\<close>

lemma apply_generation:
  assumes "apply_datagram d buf now = Inr d'"
  shows "d_generation d \<le> d_generation d'"
    and "d_generation d' = d_generation d \<Longrightarrow> d_layers d' = d_layers d \<and> d_touched d' = d_touched d"
  using assms by (auto simp: apply_datagram_def Let_def split: prod.splits if_splits)

lemma expire_layer_generation:
  "d_generation d \<le> d_generation (expire_layer now z d)"
  "d_generation (expire_layer now z d) = d_generation d \<Longrightarrow> expire_layer now z d = d"
  by (auto simp: expire_layer_def)

lemma expire_generation:
  "d_generation d \<le> d_generation (expire now d)"
  "d_generation (expire now d) = d_generation d \<Longrightarrow> expire now d = d"
proof -
  have "d_generation d \<le> d_generation (fold (expire_layer now) zs d) \<and>
    (d_generation (fold (expire_layer now) zs d) = d_generation d \<longrightarrow> fold (expire_layer now) zs d = d)" for zs
  proof (induction zs arbitrary: d)
    case (Cons z zs)
    from Cons.IH [of "expire_layer now z d"] expire_layer_generation [where d = d and now = now and z = z]
    show ?case by fastforce
  qed simp
  then show "d_generation d \<le> d_generation (expire now d)" "d_generation (expire now d) = d_generation d \<Longrightarrow> expire now d = d"
    by (auto simp: expire_def)
qed

text \<open>A display that has gone on: no older, and the same picture when it is as old.\<close>

definition moved_on :: "display \<Rightarrow> display \<Rightarrow> bool" where
  "moved_on d d' \<longleftrightarrow> d_generation d \<le> d_generation d' \<and>
     (d_generation d' = d_generation d \<longrightarrow> composite d' = composite d)"

lemma moved_on_refl [simp]: "moved_on d d"
  by (simp add: moved_on_def)

lemma composite_cong:
  assumes "d_generation d' = d_generation d" and "d_layers d' = d_layers d" and "d_touched d' = d_touched d"
  shows "composite d' = composite d"
  unfolding composite_def assms by (rule refl)

lemma moved_on_apply: "apply_datagram d buf now = Inr d' \<Longrightarrow> moved_on d d'"
  using apply_generation [where d = d and d' = d'] composite_cong [of d' d] by (simp add: moved_on_def)

lemma moved_on_expire: "moved_on d (expire now d)"
  using expire_generation [where d = d and now = now] by (auto simp: moved_on_def)

lemma moved_on_udp: "moved_on (lv_display l) (lv_display (udp_turn r l))"
  by (auto simp: udp_turn_def moved_on_apply split: received.splits sum.splits)

lemma udp_turn_keeps [simp]:
  "lv_hub (udp_turn r l) = lv_hub l" "lv_last_gen (udp_turn r l) = lv_last_gen l"
  by (auto simp: udp_turn_def split: received.splits sum.splits)

lemma moved_on_expire_turn: "moved_on (lv_display l) (lv_display (expire_turn now l))"
  by (simp add: expire_turn_def moved_on_expire)

lemma expire_turn_keeps [simp]:
  "lv_hub (expire_turn now l) = lv_hub l" "lv_last_gen (expire_turn now l) = lv_last_gen l"
  by (simp_all add: expire_turn_def)

lemma picture_turn_display [simp]: "lv_display (picture_turn ok l) = lv_display l"
  by (simp add: picture_turn_def Let_def split: prod.splits)

lemma stats_turn_keeps [simp]:
  "lv_display (stats_turn dumps ok now l) = lv_display l" "lv_last_gen (stats_turn dumps ok now l) = lv_last_gen l"
  by (simp_all add: stats_turn_def)

lemma next_turn_keeps [simp]:
  "lv_display (next_turn interval p l) = lv_display l" "lv_last_gen (next_turn interval p l) = lv_last_gen l"
  "lv_hub (next_turn interval p l) = lv_hub l"
  by (simp_all add: next_turn_def Let_def)

section \<open>What holds of the threads at any time\<close>

definition live_ok :: "web_state \<Rightarrow> bool" where
  "live_ok l \<longleftrightarrow> distinct (h_clients (lv_hub l)) \<and> lv_last_gen l \<le> int (d_generation (lv_display l))"

lemma broadcast_distinct:
  "distinct (h_clients h) \<Longrightarrow> distinct (h_clients (hub_broadcast ok h payload opc))"
  by (simp add: broadcast_survivors)

lemma live_ok_moved:
  assumes "live_ok l" and "moved_on (lv_display l) (lv_display l')" and "lv_hub l' = lv_hub l" and "lv_last_gen l' = lv_last_gen l"
  shows "live_ok l'"
  using assms by (simp add: live_ok_def moved_on_def)

lemma live_ok_udp: "live_ok l \<Longrightarrow> live_ok (udp_turn r l)"
  by (rule live_ok_moved [OF _ moved_on_udp]) simp_all

lemma live_ok_expire: "live_ok l \<Longrightarrow> live_ok (expire_turn now l)"
  by (rule live_ok_moved [OF _ moved_on_expire_turn]) simp_all

lemma live_ok_picture: "live_ok l \<Longrightarrow> live_ok (picture_turn ok l)"
  by (auto simp: live_ok_def picture_turn_def Let_def composite_def broadcast_distinct split: prod.splits)

lemma live_ok_stats: "live_ok l \<Longrightarrow> live_ok (stats_turn dumps ok now l)"
  by (simp add: live_ok_def stats_turn_def broadcast_distinct)

lemma live_ok_pass: "live_ok l \<Longrightarrow> live_ok (push_pass dumps interval p l)"
  using live_ok_stats [OF live_ok_picture [OF live_ok_expire]] by (simp add: push_pass_def live_ok_def)

lemma live_ok_step: "live_ok l \<Longrightarrow> live_ok (live_step dumps interval ev l)"
  by (cases ev)
    (simp_all add: live_step_def live_ok_udp live_ok_pass,
     simp_all add: live_ok_def viewer_joins_def viewer_leaves_def hub_add_def hub_remove_def Let_def)

lemma live_ok_run: "live_ok l \<Longrightarrow> live_ok (live_run dumps interval evs l)"
  by (induction evs arbitrary: l) (simp_all add: live_run_def live_ok_step)

lemma live_ok_start: "live_ok (start_live d now)"
  by (simp add: live_ok_def start_live_def)

section \<open>One viewer through a run\<close>

text \<open>The pictures a client has been sent are its frames with the binary opcode.\<close>

definition pictures :: "nat \<Rightarrow> web_state \<Rightarrow> byte list list" where
  "pictures i l = filter (\<lambda>f. hd f = 0x82) (wc_out (h_state (lv_hub l) i))"

definition undisturbed :: "nat \<Rightarrow> live_event \<Rightarrow> bool" where
  "undisturbed i ev =
     (case ev of Udp _ \<Rightarrow> True | Join j _ \<Rightarrow> j \<noteq> i | Leave j \<Rightarrow> j \<noteq> i | Busy j _ \<Rightarrow> j \<noteq> i
      | Pass p \<Rightarrow> ps_picture_ok p i \<and> ps_stats_ok p i)"

text \<open>Client \<open>i\<close> is registered and free, and has the picture of the generation last sent, if any since \<open>g\<close>.\<close>

definition follows :: "int \<Rightarrow> nat \<Rightarrow> web_state \<Rightarrow> bool" where
  "follows g i l \<longleftrightarrow>
     i \<in> set (h_clients (lv_hub l)) \<and> wc_alive (h_state (lv_hub l) i) \<and> \<not> wc_locked (h_state (lv_hub l) i) \<and>
     g \<le> lv_last_gen l \<and>
     (if lv_last_gen l = g then pictures i l = []
      else pictures i l \<noteq> [] \<and>
        (int (d_generation (lv_display l)) = lv_last_gen l \<longrightarrow>
           last (pictures i l) = ws_frame (grid_bytes (snd (composite (lv_display l)))) 2))"

lemma follows_cong:
  assumes "follows g i l" and "lv_hub l' = lv_hub l" and "lv_last_gen l' = lv_last_gen l" and "lv_display l' = lv_display l"
  shows "follows g i l'"
  using assms(1) unfolding follows_def pictures_def assms(2-4) .

lemma follows_moved:
  assumes "follows g i l" and "live_ok l" and "moved_on (lv_display l) (lv_display l')"
    and "lv_hub l' = lv_hub l" and "lv_last_gen l' = lv_last_gen l"
  shows "follows g i l'"
  using assms by (auto simp: follows_def live_ok_def moved_on_def pictures_def)

lemma picture_byte [simp]:
  "hd (ws_frame payload 2) = 0x82" "hd (ws_frame payload 1) = 0x81"
  by (simp_all add: ws_frame_def Let_def)

lemma broadcast_to_free:
  assumes "distinct (h_clients h)" and "i \<in> set (h_clients h)"
    and "wc_alive (h_state h i)" and "\<not> wc_locked (h_state h i)" and "ok i"
  shows "i \<in> set (h_clients (hub_broadcast ok h payload opc))"
    and "h_state (hub_broadcast ok h payload opc) i =
      (h_state h i)\<lparr>wc_sent := Suc (wc_sent (h_state h i)), wc_out := wc_out (h_state h i) @ [ws_frame payload opc]\<rparr>"
  using assms hub_send_fold [OF assms(1), of ok payload opc h i]
  by (simp_all add: broadcast_survivors ws_client_send_def hub_broadcast_def Let_def hub_remove_fold)

lemma follows_stats:
  assumes "follows g i l" and "live_ok l" and "ok i"
  shows "follows g i (stats_turn dumps ok now l)"
  using assms broadcast_to_free [of "lv_hub l" i ok]
  by (auto simp: follows_def live_ok_def stats_turn_def pictures_def)

lemma picture_turn_eq:
  assumes "hub_count (lv_hub l) \<noteq> 0"
  shows "picture_turn ok l =
    (if int (d_generation (lv_display l)) \<noteq> lv_last_gen l
     then l\<lparr>lv_last_gen := int (d_generation (lv_display l)),
        lv_hub := hub_broadcast ok (lv_hub l) (grid_bytes (snd (composite (lv_display l)))) 2,
        lv_pushed := Suc (lv_pushed l)\<rparr>
     else l)"
proof -
  obtain g f where gf: "composite (lv_display l) = (g, f)" by fastforce
  then have "g = d_generation (lv_display l)" by (simp add: composite_def)
  with gf assms show ?thesis by (simp add: picture_turn_def)
qed

lemma follows_picture:
  assumes "follows g i l" and "live_ok l" and "ok i"
  shows "follows g i (picture_turn ok l)"
    and "lv_last_gen (picture_turn ok l) = int (d_generation (lv_display l))"
proof -
  have "hub_count (lv_hub l) \<noteq> 0" using assms(1) by (auto simp: follows_def hub_count_def)
  note eq = picture_turn_eq [OF this, of ok]
  let ?h = "hub_broadcast ok (lv_hub l) (grid_bytes (snd (composite (lv_display l)))) 2"
  have "i \<in> set (h_clients ?h)" "h_state ?h i = (h_state (lv_hub l) i)
      \<lparr>wc_sent := Suc (wc_sent (h_state (lv_hub l) i)),
       wc_out := wc_out (h_state (lv_hub l) i) @ [ws_frame (grid_bytes (snd (composite (lv_display l)))) 2]\<rparr>"
    using assms by (auto simp: follows_def live_ok_def intro!: broadcast_to_free)
  with assms(1,2) show "follows g i (picture_turn ok l)"
    unfolding eq follows_def live_ok_def pictures_def by simp
  show "lv_last_gen (picture_turn ok l) = int (d_generation (lv_display l))"
    unfolding eq by simp
qed

lemma follows_pass:
  assumes "follows g i l" and "live_ok l" and "ps_picture_ok p i" and "ps_stats_ok p i"
  shows "follows g i (push_pass dumps interval p l)"
    and "lv_last_gen (push_pass dumps interval p l) = int (d_generation (lv_display (push_pass dumps interval p l)))"
proof -
  let ?e = "expire_turn (ps_now p) l"
  have f: "follows g i ?e" by (rule follows_moved [OF assms(1,2) moved_on_expire_turn]) simp_all
  note pic = follows_picture [where ok = "ps_picture_ok p", OF f live_ok_expire [OF assms(2)] assms(3)]
  have "follows g i (stats_turn dumps (ps_stats_ok p) (ps_now p) (picture_turn (ps_picture_ok p) ?e))"
    by (rule follows_stats [where ok = "ps_stats_ok p", OF pic(1) live_ok_picture [OF live_ok_expire [OF assms(2)]] assms(4)])
  then show "follows g i (push_pass dumps interval p l)"
    unfolding push_pass_def by (rule follows_cong) simp_all
  show "lv_last_gen (push_pass dumps interval p l) = int (d_generation (lv_display (push_pass dumps interval p l)))"
    using pic(2) by (simp add: push_pass_def)
qed

lemma follows_step:
  assumes "follows g i l" and "live_ok l" and "undisturbed i ev"
  shows "follows g i (live_step dumps interval ev l)"
proof (cases ev)
  case (Udp r)
  with follows_moved [OF assms(1,2) moved_on_udp] show ?thesis by (simp add: live_step_def)
next
  case (Pass p)
  with follows_pass(1) [OF assms(1,2)] assms(3) show ?thesis by (simp add: live_step_def undisturbed_def)
qed (use assms in \<open>auto simp: live_step_def undisturbed_def follows_def pictures_def viewer_joins_def
  viewer_leaves_def hub_add_def hub_remove_def Let_def\<close>)

lemma follows_run:
  "follows g i l \<Longrightarrow> live_ok l \<Longrightarrow> list_all (undisturbed i) evs \<Longrightarrow> follows g i (live_run dumps interval evs l)"
  by (induction evs arbitrary: l) (simp_all add: live_run_def follows_step live_ok_step)

lemma follows_join:
  "live_ok l \<Longrightarrow> follows (lv_last_gen l) i (viewer_joins dumps i True l)"
  by (simp add: follows_def pictures_def viewer_joins_def hub_add_def Let_def ws_client_send_def new_ws_client_def)

text \<open>
  C23. Whatever has happened since the server started, a viewer who joins and is not disturbed (not
  disconnected, not slow) is up to date after every pass of the push loop: the last picture it was
  sent is the one the display now shows. The exception is the whole point of the statement: while
  the display has not changed since the last broadcast before the viewer came, the viewer has been
  sent no picture at all, however many passes go by, and its page stays black.
\<close>

theorem viewer_is_current:
  assumes "list_all (undisturbed i) evs" and "ps_picture_ok p i" and "ps_stats_ok p i"
    and "l0 = live_run dumps interval before (start_live d now)"
    and "l = live_run dumps interval (Join i True # evs @ [Pass p]) l0"
  shows "i \<in> set (h_clients (lv_hub l)) \<and>
    (if int (d_generation (lv_display l)) = lv_last_gen l0 then pictures i l = []
     else pictures i l \<noteq> [] \<and> last (pictures i l) = ws_frame (grid_bytes (snd (composite (lv_display l)))) 2)"
proof -
  let ?m = "live_run dumps interval evs (viewer_joins dumps i True l0)"
  have ok: "live_ok l0" unfolding assms(4) by (rule live_ok_run [OF live_ok_start])
  have okj: "live_ok (viewer_joins dumps i True l0)"
    using live_ok_step [OF ok, of dumps interval "Join i True"] by (simp add: live_step_def)
  have l: "push_pass dumps interval p ?m = l"
    by (simp add: assms(5) live_run_def live_step_def)
  have "follows (lv_last_gen l0) i (push_pass dumps interval p ?m)"
    and "lv_last_gen (push_pass dumps interval p ?m) = int (d_generation (lv_display (push_pass dumps interval p ?m)))"
    by (rule follows_pass [OF follows_run [OF follows_join [OF ok] okj assms(1)] live_ok_run [OF okj] assms(2,3)])+
  then show ?thesis unfolding l by (simp add: follows_def split: if_splits)
qed

definition calm_pass :: pass where
  "calm_pass = \<lparr>ps_now = 1, ps_end = 1, ps_resync = 1, ps_picture_ok = (\<lambda>_. True), ps_stats_ok = (\<lambda>_. True)\<rparr>"

text \<open>Viewer 3 opens the page after a picture was drawn and shown to viewer 7.\<close>

definition still_show :: "live_event list" where
  "still_show = [Join 7 True, Udp (Got (header_P6_FT 1 1 0 0 0 @ [1, 2, 3]) 1), Pass calm_pass]"

theorem viewer_is_current_witness:
  "pictures 3 (live_run (\<lambda>_. []) (1 / 60) (Join 3 True # [Pass calm_pass] @ [Pass calm_pass])
     (live_run (\<lambda>_. []) (1 / 60) still_show (start_live (Display 2 1 16 15) 0))) = []"
proof -
  let ?l0 = "live_run (\<lambda>_. []) (1 / 60) still_show (start_live (Display 2 1 16 15) 0)"
  have "int (d_generation (lv_display (live_run (\<lambda>_. []) (1 / 60) (Join 3 True # [Pass calm_pass] @ [Pass calm_pass]) ?l0)))
      = lv_last_gen ?l0"
    by code_simp
  with viewer_is_current [of 3 "[Pass calm_pass]" calm_pass ?l0 "\<lambda>_. []" "1 / 60" still_show "Display 2 1 16 15" 0, OF _ _ _ refl refl]
  show ?thesis by (simp add: undisturbed_def calm_pass_def)
qed

section \<open>The end of reception\<close>

lemma reception_over:
  "\<not> lv_udp l \<Longrightarrow> \<not> lv_udp (live_run dumps interval evs l)
     \<and> d_datagrams (lv_display (live_run dumps interval evs l)) = d_datagrams (lv_display l)
     \<and> d_frames (lv_display (live_run dumps interval evs l)) = d_frames (lv_display l)"
proof (induction evs arbitrary: l)
  case (Cons ev evs)
  have e: "d_datagrams (fold (expire_layer now) zs d) = d_datagrams d \<and> d_frames (fold (expire_layer now) zs d) = d_frames d"
    for now zs and d :: display
    by (induction zs arbitrary: d) (simp_all add: expire_layer_def)
  have "\<not> lv_udp (live_step dumps interval ev l)
     \<and> d_datagrams (lv_display (live_step dumps interval ev l)) = d_datagrams (lv_display l)
     \<and> d_frames (lv_display (live_step dumps interval ev l)) = d_frames (lv_display l)"
    using Cons.prems
    by (cases ev) (auto simp: live_step_def udp_turn_def viewer_joins_def viewer_leaves_def push_pass_def
        next_turn_def stats_turn_def picture_turn_def expire_turn_def expire_def e Let_def split: prod.splits)
  with Cons.IH [of "live_step dumps interval ev l"] show ?case by (simp add: live_run_def)
qed (simp add: live_run_def)

text \<open>
  C38. One datagram ends the reception for good: its header gives a negative width and height, the
  product passes the size check, and the exception of the reshape leaves the UDP loop and ends its
  thread. Whatever arrives afterwards is not received, nothing is counted or drawn any more, while
  the server goes on running: a viewer can still come, and is served by the pushing thread.
\<close>

theorem one_datagram_stops_reception:
  assumes "w < 0" and "h < 0" and "int (length px) = w * h * 3" and "lv_udp l"
    and "l' = live_run dumps interval (Udp (Got (header_P6_FT w h x y z @ px) now) # evs) l"
  shows "\<not> lv_udp l' \<and> d_datagrams (lv_display l') = d_datagrams (lv_display l)
    \<and> d_frames (lv_display l') = d_frames (lv_display l)
    \<and> i \<in> set (h_clients (lv_hub (live_step dumps interval (Join i True) l')))"
proof -
  let ?l1 = "udp_turn (Got (header_P6_FT w h x y z @ px) now) l"
  have l1: "?l1 = l\<lparr>lv_udp := False\<rparr>"
    using assms(4) by (simp add: udp_turn_def negative_image_raises [OF assms(1-3)])
  have "l' = live_run dumps interval evs ?l1" by (simp add: assms(5) live_run_def live_step_def)
  with reception_over [of ?l1 dumps interval evs] l1 show ?thesis
    by (simp add: live_step_def viewer_joins_def hub_add_def Let_def)
qed

theorem one_datagram_stops_reception_witness:
  "\<not> lv_udp (live_run (\<lambda>_. []) (1 / 60) (Udp (Got (header_P6_FT (- 1) (- 1) 0 0 0 @ [1, 2, 3]) 1) # still_show)
       (start_live (Display 2 1 16 15) 0))"
  by (rule one_datagram_stops_reception [of "- 1" "- 1" "[1, 2, 3]", OF _ _ _ _ refl, THEN conjunct1])
    (simp_all add: start_live_def)

section \<open>What the web server gives away\<close>

text \<open>Whatever path is asked for, the only file whose contents are sent is the viewer's page.\<close>

lemma only_the_page_is_served:
  "web_do_GET files accept_of raw key up = Page body content_type \<Longrightarrow> files ''index.html'' = Some body"
  by (auto simp: web_do_GET_def upgrade_reply_def serve_file_def Let_def split: if_splits option.splits)

end
