(* ===== verification/FT_Publish.thy ===== *)
theory FT_Publish
  imports FT_StateFile
begin

text \<open>
  The rest of the frame loop of \<open>src/demos/ftsched.py\<close>: what \<open>run\<close> keeps count of, the snapshot that
  \<open>_publish\<close> rebuilds once a second for the web, the state file it writes on the same tick, and the
  pacing, around the pass of \<open>FT_Scheduler\<close>. The clock readings of a pass, the child process and the
  success of a write are inputs of the pass.
\<close>

section \<open>State\<close>

record 'r loop =
  lp_sched :: "'r sched"
  lp_frames :: nat
  lp_busy :: rat
  lp_late :: nat
  lp_worst :: rat
  lp_started :: rat
  lp_pub_at :: rat
  lp_pub_frames :: nat
  lp_due :: rat
  lp_state :: json \<comment> \<open>what the HTTP thread serves\<close>
  lp_disk :: "dict option" \<comment> \<open>the state file\<close>

record loop_input =
  li_t :: rat \<comment> \<open>time since the loop began\<close>
  li_began :: rat
  li_sent :: rat
  li_published :: rat
  li_slack :: rat
  li_resync :: rat
  li_alive :: bool
  li_obeys :: bool
  li_starts :: bool
  li_dropped :: int
  li_writable :: bool

text \<open>As \<open>run\<close> enters the loop: the scheduler was constructed at \<open>started\<close>, the loop begins at \<open>t0\<close>.\<close>

definition start_loop :: "'r sched \<Rightarrow> dict option \<Rightarrow> rat \<Rightarrow> rat \<Rightarrow> 'r loop" where
  "start_loop s disk started t0 =
     \<lparr>lp_sched = s, lp_frames = 0, lp_busy = 0, lp_late = 0, lp_worst = 0, lp_started = started,
      lp_pub_at = started, lp_pub_frames = 0, lp_due = t0, lp_state = JObj [], lp_disk = disk\<rparr>"

section \<open>The snapshot\<close>

definition seconds_json :: "nat \<Rightarrow> rat \<Rightarrow> json" where
  "seconds_json digits x = JFloat (Fin (py_round_to digits x))"

definition now_json :: "rat \<Rightarrow> 'r sched \<Rightarrow> json" where
  "now_json t s =
     (let i = sh_index (sc_show s); e = entry_at s i
      in JObj
        [(''name'', case e of None \<Rightarrow> JNull | Some k \<Rightarrow> JStr (e_name (r_all (sc_rot s) ! k))),
         (''kind'', case e of None \<Rightarrow> JNull | Some k \<Rightarrow> JStr (e_kind (r_all (sc_rot s) ! k))),
         (''position'', JInt (position_of e (sc_rot s))),
         (''elapsed'', seconds_json 1 (max 0 (t - sh_start (sc_show s)))),
         (''duration'', seconds_json 1 (ft_dur (sc_rot s) i)),
         (''in_transition'', JBool (sh_in_transition (sc_show s)))])"

definition next_json :: "'r sched \<Rightarrow> json" where
  "next_json s =
     (let i = Suc (sh_index (sc_show s)); e = entry_at s i
      in JObj
        [(''name'', case e of None \<Rightarrow> JNull | Some k \<Rightarrow> JStr (e_name (r_all (sc_rot s) ! k))),
         (''position'', JInt (position_of e (sc_rot s))),
         (''transition'', JStr (transition_for (sc_rot s) i)),
         (''ready'', JBool (b_ready (sc_b s) i \<noteq> None))])"

definition health_json :: "sched_args \<Rightarrow> loop_input \<Rightarrow> rat \<Rightarrow> 'r loop \<Rightarrow> json" where
  "health_json args li recent l =
     (let per = (if lp_frames l = 0 then 0 else lp_busy l / of_nat (lp_frames l))
      in JObj
        [(''uptime'', JInt (py_round (li_published li - lp_started l))),
         (''target_fps'', JInt (frame_rate args (lp_sched l))),
         (''actual_fps'', seconds_json 1 recent),
         (''ms_per_frame'', seconds_json 2 (per * 1000)),
         (''worst_ms'', seconds_json 2 (lp_worst l * 1000)),
         (''late_frames'', JInt (int (lp_late l))),
         (''dropped_packets'', JInt (li_dropped li))])"

definition snapshot_json :: "sched_args \<Rightarrow> loop_input \<Rightarrow> rat \<Rightarrow> 'r loop \<Rightarrow> json" where
  "snapshot_json args li recent l =
     (let s = lp_sched l in JObj
       [(''now'', now_json (li_t li) s),
        (''next'', next_json s),
        (''paused'', JBool (sh_paused (sc_show s))),
        (''cycle_seconds'', JInt (py_round (cycle_seconds (sc_rot s)))),
        (''rotation'', JArr (map JObj (rot_snapshot (sc_rot s)))),
        (''health'', health_json args li recent l)])"

text \<open>The flag is cleared before the write is tried; a write that fails is reported.\<close>

definition persist :: "bool \<Rightarrow> bool \<Rightarrow> 'r loop \<Rightarrow> 'r loop" where
  "persist has_file writable l =
     (if sc_dirty (lp_sched l)
      then l\<lparr>lp_sched := (lp_sched l)\<lparr>sc_dirty := False\<rparr>,
             lp_disk := if has_file \<and> writable then Some (save_state (sc_rot (lp_sched l))) else lp_disk l\<rparr>
      else l)"

definition publish_tick :: "bool \<Rightarrow> sched_args \<Rightarrow> loop_input \<Rightarrow> 'r loop \<Rightarrow> 'r loop" where
  "publish_tick has_file args li l =
     (let now = li_published li; window = now - lp_pub_at l in
      if 1 < lp_frames l \<and> window < 1 then l
      else
        let recent = (if 0 < window then of_int (int (lp_frames l) - int (lp_pub_frames l)) / window else 0);
            l1 = l\<lparr>lp_pub_at := now, lp_pub_frames := lp_frames l\<rparr>
        in persist has_file (li_writable li) (l1\<lparr>lp_state := snapshot_json args li recent l1\<rparr>))"

section \<open>A pass of the loop\<close>

definition pass_dt ::
  "(pyfloat \<Rightarrow> string) \<Rightarrow> (string \<Rightarrow> opt_spec list) \<Rightarrow> sched_args \<Rightarrow> rat \<Rightarrow> 'r sched \<Rightarrow> rat" where
  "pass_dt fr schemas args t s = 1 / of_int (frame_rate args (drain fr schemas args t s))"

definition loop_pass ::
  "(pyfloat \<Rightarrow> string) \<Rightarrow> (string \<Rightarrow> opt_spec list) \<Rightarrow> ('r \<Rightarrow> rat \<Rightarrow> nat \<Rightarrow> 'f) \<Rightarrow> 'f blender \<Rightarrow> bool \<Rightarrow> sched_args
     \<Rightarrow> loop_input \<Rightarrow> 'r loop \<Rightarrow> 'f option \<times> 'r loop" where
  "loop_pass fr schemas render bl has_file args li l =
     (let dt = pass_dt fr schemas args (li_t li) (lp_sched l);
          (frame, s) = run_pass fr schemas render bl args (li_alive li) (li_obeys li) (li_starts li) (li_t li) (lp_sched l);
          busy = li_sent li - li_began li;
          l1 = l\<lparr>lp_sched := s, lp_frames := Suc (lp_frames l), lp_busy := lp_busy l + busy,
                 lp_worst := max (lp_worst l) busy\<rparr>;
          l2 = publish_tick has_file args li l1;
          (due, _, late) = pace dt (lp_due l2) (li_slack li) (li_resync li)
      in (frame, l2\<lparr>lp_due := due, lp_late := lp_late l2 + (if late then 1 else 0)\<rparr>))"

text \<open>
  Between two passes the HTTP thread may queue a command, and the builder's thread may go on: it
  changes what is built, and switches off an entry whose build raises.
\<close>

datatype 'r between = Post string dict | Built "'r builder" | Build_fails nat

definition meanwhile :: "'r between \<Rightarrow> 'r sched \<Rightarrow> 'r sched" where
  "meanwhile ev s =
     (case ev of
        Post op payload \<Rightarrow> snd (submit op payload s)
      | Built b \<Rightarrow> s\<lparr>sc_b := b\<rparr>
      | Build_fails e \<Rightarrow> s\<lparr>sc_rot := update_entries (\<lambda>x. x\<lparr>e_enabled := False\<rparr>) [e] (sc_rot s)\<rparr>)"

definition loop_round ::
  "(pyfloat \<Rightarrow> string) \<Rightarrow> (string \<Rightarrow> opt_spec list) \<Rightarrow> ('r \<Rightarrow> rat \<Rightarrow> nat \<Rightarrow> 'f) \<Rightarrow> 'f blender \<Rightarrow> bool \<Rightarrow> sched_args
     \<Rightarrow> 'r between list \<times> loop_input \<Rightarrow> 'r loop \<Rightarrow> 'r loop" where
  "loop_round fr schemas render bl has_file args ev l =
     snd (loop_pass fr schemas render bl has_file args (snd ev) (l\<lparr>lp_sched := fold meanwhile (fst ev) (lp_sched l)\<rparr>))"

section \<open>Every change raises the flag\<close>

text \<open>\<open>sc_dirty\<close> is set, or nothing that is saved has changed.\<close>

definition noted :: "'r sched \<Rightarrow> 'r sched \<Rightarrow> bool" where
  "noted s s' \<longleftrightarrow> sc_dirty s' \<or> (\<not> sc_dirty s \<and> r_all (sc_rot s') = r_all (sc_rot s))"

lemma noted_trans: "noted s s' \<Longrightarrow> noted s' s'' \<Longrightarrow> noted s s''"
  by (auto simp: noted_def)

lemma noted_same: "sc_dirty s' = sc_dirty s \<Longrightarrow> r_all (sc_rot s') = r_all (sc_rot s) \<Longrightarrow> noted s s'"
  by (simp add: noted_def)

lemma jump_all: "jump p i r = (ok, r') \<Longrightarrow> r_all r' = r_all r"
  by (auto simp: jump_def Let_def split: if_splits)

lemma steering_keeps [simp]:
  "r_all (sc_rot (skip_now t gap s)) = r_all (sc_rot s)" "sc_dirty (skip_now t gap s) = sc_dirty s"
  "r_all (sc_rot (rebuild_ahead s)) = r_all (sc_rot s)" "sc_dirty (rebuild_ahead s) = sc_dirty s"
  by (simp_all add: skip_now_def rebuild_ahead_def)

lemma jump_to_keeps [simp]:
  "r_all (sc_rot (jump_to args p t s)) = r_all (sc_rot s)" "sc_dirty (jump_to args p t s) = sc_dirty s"
  by (auto simp: jump_to_def jump_all split: prod.splits bool.splits)

lemma noted_dirty: "sc_dirty s' \<Longrightarrow> noted s s'"
  by (simp add: noted_def)

lemma noted_configure:
  assumes "sched_configure fr schemas args payload t s = Inr s'"
  shows "noted s s'"
  using assms
  by (auto simp: sched_configure_def bindE_def Let_def noted_def split: sum.splits option.splits prod.splits if_splits)

lemma noted_apply:
  assumes "sched_apply fr schemas args op payload t s = Inr s'"
  shows "noted s s'"
  using assms noted_configure [of fr schemas args payload t s s']
  by (auto simp: sched_apply_def bindE_def noted_def Let_def split: sum.splits prod.splits bool.splits if_splits)

lemma noted_drain: "noted s (drain fr schemas args t s)"
proof -
  have "noted (s\<lparr>sc_commands := []\<rparr>) (fold (apply_or_warn fr schemas args t) cmds (s\<lparr>sc_commands := []\<rparr>))" for cmds
  proof (induction cmds rule: rev_induct)
    case (snoc c cmds)
    let ?s = "fold (apply_or_warn fr schemas args t) cmds (s\<lparr>sc_commands := []\<rparr>)"
    have "noted ?s (apply_or_warn fr schemas args t c ?s)"
      by (auto simp: apply_or_warn_def noted_apply noted_same split: sum.split)
    with snoc show ?case by (auto intro: noted_trans)
  qed (simp add: noted_same)
  then show ?thesis by (simp add: drain_def noted_def)
qed

lemma children_keep [simp]:
  "sc_rot (reap alive obeys s) = sc_rot s" "sc_dirty (reap alive obeys s) = sc_dirty s"
  "r_all (sc_rot (supervise args alive obeys starts e t s)) = r_all (sc_rot s)"
  "sc_dirty (supervise args alive obeys starts e t s) = sc_dirty s"
  by (simp_all add: reap_def supervise_def Let_def)

lemma frame_keeps:
  "r_all (sc_rot (snd (sched_frame render bl args alive obeys starts t s))) = r_all (sc_rot s)"
  "sc_dirty (snd (sched_frame render bl args alive obeys starts t s)) = sc_dirty s"
  by (auto simp: sched_frame_def Let_def split: prod.splits sum.splits option.splits)

lemma noted_pass: "noted s (snd (run_pass fr schemas render bl args alive obeys starts t s))"
proof (rule noted_trans [OF noted_drain])
  show "noted (drain fr schemas args t s) (snd (run_pass fr schemas render bl args alive obeys starts t s))"
    by (rule noted_same) (simp_all add: run_pass_def Let_def frame_keeps)
qed

lemma noted_meanwhile:
  assumes "\<forall>e. ev \<noteq> Build_fails e"
  shows "noted s (meanwhile ev s)"
  using assms by (cases ev) (auto simp: meanwhile_def submit_def noted_same)

lemma noted_meanwhiles:
  assumes "\<forall>ev \<in> set evs. \<forall>e. ev \<noteq> Build_fails e"
  shows "noted s (fold meanwhile evs s)"
  using assms
proof (induction evs rule: rev_induct)
  case (snoc ev evs)
  then show ?case by (auto intro: noted_trans [OF _ noted_meanwhile])
qed (simp add: noted_same)

section \<open>What the file holds\<close>

text \<open>The flag is up, or the file is what saving would write.\<close>

definition filed :: "'r loop \<Rightarrow> bool" where
  "filed l \<longleftrightarrow> sc_dirty (lp_sched l) \<or> lp_disk l = Some (save_state (sc_rot (lp_sched l)))"

lemma save_state_cong: "r_all r' = r_all r \<Longrightarrow> save_state r' = save_state r"
  by (simp add: save_state_def saved_options_def)

lemma filed_noted:
  assumes "filed l" and "noted (lp_sched l) s" and "lp_sched l' = s" and "lp_disk l' = lp_disk l"
  shows "filed l'"
  using assms by (auto simp: filed_def noted_def dest: save_state_cong)

lemma filed_tick:
  assumes "filed l" and "li_writable li"
  shows "filed (publish_tick True args li l)"
    and "1 \<le> li_published li - lp_pub_at l \<Longrightarrow>
      lp_disk (publish_tick True args li l) = Some (save_state (sc_rot (lp_sched (publish_tick True args li l))))"
  using assms by (auto simp: filed_def publish_tick_def persist_def Let_def)

lemma loop_pass_parts:
  "\<exists>l1. lp_sched l1 = snd (run_pass fr schemas render bl args (li_alive li) (li_obeys li) (li_starts li) (li_t li) (lp_sched l))
     \<and> lp_disk l1 = lp_disk l \<and> lp_pub_at l1 = lp_pub_at l
     \<and> lp_sched (snd (loop_pass fr schemas render bl f args li l)) = lp_sched (publish_tick f args li l1)
     \<and> lp_disk (snd (loop_pass fr schemas render bl f args li l)) = lp_disk (publish_tick f args li l1)
     \<and> lp_pub_at (snd (loop_pass fr schemas render bl f args li l)) = lp_pub_at (publish_tick f args li l1)"
  by (rule exI [of _ "l\<lparr>lp_sched := snd (run_pass fr schemas render bl args (li_alive li) (li_obeys li) (li_starts li) (li_t li) (lp_sched l)),
      lp_frames := Suc (lp_frames l), lp_busy := lp_busy l + (li_sent li - li_began li),
      lp_worst := max (lp_worst l) (li_sent li - li_began li)\<rparr>"])
    (simp add: loop_pass_def Let_def split: prod.splits)

lemma filed_pass:
  assumes "filed l" and "li_writable li"
  shows "filed (snd (loop_pass fr schemas render bl True args li l))"
    and "1 \<le> li_published li - lp_pub_at l \<Longrightarrow>
      lp_disk (snd (loop_pass fr schemas render bl True args li l))
        = Some (save_state (sc_rot (lp_sched (snd (loop_pass fr schemas render bl True args li l)))))"
proof -
  obtain l1 where l1: "lp_sched l1 = snd (run_pass fr schemas render bl args (li_alive li) (li_obeys li) (li_starts li) (li_t li) (lp_sched l))"
      "lp_disk l1 = lp_disk l" "lp_pub_at l1 = lp_pub_at l"
    and l': "lp_sched (snd (loop_pass fr schemas render bl True args li l)) = lp_sched (publish_tick True args li l1)"
      "lp_disk (snd (loop_pass fr schemas render bl True args li l)) = lp_disk (publish_tick True args li l1)"
    using loop_pass_parts by blast
  have "filed l1" by (rule filed_noted [OF assms(1) noted_pass l1(1,2)])
  note tick = filed_tick [OF this assms(2), where args = args]
  show "filed (snd (loop_pass fr schemas render bl True args li l))"
    using tick(1) by (simp add: filed_def l')
  show "lp_disk (snd (loop_pass fr schemas render bl True args li l))
      = Some (save_state (sc_rot (lp_sched (snd (loop_pass fr schemas render bl True args li l)))))"
    if "1 \<le> li_published li - lp_pub_at l"
    using tick(2) that l1(3) by (simp add: l')
qed

definition all_build :: "'r between list \<times> loop_input \<Rightarrow> bool" where
  "all_build ev \<longleftrightarrow> list_all (\<lambda>x. case x of Build_fails _ \<Rightarrow> False | _ \<Rightarrow> True) (fst ev)"

lemma filed_between:
  assumes "filed l" and "all_build (evs, li)"
  shows "filed (l\<lparr>lp_sched := fold meanwhile evs (lp_sched l)\<rparr>)"
proof (rule filed_noted [OF assms(1)])
  show "noted (lp_sched l) (fold meanwhile evs (lp_sched l))"
    using assms(2) by (intro noted_meanwhiles) (auto simp: all_build_def list_all_iff)
qed simp_all

lemma filed_rounds:
  "filed l \<Longrightarrow> list_all (\<lambda>ev. all_build ev \<and> li_writable (snd ev)) rounds \<Longrightarrow>
     filed (fold (loop_round fr schemas render bl True args) rounds l)"
proof (induction rounds arbitrary: l)
  case (Cons ev rounds)
  then have "filed (loop_round fr schemas render bl True args ev l)"
    by (cases ev) (auto simp: loop_round_def intro!: filed_pass(1) filed_between)
  with Cons show ?case by simp
qed simp

text \<open>
  C30. No edit is lost: while the builds succeed and the file can be written, whatever commands are
  queued between the frames, the state file holds exactly what saving the rotation would write after
  every pass that ends a second or more after the last snapshot, the edits of that very pass included.
\<close>

theorem edits_reach_the_disk:
  assumes "filed l" and "list_all (\<lambda>ev. all_build ev \<and> li_writable (snd ev)) (rounds @ [(evs, li)])"
    and "l1 = fold (loop_round fr schemas render bl True args) rounds l"
    and "1 \<le> li_published li - lp_pub_at l1"
    and "l2 = loop_round fr schemas render bl True args (evs, li) l1"
  shows "lp_disk l2 = Some (save_state (sc_rot (lp_sched l2)))"
proof -
  have "filed l1" unfolding assms(3) using assms(2) by (intro filed_rounds [OF assms(1)]) simp
  then have "filed (l1\<lparr>lp_sched := fold meanwhile evs (lp_sched l1)\<rparr>)"
    using assms(2) by (intro filed_between) auto
  then show ?thesis
    using assms(2,4) unfolding assms(5) loop_round_def by (intro filed_pass(2)) auto
qed

section \<open>A write that fails\<close>

lemma idle_pass:
  assumes "sc_commands s = []"
  shows "drain fr schemas args t s = s"
  using assms by (simp add: drain_def)

lemma commands_kept:
  "sc_commands (snd (sched_frame render bl args alive obeys starts t s)) = sc_commands s"
  by (auto simp: sched_frame_def skip_now_def supervise_def reap_def Let_def split: prod.splits sum.splits option.splits)

definition quiet_round :: "'r between list \<times> loop_input \<Rightarrow> bool" where
  "quiet_round ev \<longleftrightarrow> list_all (\<lambda>x. case x of Built _ \<Rightarrow> True | _ \<Rightarrow> False) (fst ev)"

text \<open>Nothing queued and nothing to write.\<close>

definition settled_file :: "'r sched \<Rightarrow> 'r sched \<Rightarrow> bool" where
  "settled_file s s' \<longleftrightarrow> sc_commands s' = sc_commands s \<and> sc_dirty s' = sc_dirty s \<and> r_all (sc_rot s') = r_all (sc_rot s)"

lemma quiet_between:
  "list_all (\<lambda>x. case x of Built _ \<Rightarrow> True | _ \<Rightarrow> False) evs \<Longrightarrow> settled_file s (fold meanwhile evs s)"
  by (induction evs arbitrary: s)
    (auto simp: settled_file_def meanwhile_def split: between.splits)

lemma quiet_run_pass:
  assumes "sc_commands s = []"
  shows "settled_file s (snd (run_pass fr schemas render bl args alive obeys starts t s))"
  using assms by (simp add: settled_file_def run_pass_def Let_def idle_pass frame_keeps commands_kept)

lemma quiet_loop_round:
  assumes "quiet_round ev" and "sc_commands (lp_sched l) = []"
    and "\<not> sc_dirty (lp_sched l) \<or> \<not> li_writable (snd ev)"
    and l'_def: "l' = loop_round fr schemas render bl f args ev l"
  shows "lp_disk l' = lp_disk l" and "r_all (sc_rot (lp_sched l')) = r_all (sc_rot (lp_sched l))"
    and "sc_commands (lp_sched l') = []"
    and "sc_dirty (lp_sched l') \<Longrightarrow> sc_dirty (lp_sched l)"
    and "1 \<le> li_published (snd ev) - lp_pub_at l \<Longrightarrow> \<not> sc_dirty (lp_sched l')"
proof -
  let ?l = "l\<lparr>lp_sched := fold meanwhile (fst ev) (lp_sched l)\<rparr>"
  have s: "settled_file (lp_sched l) (lp_sched ?l)"
    using quiet_between assms(1) by (simp add: quiet_round_def)
  obtain l1 where l1: "lp_sched l1 = snd (run_pass fr schemas render bl args (li_alive (snd ev)) (li_obeys (snd ev))
        (li_starts (snd ev)) (li_t (snd ev)) (lp_sched ?l))"
      "lp_disk l1 = lp_disk ?l" "lp_pub_at l1 = lp_pub_at ?l"
    and l': "lp_sched l' = lp_sched (publish_tick f args (snd ev) l1)" "lp_disk l' = lp_disk (publish_tick f args (snd ev) l1)"
    unfolding l'_def loop_round_def using loop_pass_parts by blast
  have "settled_file (lp_sched ?l) (lp_sched l1)"
    unfolding l1(1) using s assms(2) by (intro quiet_run_pass) (simp add: settled_file_def)
  with s have "settled_file (lp_sched l) (lp_sched l1)" by (simp add: settled_file_def)
  then show "lp_disk l' = lp_disk l" "r_all (sc_rot (lp_sched l')) = r_all (sc_rot (lp_sched l))"
      "sc_commands (lp_sched l') = []" "sc_dirty (lp_sched l') \<Longrightarrow> sc_dirty (lp_sched l)"
      "1 \<le> li_published (snd ev) - lp_pub_at l \<Longrightarrow> \<not> sc_dirty (lp_sched l')"
    using assms(2,3) l1(2,3) by (auto simp: l' settled_file_def publish_tick_def persist_def Let_def split: if_splits)
qed

lemma quiet_rounds:
  assumes "\<not> sc_dirty (lp_sched l)" and "sc_commands (lp_sched l) = []" and "list_all quiet_round rounds"
  shows "lp_disk (fold (loop_round fr schemas render bl f args) rounds l) = lp_disk l
    \<and> r_all (sc_rot (lp_sched (fold (loop_round fr schemas render bl f args) rounds l))) = r_all (sc_rot (lp_sched l))"
  using assms
proof (induction rounds arbitrary: l)
  case (Cons ev rounds)
  have q: "quiet_round ev" "\<not> sc_dirty (lp_sched l) \<or> \<not> li_writable (snd ev)" using Cons.prems by simp_all
  note r = quiet_loop_round [OF q(1) Cons.prems(2) q(2) refl, where fr = fr and schemas = schemas and render = render
      and bl = bl and f = f and args = args]
  show ?case using Cons.IH [of "loop_round fr schemas render bl f args ev l"] r Cons.prems by auto
qed simp

text \<open>
  C39. A write that fails is not tried again: the flag was cleared before the attempt, so when the
  file cannot be written on the tick that would save an edit, the edit stays out of the file through
  all later passes, writable or not, until somebody makes another edit, although the rotation has it.
\<close>

theorem failed_save_is_not_retried:
  assumes "sc_dirty (lp_sched l)" and "sc_commands (lp_sched l) = []"
    and "quiet_round ev" and "\<not> li_writable (snd ev)" and "1 \<le> li_published (snd ev) - lp_pub_at l"
    and "list_all quiet_round rounds"
    and "l' = fold (loop_round fr schemas render bl f args) (ev # rounds) l"
  shows "lp_disk l' = lp_disk l \<and> r_all (sc_rot (lp_sched l')) = r_all (sc_rot (lp_sched l))"
proof -
  let ?l1 = "loop_round fr schemas render bl f args ev l"
  have "\<not> sc_dirty (lp_sched l) \<or> \<not> li_writable (snd ev)" using assms(4) by simp
  note r = quiet_loop_round [OF assms(3,2) this refl, where fr = fr and schemas = schemas and render = render
      and bl = bl and f = f and args = args]
  show ?thesis
    using quiet_rounds [OF r(5) [OF assms(5)] r(3) assms(6), where fr = fr and schemas = schemas and render = render
      and bl = bl and f = f and args = args] r(1,2) by (simp add: assms(7))
qed

text \<open>
  A build that failed once is filed like an entry somebody switched off: if anything is saved
  afterwards, the entry of that name stays off through every restart.
\<close>

lemma broken_build_is_filed:
  assumes "e < length (r_all (sc_rot s))" and "i < length entries"
    and "e_name (entries ! i) = e_name (r_all (sc_rot s) ! e)"
  shows "\<not> e_enabled (load_state fr schemas (Some (JObj (save_state (sc_rot (meanwhile (Build_fails e) s))))) entries ! i)"
proof -
  let ?r = "update_entries (\<lambda>x. x\<lparr>e_enabled := False\<rparr>) [e] (sc_rot s)"
  let ?off = "map (\<lambda>e. JStr (e_name e)) (filter (\<lambda>e. \<not> e_enabled e) (r_all ?r))"
  have "r_all ?r ! e = (r_all (sc_rot s) ! e)\<lparr>e_enabled := False\<rparr>" "e < length (r_all ?r)"
    using assms(1) by (simp_all add: update_entries_def)
  then have "(r_all (sc_rot s) ! e)\<lparr>e_enabled := False\<rparr> \<in> set (r_all ?r)" by (metis nth_mem)
  then have "JStr (e_name (entries ! i)) \<in> set ?off"
    unfolding assms(3) by (auto intro!: image_eqI [where x = "(r_all (sc_rot s) ! e)\<lparr>e_enabled := False\<rparr>"])
  then show ?thesis
    using assms(2) by (simp add: meanwhile_def load_saved restore_entry_def Let_def split: sum.split)
qed

section \<open>The published position\<close>

text \<open>
  The snapshot and the commands number the running order the same way: the position published
  for what comes next is inside it, and a jump to that position leaves the same entry next.
\<close>

theorem published_next_can_be_jumped_to:
  assumes "entry_at s (Suc (sh_index (sc_show s))) = Some e"
  shows "\<exists>p. next_json s = JObj
      [(''name'', JStr (e_name (r_all (sc_rot s) ! e))), (''position'', JInt p),
       (''transition'', JStr (transition_for (sc_rot s) (Suc (sh_index (sc_show s))))),
       (''ready'', JBool (b_ready (sc_b s) (Suc (sh_index (sc_show s))) \<noteq> None))]
    \<and> (\<exists>r. jump p (int (sh_index (sc_show s)) + 1) (sc_rot s) = (True, r)
        \<and> rot_at r (int (sh_index (sc_show s)) + 1) = Some e)"
proof -
  let ?r = "sc_rot s" and ?i = "int (sh_index (sc_show s)) + 1"
  have at: "rot_at ?r ?i = Some e" using assms by (simp add: entry_at_def add.commute)
  then have l: "live ?r \<noteq> []" and e: "e = live ?r ! nat ((?i + r_offset ?r) mod int (length (live ?r)))"
    by (auto simp: rot_at_def Let_def split: if_splits)
  define k where "k = nat ((?i + r_offset ?r) mod int (length (live ?r)))"
  have k: "k < length (live ?r)" using l by (simp add: k_def nat_less_iff)
  have pos: "position_of (Some e) ?r = int k" using position_of_live [OF k] e by (simp add: k_def)
  have j: "fst (jump (int k) ?i ?r)" and land: "rot_at (snd (jump (int k) ?i ?r)) (?i + 0) = Some (live ?r ! (nat ((int k + 0) mod int (length (live ?r)))))"
    using jump_at [where p = "int k" and r = ?r and k = ?i] jump_at(2) [where p = "int k" and r = ?r and k = ?i and d = 0] k by simp_all
  have "rot_at (snd (jump (int k) ?i ?r)) ?i = Some e"
    using land k e by (simp add: k_def [symmetric])
  then show ?thesis
    using j pos assms by (intro exI [of _ "int k"])
      (auto simp: next_json_def Let_def intro!: exI [of _ "snd (jump (int k) ?i ?r)"] prod_eqI)
qed

section \<open>Two entries on a wall\<close>

definition two_on_wall :: "nat sched" where
  "two_on_wall =
     \<lparr>sc_rot = Rotation [Entry ''py'' ''maze'' 30 0 [] 0 False [] True [] True None, Entry ''py'' ''fire'' 20 0 [] 0 False [] True [] True None],
      sc_b = b_start 0 30 (new_builder 2), sc_show = ft_show 2 2, sc_commands = [],
      sc_dirty = False, sc_child = False, sc_child_entry = None, sc_log = []\<rparr>"

definition wall_args :: sched_args where
  "wall_args = \<lparr>ar_transition = 2, ar_fps = 20, ar_layer = 1\<rparr>"

definition tick_at :: "rat \<Rightarrow> bool \<Rightarrow> loop_input" where
  "tick_at t writable =
     \<lparr>li_t = t, li_began = t, li_sent = t, li_published = t, li_slack = t, li_resync = t, li_alive = False,
      li_obeys = False, li_starts = False, li_dropped = 0, li_writable = writable\<rparr>"

abbreviation wall_round :: "nat between list \<times> loop_input \<Rightarrow> nat loop \<Rightarrow> nat loop" where
  "wall_round \<equiv> loop_round (\<lambda>_. []) (\<lambda>_. []) (\<lambda>r _ _. r) plain_blender True wall_args"

definition fire_off :: "nat between" where
  "fire_off = Post ''toggle'' [(''name'', JStr ''fire''), (''on'', JBool False)]"

abbreviation first_round :: "nat loop" where
  "first_round \<equiv> fold wall_round [([], tick_at 0 True)]
     (start_loop two_on_wall (Some (save_state (sc_rot two_on_wall))) 0 0)"

theorem edits_reach_the_disk_witness:
  "lp_disk (wall_round ([fire_off], tick_at 2 True) first_round)
     = Some (save_state (sc_rot (lp_sched (wall_round ([fire_off], tick_at 2 True) first_round))))"
proof (rule edits_reach_the_disk [where rounds = "[([], tick_at 0 True)]"
      and l = "start_loop two_on_wall (Some (save_state (sc_rot two_on_wall))) 0 0"])
  show "1 \<le> li_published (tick_at 2 True) - lp_pub_at first_round" by code_simp
qed (simp_all add: filed_def start_loop_def all_build_def fire_off_def tick_at_def)

text \<open>The file of that run, as written.\<close>

lemma fire_off_is_filed:
  "lp_disk (wall_round ([fire_off], tick_at 2 True) first_round)
     = Some [(''disabled'', JArr [JStr ''fire'']), (''options'', JObj [])]"
  by code_simp

theorem failed_save_is_not_retried_witness:
  "lp_disk (fold wall_round [([], tick_at 2 False), ([], tick_at 4 True)]
     (start_loop (two_on_wall\<lparr>sc_dirty := True\<rparr>) None 0 0)) = None"
  using failed_save_is_not_retried [of "start_loop (two_on_wall\<lparr>sc_dirty := True\<rparr>) None 0 0"
      "([], tick_at 2 False)" "[([], tick_at 4 True)]" _ "\<lambda>_. []" "\<lambda>_. []" "\<lambda>r _ _. r" plain_blender True wall_args,
      OF _ _ _ _ _ _ refl]
  by (simp add: start_loop_def two_on_wall_def quiet_round_def tick_at_def)

theorem published_next_can_be_jumped_to_witness:
  "\<exists>p r. jump p 1 (sc_rot two_on_wall) = (True, r) \<and> rot_at r 1 = Some 1"
proof -
  have "sh_index (sc_show two_on_wall) = 0" "entry_at two_on_wall 1 = Some 1" by code_simp+
  with published_next_can_be_jumped_to [of two_on_wall 1] show ?thesis by auto
qed
end
