(* ===== verification/FT_Playlist.thy ===== *)
theory FT_Playlist
  imports FT_Show
begin

text \<open>
  The playlist of \<open>src/demos/megademo.py\<close>: parsing the command line, finding the modules, choosing the
  transitions nobody named, and the options an effect is built with. Importing a module and its parser
  are parameters.
\<close>

section \<open>Parsing\<close>

definition PLAYLIST :: "(string \<times> rat \<times> dict) list" where
  "PLAYLIST =
     [(''starfield'', 16, []), (''fire'', 18, []), (''tunnel'', 18, [(''palette'', JStr ''ice'')]), (''boing'', 14, []),
      (''metaballs'', 18, [(''palette'', JStr ''magma'')]), (''water'', 16, []), (''daliclock'', 14, []), (''floor'', 16, []),
      (''fireworks'', 16, []), (''rotozoom'', 18, [(''palette'', JStr ''rainbow'')]), (''cycle'', 16, []), (''scroller'', 26, [])]"

definition TRANSITIONS :: "string list" where
  "TRANSITIONS = [''cut'', ''crossfade'', ''wipe'', ''black'', ''flash'']"

datatype playlist_error = UnknownTransition string | EmptyPlaylist | BadSeconds string | NothingPlayable

record item =
  pi_name :: string
  pi_seconds :: pyfloat
  pi_overrides :: dict
  pi_transition :: "string option"

text \<open>\<open>parts[k]\<close> when it is there and not empty.\<close>

definition part :: "string list \<Rightarrow> nat \<Rightarrow> string option" where
  "part parts k = (if k < length parts \<and> parts ! k \<noteq> [] then Some (parts ! k) else None)"

definition override_of :: "string \<Rightarrow> string \<times> json" where
  "override_of kv =
     (let (key, _, v) = partition_at (CHR ''='') kv
      in (map (\<lambda>c. if c = CHR ''-'' then CHR ''_'' else c) (strip key), JStr (strip v)))"

definition overrides_of :: "string \<Rightarrow> dict" where
  "overrides_of opts =
     fold (\<lambda>kv d. if kv = [] then d else (case override_of kv of (k, v) \<Rightarrow> AList.update k v d))
       (if opts = [] then [] else split_on (CHR ''+'') opts) []"

definition parse_item :: "pyfloat \<Rightarrow> string \<Rightarrow> playlist_error + item" where
  "parse_item default_seconds text =
     (let (head, _, opts) = partition_at (CHR ''+'') text;
          parts = split_on (CHR '':'') head;
          trans = map_option strip (part parts 2)
      in bindE (case part parts 1 of
                  None \<Rightarrow> Inr default_seconds
                | Some s \<Rightarrow> (case float_of_str s of None \<Rightarrow> Inl (BadSeconds s) | Some f \<Rightarrow> Inr f)) (\<lambda>seconds.
         if trans \<noteq> None \<and> trans \<noteq> Some [] \<and> the trans \<notin> set TRANSITIONS then Inl (UnknownTransition (the trans))
         else Inr \<lparr>pi_name = strip (parts ! 0), pi_seconds = seconds, pi_overrides = overrides_of opts, pi_transition = trans\<rparr>))"

fun parse_items :: "pyfloat \<Rightarrow> string list \<Rightarrow> playlist_error + item list" where
  "parse_items default_seconds [] = Inr []"
| "parse_items default_seconds (x # xs) =
     (if strip x = [] then parse_items default_seconds xs
      else bindE (parse_item default_seconds (strip x)) (\<lambda>i. bindE (parse_items default_seconds xs) (\<lambda>items. Inr (i # items))))"

definition parse_playlist :: "string \<Rightarrow> pyfloat \<Rightarrow> playlist_error + item list" where
  "parse_playlist text default_seconds =
     bindE (parse_items default_seconds (split_on (CHR '','') text)) (\<lambda>out.
       if out = [] then Inl EmptyPlaylist else Inr out)"

section \<open>Building\<close>

definition coerce :: "json \<Rightarrow> json \<Rightarrow> py_error + json" where
  "coerce v current =
     (case v of
        JStr s \<Rightarrow>
          (case current of
             JNull \<Rightarrow> Inr v
           | JBool _ \<Rightarrow> Inr (JBool (lower s \<in> {''1'', ''true'', ''yes'', ''on''}))
           | JInt _ \<Rightarrow> map_sum id JInt (py_int v)
           | JFloat _ \<Rightarrow> map_sum id JFloat (py_float v)
           | _ \<Rightarrow> Inr v)
      | _ \<Rightarrow> Inr v)"

text \<open>An override the effect has no option for is reported and skipped; a bad value raises.\<close>

fun build_options :: "dict \<Rightarrow> dict \<Rightarrow> py_error + dict" where
  "build_options opts [] = Inr opts"
| "build_options opts ((key, v) # rest) =
     (case dget opts key of
        None \<Rightarrow> build_options opts rest
      | Some current \<Rightarrow> bindE (coerce v current) (\<lambda>w. build_options (AList.update key w opts) rest))"

record show_segment =
  sg_name :: string
  sg_seconds :: pyfloat
  sg_overrides :: dict
  sg_transition :: string

text \<open>\<open>playable\<close>: the module is there and has a \<open>build\<close>.\<close>

definition resolve :: "(string \<Rightarrow> bool) \<Rightarrow> item list \<Rightarrow> playlist_error + show_segment list" where
  "resolve playable entries =
     (let kept = filter (\<lambda>e. playable (pi_name e)) entries; n = length kept
      in if kept = [] then Inl NothingPlayable
         else Inr (map (\<lambda>i. let e = kept ! i; prev = kept ! (if i = 0 then n - 1 else i - 1)
                            in \<lparr>sg_name = pi_name e, sg_seconds = pi_seconds e, sg_overrides = pi_overrides e,
                                sg_transition = (case pi_transition e of
                                   Some t \<Rightarrow> t | None \<Rightarrow> pick_transition (pi_name prev) (pi_name e) i)\<rparr>)
                    [0..<n]))"

section \<open>Splitting what was joined\<close>

fun joined :: "char \<Rightarrow> string list \<Rightarrow> string" where
  "joined c [] = []"
| "joined c [x] = x"
| "joined c (x # y # ys) = x @ c # joined c (y # ys)"

lemma partition_at_sep [simp]: "c \<notin> set h \<Longrightarrow> partition_at c (h @ c # t) = (h, True, t)"
  by (induction h) (auto simp: partition_at_def)

lemma partition_at_none [simp]: "c \<notin> set h \<Longrightarrow> partition_at c h = (h, False, [])"
  by (induction h) (auto simp: partition_at_def)

lemma split_on_joined: "\<forall>x \<in> set xs. c \<notin> set x \<Longrightarrow> xs \<noteq> [] \<Longrightarrow> split_on c (joined c xs) = xs"
  by (induction c xs rule: joined.induct) (simp_all add: split_on.simps)

lemma set_joined: "d \<noteq> c \<Longrightarrow> d \<in> set (joined c xs) \<Longrightarrow> \<exists>x \<in> set xs. d \<in> set x"
  by (induction c xs rule: joined.induct) auto

lemma joined_Nil: "xs \<noteq> [] \<Longrightarrow> \<forall>x \<in> set xs. x \<noteq> [] \<Longrightarrow> joined c xs \<noteq> []"
  by (cases "(c, xs)" rule: joined.cases) auto

lemma last_joined: "xs \<noteq> [] \<Longrightarrow> \<forall>x \<in> set xs. x \<noteq> [] \<Longrightarrow> last (joined c xs) = last (last xs)"
proof (induction c xs rule: joined.induct)
  case (3 c x y ys)
  then show ?case using joined_Nil [of "y # ys" c] by simp
qed simp_all

lemma hd_joined: "x \<noteq> [] \<Longrightarrow> hd (joined c (x # xs)) = hd x"
  by (cases xs) simp_all

section \<open>A playlist written out\<close>

text \<open>A word has no separator and no blank in it; a value may hold any of them but a comma and a plus.\<close>

definition plain_word :: "string \<Rightarrow> bool" where
  "plain_word s \<longleftrightarrow> s \<noteq> [] \<and> (\<forall>c \<in> set s. c \<notin> {CHR '','', CHR '':'', CHR ''+'', CHR ''='', CHR ''-''} \<and> \<not> is_ws c)"

definition plain_value :: "string \<Rightarrow> bool" where
  "plain_value s \<longleftrightarrow> CHR '','' \<notin> set s \<and> CHR ''+'' \<notin> set s \<and> (s = [] \<or> \<not> is_ws (hd s) \<and> \<not> is_ws (last s))"

text \<open>An entry as a user thinks of it: name, whole seconds, options in order, transition.\<close>

type_synonym wish = "string \<times> nat \<times> (string \<times> string) list \<times> string option"

definition plain_wish :: "wish \<Rightarrow> bool" where
  "plain_wish = (\<lambda>(name, secs, ov, tr). plain_word name \<and> int secs < FLOAT_OVERFLOW
     \<and> list_all (\<lambda>(k, v). plain_word k \<and> plain_value v) ov \<and> distinct (map fst ov)
     \<and> (case tr of None \<Rightarrow> True | Some t \<Rightarrow> t \<in> set TRANSITIONS))"

definition wish_head :: "wish \<Rightarrow> string" where
  "wish_head = (\<lambda>(name, secs, ov, tr). joined (CHR '':'') ([name, nat_str secs] @ (case tr of None \<Rightarrow> [] | Some t \<Rightarrow> [t])))"

definition wish_text :: "wish \<Rightarrow> string" where
  "wish_text = (\<lambda>(name, secs, ov, tr). joined (CHR ''+'')
     (wish_head (name, secs, ov, tr) # map (\<lambda>(k, v). k @ CHR ''='' # v) ov))"

definition wish_item :: "wish \<Rightarrow> item" where
  "wish_item = (\<lambda>(name, secs, ov, tr).
     \<lparr>pi_name = name, pi_seconds = Fin (of_nat secs), pi_overrides = map (\<lambda>(k, v). (k, JStr v)) ov, pi_transition = tr\<rparr>)"

lemma plain_wordD:
  assumes "plain_word s"
  shows "s \<noteq> []" "CHR '','' \<notin> set s" "CHR '':'' \<notin> set s" "CHR ''+'' \<notin> set s" "CHR ''='' \<notin> set s" "CHR ''-'' \<notin> set s"
  using assms unfolding plain_word_def by blast+

lemma plain_valueD:
  assumes "plain_value s"
  shows "CHR '','' \<notin> set s" "CHR ''+'' \<notin> set s"
  using assms unfolding plain_value_def by blast+

lemma plain_word_strip: "plain_word s \<Longrightarrow> strip s = s"
  by (rule strip_none) (auto simp: plain_word_def)

lemma plain_value_strip: "plain_value s \<Longrightarrow> strip s = s"
  by (cases "s = []") (auto simp: plain_value_def strip_def lstrip_def rstrip_def intro: strip_none [unfolded strip_def lstrip_def rstrip_def])

lemma lower_digits: "lower (nat_str n) = nat_str n"
proof -
  have "lower_char c = c" if "c \<in> set (nat_str n)" for c
    using nat_str_digits [OF that] by (simp add: lower_char_def)
  then show ?thesis by (simp add: lower_def map_idI)
qed

lemma nat_str_letter: "(57 :: nat) < of_char c \<or> of_char c < (48 :: nat) \<Longrightarrow> c \<notin> set (nat_str n)"
  using nat_str_digits [of c n] by auto

lemma float_of_nat_str: "int n < FLOAT_OVERFLOW \<Longrightarrow> float_of_str (nat_str n) = Some (Fin (of_nat n))"
proof -
  assume n: "int n < FLOAT_OVERFLOW"
  have st: "strip (nat_str n) = nat_str n"
    by (rule strip_none) (use nat_str_not [OF hd_in_set, of n] nat_str_not [OF last_in_set, of n] in simp_all)
  obtain c cs where s: "nat_str n = c # cs" by (cases "nat_str n") auto
  then have sg: "take_sign (nat_str n) = (False, nat_str n)"
    using nat_str_not [of c n] by (simp add: take_sign_def)
  have e: "CHR ''e'' \<notin> set (nat_str n)" and dot: "CHR ''.'' \<notin> set (nat_str n)"
    and i: "CHR ''i'' \<notin> set (nat_str n)" and a: "CHR ''a'' \<notin> set (nat_str n)"
    by (rule nat_str_letter; simp)+
  have ne: "nat_str n \<noteq> ''inf''" "nat_str n \<noteq> ''infinity''" "nat_str n \<noteq> ''nan''"
    using i a by auto
  have "(of_nat n :: rat) < of_int FLOAT_OVERFLOW"
    using n by (subst of_int_of_nat_eq [symmetric]) (simp only: of_int_less_iff)
  moreover have "- of_int FLOAT_OVERFLOW < (of_nat n :: rat)"
  proof -
    have "0 < FLOAT_OVERFLOW" using n by linarith
    then have "(0 :: rat) < of_int FLOAT_OVERFLOW" by (simp only: of_int_0_less_iff)
    moreover have "(0 :: rat) \<le> of_nat n" by simp
    ultimately show ?thesis by linarith
  qed
  ultimately have cl: "clamp_float (of_nat n) = Fin (of_nat n)" by (simp add: clamp_float_def)
  show ?thesis
    using ne e dot cl by (simp add: float_of_str_def st sg lower_digits mantissa_of_str_def digit_run_nat_str0 scale10_def Let_def)
qed

lemma override_reads_back:
  assumes "plain_word k" and "plain_value v"
  shows "override_of (k @ CHR ''='' # v) = (k, JStr v)"
proof -
  have "\<And>c. c \<in> set k \<Longrightarrow> c \<noteq> CHR ''-''" using plain_wordD(6) [OF assms(1)] by metis
  then show ?thesis
    by (simp add: override_of_def plain_wordD(5) [OF assms(1)] plain_word_strip [OF assms(1)] plain_value_strip [OF assms(2)] map_idI)
qed

lemma update_fresh: "k \<notin> set (map fst d) \<Longrightarrow> AList.update k v d = d @ [(k, v)]"
  by (induction d) auto

lemma overrides_fold:
  assumes "list_all (\<lambda>(k, v). plain_word k \<and> plain_value v) ov" and "distinct (map fst ov)"
  shows "fold (\<lambda>kv d. if kv = [] then d else (case override_of kv of (k, v) \<Rightarrow> AList.update k v d))
      (map (\<lambda>(k, v). k @ CHR ''='' # v) ov) [] = map (\<lambda>(k, v). (k, JStr v)) ov"
  using assms
proof (induction ov rule: rev_induct)
  case (snoc kv ov)
  obtain k v where kv: "kv = (k, v)" by fastforce
  have "map fst (map (\<lambda>(k, v). (k, JStr v)) ov) = map fst ov" by (auto simp: case_prod_beta)
  then have "k \<notin> set (map fst (map (\<lambda>(k, v). (k, JStr v)) ov))" using snoc.prems(2) by (simp add: kv)
  then show ?case using snoc override_reads_back [of k v] by (simp add: kv update_fresh)
qed simp

lemma overrides_read_back:
  assumes "list_all (\<lambda>(k, v). plain_word k \<and> plain_value v) ov" and "distinct (map fst ov)"
  shows "overrides_of (joined (CHR ''+'') (map (\<lambda>(k, v). k @ CHR ''='' # v) ov)) = map (\<lambda>(k, v). (k, JStr v)) ov"
proof (cases "ov = []")
  case False
  let ?kvs = "map (\<lambda>(k, v). k @ CHR ''='' # v) ov"
  have ne: "?kvs \<noteq> []" "\<forall>x \<in> set ?kvs. x \<noteq> []" using False by auto
  have "\<forall>x \<in> set ?kvs. CHR ''+'' \<notin> set x"
  proof
    fix x assume "x \<in> set ?kvs"
    then obtain k v where x: "x = k @ CHR ''='' # v" and "(k, v) \<in> set ov" by auto
    then have "plain_word k" "plain_value v" using assms(1) by (auto simp: list_all_iff)
    then show "CHR ''+'' \<notin> set x" using plain_wordD(4) plain_valueD(2) by (simp add: x)
  qed
  then have "split_on (CHR ''+'') (joined (CHR ''+'') ?kvs) = ?kvs" by (rule split_on_joined [OF _ ne(1)])
  then show ?thesis using overrides_fold [OF assms] joined_Nil [OF ne, of "CHR ''+''"] by (simp add: overrides_of_def)
qed (simp add: overrides_of_def)

lemma transition_word: "t \<in> set TRANSITIONS \<Longrightarrow> plain_word t"
  by (auto simp: TRANSITIONS_def plain_word_def is_ws_def)

lemma head_splits:
  assumes "plain_wish (name, secs, ov, tr)"
  shows "split_on (CHR '':'') (wish_head (name, secs, ov, tr)) = [name, nat_str secs] @ (case tr of None \<Rightarrow> [] | Some t \<Rightarrow> [t])"
proof -
  have d: "CHR '':'' \<notin> set (nat_str secs)" by (rule nat_str_letter) simp
  have n: "CHR '':'' \<notin> set name" using assms plain_wordD(3) by (simp add: plain_wish_def)
  have t: "CHR '':'' \<notin> set t" if "tr = Some t" for t
    using assms that plain_wordD(3) [OF transition_word] by (simp add: plain_wish_def)
  show ?thesis
    unfolding wish_head_def prod.case
    by (rule split_on_joined) (simp_all add: d n t split: option.split)
qed

lemma head_plain:
  assumes "plain_wish (name, secs, ov, tr)"
  shows "CHR '','' \<notin> set (wish_head (name, secs, ov, tr))" and "CHR ''+'' \<notin> set (wish_head (name, secs, ov, tr))"
proof -
  have d: "CHR '','' \<notin> set (nat_str secs)" "CHR ''+'' \<notin> set (nat_str secs)" by (rule nat_str_letter; simp)+
  have n: "plain_word name" using assms by (simp add: plain_wish_def)
  have t: "plain_word t" if "tr = Some t" for t
    using assms that transition_word by (simp add: plain_wish_def)
  show "CHR '','' \<notin> set (wish_head (name, secs, ov, tr))" "CHR ''+'' \<notin> set (wish_head (name, secs, ov, tr))"
    using d plain_wordD(2,4) [OF n] plain_wordD(2,4) [OF t] by (cases tr; simp add: wish_head_def)+
qed

lemma wish_text_eq:
  "wish_text (name, secs, ov, tr) = wish_head (name, secs, ov, tr)
     @ (if ov = [] then [] else CHR ''+'' # joined (CHR ''+'') (map (\<lambda>(k, v). k @ CHR ''='' # v) ov))"
  by (cases ov) (simp_all add: wish_text_def)

lemma item_reads_back:
  assumes "plain_wish w"
  shows "parse_item d (wish_text w) = Inr (wish_item w)"
proof -
  obtain name secs ov tr where w: "w = (name, secs, ov, tr)" by (cases w)
  note p = assms [unfolded w]
  let ?rest = "joined (CHR ''+'') (map (\<lambda>(k, v). k @ CHR ''='' # v) ov)"
  have cut: "\<exists>b. partition_at (CHR ''+'') (wish_text w) = (wish_head (name, secs, ov, tr), b, ?rest)"
    using head_plain(2) [OF p] by (cases "ov = []") (auto simp: w wish_text_eq)
  have o': "overrides_of ?rest = map (\<lambda>(k, v). (k, JStr v)) ov"
    using p by (intro overrides_read_back) (auto simp: plain_wish_def)
  have t: "plain_word t" "t \<in> set TRANSITIONS" if "tr = Some t" for t
    using p that transition_word by (simp_all add: plain_wish_def)
  have n: "plain_word name" and secs: "int secs < FLOAT_OVERFLOW" using p by (simp_all add: plain_wish_def)
  have parts: "part ([name, nat_str secs] @ (case tr of None \<Rightarrow> [] | Some t \<Rightarrow> [t])) 1 = Some (nat_str secs)"
    "part ([name, nat_str secs] @ (case tr of None \<Rightarrow> [] | Some t \<Rightarrow> [t])) 2 = tr"
    using plain_wordD(1) [OF t(1)] by (cases tr; simp add: part_def)+
  have same: "map_option strip tr = tr" using plain_word_strip [OF t(1)] by (cases tr) simp_all
  have known: "(tr \<noteq> None \<and> tr \<noteq> Some [] \<and> the tr \<notin> set TRANSITIONS) = False" using t(2) by (cases tr) simp_all
  obtain b where b: "partition_at (CHR ''+'') (wish_text w) = (wish_head (name, secs, ov, tr), b, ?rest)" using cut by blast
  show ?thesis
    unfolding parse_item_def b Let_def prod.case head_splits [OF p] parts same known o' option.case
      float_of_nat_str [OF secs] bindE_simps if_False
    by (simp add: w wish_item_def plain_word_strip [OF n])
qed

lemma head_ends:
  assumes "plain_wish (name, secs, ov, tr)"
  shows "wish_head (name, secs, ov, tr) \<noteq> []" and "\<not> is_ws (hd (wish_head (name, secs, ov, tr)))"
    and "\<not> is_ws (last (wish_head (name, secs, ov, tr)))"
proof -
  have n: "plain_word name" using assms by (simp add: plain_wish_def)
  have t: "plain_word t" if "tr = Some t" for t
    using assms that transition_word by (simp add: plain_wish_def)
  have ends: "s \<noteq> [] \<and> \<not> is_ws (hd s) \<and> \<not> is_ws (last s)" if "plain_word s" for s
    using that unfolding plain_word_def by (simp add: last_in_set)
  have "\<not> is_ws (last (nat_str secs))" using nat_str_not [OF last_in_set, of secs] by simp
  then show "wish_head (name, secs, ov, tr) \<noteq> []" "\<not> is_ws (hd (wish_head (name, secs, ov, tr)))"
    "\<not> is_ws (last (wish_head (name, secs, ov, tr)))"
    using ends [OF n] ends [OF t] by (cases tr; simp add: wish_head_def)+
qed

lemma wish_text_ends:
  assumes "plain_wish w"
  shows "wish_text w \<noteq> []" and "strip (wish_text w) = wish_text w" and "CHR '','' \<notin> set (wish_text w)"
proof -
  obtain name secs ov tr where w: "w = (name, secs, ov, tr)" by (cases w)
  note p = assms [unfolded w]
  let ?kvs = "map (\<lambda>(k, v). k @ CHR ''='' # v) ov"
  let ?ps = "wish_head (name, secs, ov, tr) # ?kvs"
  have kv: "\<not> is_ws (last x) \<and> x \<noteq> [] \<and> CHR '','' \<notin> set x" if x: "x \<in> set ?kvs" for x
  proof -
    from x obtain k v where x: "x = k @ CHR ''='' # v" and "(k, v) \<in> set ov" by auto
    then have "plain_word k" "plain_value v" using p by (auto simp: plain_wish_def list_all_iff)
    then show ?thesis using plain_wordD(2) plain_valueD(1) by (auto simp: x plain_value_def is_ws_def)
  qed
  have ne: "\<forall>x \<in> set ?ps. x \<noteq> []" using kv head_ends(1) [OF p] by simp
  have t: "wish_text w = joined (CHR ''+'') ?ps" by (simp add: w wish_text_def)
  show "wish_text w \<noteq> []" unfolding t by (rule joined_Nil [OF _ ne]) simp
  moreover have "\<not> is_ws (hd (wish_text w))" unfolding t using head_ends(1,2) [OF p] by (simp only: hd_joined not_False_eq_True)
  moreover have "\<not> is_ws (last (wish_text w))"
    unfolding t last_joined [OF list.distinct(2) ne] using head_ends(3) [OF p] kv [OF last_in_set] by (cases "ov = []") simp_all
  ultimately show "strip (wish_text w) = wish_text w" by (rule strip_none)
  show "CHR '','' \<notin> set (wish_text w)"
    using set_joined [of "CHR '',''" "CHR ''+''" ?ps] kv head_plain(1) [OF p] unfolding t by fastforce
qed

text \<open>
  C31. A playlist reads back: entries with their seconds, options and transition, written in the
  documented form and separated by commas, are parsed to exactly those entries in order.
\<close>

theorem playlist_reads_back:
  assumes "ws \<noteq> []" and "list_all plain_wish ws"
  shows "parse_playlist (joined (CHR '','') (map wish_text ws)) d = Inr (map wish_item ws)"
proof -
  have "parse_items d (map wish_text ws) = Inr (map wish_item ws)"
    using assms(2) by (induction ws) (simp_all add: wish_text_ends item_reads_back)
  moreover have "split_on (CHR '','') (joined (CHR '','') (map wish_text ws)) = map wish_text ws"
    using assms by (intro split_on_joined) (auto simp: list_all_iff dest: wish_text_ends(3))
  ultimately show ?thesis using assms(1) by (simp add: parse_playlist_def)
qed

definition two_wishes :: "wish list" where
  "two_wishes = [(''fire'', 20, [], None), (''rotozoom'', 12, [(''palette'', ''ice''), (''spin'', ''0.3'')], Some ''wipe'')]"

lemma two_wishes_text:
  "joined (CHR '','') (map wish_text two_wishes) = ''fire:20,rotozoom:12:wipe+palette=ice+spin=0.3''"
  by code_simp

theorem playlist_reads_back_witness:
  "parse_playlist ''fire:20,rotozoom:12:wipe+palette=ice+spin=0.3'' (Fin 18) = Inr (map wish_item two_wishes)"
proof -
  have "list_all plain_wish two_wishes" by code_simp
  with playlist_reads_back [of two_wishes "Fin 18"] show ?thesis
    unfolding two_wishes_text by (simp add: two_wishes_def)
qed

section \<open>Transitions of a show\<close>

lemma parse_item_transition:
  "parse_item d x = Inr i \<Longrightarrow> (case pi_transition i of None \<Rightarrow> True | Some t \<Rightarrow> t = [] \<or> t \<in> set TRANSITIONS)"
  unfolding parse_item_def by (auto simp: Let_def bindE_Inr split: prod.splits if_splits option.splits)

lemma parse_items_transition:
  "parse_items d xs = Inr items \<Longrightarrow> i \<in> set items \<Longrightarrow>
     (case pi_transition i of None \<Rightarrow> True | Some t \<Rightarrow> t = [] \<or> t \<in> set TRANSITIONS)"
  by (induction xs arbitrary: items) (auto simp: bindE_Inr parse_item_transition split: if_splits)

lemma picked_is_known: "pick_transition a b i \<in> set TRANSITIONS"
  by (simp add: pick_transition_def TRANSITIONS_def)

text \<open>
  What a parsed playlist resolves to is every entry whose module is there, in order; no
  transition is left open, each is a known one unless the playlist gave a blank for it.
\<close>

theorem resolved_show_is_complete:
  assumes "parse_playlist text d = Inr entries" and "resolve playable entries = Inr segs"
  shows "map sg_name segs = filter playable (map pi_name entries)
    \<and> list_all (\<lambda>s. sg_transition s = [] \<or> sg_transition s \<in> set TRANSITIONS) segs"
  (is "?names \<and> ?known")
proof -
  let ?kept = "filter (\<lambda>e. playable (pi_name e)) entries"
  have segs: "segs = map (\<lambda>i. \<lparr>sg_name = pi_name (?kept ! i), sg_seconds = pi_seconds (?kept ! i), sg_overrides = pi_overrides (?kept ! i),
      sg_transition = (case pi_transition (?kept ! i) of Some t \<Rightarrow> t
        | None \<Rightarrow> pick_transition (pi_name (?kept ! (if i = 0 then length ?kept - 1 else i - 1))) (pi_name (?kept ! i)) i)\<rparr>) [0..<length ?kept]"
    using assms(2) by (auto simp: resolve_def Let_def split: if_splits)
  have "map sg_name segs = map pi_name (map ((!) ?kept) [0..<length ?kept])" by (simp add: segs)
  then have ?names by (simp only: map_nth) (simp add: filter_map o_def)
  have "case pi_transition e of None \<Rightarrow> True | Some t \<Rightarrow> t = [] \<or> t \<in> set TRANSITIONS" if "e \<in> set entries" for e
    using assms(1) that by (auto simp: parse_playlist_def bindE_Inr dest: parse_items_transition split: if_splits)
  then have "(case pi_transition (?kept ! i) of None \<Rightarrow> pick_transition a b i | Some t \<Rightarrow> t) \<in> insert [] (set TRANSITIONS)"
    if "i < length ?kept" for i a b
    using nth_mem [OF that] picked_is_known by (cases "pi_transition (?kept ! i)") fastforce+
  then have ?known by (simp add: segs list_all_iff)
  with \<open>?names\<close> show ?thesis ..
qed

text \<open>A blank between the second colon and the options is taken for the name of a transition.\<close>

lemma blank_transition_is_accepted:
  "map_sum id (map pi_transition) (parse_playlist ''fire:20: +palette=ice'' (Fin 18)) = Inr [Some []]"
  by code_simp

section \<open>Options of a build\<close>

text \<open>Overrides change options the effect has, and add none.\<close>

lemma overrides_add_nothing: "build_options opts ov = Inr opts' \<Longrightarrow> map fst opts' = map fst opts"
proof (induction opts ov rule: build_options.induct)
  case (2 opts key v rest)
  show ?case
  proof (cases "dget opts key")
    case (Some current)
    then obtain w where w: "coerce v current = Inr w" and r: "build_options (AList.update key w opts) rest = Inr opts'"
      using 2(3) by (auto simp: bindE_Inr)
    have "key \<in> set (map fst opts)" using Some by (force dest: map_of_SomeD)
    then show ?thesis using 2(2) [OF Some r] by (simp add: update_keys)
  qed (use 2 in simp)
qed simp

end
