(* ===== verification/FT_Life.thy ===== *)
theory FT_Life
  imports FT_Scheduler
begin

text \<open>
  \<open>src/demos/life.py\<close>: the game of life on a torus, with the ages and the trails of its cells, the test
  for a board that has stopped going anywhere, the fresh patch that is then dropped on it, and the
  frame loop that catches up. Boards are lists of rows; \<open>float32\<close> values are rationals; the random
  numbers are a stream of answers, one for each patch.
\<close>

section \<open>Boards\<close>

definition board_of :: "nat \<Rightarrow> nat \<Rightarrow> (nat \<Rightarrow> nat \<Rightarrow> 'a) \<Rightarrow> 'a list list" where
  "board_of H W f = map (\<lambda>y. map (\<lambda>x. f y x) [0..<W]) [0..<H]"

definition sized :: "nat \<Rightarrow> nat \<Rightarrow> 'a list list \<Rightarrow> bool" where
  "sized H W g \<longleftrightarrow> length g = H \<and> (\<forall>row \<in> set g. length row = W)"

text \<open>The scratch board: a copy of the grid with the opposite edges and corners around it.\<close>

definition pad_row :: "'a list \<Rightarrow> 'a list" where
  "pad_row row = [last row] @ row @ [hd row]"

definition pad :: "'a list list \<Rightarrow> 'a list list" where
  "pad g = [pad_row (last g)] @ map pad_row g @ [pad_row (hd g)]"

text \<open>The eight slices are added up; a sum of eight bits does not wrap in a byte.\<close>

definition neighbours :: "bool list list \<Rightarrow> nat \<Rightarrow> nat \<Rightarrow> nat" where
  "neighbours g y x =
     (let p = pad g; cell = (\<lambda>i j. of_bool (p ! (y + i) ! (x + j)))
      in cell 0 0 + cell 0 1 + cell 0 2 + cell 1 0 + cell 1 2 + cell 2 0 + cell 2 1 + cell 2 2)"

section \<open>State\<close>

record life_args =
  la_H :: nat
  la_W :: nat
  la_density :: int
  la_step_ms :: rat
  la_age_scale :: rat
  la_trails :: bool
  la_decay :: rat
  la_reseed :: int

record life =
  lf_alive :: "bool list list"
  lf_age :: "rat list list"
  lf_trail :: "rat list list"
  lf_history :: "nat list"
  lf_stagnant :: int
  lf_generation :: int
  lf_patches :: nat \<comment> \<open>how many patches the generator has been asked for\<close>

text \<open>What the generator gives: integers from a half-open range, and numbers between 0 and 1.\<close>

record life_rng =
  lr_integer :: "nat \<Rightarrow> nat \<Rightarrow> int \<Rightarrow> int \<Rightarrow> int" \<comment> \<open>patch, call within it, low, high\<close>
  lr_soup :: "nat \<Rightarrow> nat \<Rightarrow> nat \<Rightarrow> rat"

definition rng_ok :: "life_rng \<Rightarrow> bool" where
  "rng_ok r \<longleftrightarrow> (\<forall>n k lo hi. lo < hi \<longrightarrow> lo \<le> lr_integer r n k lo hi \<and> lr_integer r n k lo hi < hi)"

text \<open>\<open>rng.integers\<close> raises when the range is empty.\<close>

definition integers :: "life_rng \<Rightarrow> nat \<Rightarrow> nat \<Rightarrow> int \<Rightarrow> int \<Rightarrow> int option" where
  "integers r n k lo hi = (if lo < hi then Some (lr_integer r n k lo hi) else None)"

definition sparse_at :: "life_args \<Rightarrow> rat" where
  "sparse_at a = 1 / of_int (max (la_density a) 1)"

definition new_life :: "life_args \<Rightarrow> life_rng \<Rightarrow> life" where
  "new_life a r =
     \<lparr>lf_alive = board_of (la_H a) (la_W a) (\<lambda>y x. lr_soup r 0 y x < sparse_at a),
      lf_age = board_of (la_H a) (la_W a) (\<lambda>_ _. 0), lf_trail = board_of (la_H a) (la_W a) (\<lambda>_ _. 0),
      lf_history = [], lf_stagnant = 0, lf_generation = 0, lf_patches = 1\<rparr>"

section \<open>A generation\<close>

definition seed_patch :: "life_args \<Rightarrow> life_rng \<Rightarrow> life \<Rightarrow> life option" where
  "seed_patch a r s =
     (let n = lf_patches s; H = int (la_H a); W = int (la_W a) in
      case (integers r n 0 10 (H div 2), integers r n 1 20 (W div 3)) of
        (Some ph, Some pw) \<Rightarrow>
          (case (integers r n 2 0 (H - ph), integers r n 3 0 (W - pw)) of
             (Some y, Some x) \<Rightarrow>
               let hit = (\<lambda>i j. y \<le> int i \<and> int i < y + ph \<and> x \<le> int j \<and> int j < x + pw
                            \<and> lr_soup r n (nat (int i - y)) (nat (int j - x)) < sparse_at a)
               in Some (s\<lparr>lf_alive := board_of (la_H a) (la_W a) (\<lambda>i j. lf_alive s ! i ! j \<or> hit i j),
                          lf_age := board_of (la_H a) (la_W a) (\<lambda>i j. if hit i j then 0 else lf_age s ! i ! j),
                          lf_patches := Suc n\<rparr>)
           | _ \<Rightarrow> None)
      | _ \<Rightarrow> None)"

definition born :: "bool list list \<Rightarrow> nat \<Rightarrow> nat \<Rightarrow> bool" where
  "born g y x \<longleftrightarrow> \<not> g ! y ! x \<and> neighbours g y x = 3"

definition survives :: "bool list list \<Rightarrow> nat \<Rightarrow> nat \<Rightarrow> bool" where
  "survives g y x \<longleftrightarrow> g ! y ! x \<and> (neighbours g y x = 2 \<or> neighbours g y x = 3)"

definition next_board :: "nat \<Rightarrow> nat \<Rightarrow> bool list list \<Rightarrow> bool list list" where
  "next_board H W g = board_of H W (\<lambda>y x. survives g y x \<or> born g y x)"

definition population :: "bool list list \<Rightarrow> nat" where
  "population g = sum_list (map (\<lambda>row. length (filter id row)) g)"

text \<open>\<open>del history[:-3]\<close> keeps the last three.\<close>

definition remember_count :: "nat \<Rightarrow> nat list \<Rightarrow> nat list" where
  "remember_count n h = (let h' = h @ [n] in drop (length h' - 3) h')"

definition going_nowhere :: "nat list \<Rightarrow> bool" where
  "going_nowhere h \<longleftrightarrow> length h = 3 \<and> (h ! 0 = h ! 2 \<or> h ! 1 = h ! 2)"

definition life_rule :: "life_args \<Rightarrow> life \<Rightarrow> life" where
  "life_rule a s =
     (let g = lf_alive s; H = la_H a; W = la_W a;
          died = (\<lambda>y x. g ! y ! x \<and> \<not> survives g y x);
          g' = next_board H W g;
          h = remember_count (population g') (lf_history s)
      in s\<lparr>lf_alive := g',
           lf_trail := (if la_trails a
              then board_of H W (\<lambda>y x. la_decay a * (if died y x then 1 else lf_trail s ! y ! x)) else lf_trail s),
           lf_age := board_of H W (\<lambda>y x. if survives g y x then lf_age s ! y ! x + 1
              else if born g y x then 0 else lf_age s ! y ! x),
           lf_history := h,
           lf_stagnant := (if going_nowhere h then lf_stagnant s + 1 else 0)\<rparr>)"

definition life_step :: "life_args \<Rightarrow> life_rng \<Rightarrow> life \<Rightarrow> life option" where
  "life_step a r s =
     (let s1 = life_rule a s in
      if population (lf_alive s1) = 0 \<or> la_reseed a \<le> lf_stagnant s1
      then map_option (\<lambda>s2. s2\<lparr>lf_stagnant := 0\<rparr>) (seed_patch a r s1)
      else Some s1)"

section \<open>A frame\<close>

fun life_steps :: "life_args \<Rightarrow> life_rng \<Rightarrow> nat \<Rightarrow> life \<Rightarrow> life option" where
  "life_steps a r 0 s = Some s"
| "life_steps a r (Suc n) s =
     (case life_step a r s of None \<Rightarrow> None
      | Some s' \<Rightarrow> life_steps a r n (s'\<lparr>lf_generation := lf_generation s' + 1\<rparr>))"

definition wanted_generation :: "life_args \<Rightarrow> rat \<Rightarrow> int" where
  "wanted_generation a t = trunc (t * 1000 / la_step_ms a)"

text \<open>The place of each cell in the table of 256 colours.\<close>

definition heat :: "life_args \<Rightarrow> life \<Rightarrow> nat \<Rightarrow> nat \<Rightarrow> int" where
  "heat a s y x =
     (let h = (if lf_alive s ! y ! x then 1 - 55 / 100 * min (lf_age s ! y ! x / la_age_scale a) 1
               else lf_trail s ! y ! x * (1 / 2))
      in trunc (min (max (h * 255) 0) 255))"

definition life_frame :: "life_args \<Rightarrow> life_rng \<Rightarrow> rat \<Rightarrow> life \<Rightarrow> (int list list \<times> life) option" where
  "life_frame a r t s =
     map_option (\<lambda>s'. (board_of (la_H a) (la_W a) (heat a s'), s'))
       (life_steps a r (nat (min (max (wanted_generation a t - lf_generation s) 0) 4)) s)"

section \<open>The rule on a torus\<close>

definition offsets :: "(int \<times> int) list" where
  "offsets = [(-1, -1), (-1, 0), (-1, 1), (0, -1), (0, 1), (1, -1), (1, 0), (1, 1)]"

definition torus_count :: "nat \<Rightarrow> nat \<Rightarrow> bool list list \<Rightarrow> nat \<Rightarrow> nat \<Rightarrow> nat" where
  "torus_count H W g y x =
     length (filter (\<lambda>(dy, dx). g ! nat ((int y + dy) mod int H) ! nat ((int x + dx) mod int W)) offsets)"

definition torus_next :: "nat \<Rightarrow> nat \<Rightarrow> bool list list \<Rightarrow> nat \<Rightarrow> nat \<Rightarrow> bool" where
  "torus_next H W g y x \<longleftrightarrow> torus_count H W g y x = 3 \<or> (torus_count H W g y x = 2 \<and> g ! y ! x)"

lemma wrapped_list:
  assumes "length xs = n" and "0 < n" and "i < n + 2"
  shows "([last xs] @ xs @ [hd xs]) ! i = xs ! nat ((int i - 1) mod int n)"
proof -
  consider "i = 0" | "0 < i" "i \<le> n" | "i = n + 1" using assms(3) by linarith
  then show ?thesis
  proof cases
    case 1
    have "(-1) mod int n = int n - 1" using assms(2) by (simp add: zmod_minus1)
    moreover have "xs \<noteq> []" using assms by auto
    ultimately show ?thesis using 1 assms by (simp add: last_conv_nth nat_diff_distrib')
  next
    case 2
    then have "(int i - 1) mod int n = int (i - 1)" by (simp add: of_nat_diff)
    moreover have "nat (int i - 1) = i - 1" "i - Suc 0 < n" using 2 by linarith+
    ultimately show ?thesis using 2 assms(1) by (simp add: nth_append)
  next
    case 3
    moreover have "xs \<noteq> []" using assms by auto
    ultimately show ?thesis using assms(1) by (simp add: nth_append hd_conv_nth)
  qed
qed

lemma pad_nth:
  assumes "sized H W g" and "0 < H" and "0 < W" and "i < H + 2" and "j < W + 2"
  shows "pad g ! i ! j = g ! nat ((int i - 1) mod int H) ! nat ((int j - 1) mod int W)"
proof -
  have H: "length g = H" using assms(1) by (simp add: sized_def)
  let ?k = "nat ((int i - 1) mod int H)"
  have k: "?k < H" using assms(2) by (simp add: nat_less_iff)
  have "pad g = map pad_row ([last g] @ g @ [hd g])" by (simp add: pad_def)
  then have "pad g ! i = pad_row (([last g] @ g @ [hd g]) ! i)" using assms(4) H by (simp only:) (rule nth_map, simp)
  also have "\<dots> = pad_row (g ! ?k)" by (simp only: wrapped_list [OF H assms(2,4)])
  finally have row: "pad g ! i = pad_row (g ! ?k)" .
  have "length (g ! ?k) = W" using assms(1) k H by (simp add: sized_def)
  then show ?thesis unfolding row pad_row_def by (rule wrapped_list [OF _ assms(3,5)])
qed

lemma neighbours_torus:
  assumes "sized H W g" and "y < H" and "x < W"
  shows "neighbours g y x = torus_count H W g y x"
proof -
  have "pad g ! (y + i) ! (x + j) = g ! nat ((int y + (int i - 1)) mod int H) ! nat ((int x + (int j - 1)) mod int W)"
    if "i < 3" "j < 3" for i j
    using pad_nth [OF assms(1), of "y + i" "x + j"] assms(2,3) that by (simp add: algebra_simps)
  from this [of 0 0] this [of 0 1] this [of 0 2] this [of 1 0] this [of 1 2] this [of 2 0] this [of 2 1] this [of 2 2]
  show ?thesis
    by (simp add: neighbours_def torus_count_def offsets_def Let_def)
qed

lemma board_nth [simp]: "y < H \<Longrightarrow> x < W \<Longrightarrow> board_of H W f ! y ! x = f y x"
  by (simp add: board_of_def)

lemma sized_board [simp]: "sized H W (board_of H W f)"
  by (auto simp: sized_def board_of_def)

text \<open>
  C9. The generation that the padded sums compute is Conway's on a torus: a cell is alive next when
  three of its eight neighbours are, or two and it is itself; the neighbours of a cell at an edge are
  those of the opposite edge, whatever the size of the panel.
\<close>

theorem life_is_conway:
  assumes "sized (la_H a) (la_W a) (lf_alive s)" and "y < la_H a" and "x < la_W a"
  shows "lf_alive (life_rule a s) ! y ! x = torus_next (la_H a) (la_W a) (lf_alive s) y x"
  using neighbours_torus [OF assms] assms(2,3)
  by (auto simp: life_rule_def next_board_def Let_def survives_def born_def torus_next_def)

section \<open>A board that goes nowhere\<close>

lemma seed_patch_raises:
  "la_H a < 22 \<or> la_W a < 63 \<Longrightarrow> seed_patch a r s = None"
  by (auto simp: seed_patch_def integers_def Let_def)

lemma seed_patch_succeeds:
  assumes "rng_ok r" and "22 \<le> la_H a" and "63 \<le> la_W a"
  shows "seed_patch a r s \<noteq> None"
proof -
  let ?n = "lf_patches s"
  have lo: "10 < int (la_H a) div 2" "20 < int (la_W a) div 3" using assms(2,3) by linarith+
  then have "lr_integer r ?n 0 10 (int (la_H a) div 2) < int (la_H a) div 2"
    "lr_integer r ?n 1 20 (int (la_W a) div 3) < int (la_W a) div 3"
    using assms(1) by (simp_all add: rng_ok_def)
  then have "lr_integer r ?n 0 10 (int (la_H a) div 2) < int (la_H a)" "lr_integer r ?n 1 20 (int (la_W a) div 3) < int (la_W a)"
    by linarith+
  then show ?thesis using lo by (simp add: seed_patch_def integers_def Let_def)
qed

text \<open>Both the last two counts and the next two are those of the board and the one after it.\<close>

definition primed :: "life_args \<Rightarrow> life \<Rightarrow> bool" where
  "primed a s \<longleftrightarrow> next_board (la_H a) (la_W a) (next_board (la_H a) (la_W a) (lf_alive s)) = lf_alive s
     \<and> (\<exists>h. lf_history s = h @ [population (next_board (la_H a) (la_W a) (lf_alive s)), population (lf_alive s)])"

lemma rule_alive [simp]: "lf_alive (life_rule a s) = next_board (la_H a) (la_W a) (lf_alive s)"
  by (simp add: life_rule_def Let_def)

lemma rule_history: "lf_history (life_rule a s) =
    remember_count (population (next_board (la_H a) (la_W a) (lf_alive s))) (lf_history s)"
  by (simp add: life_rule_def Let_def)

lemma rule_stagnant: "lf_stagnant (life_rule a s) =
    (if going_nowhere (lf_history (life_rule a s)) then lf_stagnant s + 1 else 0)"
  by (simp add: life_rule_def Let_def)

lemma rule_keeps [simp]:
  "lf_generation (life_rule a s) = lf_generation s" "lf_patches (life_rule a s) = lf_patches s"
  by (simp_all add: life_rule_def Let_def)

lemma remember_three: "remember_count n (h @ [p, q]) = [p, q, n]"
  by (simp add: remember_count_def)

lemma primed_rule:
  assumes "primed a s"
  shows "primed a (life_rule a s)" and "lf_stagnant (life_rule a s) = lf_stagnant s + 1"
  using assms by (auto simp: primed_def rule_history rule_stagnant remember_three going_nowhere_def)

lemma remember_eq: "remember_count n h = drop (length h - 2) h @ [n]"
  by (simp add: remember_count_def Let_def)

lemma two_rules_prime:
  assumes "next_board (la_H a) (la_W a) (next_board (la_H a) (la_W a) (lf_alive s)) = lf_alive s"
  shows "primed a (life_rule a (life_rule a s))"
proof -
  have "\<exists>k. remember_count n (remember_count m h) = k @ [m, n]" for m n :: nat and h
    by (simp add: remember_eq)
  then show ?thesis using assms by (simp add: primed_def rule_history)
qed

text \<open>The generation at the end of which a patch is asked for.\<close>

definition asks :: "life_args \<Rightarrow> life \<Rightarrow> bool" where
  "asks a s \<longleftrightarrow> population (lf_alive (life_rule a s)) = 0 \<or> la_reseed a \<le> lf_stagnant (life_rule a s)"

lemma step_asks: "life_step a r s = (if asks a s then map_option (\<lambda>s2. s2\<lparr>lf_stagnant := 0\<rparr>) (seed_patch a r (life_rule a s))
    else Some (life_rule a s))"
  by (simp add: life_step_def asks_def Let_def)

lemma life_steps_add:
  "life_steps a r (m + n) s = (case life_steps a r m s of None \<Rightarrow> None | Some s' \<Rightarrow> life_steps a r n s')"
  by (induction m arbitrary: s) (simp_all split: option.split)

text \<open>After \<open>m\<close> generations without a patch the board asks for one.\<close>

definition asks_after :: "life_args \<Rightarrow> life_rng \<Rightarrow> nat \<Rightarrow> life \<Rightarrow> bool" where
  "asks_after a r m s \<longleftrightarrow> (\<exists>s'. life_steps a r m s = Some s' \<and> asks a s' \<and> lf_patches s' = lf_patches s)"

lemma asks_now: "asks a s \<Longrightarrow> asks_after a r 0 s"
  by (simp add: asks_after_def)

lemma asks_later:
  assumes "\<not> asks a s" and "asks_after a r m (life_rule a s\<lparr>lf_generation := lf_generation s + 1\<rparr>)"
  shows "asks_after a r (Suc m) s"
  using assms by (simp add: asks_after_def step_asks)

lemma primed_asks:
  assumes "primed a s" and "la_reseed a - lf_stagnant s \<le> 1 + int n"
  shows "\<exists>m \<le> n. asks_after a r m s"
  using assms
proof (induction n arbitrary: s)
  case 0
  then have "asks a s" using primed_rule(2) [OF 0(1)] by (simp add: asks_def)
  then show ?case using asks_now by blast
next
  case (Suc n)
  show ?case
  proof (cases "asks a s")
    case False
    let ?s = "life_rule a s\<lparr>lf_generation := lf_generation s + 1\<rparr>"
    have "primed a ?s" using primed_rule(1) [OF Suc.prems(1)] by (simp add: primed_def)
    moreover have "la_reseed a - lf_stagnant ?s \<le> 1 + int n" using primed_rule(2) [OF Suc.prems(1)] Suc.prems(2) by simp
    ultimately obtain m where "m \<le> n" "asks_after a r m ?s" using Suc.IH by blast
    then show ?thesis using asks_later [OF False] by (meson Suc_le_mono)
  qed (use asks_now in blast)
qed

lemma rule_generation [simp]:
  "life_rule a (s\<lparr>lf_generation := g\<rparr>) = (life_rule a s)\<lparr>lf_generation := g\<rparr>"
  by (simp add: life_rule_def Let_def cong: if_cong)

lemma still_board_asks:
  assumes "next_board (la_H a) (la_W a) (next_board (la_H a) (la_W a) (lf_alive s)) = lf_alive s" and "0 \<le> lf_stagnant s"
  shows "\<exists>m \<le> nat (la_reseed a) + 2. asks_after a r m s"
proof -
  let ?s1 = "life_rule a s\<lparr>lf_generation := lf_generation s + 1\<rparr>"
  let ?s2 = "life_rule a ?s1\<lparr>lf_generation := lf_generation ?s1 + 1\<rparr>"
  have "primed a ?s2" using two_rules_prime [OF assms(1)] by (simp add: primed_def)
  moreover have "0 \<le> lf_stagnant ?s2" using assms(2) by (simp add: rule_stagnant)
  then have "la_reseed a - lf_stagnant ?s2 \<le> 1 + int (nat (la_reseed a))" by linarith
  ultimately obtain m where m: "m \<le> nat (la_reseed a)" "asks_after a r m ?s2"
    using primed_asks by blast
  show ?thesis
  proof (cases "asks a s")
    case one: False
    show ?thesis
    proof (cases "asks a ?s1")
      case False
      have "asks_after a r (Suc (Suc m)) s" by (rule asks_later [OF one asks_later [OF False m(2)]])
      then show ?thesis using m(1) by (intro exI [of _ "Suc (Suc m)"]) simp
    next
      case True
      have "asks_after a r 1 s" using asks_later [OF one asks_now [OF True]] by simp
      then show ?thesis by (intro exI [of _ 1]) simp
    qed
  qed (use asks_now in blast)
qed

text \<open>
  A board that has settled is reinvaded: when it repeats after two generations (a still life,
  blinkers, nothing at all), a patch is dropped on it within the number of stagnant generations asked
  for and three more, on every panel of at least 22 rows and 63 columns.
\<close>

theorem settled_board_is_reinvaded:
  assumes "next_board (la_H a) (la_W a) (next_board (la_H a) (la_W a) (lf_alive s)) = lf_alive s" and "0 \<le> lf_stagnant s"
    and "rng_ok r" and "22 \<le> la_H a" and "63 \<le> la_W a"
  shows "\<exists>m s'. m \<le> nat (la_reseed a) + 3 \<and> life_steps a r m s = Some s' \<and> lf_patches s' = Suc (lf_patches s)"
proof -
  obtain m s' where m: "m \<le> nat (la_reseed a) + 2" "life_steps a r m s = Some s'" "asks a s'" "lf_patches s' = lf_patches s"
    using still_board_asks [OF assms(1,2), of r] by (auto simp: asks_after_def)
  obtain s'' where s'': "seed_patch a r (life_rule a s') = Some s''" using seed_patch_succeeds [OF assms(3-5)] by fastforce
  then have "lf_patches s'' = Suc (lf_patches s)"
    using m(4) by (auto simp: seed_patch_def Let_def split: option.splits)
  then have "life_steps a r (m + 1) s = Some (s''\<lparr>lf_stagnant := 0, lf_generation := lf_generation s'' + 1\<rparr>)"
    "lf_patches (s''\<lparr>lf_stagnant := 0, lf_generation := lf_generation s'' + 1\<rparr>) = Suc (lf_patches s)"
    using m(2,3) s'' unfolding life_steps_add by (simp_all add: step_asks)
  then show ?thesis using m(1) by (intro exI [of _ "m + 1"]) auto
qed

text \<open>
  C40. On a smaller panel there is no room for the range of patch sizes: the random generator is asked
  for a number from an empty range and raises, so every board that settles ends the effect.
\<close>

theorem settled_board_ends_on_small_panels:
  assumes "next_board (la_H a) (la_W a) (next_board (la_H a) (la_W a) (lf_alive s)) = lf_alive s" and "0 \<le> lf_stagnant s"
    and "la_H a < 22 \<or> la_W a < 63" and "nat (la_reseed a) + 3 \<le> n"
  shows "life_steps a r n s = None"
proof -
  obtain m s' where m: "m \<le> nat (la_reseed a) + 2" "life_steps a r m s = Some s'" "asks a s'"
    using still_board_asks [OF assms(1,2), of r] by (auto simp: asks_after_def)
  have "life_steps a r (m + 1) s = None"
    using m(2,3) seed_patch_raises [OF assms(3)] unfolding life_steps_add by (simp add: step_asks)
  moreover have "n = (m + 1) + (n - (m + 1))" using m(1) assms(4) by simp
  ultimately show ?thesis by (metis life_steps_add option.simps(4))
qed

section \<open>Catching up\<close>

lemma seed_patch_generation: "seed_patch a r s = Some s' \<Longrightarrow> lf_generation s' = lf_generation s"
  by (auto simp: seed_patch_def Let_def split: option.splits)

lemma life_steps_generation: "life_steps a r n s = Some s' \<Longrightarrow> lf_generation s' = lf_generation s + int n"
proof (induction n arbitrary: s)
  case (Suc n)
  then obtain s1 where s1: "life_step a r s = Some s1" "life_steps a r n (s1\<lparr>lf_generation := lf_generation s1 + 1\<rparr>) = Some s'"
    by (auto split: option.splits)
  have "lf_generation s1 = lf_generation s"
    using s1(1) by (auto simp: step_asks dest: seed_patch_generation split: if_splits)
  then show ?case using Suc.IH [OF s1(2)] by simp
qed simp

fun life_frames :: "life_args \<Rightarrow> life_rng \<Rightarrow> rat list \<Rightarrow> life \<Rightarrow> life option" where
  "life_frames a r [] s = Some s"
| "life_frames a r (t # ts) s =
     (case life_frame a r t s of None \<Rightarrow> None | Some (_, s') \<Rightarrow> life_frames a r ts s')"

text \<open>
  The limit of four generations a frame delays the catching up and does not give any generation
  up: after a gap, frame after frame runs four generations until all of those missed have been run.
\<close>

theorem whole_gap_is_replayed:
  assumes "life_frames a r ts s = Some s'" and "\<forall>t \<in> set ts. wanted_generation a t = w" and "lf_generation s \<le> w"
  shows "lf_generation s' = min w (lf_generation s + 4 * int (length ts))"
  using assms
proof (induction ts arbitrary: s)
  case (Cons t ts)
  then obtain f s1 where f: "life_frame a r t s = Some (f, s1)" and rest: "life_frames a r ts s1 = Some s'"
    by (auto split: option.splits)
  have "lf_generation s1 = lf_generation s + min (w - lf_generation s) 4"
    using f Cons.prems by (auto simp: life_frame_def dest: life_steps_generation)
  then have g: "lf_generation s1 = min w (lf_generation s + 4)" by linarith
  then have "lf_generation s' = min w (lf_generation s1 + 4 * int (length ts))" using Cons rest by simp
  then show ?case using g by simp
qed simp

section \<open>Small boards\<close>

definition quiet_rng :: life_rng where
  "quiet_rng = \<lparr>lr_integer = \<lambda>_ _ lo _. lo, lr_soup = \<lambda>_ _ _. 0\<rparr>"

definition board_args :: "nat \<Rightarrow> nat \<Rightarrow> life_args" where
  "board_args H W = \<lparr>la_H = H, la_W = W, la_density = 6, la_step_ms = 100, la_age_scale = 24, la_trails = True,
     la_decay = 86 / 100, la_reseed = 40\<rparr>"

definition board_life :: "nat \<Rightarrow> nat \<Rightarrow> (nat \<Rightarrow> nat \<Rightarrow> bool) \<Rightarrow> life" where
  "board_life H W f =
     \<lparr>lf_alive = board_of H W f, lf_age = board_of H W (\<lambda>_ _. 0), lf_trail = board_of H W (\<lambda>_ _. 0),
      lf_history = [], lf_stagnant = 0, lf_generation = 0, lf_patches = 1\<rparr>"

lemma empty_stays: "next_board H W (board_of H W (\<lambda>_ _. False)) = board_of H W (\<lambda>_ _. False)"
proof -
  have "torus_count H W (board_of H W (\<lambda>_ _. False)) y x = 0" if "y < H" "x < W" for y x
  proof -
    have "nat (i mod int H) < H" "nat (i mod int W) < W" for i using that by (simp_all add: nat_less_iff)
    then show ?thesis by (simp add: torus_count_def offsets_def)
  qed
  then have "neighbours (board_of H W (\<lambda>_ _. False)) y x = 0" if "y < H" "x < W" for y x
    using neighbours_torus [OF sized_board that] that by simp
  then show ?thesis
    unfolding next_board_def by (subst (1 4) board_of_def) (auto simp: born_def survives_def intro!: map_cong)
qed

theorem life_is_conway_witness:
  "lf_alive (life_rule (board_args 5 5) (board_life 5 5 (\<lambda>y x. x = 0 \<and> y \<in> {0, 1, 4}))) ! 0 ! 4
     = torus_next 5 5 (board_of 5 5 (\<lambda>y x. x = 0 \<and> y \<in> {0, 1, 4})) 0 4"
  using life_is_conway [of "board_args 5 5" "board_life 5 5 (\<lambda>y x. x = 0 \<and> y \<in> {0, 1, 4})" 0 4]
  by (simp add: board_args_def board_life_def)

text \<open>The blinker that stands across an edge and turns over it.\<close>

lemma blinker_turns:
  "next_board 5 5 (board_of 5 5 (\<lambda>y x. x = 0 \<and> y \<in> {0, 1, 4})) = board_of 5 5 (\<lambda>y x. y = 0 \<and> x \<in> {0, 1, 4})"
  by code_simp

theorem settled_board_is_reinvaded_witness:
  "\<exists>m s'. m \<le> 43 \<and> life_steps (board_args 22 63) quiet_rng m (board_life 22 63 (\<lambda>_ _. False)) = Some s' \<and> lf_patches s' = 2"
  using settled_board_is_reinvaded [of "board_args 22 63" "board_life 22 63 (\<lambda>_ _. False)" quiet_rng]
  by (simp add: board_args_def board_life_def quiet_rng_def rng_ok_def empty_stays numeral_2_eq_2)

theorem settled_board_ends_on_small_panels_witness:
  "life_steps (board_args 35 45) quiet_rng 43 (board_life 35 45 (\<lambda>_ _. False)) = None"
  by (rule settled_board_ends_on_small_panels) (simp_all add: board_args_def board_life_def empty_stays)

theorem whole_gap_is_replayed_witness:
  "lf_generation (the (life_frames (board_args 4 4) quiet_rng [1 / 2, 1 / 2] (board_life 4 4 (\<lambda>y x. y < 2 \<and> x < 2)))) = 5"
proof -
  have "life_frames (board_args 4 4) quiet_rng [1 / 2, 1 / 2] (board_life 4 4 (\<lambda>y x. y < 2 \<and> x < 2)) \<noteq> None" by code_simp
  then obtain s' where s': "life_frames (board_args 4 4) quiet_rng [1 / 2, 1 / 2] (board_life 4 4 (\<lambda>y x. y < 2 \<and> x < 2)) = Some s'" by blast
  have "wanted_generation (board_args 4 4) (1 / 2) = 5" by code_simp
  with whole_gap_is_replayed [OF s', of 5] show ?thesis unfolding s' by (simp add: board_life_def)
qed
end
