(* ===== verification/Spec2Isabelle.thy ===== *)
theory Spec2Isabelle
  imports FT_Wire FT_Banded FT_WebSocket FT_Blend FT_StateFile FT_SchedWeb FT_House FT_Goes FT_Protobuf FT_Seismo FT_Race FT_Maze
    FT_Wireworld FT_Bounce FT_Flap FT_Anagram FT_Ribbons FT_Replay FT_Live
    FT_Publish FT_Playlist FT_Life
begin

text \<open>
  A verification library for the Python side of ft-cpp, the software of an LED video wall. A client
  draws on a canvas and sends it as a datagram (\<open>src/api/python/flaschen.py\<close>); a display parses the
  datagrams into layers and flattens them (\<open>src/tools/ft-web/ft-web-server.py\<close>); a scheduler shows a
  running order of effects on the wall (\<open>src/demos/ftsched.py\<close> with the playhead and the builder of
  \<open>megademo.py\<close>); a control daemon and its bridge report to Home Assistant and take commands from it
  (\<open>ftctl.py\<close>, \<open>ftctl_mqtt.py\<close>); a daemon fetches what the effects show (\<open>ftdata.py\<close>); the effects
  are one file each under \<open>src/demos\<close>.

  Client and display. \<open>FT_Client\<close> models the canvas, the header and the send path with its retry and
  its notices; \<open>FT_Ppm\<close> the parser of image headers, byte by byte; \<open>FT_Display\<close> the layers, the
  clipped copy, the expiry and the composite. \<open>FT_Wire\<close> joins them: what is drawn on one side is what
  is shown on the other, and what a hostile header does. \<open>FT_Banded\<close> shows that sending an array in
  bands is invisible. \<open>FT_WebSocket\<close> models the frames sent to browsers, the clients with their busy
  flags, the hub and the reader; \<open>FT_Live\<close> the threads of the server (the HTTP handler, the UDP loop,
  the push loop) as a run of what each does in turn. A datagram is a list of bytes of type \<open>8 word\<close>, a numpy
  array a list of rows; the socket is an oracle that answers each send.

  Scheduler. \<open>FT_Rotation\<close> models the entries and the running order (\<open>ftsched.Entry\<close>, \<open>Rotation\<close>),
  whose operations return a new rotation or raise. \<open>FT_Builder\<close> models the background thread
  (\<open>megademo.Builder\<close>, \<open>ftsched.Builder\<close>): what each holds of the shared state is a record, the
  interleaving with the frame loop a step relation with its invariants. \<open>FT_Show\<close> models the playhead
  and both compose functions, \<open>FT_Blend\<close> the transitions and the dithering of \<open>demoscene.py\<close>,
  \<open>FT_Options\<close> the description and the checking of effect options (\<open>ftsched_opts.py\<close>), \<open>FT_StateFile\<close>
  what survives a restart, \<open>FT_Scheduler\<close> the command queue, the frame rate, the supervision of
  external commands and one pass of the loop, \<open>FT_Publish\<close> the whole loop with the snapshot it serves and
  the file it writes, \<open>FT_Playlist\<close> the playlist of \<open>megademo.py\<close>, \<open>FT_SchedWeb\<close> the HTTP interface (\<open>ftsched_web.py\<close>).
  Building and drawing an effect are parameters. The theorems say that the loop never loses its
  frame, that no sequence of commands empties the running order or touches the effect on air, that
  nothing stale is filed, and that an accepted command can be applied.

  Control and Home Assistant. \<open>FT_Json\<close> holds JSON values and the text functions shared by the
  servers. \<open>FT_Control\<close> models the brightness scales, the replies of the control socket, the desired
  state and its reconciliation with a display that restarts, and the HTTP handler. \<open>FT_Mqtt\<close> models
  discovery, publishing and inbound commands, with a log of what the broker was asked to hold, and the
  checker of \<open>ftmqttcheck.py\<close>. \<open>FT_House\<close> joins the bridge to the scheduler.

  Data. \<open>FT_Cache\<close> models the records and picture files of \<open>ftdata.py\<close>, the fetch of one product and
  a whole pass; the file system is a value with the failures it may report. \<open>FT_Goes\<close> models the
  window of satellite frames, \<open>FT_Protobuf\<close> the reader of train positions, \<open>FT_Seismo\<close> the Steim and
  miniSEED decoders.

  Effects. \<open>FT_Trace\<close>, \<open>FT_Sort\<close>, \<open>FT_Quick\<close>, \<open>FT_Heap\<close>, \<open>FT_Merge\<close>, \<open>FT_Radix\<close> and \<open>FT_Race\<close> model
  \<open>sort.py\<close>: six recorded sorts, the timeline that shows them and the seek within it. \<open>FT_Grid\<close> and
  \<open>FT_Maze\<close> model \<open>maze.py\<close> (carving, flooding, the route), \<open>FT_Wireworld\<close> the circuit of
  \<open>wireworld.py\<close>, \<open>FT_Bounce\<close> the logo of \<open>dvd.py\<close>, \<open>FT_Flap\<close> the departures board of
  \<open>splitflap.py\<close>, \<open>FT_Anagram\<close> the letters of \<open>sneakers.py\<close>, \<open>FT_Life\<close> the torus of \<open>life.py\<close>. \<open>FT_Cycles\<close> is the game of
  \<open>tron.py\<close>; \<open>FT_Arena\<close> shows that every race fits its round, \<open>FT_Ribbons\<close> that the board is the
  riders' paths, and when riders derezz, \<open>FT_Replay\<close> that a frame depends on its time only. \<open>FT_Timeline\<close> is the interface that
  the race and the anagram share: entries laid end to end and the search for the one of an instant.
  \<open>FT_Prelude\<close> holds what all theories share.

  Conventions. A raise is \<open>None\<close> or the left of a sum. Floating-point seconds and pixels are
  rationals, so rounding errors of the hardware are outside the model; integers of numpy arrays are
  kept at their width where they may wrap. Random numbers, clocks, sockets, files and third-party
  libraries are arguments of the definitions. Loops are structural recursion, functions with a
  measure, or \<open>partial_function (option)\<close> where the source may not return (the carving and the
  flooding of a maze, the next coprime number), with theorems that they do return. The one loop with
  fuel is the advance of the playhead (\<open>FT_Show\<close>): one step is used per index that is passed, and
  fuel for every index up to one that is not built is shown to be enough.

  Interfaces are locales, each interpreted on the definitions of the theory that provides it, and the
  theorems named C1, C2, ... are the properties of the whole.

  Not modelled: the C++ server and clients, the vendored LED drivers, the ninety-odd feeds of
  \<open>ftdata.py\<close> that transcribe a third-party format each, the effects that are numeric pictures
  (\<open>voxel.py\<close>, \<open>tide.py\<close> and most of \<open>src/demos\<close>), the socket and process calls, and the command line
  front ends: they are I/O or judged by eye.
\<close>

end
